(* ===== verification/Borealis_Prelude.thy ===== *)
theory Borealis_Prelude
  imports Main "HOL-Library.Word" "HOL-Library.Multiset"
begin

text \<open>
  Shared vocabulary of the development: the ways a C++ operation of the engine can fail,
  the arithmetic of 32-bit unsigned counters and of C's truncating division, the
  effectful fold that a \<open>for\<close> loop over a vector becomes, pointer chains in a heap, and
  the generic list lemmas the components share.
\<close>

named_theorems wf_simps \<open>unfolding rules of the components' invariants\<close>
named_theorems step_simps \<open>unfolding rules of the operations of the components\<close>

section \<open>Failures as values\<close>

text \<open>
  \<open>Throw(AuroraException, ...)\<close>, a failed \<open>assert\<close>, the \<open>FATAL\<close> log level (which
  terminates the process) and undefined behaviour (a null or dangling pointer is
  dereferenced) are distinguished.
\<close>

datatype err = AuroraException | AssertionFailed | Fatal | Undefined

type_synonym 'a result = "err + 'a"

definition rbind :: "'a result \<Rightarrow> ('a \<Rightarrow> 'b result) \<Rightarrow> 'b result" where
  "rbind m f = (case m of Inl e \<Rightarrow> Inl e | Inr a \<Rightarrow> f a)"

lemma rbind_simps [simp]:
  "rbind (Inl e) f = Inl e"
  "rbind (Inr a) f = f a"
  by (simp_all add: rbind_def)

lemma rbind_eq_Inr [simp]: "rbind m f = Inr b \<longleftrightarrow> (\<exists>a. m = Inr a \<and> f a = Inr b)"
  by (cases m) auto

definition passert :: "bool \<Rightarrow> unit result" where
  "passert b = (if b then Inr () else Inl AssertionFailed)"

lemma passert_simps [simp]:
  "passert True = Inr ()"
  "passert False = Inl AssertionFailed"
  by (simp_all add: passert_def)

lemma passert_eq_Inr [simp]: "passert b = Inr u \<longleftrightarrow> b"
  by (simp add: passert_def)

text \<open>A loop over a vector whose body may fail.\<close>

fun fold_result :: "('x \<Rightarrow> 's \<Rightarrow> 's result) \<Rightarrow> 'x list \<Rightarrow> 's \<Rightarrow> 's result" where
  "fold_result f [] s = Inr s"
| "fold_result f (x # xs) s = rbind (f x s) (fold_result f xs)"

lemma fold_result_append:
  "fold_result f (xs @ ys) s = rbind (fold_result f xs s) (fold_result f ys)"
proof (induction xs arbitrary: s)
  case Nil
  show ?case by simp
next
  case (Cons x xs)
  show ?case by (cases "f x s") (simp_all add: Cons.IH)
qed

lemma fold_result_invariant:
  assumes "\<And>x s s'. I s \<Longrightarrow> f x s = Inr s' \<Longrightarrow> I s'"
    and "I s" and "fold_result f xs s = Inr s'"
  shows "I s'"
  using assms(2,3)
proof (induction xs arbitrary: s)
  case Nil
  then show ?case by simp
next
  case (Cons x xs)
  then obtain t where "f x s = Inr t" and "fold_result f xs t = Inr s'" by auto
  with Cons.IH Cons.prems(1) assms(1) show ?case by blast
qed

section \<open>Machine arithmetic\<close>

text \<open>\<open>unsigned int\<close> counters are 32 bits wide on the target and wrap around.\<close>

definition u32_inc :: "nat \<Rightarrow> nat" where
  "u32_inc n = (n + 1) mod 2 ^ 32"

definition u32_sub :: "nat \<Rightarrow> nat \<Rightarrow> nat" where
  "u32_sub m n = (m + (2 ^ 32 - n mod 2 ^ 32)) mod 2 ^ 32"

lemma u32_inc_less [simp]: "n + 1 < 2 ^ 32 \<Longrightarrow> u32_inc n = Suc n"
  by (simp add: u32_inc_def)

lemma u32_sub_le [simp]:
  assumes "n \<le> m" "m < 2 ^ 32"
  shows "u32_sub m n = m - n"
proof -
  obtain k where m: "m = n + k" using assms(1) le_Suc_ex by blast
  have n: "n mod 2 ^ 32 = n" using assms by simp
  have "m + (2 ^ 32 - n) = k + 2 ^ 32" using m assms(2) by simp
  then show ?thesis using assms(2) m unfolding u32_sub_def n by simp
qed

lemma u32_sub_wrap: "u32_sub 0 1 = 2 ^ 32 - 1"
  by (simp add: u32_sub_def)

text \<open>C divides integers towards zero, Isabelle towards minus infinity.\<close>

definition cdiv :: "int \<Rightarrow> int \<Rightarrow> int" where
  "cdiv a b = sgn a * sgn b * (\<bar>a\<bar> div \<bar>b\<bar>)"

lemma cdiv_nonneg [simp]: "0 \<le> a \<Longrightarrow> 0 < b \<Longrightarrow> cdiv a b = a div b"
  by (cases "a = 0") (simp_all add: cdiv_def)

lemma cdiv_mono:
  assumes "a \<le> b" "0 < c"
  shows "cdiv a c \<le> cdiv b c"
proof (cases "0 \<le> a")
  case True
  with assms show ?thesis by (simp add: zdiv_mono1)
next
  case False
  show ?thesis
  proof (cases "0 \<le> b")
    case True
    have "cdiv a c \<le> 0" using False assms by (simp add: cdiv_def pos_imp_zdiv_nonneg_iff)
    also have "0 \<le> cdiv b c" using True assms by (simp add: pos_imp_zdiv_nonneg_iff)
    finally show ?thesis .
  next
    case b: False
    have "- b div c \<le> - a div c" using assms by (intro zdiv_mono1) auto
    with False b assms show ?thesis by (simp add: cdiv_def)
  qed
qed

section \<open>Pointer chains\<close>

text \<open>
  \<open>chain nx a xs b\<close>: following the \<open>next\<close> field from address \<open>a\<close> visits exactly the
  (non-null) addresses \<open>xs\<close> and arrives at \<open>b\<close>.
\<close>

type_synonym addr = nat

fun chain :: "(addr \<Rightarrow> addr) \<Rightarrow> addr \<Rightarrow> addr list \<Rightarrow> addr \<Rightarrow> bool" where
  "chain nx a [] b \<longleftrightarrow> a = b"
| "chain nx a (x # xs) b \<longleftrightarrow> a = x \<and> x \<noteq> 0 \<and> chain nx (nx x) xs b"

lemma chain_append: "chain nx a (xs @ ys) b \<longleftrightarrow> (\<exists>c. chain nx a xs c \<and> chain nx c ys b)"
  by (induction xs arbitrary: a) auto

lemma chain_update [simp]: "u \<notin> set xs \<Longrightarrow> chain (nx(u := v)) a xs b = chain nx a xs b"
  by (induction xs arbitrary: a) auto

lemma chain_nonzero: "chain nx a xs b \<Longrightarrow> x \<in> set xs \<Longrightarrow> x \<noteq> 0"
  by (induction xs arbitrary: a) auto

lemma chain_cong:
  "(\<And>x. x \<in> set xs \<Longrightarrow> nx x = nx' x) \<Longrightarrow> chain nx a xs b = chain nx' a xs b"
  by (induction xs arbitrary: a) auto

lemma chain_null [simp]: "chain nx 0 xs b \<longleftrightarrow> xs = [] \<and> b = 0"
  by (cases xs) auto

lemma chain_det: "chain nx a xs 0 \<Longrightarrow> chain nx a ys 0 \<Longrightarrow> xs = ys"
proof (induction xs arbitrary: a ys)
  case Nil
  then show ?case by simp
next
  case (Cons x xs)
  then show ?case by (cases ys) auto
qed

lemma chain_hd: "chain nx a xs b \<Longrightarrow> xs \<noteq> [] \<Longrightarrow> a = hd xs"
  by (cases xs) auto

lemma chain_snoc:
  assumes "chain nx a xs 0" "xs \<noteq> []" "distinct xs" "y \<noteq> 0" "y \<notin> set xs"
  shows "chain (nx(y := 0, last xs := y)) a (xs @ [y]) 0"
proof -
  obtain zs z where xs: "xs = zs @ [z]" using assms(2) by (cases xs rule: rev_cases) auto
  then have "chain nx a zs z" and "z \<noteq> 0" using assms(1) by (auto simp: chain_append)
  with xs assms show ?thesis by (auto simp: chain_append)
qed

section \<open>Lists\<close>

text \<open>Lists cut into blocks of the same length.\<close>

lemma length_concat_blocks:
  "(\<And>x. x \<in> set xs \<Longrightarrow> length (f x) = n) \<Longrightarrow> length (concat (map f xs)) = length xs * n"
  by (induction xs) auto

lemma nth_concat_blocks:
  assumes "\<And>x. x \<in> set xs \<Longrightarrow> length (f x) = n" "k < length xs" "r < n"
  shows "concat (map f xs) ! (k * n + r) = f (xs ! k) ! r"
  using assms
proof (induction xs arbitrary: k)
  case Nil
  then show ?case by simp
next
  case (Cons x xs)
  show ?case
  proof (cases k)
    case 0
    with Cons.prems show ?thesis by (simp add: nth_append)
  next
    case (Suc m)
    with Cons show ?thesis by (simp add: nth_append)
  qed
qed

lemma distinct_concat_blocks:
  assumes "distinct xs" "\<And>x. x \<in> set xs \<Longrightarrow> distinct (f x)"
    and "\<And>x y. x \<in> set xs \<Longrightarrow> y \<in> set xs \<Longrightarrow> x \<noteq> y \<Longrightarrow> set (f x) \<inter> set (f y) = {}"
  shows "distinct (concat (map f xs))"
  using assms
proof (induction xs)
  case Nil
  then show ?case by simp
next
  case (Cons x xs)
  have "set (f x) \<inter> set (concat (map f xs)) = {}" using Cons.prems by fastforce
  with Cons show ?case by simp
qed

lemma mset_filter_partition:
  "mset (filter P xs) + mset (filter (\<lambda>x. \<not> P x) xs) = mset xs"
  by (induction xs) auto

lemma upt_split: "a \<le> c \<Longrightarrow> c \<le> b \<Longrightarrow> [a..<b] = [a..<c] @ [c..<b]"
  by (metis le_Suc_ex upt_add_eq_append)

end
