(* ===== verification/Timestamps.thy ===== *)
theory Timestamps
  imports Borealis_Prelude
begin

text \<open>
  The class \<open>Timestamp\<close> (src/src/modules/util/Timestamp.h): a \<open>timeval\<close> of seconds and
  microseconds with addition, subtraction and comparison. The fields are C \<open>long\<close>s
  (32 bits on the target, see \<open>int32\<close> in common.h); signed overflow is undefined there,
  so they are modelled by integers and \<open>in_long\<close> states the range in which the C++ result
  is defined. The clock \<open>Timestamp::now()\<close> is an argument of the operations that read it.
\<close>

section \<open>Data\<close>

datatype timestamp = Timestamp (tv_sec: int) (tv_usec: int)

definition MILLION :: int where
  "MILLION = 1000000"

definition Timestamp_zero :: timestamp where
  "Timestamp_zero = Timestamp 0 0"

definition in_long :: "int \<Rightarrow> bool" where
  "in_long x \<longleftrightarrow> - (2 ^ 31) \<le> x \<and> x < 2 ^ 31"

text \<open>What \<open>gettimeofday\<close> delivers: the microseconds are below one second.\<close>

definition ts_normal :: "timestamp \<Rightarrow> bool" where
  "ts_normal t \<longleftrightarrow> 0 \<le> tv_usec t \<and> tv_usec t < MILLION"

section \<open>Operations\<close>

definition Timestamp_plus_assign :: "timestamp \<Rightarrow> timestamp \<Rightarrow> timestamp" where
  "Timestamp_plus_assign a b =
     (let s = tv_sec a + tv_sec b; u = tv_usec a + tv_usec b
      in if u \<ge> MILLION then Timestamp (s + 1) (u - MILLION) else Timestamp s u)"

definition Timestamp_minus :: "timestamp \<Rightarrow> timestamp \<Rightarrow> timestamp" where
  "Timestamp_minus a b =
     (let s = tv_sec a - tv_sec b; u = tv_usec a - tv_usec b
      in if u < 0 then Timestamp (s - 1) (u + MILLION) else Timestamp s u)"

definition Timestamp_minus_assign :: "timestamp \<Rightarrow> timestamp \<Rightarrow> timestamp" where
  "Timestamp_minus_assign a t =
     (let a1 = Timestamp (tv_sec a - tv_sec t) (tv_usec a - tv_usec t)
      in if tv_usec a1 < 0 then Timestamp (tv_sec a1 - 1) (tv_usec a1 + MILLION) else a1)"

definition Timestamp_eq :: "timestamp \<Rightarrow> timestamp \<Rightarrow> bool" where
  "Timestamp_eq a t \<longleftrightarrow> tv_sec a = tv_sec t \<and> tv_usec a = tv_usec t"

definition Timestamp_lt :: "timestamp \<Rightarrow> timestamp \<Rightarrow> bool" where
  "Timestamp_lt a t \<longleftrightarrow> tv_sec a < tv_sec t \<or> (tv_sec a = tv_sec t \<and> tv_usec a < tv_usec t)"

definition Timestamp_gt :: "timestamp \<Rightarrow> timestamp \<Rightarrow> bool" where
  "Timestamp_gt a t \<longleftrightarrow> tv_sec a > tv_sec t \<or> (tv_sec a = tv_sec t \<and> tv_usec a > tv_usec t)"

definition Timestamp_to_usecs :: "timestamp \<Rightarrow> int" where
  "Timestamp_to_usecs a = tv_sec a * 1000000 + tv_usec a"

definition Timestamp_to_msecs :: "timestamp \<Rightarrow> int" where
  "Timestamp_to_msecs a = cdiv (Timestamp_to_usecs a) 1000"

section \<open>The comparison operators form a linear order\<close>

instantiation timestamp :: linorder
begin

definition less_timestamp :: "timestamp \<Rightarrow> timestamp \<Rightarrow> bool" where
  "less_timestamp a b \<longleftrightarrow> Timestamp_lt a b"

definition less_eq_timestamp :: "timestamp \<Rightarrow> timestamp \<Rightarrow> bool" where
  "less_eq_timestamp a b \<longleftrightarrow> Timestamp_lt a b \<or> Timestamp_eq a b"

instance
proof
  fix x y z :: timestamp
  show "x < y \<longleftrightarrow> x \<le> y \<and> \<not> y \<le> x"
    by (cases x; cases y)
      (auto simp: less_timestamp_def less_eq_timestamp_def Timestamp_lt_def Timestamp_eq_def)
  show "x \<le> x" by (simp add: less_eq_timestamp_def Timestamp_eq_def)
  show "x \<le> z" if "x \<le> y" "y \<le> z"
    using that unfolding less_eq_timestamp_def Timestamp_lt_def Timestamp_eq_def by linarith
  show "x = y" if "x \<le> y" "y \<le> x"
    using that by (cases x; cases y)
      (simp add: less_eq_timestamp_def Timestamp_lt_def Timestamp_eq_def, linarith)
  show "x \<le> y \<or> y \<le> x"
    unfolding less_eq_timestamp_def Timestamp_lt_def Timestamp_eq_def by linarith
qed

end

lemma less_timestamp_iff:
  "a < b \<longleftrightarrow> tv_sec a < tv_sec b \<or> (tv_sec a = tv_sec b \<and> tv_usec a < tv_usec b)"
  by (simp add: less_timestamp_def Timestamp_lt_def)

lemma Timestamp_lt_less [simp]: "Timestamp_lt a b \<longleftrightarrow> a < b"
  by (simp add: less_timestamp_def)

lemma Timestamp_eq_equal [simp]: "Timestamp_eq a b \<longleftrightarrow> a = b"
  by (cases a; cases b) (simp add: Timestamp_eq_def)

lemma Timestamp_gt_less [simp]: "Timestamp_gt a b \<longleftrightarrow> b < a"
  by (auto simp: less_timestamp_iff Timestamp_gt_def)

section \<open>Arithmetic agrees with microseconds since the epoch\<close>

lemmas timestamp_arith =
  Timestamp_plus_assign_def Timestamp_minus_def Timestamp_minus_assign_def
  Timestamp_to_usecs_def ts_normal_def MILLION_def Let_def

lemma plus_assign_usecs [simp]:
  "Timestamp_to_usecs (Timestamp_plus_assign a b) = Timestamp_to_usecs a + Timestamp_to_usecs b"
  by (simp add: timestamp_arith)

lemma minus_usecs [simp]:
  "Timestamp_to_usecs (Timestamp_minus a b) = Timestamp_to_usecs a - Timestamp_to_usecs b"
  by (simp add: timestamp_arith)

lemma minus_assign_eq_minus: "Timestamp_minus_assign a b = Timestamp_minus a b"
  by (simp add: timestamp_arith)

lemma plus_assign_normal: "ts_normal a \<Longrightarrow> ts_normal b \<Longrightarrow> ts_normal (Timestamp_plus_assign a b)"
  by (auto simp: timestamp_arith)

lemma minus_normal: "ts_normal a \<Longrightarrow> ts_normal b \<Longrightarrow> ts_normal (Timestamp_minus a b)"
  by (auto simp: timestamp_arith)

lemma normal_less_usecs:
  "ts_normal a \<Longrightarrow> ts_normal b \<Longrightarrow> a < b \<longleftrightarrow> Timestamp_to_usecs a < Timestamp_to_usecs b"
  by (auto simp: less_timestamp_iff timestamp_arith)

lemma normal_usecs_inject:
  "ts_normal a \<Longrightarrow> ts_normal b \<Longrightarrow> Timestamp_to_usecs a = Timestamp_to_usecs b \<Longrightarrow> a = b"
  by (metis normal_less_usecs less_irrefl linorder_neqE)

lemma minus_plus_cancel:
  assumes "ts_normal a" "ts_normal b"
  shows "Timestamp_plus_assign (Timestamp_minus a b) b = a"
proof (rule normal_usecs_inject)
  show "ts_normal (Timestamp_plus_assign (Timestamp_minus a b) b)"
    using assms by (intro plus_assign_normal minus_normal)
qed (use assms in simp_all)

lemma to_msecs_mono:
  assumes "ts_normal a" "ts_normal b" "a \<le> b"
  shows "Timestamp_to_msecs a \<le> Timestamp_to_msecs b"
proof -
  have "Timestamp_to_usecs a \<le> Timestamp_to_usecs b"
    using assms normal_less_usecs [of b a] by (simp add: linorder_not_less [symmetric])
  then show ?thesis by (simp add: Timestamp_to_msecs_def cdiv_mono)
qed

text \<open>
  Differences of two normalised non-negative times stay inside a \<open>long\<close>, so the C++
  subtraction never overflows on them.
\<close>

lemma minus_in_long:
  assumes "ts_normal a" "ts_normal b" "0 \<le> tv_sec a" "0 \<le> tv_sec b"
    and "in_long (tv_sec a)" "in_long (tv_sec b)"
  shows "in_long (tv_sec (Timestamp_minus a b))" "in_long (tv_usec (Timestamp_minus a b))"
  using assms by (auto simp: timestamp_arith in_long_def)

end
