(* ===== verification/Tuples.thy ===== *)
theory Tuples
  imports Timestamps
begin

text \<open>
  Tuples and their header (src/src/modules/common/TupleHeader.h, TupleHeader.cc, Tuple.h).
  The packed C struct is a record with one field per member, in the order of the struct;
  the bytes after the header are \<open>body\<close>. The flags are an 8-bit word because the setters
  work on its bits; \<open>quality\<close> (a \<open>double\<close> that is only copied) is kept as its bit pattern.
  The record is the full header (53 bytes, the default of \<open>HEADER_SIZE\<close>); the header size
  is an argument where the code consults it.
\<close>

unbundle bit_operations_syntax

section \<open>Tuple types\<close>

datatype TupleType =
    INSERTION | DELETION | REPLACEMENT | HISTORICAL | TENTATIVE | BOUNDARY | UNDO
  | UP_FAILURE | RECONCILIATION_REQUEST | RECONCILIATION_DONE | UNDO_REDO_START
  | DELIMITER | REQUEST | NOTIFICATION | UNKNOWN

fun TupleType_as_int :: "TupleType \<Rightarrow> nat" where
  "TupleType_as_int t =
     (if t = INSERTION then 0 else if t = DELETION then 1 else if t = REPLACEMENT then 2
      else if t = HISTORICAL then 3 else if t = TENTATIVE then 4 else if t = BOUNDARY then 5
      else if t = UNDO then 6 else if t = UP_FAILURE then 7
      else if t = RECONCILIATION_REQUEST then 8 else if t = RECONCILIATION_DONE then 9
      else if t = UNDO_REDO_START then 10 else if t = DELIMITER then 11
      else if t = REQUEST then 12 else if t = NOTIFICATION then 13 else 14)"

definition type_strings :: "string list" where
  "type_strings = [''INSERTION'', ''DELETION'', ''REPLACEMENT'', ''HISTORICAL'',
     ''TENTATIVE'', ''BOUNDARY'', ''UNDO'', ''UP_FAILURE'',
     ''RECONCILIATION_REQUEST'', ''RECONCILIATION_DONE'', ''UNDO_REDO_START'',
     ''DELIMITER'', ''REQUEST'', ''NOTIFICATION'']"

text \<open>The enumeration value of a constructor is its position in the declaration.\<close>

definition TupleType_as_string :: "TupleType \<Rightarrow> string" where
  "TupleType_as_string t =
     (if TupleType_as_int t \<le> TupleType_as_int NOTIFICATION
      then type_strings ! TupleType_as_int t else ''UNKNOWN'')"

lemma TupleType_as_int_inject: "TupleType_as_int s = TupleType_as_int t \<Longrightarrow> s = t"
  by (cases s; cases t) simp_all

lemma TupleType_as_string_nth:
  "TupleType_as_string t = (type_strings @ [''UNKNOWN'']) ! TupleType_as_int t"
  "TupleType_as_int t < length (type_strings @ [''UNKNOWN''])"
  by (cases t; simp add: TupleType_as_string_def type_strings_def)+

lemma TupleType_as_string_inject:
  assumes "TupleType_as_string s = TupleType_as_string t"
  shows "s = t"
proof (rule TupleType_as_int_inject)
  have "distinct (type_strings @ [''UNKNOWN''])" by (simp add: type_strings_def)
  from nth_eq_iff_index_eq [OF this TupleType_as_string_nth(2) [of s] TupleType_as_string_nth(2) [of t]] assms
  show "TupleType_as_int s = TupleType_as_int t" unfolding TupleType_as_string_nth(1) by blast
qed

section \<open>Tuple record and accessors\<close>

type_synonym byte = "8 word"

record tuple =
  tv :: timestamp
  local_tv :: timestamp
  tuple_flag :: byte
  tuple_type :: TupleType
  win_spec :: int
  quality :: "64 word"
  rev_id :: int
  tuple_id :: int
  rev_field :: int
  tuple_stime :: timestamp
  body :: "byte list"

definition FAKE_FLAG :: byte where "FAKE_FLAG = 0x08"

definition ARRAY_FLAG :: byte where "ARRAY_FLAG = 0x04"

definition get_fake_flag :: "tuple \<Rightarrow> bool" where
  "get_fake_flag t = (tuple_flag t AND FAKE_FLAG \<noteq> 0)"

definition get_array_flag :: "tuple \<Rightarrow> bool" where
  "get_array_flag t = (tuple_flag t AND ARRAY_FLAG \<noteq> 0)"

text \<open>C's logical negation: \<open>!x\<close> is 1 for 0 and 0 for everything else.\<close>

definition c_not :: "byte \<Rightarrow> byte" where
  "c_not x = (if x = 0 then 1 else 0)"

definition set_fake_flag :: "bool \<Rightarrow> tuple \<Rightarrow> tuple" where
  "set_fake_flag flag t =
     (if flag then t\<lparr>tuple_flag := tuple_flag t OR FAKE_FLAG\<rparr>
      else t\<lparr>tuple_flag := tuple_flag t AND c_not FAKE_FLAG\<rparr>)"

definition set_array_flag :: "bool \<Rightarrow> tuple \<Rightarrow> tuple" where
  "set_array_flag flag t =
     (if flag then t\<lparr>tuple_flag := tuple_flag t OR ARRAY_FLAG\<rparr>
      else t\<lparr>tuple_flag := tuple_flag t AND c_not ARRAY_FLAG\<rparr>)"

text \<open>\<open>copy_header\<close>: this tuple takes the header of \<open>tup\<close>, field by field.\<close>

definition copy_header :: "nat \<Rightarrow> tuple \<Rightarrow> tuple \<Rightarrow> tuple" where
  "copy_header hsize tup this =
     (let t1 = this\<lparr>tv := tv tup, local_tv := local_tv tup\<rparr>;
          t2 = set_fake_flag (get_fake_flag tup) t1;
          t3 = set_array_flag (get_array_flag tup) t2;
          t4 = t3\<lparr>tuple_type := tuple_type tup\<rparr>
      in if hsize \<ge> 33 then
           let t5 = t4\<lparr>win_spec := win_spec tup, quality := quality tup\<rparr>
           in if hsize \<ge> 45 then
                let t6 = t5\<lparr>rev_id := rev_id tup, tuple_id := tuple_id tup,
                            rev_field := rev_field tup\<rparr>
                in if hsize = 53 then t6\<lparr>tuple_stime := tuple_stime tup\<rparr> else t6
              else t5
         else t4)"

text \<open>\<open>copy_tuple\<close> with the size of the whole tuple is a plain \<open>memcpy\<close>.\<close>

definition copy_tuple :: "tuple \<Rightarrow> tuple \<Rightarrow> tuple" where
  "copy_tuple tup this = tup"

text \<open>\<open>clear_tuple\<close>: every byte of the header and of the body becomes zero.\<close>

definition clear_tuple :: "tuple \<Rightarrow> tuple" where
  "clear_tuple this =
     \<lparr>tv = Timestamp_zero, local_tv = Timestamp_zero, tuple_flag = 0, tuple_type = INSERTION,
      win_spec = 0, quality = 0, rev_id = 0, tuple_id = 0, rev_field = 0,
      tuple_stime = Timestamp_zero, body = replicate (length (body this)) 0\<rparr>"

text \<open>
  \<open>set_default_header\<close> runs the constructor of \<open>TupleHeader\<close>, which draws the next value of
  a process-wide counter for the tuple id when the header is long enough to hold one.
\<close>

definition set_default_header :: "nat \<Rightarrow> int \<Rightarrow> tuple \<Rightarrow> int \<times> tuple" where
  "set_default_header hsize counter this =
     (let t1 = this\<lparr>tv := Timestamp_zero, local_tv := Timestamp_zero, tuple_flag := 0,
                    tuple_type := INSERTION\<rparr>
      in if hsize \<ge> 33 then
           let t2 = t1\<lparr>win_spec := -1, quality := 0\<rparr>
           in if hsize \<ge> 45 then
                let t3 = t2\<lparr>rev_id := -1, tuple_id := counter + 1, rev_field := -1\<rparr>
                in (counter + 1,
                    if hsize = 53 then t3\<lparr>tuple_stime := Timestamp_zero\<rparr> else t3)
              else (counter, t2)
         else (counter, t1))"

section \<open>The process-wide header size\<close>

record header_state =
  HEADER_SIZE :: nat
  header_is_irreducable :: bool

definition header_state_init :: header_state where
  "header_state_init = \<lparr>HEADER_SIZE = 53, header_is_irreducable = False\<rparr>"

definition reduce_tuple_header_size :: "nat \<Rightarrow> header_state \<Rightarrow> header_state result" where
  "reduce_tuple_header_size sz s =
     (if header_is_irreducable s then Inl Fatal
      else Inr (s\<lparr>header_is_irreducable := True, HEADER_SIZE := sz\<rparr>))"

definition get_tuple_header_size :: "header_state \<Rightarrow> nat \<times> header_state" where
  "get_tuple_header_size s = (HEADER_SIZE s, s\<lparr>header_is_irreducable := True\<rparr>)"

section \<open>Lemmas\<close>

lemmas flag_defs = get_fake_flag_def get_array_flag_def set_fake_flag_def set_array_flag_def
  FAKE_FLAG_def ARRAY_FLAG_def c_not_def

lemma or_fake [simp]: "(w OR 8) AND 8 = (8 :: byte)" "(w OR 8) AND 4 = w AND (4 :: byte)"
  "(w OR 4) AND 4 = (4 :: byte)" "(w OR 4) AND 8 = w AND (8 :: byte)"
  by (simp_all add: and.commute bit.conj_disj_distrib)

lemma get_set_fake_flag [simp]: "get_fake_flag (set_fake_flag b t) = b"
  by (simp add: flag_defs)

lemma get_set_array_flag [simp]: "get_array_flag (set_array_flag b t) = b"
  by (simp add: flag_defs)

lemma set_fake_array_flag:
  "get_array_flag (set_fake_flag b t) = (b \<and> get_array_flag t)"
  by (simp add: flag_defs)

lemma set_array_fake_flag:
  "get_fake_flag (set_array_flag b t) = (b \<and> get_fake_flag t)"
  by (simp add: flag_defs)

lemma set_flag_sel [simp]:
  "tuple_type (set_fake_flag b t) = tuple_type t"
  "tuple_id (set_fake_flag b t) = tuple_id t"
  "win_spec (set_fake_flag b t) = win_spec t"
  "tuple_stime (set_fake_flag b t) = tuple_stime t"
  "body (set_fake_flag b t) = body t"
  by (simp_all add: set_fake_flag_def)

end
