(* ===== verification/Page_Pool.thy ===== *)
theory Page_Pool
  imports Tuples
begin

text \<open>
  The page pool of the storage manager (storageMgr/PagePool.h, PagePool.cc): a fixed number
  of equal pages cut from one block, with a free list threaded through the first word of the
  free pages. The heap is explicit, since the pool and the tuple queues write the same words:
  \<open>hnext\<close> is the word at the start of a page (\<open>FreeNode::next\<close> while the page is free,
  \<open>PageHdr::next\<close> while a queue owns it), \<open>hprev\<close> the word after it (\<open>PageHdr::prev\<close>), and
  \<open>hdata\<close> the tuple-sized chunk starting at an address. Address 0 is \<open>NULL\<close>.
\<close>

section \<open>Heap and pool\<close>

record heap =
  hnext :: "addr \<Rightarrow> addr"
  hprev :: "addr \<Rightarrow> addr"
  hdata :: "addr \<Rightarrow> tuple"

definition write_next :: "addr \<Rightarrow> addr \<Rightarrow> heap \<Rightarrow> heap" where
  "write_next a v h = h\<lparr>hnext := (hnext h)(a := v)\<rparr>"

definition write_prev :: "addr \<Rightarrow> addr \<Rightarrow> heap \<Rightarrow> heap" where
  "write_prev a v h = h\<lparr>hprev := (hprev h)(a := v)\<rparr>"

definition write_data :: "addr \<Rightarrow> tuple \<Rightarrow> heap \<Rightarrow> heap" where
  "write_data a t h = h\<lparr>hdata := (hdata h)(a := t)\<rparr>"

lemma heap_write_simps [simp]:
  "hnext (write_next a v h) = (hnext h)(a := v)"
  "hprev (write_next a v h) = hprev h"
  "hdata (write_next a v h) = hdata h"
  "hnext (write_prev a v h) = hnext h"
  "hprev (write_prev a v h) = (hprev h)(a := v)"
  "hdata (write_prev a v h) = hdata h"
  "hnext (write_data a t h) = hnext h"
  "hprev (write_data a t h) = hprev h"
  "hdata (write_data a t h) = (hdata h)(a := t)"
  by (simp_all add: write_next_def write_prev_def write_data_def)

record page_pool =
  page_size :: nat
  capacity :: nat
  alloced_pages :: nat
  block :: addr
  block_size :: nat
  locked :: bool
  free_list :: addr

section \<open>Operations\<close>

text \<open>
  The constructor's loop: \<open>n\<close> more pages are linked behind \<open>node\<close>. The loop bound is the
  unsigned \<open>capacity - 1\<close>.
\<close>

fun PagePool_link :: "nat \<Rightarrow> nat \<Rightarrow> addr \<Rightarrow> heap \<Rightarrow> heap" where
  "PagePool_link psize 0 node h = write_next node 0 h"
| "PagePool_link psize (Suc n) node h =
     PagePool_link psize n (node + psize) (write_next node (node + psize) h)"

text \<open>The block is padded up to a full page of the system; the arithmetic is unsigned.\<close>

definition PagePool_block_size :: "nat \<Rightarrow> nat \<Rightarrow> nat \<Rightarrow> nat" where
  "PagePool_block_size sys_pagesize psize cap =
     (let bs = (psize * cap) mod 2 ^ 32
      in if bs mod sys_pagesize \<noteq> 0
         then (bs + (sys_pagesize - bs mod sys_pagesize)) mod 2 ^ 32 else bs)"

text \<open>
  The results of \<open>getpagesize\<close>, \<open>memalign\<close> (0 on failure) and \<open>mlock\<close> are arguments.
\<close>

definition PagePool_new ::
  "nat \<Rightarrow> addr \<Rightarrow> bool \<Rightarrow> nat \<Rightarrow> nat \<Rightarrow> bool \<Rightarrow> heap \<Rightarrow> (heap \<times> page_pool) result" where
  "PagePool_new sys_pagesize memaligned mlocked psize cap lck h =
     (if memaligned = 0 then Inl AuroraException
      else if lck \<and> \<not> mlocked then Inl AuroraException
      else Inr (PagePool_link psize (u32_sub cap 1) memaligned h,
                \<lparr>page_size = psize, capacity = cap, alloced_pages = 0, block = memaligned,
                 block_size = PagePool_block_size sys_pagesize psize cap, locked = lck,
                 free_list = memaligned\<rparr>))"

definition PagePool_alloc :: "heap \<Rightarrow> page_pool \<Rightarrow> (addr \<times> page_pool) result" where
  "PagePool_alloc h p =
     (if free_list p = 0 then Inl AuroraException
      else Inr (free_list p,
                p\<lparr>free_list := hnext h (free_list p),
                  alloced_pages := u32_inc (alloced_pages p)\<rparr>))"

definition PagePool_free :: "addr \<Rightarrow> heap \<Rightarrow> page_pool \<Rightarrow> (heap \<times> page_pool) result" where
  "PagePool_free page h p =
     rbind (passert (page \<ge> block p)) (\<lambda>_.
     rbind (passert (page < block p + (capacity p * page_size p) mod 2 ^ 32)) (\<lambda>_.
     rbind (passert ((page - block p) mod page_size p = 0)) (\<lambda>_.
     Inr (write_next page (free_list p) h,
          p\<lparr>free_list := page, alloced_pages := u32_sub (alloced_pages p) 1\<rparr>))))"

definition PagePool_free_pages :: "page_pool \<Rightarrow> nat" where
  "PagePool_free_pages p = u32_sub (capacity p) (alloced_pages p)"

section \<open>Invariant\<close>

definition pool_pages :: "page_pool \<Rightarrow> addr list" where
  "pool_pages p = map (\<lambda>i. block p + i * page_size p) [0..<capacity p]"

text \<open>
  \<open>pool_inv h p fl\<close>: the free list is the chain of the distinct pages \<open>fl\<close> of the block, and
  the counter of allocated pages counts the others.
\<close>

definition pool_inv :: "heap \<Rightarrow> page_pool \<Rightarrow> addr list \<Rightarrow> bool" where
  "pool_inv h p fl \<longleftrightarrow>
     0 < page_size p \<and> 0 < block p \<and> capacity p < 2 ^ 32 \<and> capacity p * page_size p < 2 ^ 32 \<and>
     chain (hnext h) (free_list p) fl 0 \<and> distinct fl \<and> set fl \<subseteq> set (pool_pages p) \<and>
     alloced_pages p + length fl = capacity p"

lemma length_pool_pages [simp]: "length (pool_pages p) = capacity p"
  by (simp add: pool_pages_def)

lemma distinct_pool_pages: "0 < page_size p \<Longrightarrow> distinct (pool_pages p)"
  by (auto simp: pool_pages_def distinct_map inj_on_def)

lemma pool_pages_sel [simp]:
  "pool_pages (p\<lparr>free_list := f\<rparr>) = pool_pages p"
  "pool_pages (p\<lparr>alloced_pages := n\<rparr>) = pool_pages p"
  by (simp_all add: pool_pages_def)

lemma pool_pages_cong:
  "block p = block p' \<Longrightarrow> page_size p = page_size p' \<Longrightarrow> capacity p = capacity p' \<Longrightarrow>
   pool_pages p = pool_pages p'"
  by (simp add: pool_pages_def)

lemma pool_page_bounds:
  assumes "a \<in> set (pool_pages p)" "0 < page_size p"
  shows "block p \<le> a" "a + page_size p \<le> block p + capacity p * page_size p"
    "(a - block p) mod page_size p = 0"
proof -
  from assms obtain i where i: "i < capacity p" "a = block p + i * page_size p"
    by (auto simp: pool_pages_def)
  from i have "Suc i * page_size p \<le> capacity p * page_size p" by (intro mult_le_mono1) simp
  with i show "block p \<le> a" "a + page_size p \<le> block p + capacity p * page_size p"
    "(a - block p) mod page_size p = 0" by simp_all
qed

lemma pool_pages_apart:
  assumes "a \<in> set (pool_pages p)" "b \<in> set (pool_pages p)" "a \<noteq> b"
  shows "a + page_size p \<le> b \<or> b + page_size p \<le> a"
proof -
  from assms obtain i j where ij: "a = block p + i * page_size p" "b = block p + j * page_size p"
    by (auto simp: pool_pages_def)
  with assms(3) have "i \<noteq> j" by auto
  then consider "Suc i \<le> j" | "Suc j \<le> i" by linarith
  then show ?thesis
  proof cases
    case 1
    from mult_le_mono1 [OF 1, of "page_size p"] ij show ?thesis by simp
  next
    case 2
    from mult_le_mono1 [OF 2, of "page_size p"] ij show ?thesis by simp
  qed
qed

lemma subset_pages_length:
  assumes "distinct xs" "set xs \<subseteq> set (pool_pages p)"
  shows "length xs \<le> capacity p"
proof -
  have "length xs = card (set xs)" using assms(1) by (simp add: distinct_card)
  also have "\<dots> \<le> card (set (pool_pages p))" using assms(2) by (simp add: card_mono)
  also have "\<dots> \<le> capacity p" using card_length [of "pool_pages p"] by simp
  finally show ?thesis .
qed

section \<open>Correctness of the operations\<close>

lemma PagePool_link_frame: "a < node \<Longrightarrow> hnext (PagePool_link psize n node h) a = hnext h a"
proof (induction n arbitrary: node h)
  case 0
  then show ?case by simp
next
  case (Suc n)
  then show ?case by simp
qed

lemma upt_map_shift:
  "map (\<lambda>i. a + i * k) [0..<Suc (Suc n)] = a # map (\<lambda>i. a + k + i * k) [0..<Suc n]" for a k :: nat
proof -
  have "[0..<Suc (Suc n)] = 0 # map Suc [0..<Suc n]"
    by (simp add: map_Suc_upt upt_conv_Cons del: upt_Suc)
  then show ?thesis by (simp add: comp_def algebra_simps del: upt_Suc)
qed

lemma PagePool_link_chain:
  "0 < node \<Longrightarrow> 0 < psize \<Longrightarrow>
   chain (hnext (PagePool_link psize n node h)) node (map (\<lambda>i. node + i * psize) [0..<Suc n]) 0"
proof (induction n arbitrary: node h)
  case 0
  then show ?case by simp
next
  case (Suc n)
  let ?h = "write_next node (node + psize) h"
  have "hnext (PagePool_link psize n (node + psize) ?h) node = node + psize"
    using Suc.prems by (simp add: PagePool_link_frame)
  moreover have "chain (hnext (PagePool_link psize n (node + psize) ?h)) (node + psize)
      (map (\<lambda>i. node + psize + i * psize) [0..<Suc n]) 0"
    using Suc.prems by (intro Suc.IH) simp_all
  ultimately show ?case using Suc.prems unfolding upt_map_shift by simp
qed

lemma PagePool_new_inv:
  assumes "PagePool_new sp blk ml psize cap lck h = Inr (h', p)"
    and "0 < psize" "0 < cap" "cap < 2 ^ 32" "cap * psize < 2 ^ 32"
  shows "pool_inv h' p (pool_pages p)" "alloced_pages p = 0" "capacity p = cap" "page_size p = psize"
proof -
  from assms(1) have h': "h' = PagePool_link psize (u32_sub cap 1) blk h"
    and p: "block p = blk" "page_size p = psize" "capacity p = cap" "alloced_pages p = 0"
      "free_list p = blk" and blk: "0 < blk"
    by (auto simp: PagePool_new_def split: if_splits)
  have n: "Suc (u32_sub cap 1) = cap" using assms(3,4) by simp
  have "chain (hnext h') blk (map (\<lambda>i. blk + i * psize) [0..<Suc (u32_sub cap 1)]) 0"
    unfolding h' using blk assms(2) by (rule PagePool_link_chain)
  then have "chain (hnext h') (free_list p) (pool_pages p) 0"
    by (simp only: n pool_pages_def p)
  then show "pool_inv h' p (pool_pages p)"
    using assms p blk distinct_pool_pages [of p] by (simp add: pool_inv_def)
  show "alloced_pages p = 0" "capacity p = cap" "page_size p = psize" by (fact p)+
qed

lemma PagePool_alloc_Cons:
  assumes "pool_inv h p (x # fl)"
  shows "\<exists>p'. PagePool_alloc h p = Inr (x, p') \<and> pool_inv h p' fl \<and> pool_pages p' = pool_pages p \<and>
    page_size p' = page_size p \<and> capacity p' = capacity p \<and> block p' = block p \<and>
    alloced_pages p' = Suc (alloced_pages p)"
proof -
  have "alloced_pages p + 1 < 2 ^ 32" using assms by (simp add: pool_inv_def)
  then have "u32_inc (alloced_pages p) = Suc (alloced_pages p)" by (rule u32_inc_less)
  with assms show ?thesis
    by (auto simp: PagePool_alloc_def pool_inv_def)
qed

lemma PagePool_alloc_Nil: "pool_inv h p [] \<Longrightarrow> PagePool_alloc h p = Inl AuroraException"
  by (simp add: PagePool_alloc_def pool_inv_def)

lemma PagePool_alloc_Inr:
  assumes "pool_inv h p fl" "PagePool_alloc h p = Inr (x, p')"
  shows "\<exists>fl'. fl = x # fl' \<and> pool_inv h p' fl' \<and> pool_pages p' = pool_pages p \<and>
    page_size p' = page_size p \<and> capacity p' = capacity p \<and> block p' = block p \<and>
    alloced_pages p' = Suc (alloced_pages p)"
proof (cases fl)
  case Nil
  with assms show ?thesis by (simp add: PagePool_alloc_Nil)
next
  case (Cons y fl')
  with assms PagePool_alloc_Cons [of h p y fl'] show ?thesis by auto
qed

lemma PagePool_free_ok:
  assumes inv: "pool_inv h p fl" and page: "page \<in> set (pool_pages p)" "page \<notin> set fl"
  shows "\<exists>p'. PagePool_free page h p = Inr (write_next page (free_list p) h, p') \<and>
    pool_inv (write_next page (free_list p) h) p' (page # fl) \<and> pool_pages p' = pool_pages p \<and>
    page_size p' = page_size p \<and> capacity p' = capacity p \<and> block p' = block p \<and>
    Suc (alloced_pages p') = alloced_pages p"
proof -
  have ps: "0 < page_size p" and cp: "(capacity p * page_size p) mod 2 ^ 32 = capacity p * page_size p"
    using inv by (simp_all add: pool_inv_def)
  have "length (page # fl) \<le> capacity p"
    using inv page by (intro subset_pages_length) (simp_all add: pool_inv_def)
  then have n: "0 < alloced_pages p" using inv by (simp add: pool_inv_def)
  then have "u32_sub (alloced_pages p) 1 = alloced_pages p - 1"
    using inv by (intro u32_sub_le) (simp_all add: pool_inv_def)
  moreover have "page \<noteq> 0" "page < block p + capacity p * page_size p" "block p \<le> page"
    using pool_page_bounds [OF page(1) ps] inv ps by (auto simp: pool_inv_def)
  moreover have "(page - block p) mod page_size p = 0" by (rule pool_page_bounds [OF page(1) ps])
  ultimately show ?thesis
    using inv page n unfolding PagePool_free_def cp by (simp add: pool_inv_def)
qed

text \<open>The pool's own count of free pages is the length of its free list.\<close>

lemma PagePool_free_pages_length: "pool_inv h p fl \<Longrightarrow> PagePool_free_pages p = length fl"
  by (auto simp: PagePool_free_pages_def pool_inv_def)

end
