(* ===== verification/Tuple_Queue.thy ===== *)
theory Tuple_Queue
  imports Page_Pool
begin

text \<open>
  The tuple queue (storageMgr/TupleQueue.h, TupleQueue.cc) without the optional update-queue
  index: a chain of pages taken from a shared page pool, a write position on the last page
  and a read position on the first. Everything is expressed on the explicit heap of
  \<open>Page_Pool\<close>; the queue's contents are the tuples in the cells between the two positions.
\<close>

section \<open>State\<close>

text \<open>\<open>sizeof(PageHdr)\<close>: two 32-bit pointers.\<close>

definition PageHdr_size :: nat where
  "PageHdr_size = 8"

record tuple_queue =
  tuple_size :: nat
  tuples_per_page :: nat
  enq_count :: nat
  deq_count :: nat
  last_timestamp :: timestamp
  enq_page :: addr
  enq_location :: addr
  deq_page :: addr
  deq_location :: addr

text \<open>A queue lives on a heap and a pool it shares with other queues.\<close>

type_synonym queue_state = "heap \<times> page_pool \<times> tuple_queue"

section \<open>Operations\<close>

definition TupleQueue_new :: "nat \<Rightarrow> heap \<Rightarrow> page_pool \<Rightarrow> queue_state result" where
  "TupleQueue_new tsize h p =
     (if tsize = 0 then Inl Undefined else
      let tpp = u32_sub (page_size p) PageHdr_size div tsize
      in rbind (passert (tpp > 0)) (\<lambda>_.
         rbind (PagePool_alloc h p) (\<lambda>(page, p').
         Inr (write_next page 0 h, p',
              \<lparr>tuple_size = tsize, tuples_per_page = tpp, enq_count = 0, deq_count = 0,
               last_timestamp = Timestamp_zero,
               enq_page = page, enq_location = page + PageHdr_size,
               deq_page = page, deq_location = page + PageHdr_size\<rparr>))))"

text \<open>\<open>EnqIterator\<close>: \<open>memcpy(e.tuple(), data, size)\<close> followed by \<open>++e\<close>.\<close>

definition EnqIterator_write :: "tuple \<Rightarrow> queue_state \<Rightarrow> queue_state" where
  "EnqIterator_write x = (\<lambda>(h, p, q). (write_data (enq_location q) x h, p, q))"

definition EnqIterator_incr :: "queue_state \<Rightarrow> queue_state result" where
  "EnqIterator_incr = (\<lambda>(h, p, q).
     let next_enq_location = enq_location q + tuple_size q
     in if next_enq_location + tuple_size q > enq_page q + page_size p
        then rbind (PagePool_alloc h p) (\<lambda>(new_page, p').
               let h1 = write_next new_page 0 h;
                   h2 = write_prev new_page (enq_page q) h1;
                   h3 = write_next (enq_page q) new_page h2
               in Inr (h3, p', q\<lparr>enq_page := new_page,
                                 enq_location := new_page + PageHdr_size,
                                 enq_count := u32_inc (enq_count q)\<rparr>))
        else Inr (h, p, q\<lparr>enq_location := next_enq_location,
                          enq_count := u32_inc (enq_count q)\<rparr>))"

definition TupleQueue_enq :: "tuple \<Rightarrow> queue_state \<Rightarrow> queue_state result" where
  "TupleQueue_enq x s = EnqIterator_incr (EnqIterator_write x s)"

definition DeqIterator_avail :: "queue_state \<Rightarrow> bool" where
  "DeqIterator_avail = (\<lambda>(h, p, q). deq_location q \<noteq> enq_location q)"

definition DeqIterator_tuple :: "queue_state \<Rightarrow> tuple" where
  "DeqIterator_tuple = (\<lambda>(h, p, q). hdata h (deq_location q))"

text \<open>
  \<open>++d\<close>: the page is returned to the pool before the timestamp of the consumed tuple is read
  from it, as in the code.
\<close>

definition DeqIterator_incr :: "queue_state \<Rightarrow> queue_state result" where
  "DeqIterator_incr s = (case s of (h, p, q) \<Rightarrow>
     rbind (passert (DeqIterator_avail s)) (\<lambda>_.
     let next_deq_location = deq_location q + tuple_size q
     in if next_deq_location + tuple_size q > deq_page q + page_size p
        then (let next_page = hnext h (deq_page q)
              in rbind (PagePool_free (deq_page q) h p) (\<lambda>(h', p').
                 Inr (h', p', q\<lparr>deq_page := next_page,
                                last_timestamp := tv (hdata h' (deq_location q)),
                                deq_location := next_page + PageHdr_size,
                                deq_count := u32_inc (deq_count q)\<rparr>)))
        else Inr (h, p, q\<lparr>last_timestamp := tv (hdata h (deq_location q)),
                          deq_location := next_deq_location,
                          deq_count := u32_inc (deq_count q)\<rparr>)))"

text \<open>\<open>int size()\<close>: the unsigned difference, read as a signed 32-bit number.\<close>

definition TupleQueue_size :: "tuple_queue \<Rightarrow> int" where
  "TupleQueue_size q =
     (let n = u32_sub (enq_count q) (deq_count q)
      in if n < 2 ^ 31 then int n else int n - 2 ^ 32)"

text \<open>The loop of the destructor and of \<open>empty()\<close>: every page of the chain is freed.\<close>

fun free_chain :: "nat \<Rightarrow> addr \<Rightarrow> heap \<Rightarrow> page_pool \<Rightarrow> (heap \<times> page_pool) result option" where
  "free_chain 0 page h p = None"
| "free_chain (Suc fuel) page h p =
     (if page = 0 then Some (Inr (h, p))
      else let nextp = hnext h page
           in case PagePool_free page h p of
                Inl e \<Rightarrow> Some (Inl e)
              | Inr (h', p') \<Rightarrow> free_chain fuel nextp h' p')"

text \<open>
  The chain of a queue has at most \<open>capacity\<close> pages, so \<open>capacity + 1\<close> rounds are enough
  (lemma \<open>free_chain_ok\<close>); \<open>None\<close> would be a chain that never ends.
\<close>

definition TupleQueue_delete :: "queue_state \<Rightarrow> (heap \<times> page_pool) result option" where
  "TupleQueue_delete = (\<lambda>(h, p, q). free_chain (Suc (capacity p)) (deq_page q) h p)"

definition TupleQueue_empty :: "queue_state \<Rightarrow> queue_state result option" where
  "TupleQueue_empty s = (case s of (h, p, q) \<Rightarrow>
     map_option (\<lambda>r. rbind r (\<lambda>(h', p').
       rbind (PagePool_alloc h' p') (\<lambda>(page, p'').
       Inr (write_next page 0 h', p'',
            q\<lparr>enq_count := 0, deq_count := 0, enq_page := page, deq_page := page,
              enq_location := page + PageHdr_size, deq_location := page + PageHdr_size\<rparr>))))
     (free_chain (Suc (capacity p)) (deq_page q) h p))"

definition TupleQueue_enqueue_multiple :: "tuple list \<Rightarrow> queue_state \<Rightarrow> queue_state result" where
  "TupleQueue_enqueue_multiple tuples s = fold_result TupleQueue_enq tuples s"

section \<open>Contents\<close>

text \<open>
  The cells of a page, and the cells of a list of pages from slot \<open>i\<close> of the first page
  (inclusive) to slot \<open>j\<close> of the last (exclusive).
\<close>

definition page_cells :: "nat \<Rightarrow> nat \<Rightarrow> addr \<Rightarrow> addr list" where
  "page_cells tsize tpp page = map (\<lambda>k. page + PageHdr_size + k * tsize) [0..<tpp]"

definition cells_between :: "nat \<Rightarrow> nat \<Rightarrow> addr list \<Rightarrow> nat \<Rightarrow> nat \<Rightarrow> addr list" where
  "cells_between tsize tpp ps i j =
     drop i (take ((length ps - 1) * tpp + j) (concat (map (page_cells tsize tpp) ps)))"

fun chain_list :: "nat \<Rightarrow> (addr \<Rightarrow> addr) \<Rightarrow> addr \<Rightarrow> addr list" where
  "chain_list 0 nx a = []"
| "chain_list (Suc n) nx a = (if a = 0 then [] else a # chain_list n nx (nx a))"

definition queue_pages :: "heap \<Rightarrow> page_pool \<Rightarrow> tuple_queue \<Rightarrow> addr list" where
  "queue_pages h p q = chain_list (capacity p) (hnext h) (deq_page q)"

definition deq_slot :: "tuple_queue \<Rightarrow> nat" where
  "deq_slot q = (deq_location q - (deq_page q + PageHdr_size)) div tuple_size q"

definition enq_slot :: "tuple_queue \<Rightarrow> nat" where
  "enq_slot q = (enq_location q - (enq_page q + PageHdr_size)) div tuple_size q"

definition queue_cells :: "heap \<Rightarrow> page_pool \<Rightarrow> tuple_queue \<Rightarrow> addr list" where
  "queue_cells h p q =
     cells_between (tuple_size q) (tuples_per_page q) (queue_pages h p q) (deq_slot q) (enq_slot q)"

definition TupleQueue_abs :: "queue_state \<Rightarrow> tuple list" where
  "TupleQueue_abs = (\<lambda>(h, p, q). map (hdata h) (queue_cells h p q))"

lemma chain_list_eq: "chain nx a xs 0 \<Longrightarrow> length xs \<le> n \<Longrightarrow> chain_list n nx a = xs"
proof (induction xs arbitrary: a n)
  case Nil
  then show ?case by (cases n) simp_all
next
  case (Cons x xs)
  then show ?case by (cases n) simp_all
qed

section \<open>Invariant\<close>

text \<open>
  \<open>tq_shape h p q ps i j\<close>: the pages \<open>ps\<close> of the pool form the queue's chain, the read
  position is slot \<open>i\<close> of the first and the write position slot \<open>j\<close> of the last; neither is
  ever past the last slot of its page.
\<close>

fun prev_linked :: "(addr \<Rightarrow> addr) \<Rightarrow> addr list \<Rightarrow> bool" where
  "prev_linked pv (a # b # xs) \<longleftrightarrow> pv b = a \<and> prev_linked pv (b # xs)"
| "prev_linked pv xs \<longleftrightarrow> True"

definition tq_shape :: "heap \<Rightarrow> page_pool \<Rightarrow> tuple_queue \<Rightarrow> addr list \<Rightarrow> nat \<Rightarrow> nat \<Rightarrow> bool" where
  "tq_shape h p q ps i j \<longleftrightarrow>
     ps \<noteq> [] \<and> distinct ps \<and> set ps \<subseteq> set (pool_pages p) \<and>
     chain (hnext h) (deq_page q) ps 0 \<and> prev_linked (hprev h) ps \<and>
     enq_page q = last ps \<and> 0 < tuple_size q \<and> 0 < tuples_per_page q \<and>
     tuples_per_page q = (page_size p - PageHdr_size) div tuple_size q \<and>
     deq_location q = hd ps + PageHdr_size + i * tuple_size q \<and>
     enq_location q = last ps + PageHdr_size + j * tuple_size q \<and>
     i < tuples_per_page q \<and> j < tuples_per_page q \<and> (length ps = 1 \<longrightarrow> i \<le> j) \<and>
     enq_count q = (deq_count q + length (cells_between (tuple_size q) (tuples_per_page q) ps i j))
                   mod 2 ^ 32 \<and> deq_count q < 2 ^ 32"

section \<open>Geometry of the cells\<close>

lemma length_page_cells [simp]: "length (page_cells tsize tpp page) = tpp"
  by (simp add: page_cells_def)

lemma nth_page_cells [simp]: "k < tpp \<Longrightarrow> page_cells tsize tpp page ! k = page + PageHdr_size + k * tsize"
  by (simp add: page_cells_def)

lemma slot_in_page_cells: "k < tpp \<Longrightarrow> page + PageHdr_size + k * tsize \<in> set (page_cells tsize tpp page)"
  by (auto simp: page_cells_def)

lemma distinct_page_cells: "0 < tsize \<Longrightarrow> distinct (page_cells tsize tpp page)"
  by (auto simp: page_cells_def distinct_map inj_on_def)

lemma page_cells_bounds:
  assumes "c \<in> set (page_cells tsize ((psize - PageHdr_size) div tsize) page)" "0 < tsize"
  shows "page < c" "c + tsize \<le> page + psize"
proof -
  from assms obtain k where k: "k < (psize - PageHdr_size) div tsize"
    and c: "c = page + PageHdr_size + k * tsize" by (auto simp: page_cells_def)
  from k have "Suc k * tsize \<le> (psize - PageHdr_size) div tsize * tsize" by (intro mult_le_mono1) simp
  also have "\<dots> \<le> psize - PageHdr_size" by simp
  finally have "Suc k * tsize \<le> psize - PageHdr_size" .
  with assms(2) have "PageHdr_size + Suc k * tsize \<le> psize" by (cases "PageHdr_size \<le> psize") auto
  with c show "page < c" "c + tsize \<le> page + psize" by (simp_all add: PageHdr_size_def)
qed

lemma page_cells_disjoint:
  assumes "a \<in> set (pool_pages p)" "b \<in> set (pool_pages p)" "a \<noteq> b" "0 < tsize" "0 < tsize'"
  shows "set (page_cells tsize ((page_size p - PageHdr_size) div tsize) a) \<inter>
         set (page_cells tsize' ((page_size p - PageHdr_size) div tsize') b) = {}"
proof -
  have "False" if "c \<in> set (page_cells tsize ((page_size p - PageHdr_size) div tsize) a)"
    "c \<in> set (page_cells tsize' ((page_size p - PageHdr_size) div tsize') b)" for c
    using pool_pages_apart [OF assms(1-3)] page_cells_bounds [OF that(1) assms(4)]
      page_cells_bounds [OF that(2) assms(5)] by auto
  then show ?thesis by blast
qed

lemma length_all_cells [simp]: "length (concat (map (page_cells tsize tpp) ps)) = length ps * tpp"
  by (rule length_concat_blocks) simp

lemma length_cells_between:
  assumes "ps \<noteq> []" "j \<le> tpp"
  shows "length (cells_between tsize tpp ps i j) = (length ps - 1) * tpp + j - i"
proof -
  have "(length ps - 1) * tpp + j \<le> length ps * tpp" using assms by (cases ps) auto
  then show ?thesis by (simp add: cells_between_def min_def)
qed

lemma cells_between_snoc:
  assumes "ps \<noteq> []" "j < tpp" "i \<le> (length ps - 1) * tpp + j"
  shows "cells_between tsize tpp ps i (Suc j) =
         cells_between tsize tpp ps i j @ [last ps + PageHdr_size + j * tsize]"
proof -
  let ?all = "concat (map (page_cells tsize tpp) ps)" and ?n = "(length ps - 1) * tpp + j"
  have n: "?n < length ?all" using assms by (cases ps) auto
  have "?all ! ?n = page_cells tsize tpp (ps ! (length ps - 1)) ! j"
    using assms by (intro nth_concat_blocks) auto
  then have "?all ! ?n = last ps + PageHdr_size + j * tsize"
    using assms by (simp add: last_conv_nth)
  with n assms(3) show ?thesis
    by (simp add: cells_between_def take_Suc_conv_app_nth)
qed

lemma cells_between_new_page:
  assumes "ps \<noteq> []"
  shows "cells_between tsize tpp (ps @ [new]) i 0 = cells_between tsize tpp ps i tpp"
proof -
  have "(length ps - 1) * tpp + tpp = length ps * tpp" using assms by (cases ps) auto
  then show ?thesis by (simp add: cells_between_def)
qed

lemma cells_between_Cons:
  assumes "ps \<noteq> []" "j \<le> tpp" "i < tpp" "i < (length ps - 1) * tpp + j"
  shows "cells_between tsize tpp ps i j =
         (hd ps + PageHdr_size + i * tsize) # cells_between tsize tpp ps (Suc i) j"
proof -
  let ?all = "concat (map (page_cells tsize tpp) ps)" and ?n = "(length ps - 1) * tpp + j"
  have n: "?n \<le> length ?all" using assms by (cases ps) auto
  have "?all ! (0 * tpp + i) = page_cells tsize tpp (ps ! 0) ! i"
    using assms by (intro nth_concat_blocks) auto
  then have "?all ! i = hd ps + PageHdr_size + i * tsize" using assms by (simp add: hd_conv_nth)
  moreover have "drop i (take ?n ?all) = take ?n ?all ! i # drop (Suc i) (take ?n ?all)"
    using n assms(4) by (intro Cons_nth_drop_Suc [symmetric]) simp
  ultimately show ?thesis using assms(4) by (simp add: cells_between_def)
qed

lemma cells_between_next_page:
  assumes "ps \<noteq> []"
  shows "cells_between tsize tpp (page # ps) tpp j = cells_between tsize tpp ps 0 j"
proof -
  have "length ps * tpp + j = tpp + ((length ps - 1) * tpp + j)" using assms by (cases ps) auto
  then show ?thesis by (simp add: cells_between_def)
qed

section \<open>What the shape determines\<close>

lemma tq_shapeD:
  assumes "tq_shape h p q ps i j"
  shows "ps \<noteq> []" "distinct ps" "set ps \<subseteq> set (pool_pages p)" "chain (hnext h) (deq_page q) ps 0"
    "prev_linked (hprev h) ps" "enq_page q = last ps" "0 < tuple_size q" "0 < tuples_per_page q"
    "tuples_per_page q = (page_size p - PageHdr_size) div tuple_size q"
    "deq_location q = hd ps + PageHdr_size + i * tuple_size q"
    "enq_location q = last ps + PageHdr_size + j * tuple_size q"
    "i < tuples_per_page q" "j < tuples_per_page q" "length ps = 1 \<Longrightarrow> i \<le> j"
    "enq_count q = (deq_count q +
       length (cells_between (tuple_size q) (tuples_per_page q) ps i j)) mod 2 ^ 32"
    "deq_count q < 2 ^ 32"
  using assms by (simp_all add: tq_shape_def)

lemma tq_shape_cells_disjoint:
  assumes "tq_shape h p q ps i j" "x \<in> set ps" "y \<in> set ps" "x \<noteq> y"
  shows "set (page_cells (tuple_size q) (tuples_per_page q) x) \<inter>
         set (page_cells (tuple_size q) (tuples_per_page q) y) = {}"
proof -
  note sh = tq_shapeD [OF assms(1)]
  show ?thesis unfolding sh(9)
    by (rule page_cells_disjoint) (use sh(3,7) assms in auto)
qed

lemma tq_shape_derived:
  assumes "tq_shape h p q ps i j"
  shows "queue_pages h p q = ps" "deq_slot q = i" "enq_slot q = j" "deq_page q = hd ps"
    "queue_cells h p q = cells_between (tuple_size q) (tuples_per_page q) ps i j"
proof -
  from assms have ps: "ps \<noteq> []" "distinct ps" "set ps \<subseteq> set (pool_pages p)"
    and ch: "chain (hnext h) (deq_page q) ps 0" and ts: "0 < tuple_size q"
    by (simp_all add: tq_shape_def)
  show pages: "queue_pages h p q = ps"
    unfolding queue_pages_def using ch subset_pages_length [OF ps(2,3)] by (rule chain_list_eq)
  show hd: "deq_page q = hd ps" using ch ps(1) by (rule chain_hd)
  show deq: "deq_slot q = i" using assms ts hd by (simp add: deq_slot_def tq_shape_def)
  show enq: "enq_slot q = j" using assms ts by (simp add: enq_slot_def tq_shape_def)
  show "queue_cells h p q = cells_between (tuple_size q) (tuples_per_page q) ps i j"
    by (simp add: queue_cells_def pages deq enq)
qed

lemma tq_shape_bound:
  assumes "tq_shape h p q ps i j"
  shows "i \<le> (length ps - 1) * tuples_per_page q + j"
proof (cases "length ps = 1")
  case True
  with tq_shapeD(14) [OF assms] show ?thesis by simp
next
  case False
  then have "1 \<le> length ps - 1" using tq_shapeD(1) [OF assms] by (cases ps) (auto simp: Suc_le_eq)
  from mult_le_mono1 [OF this, of "tuples_per_page q"] tq_shapeD(12) [OF assms]
  show ?thesis by linarith
qed

lemma tq_shape_length:
  assumes "tq_shape h p q ps i j"
  shows "length (queue_cells h p q) = (length ps - 1) * tuples_per_page q + j - i"
  unfolding tq_shape_derived [OF assms]
  using assms by (intro length_cells_between) (simp_all add: tq_shape_def)

lemma tq_shape_distinct_cells:
  assumes "tq_shape h p q ps i j"
  shows "distinct (concat (map (page_cells (tuple_size q) (tuples_per_page q)) ps))"
proof (rule distinct_concat_blocks)
  show "distinct ps" by (rule tq_shapeD(2) [OF assms])
  show "distinct (page_cells (tuple_size q) (tuples_per_page q) x)" for x
    by (rule distinct_page_cells [OF tq_shapeD(7) [OF assms]])
qed (rule tq_shape_cells_disjoint [OF assms])

lemma tq_shape_avail:
  assumes "tq_shape h p q ps i j"
  shows "DeqIterator_avail (h, p, q) \<longleftrightarrow> queue_cells h p q \<noteq> []"
proof (cases "length ps = 1")
  case True
  then obtain x where x: "ps = [x]" by (cases ps) auto
  have "length (queue_cells h p q) = j - i" using tq_shape_length [OF assms] by (simp add: x)
  then have "queue_cells h p q \<noteq> [] \<longleftrightarrow> i < j" by (simp flip: length_greater_0_conv)
  moreover have "deq_location q \<noteq> enq_location q \<longleftrightarrow> i \<noteq> j"
    using tq_shapeD(7,10,11) [OF assms] by (simp add: x)
  moreover have "i \<le> j" using tq_shapeD(14) [OF assms] by (simp add: x)
  ultimately show ?thesis by (auto simp: DeqIterator_avail_def)
next
  case False
  note sh = tq_shapeD [OF assms]
  obtain x y zs where ps: "ps = x # y # zs"
    using False sh(1) by (cases ps; cases "tl ps") auto
  let ?cells = "page_cells (tuple_size q) (tuples_per_page q)"
  have "hd ps \<noteq> last ps" using sh(2) by (auto simp: ps)
  with sh(1) have "set (?cells (hd ps)) \<inter> set (?cells (last ps)) = {}"
    by (intro tq_shape_cells_disjoint [OF assms] hd_in_set last_in_set)
  moreover have "deq_location q \<in> set (?cells (hd ps))"
    unfolding sh(10) using sh(12) by (rule slot_in_page_cells)
  moreover have "enq_location q \<in> set (?cells (last ps))"
    unfolding sh(11) using sh(13) by (rule slot_in_page_cells)
  ultimately have neq: "deq_location q \<noteq> enq_location q" by (metis disjoint_iff)
  have "0 < length (queue_cells h p q)"
    unfolding tq_shape_length [OF assms] using sh(12) by (simp add: ps)
  with neq show ?thesis unfolding DeqIterator_avail_def by simp
qed

section \<open>Writing and reading one tuple\<close>

lemma slot_overflow:
  fixes page psize tsize j :: nat
  assumes "0 < tsize" "j < (psize - PageHdr_size) div tsize"
  shows "page + psize < page + PageHdr_size + j * tsize + tsize + tsize \<longleftrightarrow>
         Suc j = (psize - PageHdr_size) div tsize"
proof -
  have "PageHdr_size \<le> psize" using assms by (cases "PageHdr_size \<le> psize") simp_all
  then have "page + psize < page + PageHdr_size + j * tsize + tsize + tsize \<longleftrightarrow>
      psize - PageHdr_size < Suc (Suc j) * tsize" by auto
  also have "\<dots> \<longleftrightarrow> (psize - PageHdr_size) div tsize < Suc (Suc j)"
    using assms(1) by (simp only: div_less_iff_less_mult)
  finally show ?thesis using assms(2) by auto
qed

lemma prev_linked_snoc:
  "prev_linked pv xs \<Longrightarrow> y \<notin> set xs \<Longrightarrow> xs \<noteq> [] \<Longrightarrow> prev_linked (pv(y := last xs)) (xs @ [y])"
  by (induction pv xs rule: prev_linked.induct) auto

lemma prev_linked_tl: "prev_linked pv (x # xs) \<Longrightarrow> prev_linked pv xs"
  by (cases xs) auto

lemma prev_linked_cong:
  "(\<And>x. x \<in> set xs \<Longrightarrow> pv x = pv' x) \<Longrightarrow> prev_linked pv xs = prev_linked pv' xs"
  by (induction pv xs rule: prev_linked.induct) auto

lemma prev_linked_nth:
  "prev_linked pv ps \<Longrightarrow> Suc k < length ps \<Longrightarrow> pv (ps ! Suc k) = ps ! k"
proof (induction pv ps arbitrary: k rule: prev_linked.induct)
  case (1 pv a b xs)
  then show ?case by (cases k) simp_all
qed simp_all

lemma distinct_cells_between:
  assumes "tq_shape h p q ps i j"
  shows "distinct (cells_between (tuple_size q) (tuples_per_page q) ps i' j')"
  unfolding cells_between_def
  using tq_shape_distinct_cells [OF assms] by simp

text \<open>\<open>frame_outside p Q h h'\<close>: pages of the pool outside \<open>Q\<close> hold the same words and tuples.\<close>

definition frame_outside :: "page_pool \<Rightarrow> addr set \<Rightarrow> heap \<Rightarrow> heap \<Rightarrow> bool" where
  "frame_outside p Q h h' \<longleftrightarrow>
     (\<forall>a \<in> set (pool_pages p) - Q. hnext h' a = hnext h a \<and> hprev h' a = hprev h a \<and>
        (\<forall>c. a \<le> c \<longrightarrow> c < a + page_size p \<longrightarrow> hdata h' c = hdata h c))"

lemma frame_outside_write_next: "a \<in> Q \<Longrightarrow> frame_outside p Q h (write_next a v h)"
  by (auto simp: frame_outside_def)

lemma frame_outside_write_prev: "a \<in> Q \<Longrightarrow> frame_outside p Q h (write_prev a v h)"
  by (auto simp: frame_outside_def)

lemma frame_outside_write_data:
  assumes "page \<in> Q" "page \<in> set (pool_pages p)" "page \<le> c" "c < page + page_size p"
  shows "frame_outside p Q h (write_data c x h)"
proof -
  have "hdata (write_data c x h) d = hdata h d"
    if "a \<in> set (pool_pages p) - Q" "a \<le> d" "d < a + page_size p" for a d
    using pool_pages_apart [OF assms(2), of a] that assms by (cases "d = c") auto
  then show ?thesis by (simp add: frame_outside_def)
qed

lemma frame_outside_trans:
  "frame_outside p Q h h' \<Longrightarrow> frame_outside p Q h' h'' \<Longrightarrow> frame_outside p Q h h''"
  by (simp add: frame_outside_def)

lemma frame_outside_refl [simp]: "frame_outside p Q h h"
  by (simp add: frame_outside_def)

lemma frame_outside_mono: "frame_outside p Q h h' \<Longrightarrow> Q \<subseteq> R \<Longrightarrow> frame_outside p R h h'"
  by (auto simp: frame_outside_def)

text \<open>A queue whose pages lie outside keeps its shape and its contents.\<close>

lemma tq_shape_frame:
  assumes sh: "tq_shape h p q ps i j" and fr: "frame_outside p Q h h'" "set ps \<inter> Q = {}"
    and p': "pool_pages p' = pool_pages p" "page_size p' = page_size p" "capacity p' = capacity p"
  shows "tq_shape h' p' q ps i j" "TupleQueue_abs (h', p', q) = TupleQueue_abs (h, p, q)"
proof -
  note s = tq_shapeD [OF sh]
  have out: "a \<in> set (pool_pages p) - Q" if "a \<in> set ps" for a using that s(3) fr(2) by auto
  have "chain (hnext h') (deq_page q) ps 0"
    using s(4) out fr(1) by (subst chain_cong [where nx' = "hnext h"]) (auto simp: frame_outside_def)
  moreover have "prev_linked (hprev h') ps"
    using s(5) out fr(1) by (subst prev_linked_cong [where pv' = "hprev h"]) (auto simp: frame_outside_def)
  ultimately show sh': "tq_shape h' p' q ps i j"
    using sh p' unfolding tq_shape_def by simp
  have "hdata h' c = hdata h c"
    if "c \<in> set (cells_between (tuple_size q) (tuples_per_page q) ps i j)" for c
  proof -
    from that obtain a where a: "a \<in> set ps" "c \<in> set (page_cells (tuple_size q) (tuples_per_page q) a)"
      unfolding cells_between_def by (auto dest!: in_set_dropD in_set_takeD)
    have "a < c" "c + tuple_size q \<le> a + page_size p"
      using page_cells_bounds [OF _ s(7)] a(2) s(9) by auto
    with out [OF a(1)] fr(1) s(7) show ?thesis by (simp add: frame_outside_def)
  qed
  then show "TupleQueue_abs (h', p', q) = TupleQueue_abs (h, p, q)"
    by (simp add: TupleQueue_abs_def tq_shape_derived(5) [OF sh] tq_shape_derived(5) [OF sh'])
qed

section \<open>Enqueue\<close>

text \<open>What every step on the pool keeps of its geometry.\<close>

definition same_geometry :: "page_pool \<Rightarrow> page_pool \<Rightarrow> bool" where
  "same_geometry p p' \<longleftrightarrow> pool_pages p' = pool_pages p \<and> page_size p' = page_size p \<and>
     capacity p' = capacity p \<and> block p' = block p"

lemma same_geometry_refl [simp]: "same_geometry p p"
  by (simp add: same_geometry_def)

lemma u32_count_Suc:
  fixes d n e :: nat
  assumes "e = (d + n) mod 2 ^ 32"
  shows "u32_inc e = (d + Suc n) mod 2 ^ 32"
  unfolding u32_inc_def assms by (simp add: mod_simps)

text \<open>The write position stays on its page.\<close>

lemma enq_same_page:
  fixes x :: tuple
  assumes sh: "tq_shape h p q ps i j" and j: "Suc j < tuples_per_page q"
  defines "s' \<equiv> (write_data (enq_location q) x h, p,
     q\<lparr>enq_location := enq_location q + tuple_size q, enq_count := u32_inc (enq_count q)\<rparr>)"
  shows "tq_shape (fst s') p (snd (snd s')) ps i (Suc j)"
    "TupleQueue_abs s' = TupleQueue_abs (h, p, q) @ [x]"
proof -
  note s = tq_shapeD [OF sh]
  let ?cells = "cells_between (tuple_size q) (tuples_per_page q) ps i"
  have snoc: "?cells (Suc j) = ?cells j @ [enq_location q]"
    unfolding s(11) using cells_between_snoc [OF s(1) s(13) tq_shape_bound [OF sh]] by simp
  have count: "u32_inc (enq_count q) = (deq_count q + length (?cells (Suc j))) mod 2 ^ 32"
    using u32_count_Suc [OF s(15)] by (simp add: snoc)
  show sh': "tq_shape (fst s') p (snd (snd s')) ps i (Suc j)"
    using sh j count unfolding tq_shape_def s'_def by auto
  have "distinct (?cells (Suc j))" by (rule distinct_cells_between [OF sh])
  then have "enq_location q \<notin> set (?cells j)" by (simp add: snoc)
  then have "map ((hdata h)(enq_location q := x)) (?cells (Suc j)) = map (hdata h) (?cells j) @ [x]"
    by (simp add: snoc)
  moreover have "queue_cells (write_data (enq_location q) x h) p (snd (snd s')) = ?cells (Suc j)"
    using tq_shape_derived(5) [OF sh'] by (simp add: s'_def)
  ultimately show "TupleQueue_abs s' = TupleQueue_abs (h, p, q) @ [x]"
    by (simp add: TupleQueue_abs_def s'_def tq_shape_derived(5) [OF sh])
qed

text \<open>The write position moves to the first slot of a fresh page behind the last one.\<close>

lemma enq_next_page:
  fixes x :: tuple
  assumes sh: "tq_shape h p q ps i j" and j: "Suc j = tuples_per_page q"
    and new: "new \<in> set (pool_pages p)" "new \<notin> set ps" "new \<noteq> 0" and geo: "same_geometry p p'"
  defines "h' \<equiv> write_next (enq_page q) new (write_prev new (enq_page q) (write_next new 0
     (write_data (enq_location q) x h)))"
    and "q' \<equiv> q\<lparr>enq_page := new, enq_location := new + PageHdr_size, enq_count := u32_inc (enq_count q)\<rparr>"
  shows "tq_shape h' p' q' (ps @ [new]) i 0"
    "TupleQueue_abs (h', p', q') = TupleQueue_abs (h, p, q) @ [x]"
proof -
  note s = tq_shapeD [OF sh]
  let ?cells = "cells_between (tuple_size q) (tuples_per_page q)"
  have snoc: "?cells (ps @ [new]) i 0 = ?cells ps i j @ [enq_location q]"
    unfolding cells_between_new_page [OF s(1)] j [symmetric] s(11)
    using cells_between_snoc [OF s(1) s(13) tq_shape_bound [OF sh]] by (simp only: j)
  have count: "u32_inc (enq_count q) = (deq_count q + length (?cells (ps @ [new]) i 0)) mod 2 ^ 32"
    using u32_count_Suc [OF s(15)] by (simp add: snoc)
  have "chain ((hnext h)(new := 0, last ps := new)) (deq_page q) (ps @ [new]) 0"
    using s(4,1,2) new(3,2) by (rule chain_snoc)
  moreover have "prev_linked ((hprev h)(new := last ps)) (ps @ [new])"
    using s(5) new(2) s(1) by (rule prev_linked_snoc)
  moreover have "length (ps @ [new]) \<noteq> 1" using s(1) by simp
  moreover have "hd (ps @ [new]) = hd ps" using s(1) by simp
  ultimately show sh': "tq_shape h' p' q' (ps @ [new]) i 0"
    using sh s new count geo unfolding tq_shape_def h'_def q'_def same_geometry_def by simp
  have "distinct (?cells ps i j @ [enq_location q])"
    using distinct_cells_between [OF sh', of i 0] by (simp add: q'_def snoc)
  then have "map ((hdata h)(enq_location q := x)) (?cells ps i j @ [enq_location q]) =
      map (hdata h) (?cells ps i j) @ [x]" by simp
  moreover have "queue_cells h' p' q' = ?cells ps i j @ [enq_location q]"
    using tq_shape_derived(5) [OF sh'] snoc by (simp add: q'_def)
  moreover have "hdata h' = (hdata h)(enq_location q := x)" by (simp add: h'_def)
  ultimately show "TupleQueue_abs (h', p', q') = TupleQueue_abs (h, p, q) @ [x]"
    by (simp add: TupleQueue_abs_def tq_shape_derived(5) [OF sh])
qed

text \<open>The outcome of \<open>++e\<close> after a write, by the position of the write slot.\<close>

lemma enq_cases:
  assumes sh: "tq_shape h p q ps i j"
  shows "Suc j < tuples_per_page q \<Longrightarrow> TupleQueue_enq x (h, p, q) =
      Inr (write_data (enq_location q) x h, p,
           q\<lparr>enq_location := enq_location q + tuple_size q, enq_count := u32_inc (enq_count q)\<rparr>)"
    "Suc j = tuples_per_page q \<Longrightarrow> TupleQueue_enq x (h, p, q) =
      rbind (PagePool_alloc (write_data (enq_location q) x h) p) (\<lambda>(new, p').
        Inr (write_next (enq_page q) new (write_prev new (enq_page q) (write_next new 0
               (write_data (enq_location q) x h))), p',
             q\<lparr>enq_page := new, enq_location := new + PageHdr_size, enq_count := u32_inc (enq_count q)\<rparr>))"
proof -
  note s = tq_shapeD [OF sh]
  have "enq_page q + page_size p < enq_location q + tuple_size q + tuple_size q \<longleftrightarrow>
      Suc j = tuples_per_page q"
    unfolding s(6,11,9) using slot_overflow [OF s(7), of j "page_size p" "last ps"] s(13) s(9) by simp
  then show "Suc j < tuples_per_page q \<Longrightarrow> TupleQueue_enq x (h, p, q) =
      Inr (write_data (enq_location q) x h, p,
           q\<lparr>enq_location := enq_location q + tuple_size q, enq_count := u32_inc (enq_count q)\<rparr>)"
    "Suc j = tuples_per_page q \<Longrightarrow> TupleQueue_enq x (h, p, q) =
      rbind (PagePool_alloc (write_data (enq_location q) x h) p) (\<lambda>(new, p').
        Inr (write_next (enq_page q) new (write_prev new (enq_page q) (write_next new 0
               (write_data (enq_location q) x h))), p',
             q\<lparr>enq_page := new, enq_location := new + PageHdr_size, enq_count := u32_inc (enq_count q)\<rparr>))"
    by (simp_all add: TupleQueue_enq_def EnqIterator_incr_def EnqIterator_write_def Let_def)
qed

lemma pool_inv_writes [simp]:
  "a \<notin> set fl \<Longrightarrow> pool_inv (write_next a v h) p fl = pool_inv h p fl"
  "pool_inv (write_prev a v h) p fl = pool_inv h p fl"
  "pool_inv (write_data c x h) p fl = pool_inv h p fl"
  by (simp_all add: pool_inv_def)

text \<open>
  \<open>queue_ok h p q ps i j fl\<close>: pool and queue are well formed and own different pages. The
  pages owned by either, \<open>ps \<union> fl\<close>, are what an operation of the queue may touch.
\<close>

definition queue_ok ::
  "heap \<Rightarrow> page_pool \<Rightarrow> tuple_queue \<Rightarrow> addr list \<Rightarrow> nat \<Rightarrow> nat \<Rightarrow> addr list \<Rightarrow> bool" where
  "queue_ok h p q ps i j fl \<longleftrightarrow> pool_inv h p fl \<and> tq_shape h p q ps i j \<and> set ps \<inter> set fl = {}"

lemma queue_okD:
  assumes "queue_ok h p q ps i j fl"
  shows "pool_inv h p fl" "tq_shape h p q ps i j" "set ps \<inter> set fl = {}"
  using assms by (simp_all add: queue_ok_def)

lemma queue_ok_pages:
  "queue_ok h p q ps i j fl \<Longrightarrow> set fl \<subseteq> set (pool_pages p)"
  "queue_ok h p q ps i j fl \<Longrightarrow> set ps \<subseteq> set (pool_pages p)"
  by (simp_all add: queue_ok_def pool_inv_def tq_shape_def)

lemma enq_location_in_page:
  assumes "tq_shape h p q ps i j"
  shows "last ps \<in> set ps" "last ps \<le> enq_location q" "enq_location q < last ps + page_size p"
proof -
  note s = tq_shapeD [OF assms]
  show "last ps \<in> set ps" using s(1) by simp
  have "enq_location q \<in> set (page_cells (tuple_size q) (tuples_per_page q) (last ps))"
    unfolding s(11) using s(13) by (rule slot_in_page_cells)
  then have "last ps < enq_location q" "enq_location q + tuple_size q \<le> last ps + page_size p"
    unfolding s(9) using page_cells_bounds [OF _ s(7)] by auto
  with s(7) show "last ps \<le> enq_location q" "enq_location q < last ps + page_size p" by simp_all
qed

definition enq_post ::
  "tuple \<Rightarrow> queue_state \<Rightarrow> addr list \<Rightarrow> nat \<Rightarrow> addr list \<Rightarrow> queue_state \<Rightarrow> bool" where
  "enq_post x s ps i fl s' \<longleftrightarrow> (case (s, s') of ((h, p, q), (h', p', q')) \<Rightarrow>
     \<exists>ps' j' fl'. queue_ok h' p' q' ps' i j' fl' \<and> set ps' \<union> set fl' = set ps \<union> set fl \<and>
       same_geometry p p' \<and> frame_outside p (set ps \<union> set fl) h h' \<and>
       TupleQueue_abs s' = TupleQueue_abs s @ [x])"

lemma enq_refines:
  assumes ok: "queue_ok h p q ps i j fl" and enq: "TupleQueue_enq x (h, p, q) = Inr s'"
  shows "enq_post x (h, p, q) ps i fl s'"
proof -
  note pool = queue_okD(1) [OF ok] and sh = queue_okD(2) [OF ok] and dis = queue_okD(3) [OF ok]
  note s = tq_shapeD [OF sh]
  let ?h = "write_data (enq_location q) x h"
  have loc: "frame_outside p (set ps \<union> set fl) h ?h"
    using enq_location_in_page [OF sh] s(3) by (intro frame_outside_write_data [of "last ps"]) auto
  consider "Suc j < tuples_per_page q" | "Suc j = tuples_per_page q" using s(13) by linarith
  then show ?thesis
  proof cases
    case 1
    from enq enq_cases(1) [OF sh 1] have s': "s' = (?h, p,
        q\<lparr>enq_location := enq_location q + tuple_size q, enq_count := u32_inc (enq_count q)\<rparr>)" by simp
    from enq_same_page [OF sh 1, of x] pool dis loc show ?thesis
      unfolding s' enq_post_def queue_ok_def by auto
  next
    case 2
    from enq enq_cases(2) [OF sh 2] obtain new p' where al: "PagePool_alloc ?h p = Inr (new, p')"
      and s': "s' = (write_next (enq_page q) new (write_prev new (enq_page q) (write_next new 0 ?h)), p',
             q\<lparr>enq_page := new, enq_location := new + PageHdr_size, enq_count := u32_inc (enq_count q)\<rparr>)"
      by auto
    have "pool_inv ?h p fl" using pool by simp
    from PagePool_alloc_Inr [OF this al] obtain fl' where fl: "fl = new # fl'"
      and inv': "pool_inv ?h p' fl'" and geo: "same_geometry p p'"
      by (auto simp: same_geometry_def)
    have new: "new \<in> set (pool_pages p)" "new \<notin> set ps" "new \<noteq> 0" "new \<notin> set fl'"
      using pool dis fl by (auto simp: pool_inv_def)
    have "last ps \<notin> set fl'" using dis fl last_in_set [OF s(1)] by auto
    then have inv'': "pool_inv (fst s') p' fl'" using inv' new(4) by (simp add: s' s(6))
    have fr: "frame_outside p (set ps \<union> set fl) h (fst s')"
      unfolding s' fst_conv s(6) using enq_location_in_page(1) [OF sh] fl
      by (intro frame_outside_trans [OF _ frame_outside_write_next]
          frame_outside_trans [OF _ frame_outside_write_prev] loc) simp_all
    have "set (ps @ [new]) \<inter> set fl' = {}" "set (ps @ [new]) \<union> set fl' = set ps \<union> set fl"
      using dis fl new(4) by auto
    with enq_next_page [OF sh 2 new(1-3) geo, of x] inv'' fr geo show ?thesis
      unfolding s' enq_post_def queue_ok_def by fastforce
  qed
qed

text \<open>Enqueueing fails only when a page is needed and the pool has none left.\<close>

lemma enq_total:
  assumes ok: "queue_ok h p q ps i j fl" and free: "fl \<noteq> [] \<or> Suc j < tuples_per_page q"
  shows "\<exists>s'. TupleQueue_enq x (h, p, q) = Inr s'"
proof -
  note pool = queue_okD(1) [OF ok] and sh = queue_okD(2) [OF ok]
  consider "Suc j < tuples_per_page q" | "Suc j = tuples_per_page q" "fl \<noteq> []"
    using tq_shapeD(13) [OF sh] free by linarith
  then show ?thesis
  proof cases
    case 1
    then show ?thesis by (simp add: enq_cases(1) [OF sh])
  next
    case 2
    then obtain new fl' where "fl = new # fl'" by (cases fl) auto
    with pool have "pool_inv (write_data (enq_location q) x h) p (new # fl')" by simp
    from PagePool_alloc_Cons [OF this] obtain p' where
      "PagePool_alloc (write_data (enq_location q) x h) p = Inr (new, p')" by blast
    then show ?thesis by (simp add: enq_cases(2) [OF sh 2(1)])
  qed
qed

lemma enq_exhausted:
  assumes ok: "queue_ok h p q ps i j []" and "Suc j = tuples_per_page q"
  shows "TupleQueue_enq x (h, p, q) = Inl AuroraException"
proof -
  have "pool_inv (write_data (enq_location q) x h) p []" using queue_okD(1) [OF ok] by simp
  then show ?thesis
    by (simp add: enq_cases(2) [OF queue_okD(2) [OF ok] assms(2)] PagePool_alloc_Nil)
qed

section \<open>Dequeue\<close>

lemma u32_count_pred:
  fixes d n e :: nat
  assumes "e = (d + Suc n) mod 2 ^ 32"
  shows "e = (u32_inc d + n) mod 2 ^ 32"
  unfolding u32_inc_def assms by (simp add: mod_simps)

lemma deq_cells:
  assumes sh: "tq_shape h p q ps i j" and ne: "queue_cells h p q \<noteq> []"
  shows "cells_between (tuple_size q) (tuples_per_page q) ps i j =
         deq_location q # cells_between (tuple_size q) (tuples_per_page q) ps (Suc i) j"
proof -
  note s = tq_shapeD [OF sh]
  have "0 < length (queue_cells h p q)" using ne by simp
  then have "i < (length ps - 1) * tuples_per_page q + j" using tq_shape_length [OF sh] by simp
  then show ?thesis unfolding s(10) using s(1,12,13) by (intro cells_between_Cons) simp_all
qed

lemma deq_tuple:
  assumes "tq_shape h p q ps i j" "queue_cells h p q \<noteq> []"
  shows "DeqIterator_tuple (h, p, q) = hd (TupleQueue_abs (h, p, q))"
  using deq_cells [OF assms] tq_shape_derived(5) [OF assms(1)]
  by (simp add: DeqIterator_tuple_def TupleQueue_abs_def)

text \<open>The read position stays on its page.\<close>

lemma deq_same_page:
  assumes sh: "tq_shape h p q ps i j" and ne: "queue_cells h p q \<noteq> []"
    and i: "Suc i < tuples_per_page q"
  defines "q' \<equiv> q\<lparr>last_timestamp := tv (hdata h (deq_location q)),
     deq_location := deq_location q + tuple_size q, deq_count := u32_inc (deq_count q)\<rparr>"
  shows "tq_shape h p q' ps (Suc i) j"
    "TupleQueue_abs (h, p, q') = tl (TupleQueue_abs (h, p, q))"
proof -
  note s = tq_shapeD [OF sh] and cells = deq_cells [OF sh ne]
  have "Suc i \<le> j" if "length ps = 1"
    using that ne tq_shape_length [OF sh] by (simp flip: length_greater_0_conv)
  moreover have "enq_count q = (u32_inc (deq_count q) +
      length (cells_between (tuple_size q) (tuples_per_page q) ps (Suc i) j)) mod 2 ^ 32"
    by (rule u32_count_pred) (use s(15) in \<open>simp add: cells\<close>)
  moreover have "u32_inc (deq_count q) < 2 ^ 32" by (simp add: u32_inc_def)
  ultimately show sh': "tq_shape h p q' ps (Suc i) j"
    using sh i unfolding tq_shape_def q'_def by auto
  show "TupleQueue_abs (h, p, q') = tl (TupleQueue_abs (h, p, q))"
    using tq_shape_derived(5) [OF sh'] tq_shape_derived(5) [OF sh] cells
    by (simp add: TupleQueue_abs_def q'_def)
qed

text \<open>The read position moves to the next page and the first page goes back to the pool.\<close>

lemma deq_next_page:
  fixes v :: addr and ts :: timestamp
  assumes sh: "tq_shape h p q ps i j" and ne: "queue_cells h p q \<noteq> []"
    and i: "Suc i = tuples_per_page q" and geo: "same_geometry p p'"
  defines "h' \<equiv> write_next (deq_page q) v h"
    and "q' \<equiv> q\<lparr>deq_page := hnext h (deq_page q), last_timestamp := ts,
       deq_location := hnext h (deq_page q) + PageHdr_size, deq_count := u32_inc (deq_count q)\<rparr>"
  shows "tq_shape h' p' q' (tl ps) 0 j"
    "TupleQueue_abs (h', p', q') = tl (TupleQueue_abs (h, p, q))"
proof -
  note s = tq_shapeD [OF sh] and cells = deq_cells [OF sh ne]
  obtain page ps2 where ps: "ps = page # ps2" using s(1) by (cases ps) auto
  have ps2: "ps2 \<noteq> []"
  proof
    assume "ps2 = []"
    then have "j - i > 0"
      using ne tq_shape_length [OF sh] by (simp add: ps flip: length_greater_0_conv)
    with s(13) i show False by simp
  qed
  let ?cells = "cells_between (tuple_size q) (tuples_per_page q)"
  have rest: "?cells ps (Suc i) j = ?cells ps2 0 j"
    unfolding i ps by (rule cells_between_next_page [OF ps2])
  have page: "deq_page q = page" "page \<notin> set ps2" using s(4,2) ps by auto
  have "chain (hnext h') (hnext h (deq_page q)) ps2 0"
    using s(4) page by (simp add: ps h'_def)
  moreover have "hnext h (deq_page q) = hd ps2"
    using s(4) page ps2 by (cases ps2) (auto simp: ps)
  moreover have "prev_linked (hprev h') ps2"
    using s(5) unfolding ps h'_def by (simp add: prev_linked_tl)
  moreover have "enq_count q = (u32_inc (deq_count q) + length (?cells ps2 0 j)) mod 2 ^ 32"
    by (rule u32_count_pred) (use s(15) in \<open>simp add: cells rest\<close>)
  moreover have "u32_inc (deq_count q) < 2 ^ 32" by (simp add: u32_inc_def)
  moreover have "last ps = last ps2" using ps ps2 by simp
  ultimately show sh': "tq_shape h' p' q' (tl ps) 0 j"
    using s ps ps2 geo unfolding tq_shape_def q'_def same_geometry_def by simp
  have "queue_cells h' p' q' = ?cells ps2 0 j"
    using tq_shape_derived(5) [OF sh'] by (simp add: ps q'_def)
  then show "TupleQueue_abs (h', p', q') = tl (TupleQueue_abs (h, p, q))"
    using tq_shape_derived(5) [OF sh] cells rest by (simp add: TupleQueue_abs_def h'_def)
qed

definition deq_post ::
  "queue_state \<Rightarrow> addr list \<Rightarrow> nat \<Rightarrow> addr list \<Rightarrow> queue_state \<Rightarrow> bool" where
  "deq_post s ps j fl s' \<longleftrightarrow> (case (s, s') of ((h, p, q), (h', p', q')) \<Rightarrow>
     \<exists>ps' i' fl'. queue_ok h' p' q' ps' i' j fl' \<and> set ps' \<union> set fl' = set ps \<union> set fl \<and>
       same_geometry p p' \<and> frame_outside p (set ps \<union> set fl) h h' \<and>
       TupleQueue_abs s' = tl (TupleQueue_abs s) \<and>
       last_timestamp q' = tv (hd (TupleQueue_abs s)))"

lemma deq_refines:
  assumes ok: "queue_ok h p q ps i j fl" and ne: "TupleQueue_abs (h, p, q) \<noteq> []"
  shows "\<exists>s'. DeqIterator_incr (h, p, q) = Inr s' \<and> deq_post (h, p, q) ps j fl s'"
proof -
  note pool = queue_okD(1) [OF ok] and sh = queue_okD(2) [OF ok] and dis = queue_okD(3) [OF ok]
  note s = tq_shapeD [OF sh]
  have ne': "queue_cells h p q \<noteq> []" using ne by (simp add: TupleQueue_abs_def)
  then have av: "DeqIterator_avail (h, p, q)" by (simp add: tq_shape_avail [OF sh])
  have ts: "hd (TupleQueue_abs (h, p, q)) = hdata h (deq_location q)"
    using deq_tuple [OF sh ne'] by (simp add: DeqIterator_tuple_def)
  have hd: "deq_page q = hd ps" by (rule tq_shape_derived(4) [OF sh])
  have over: "deq_page q + page_size p < deq_location q + tuple_size q + tuple_size q \<longleftrightarrow>
      Suc i = tuples_per_page q"
    unfolding hd s(10,9) using slot_overflow [OF s(7), of i "page_size p" "hd ps"] s(12) s(9) by simp
  consider "Suc i < tuples_per_page q" | "Suc i = tuples_per_page q" using s(12) by linarith
  then show ?thesis
  proof cases
    case 1
    let ?q = "q\<lparr>last_timestamp := tv (hdata h (deq_location q)),
       deq_location := deq_location q + tuple_size q, deq_count := u32_inc (deq_count q)\<rparr>"
    have "DeqIterator_incr (h, p, q) = Inr (h, p, ?q)"
      using av over 1 by (simp add: DeqIterator_incr_def Let_def)
    moreover have "deq_post (h, p, q) ps j fl (h, p, ?q)"
      using deq_same_page [OF sh ne' 1] pool dis ts unfolding deq_post_def queue_ok_def by auto
    ultimately show ?thesis by blast
  next
    case 2
    have page: "hd ps \<in> set ps" using s(1) by simp
    then have "hd ps \<in> set (pool_pages p)" "hd ps \<notin> set fl" using s(3) dis by auto
    from PagePool_free_ok [OF pool this] obtain p' where
      fr: "PagePool_free (hd ps) h p = Inr (write_next (hd ps) (free_list p) h, p')"
      and inv': "pool_inv (write_next (hd ps) (free_list p) h) p' (hd ps # fl)"
      and geo: "same_geometry p p'" by (auto simp: same_geometry_def)
    let ?h = "write_next (deq_page q) (free_list p) h"
    let ?q = "q\<lparr>deq_page := hnext h (deq_page q), last_timestamp := tv (hdata h (deq_location q)),
       deq_location := hnext h (deq_page q) + PageHdr_size, deq_count := u32_inc (deq_count q)\<rparr>"
    have "DeqIterator_incr (h, p, q) = Inr (?h, p', ?q)"
      using av over 2 fr by (simp add: DeqIterator_incr_def Let_def hd)
    moreover have "set (tl ps) \<inter> set (hd ps # fl) = {}"
      "set (tl ps) \<union> set (hd ps # fl) = set ps \<union> set fl"
      using dis s(1,2) by (cases ps; auto)+
    moreover have "frame_outside p (set ps \<union> set fl) h ?h"
      using page hd by (intro frame_outside_write_next) simp
    ultimately have "deq_post (h, p, q) ps j fl (?h, p', ?q)"
      using deq_next_page [OF sh ne' 2 geo] inv' geo ts
      unfolding deq_post_def queue_ok_def hd by fastforce
    with \<open>DeqIterator_incr (h, p, q) = Inr (?h, p', ?q)\<close> show ?thesis by blast
  qed
qed

lemma deq_empty:
  "queue_ok h p q ps i j fl \<Longrightarrow> TupleQueue_abs (h, p, q) = [] \<Longrightarrow>
   DeqIterator_incr (h, p, q) = Inl AssertionFailed"
  using tq_shape_avail [OF queue_okD(2)]
  by (simp add: DeqIterator_incr_def TupleQueue_abs_def)

text \<open>
  The pages of the pool bound the number of queued tuples; a tuple has at least two bytes (its
  header alone has 21), so the signed size is exact.
\<close>

lemma TupleQueue_abs_bound:
  assumes "queue_ok h p q ps i j fl"
  shows "length (TupleQueue_abs (h, p, q)) * tuple_size q < 2 ^ 32"
proof -
  note sh = queue_okD(2) [OF assms]
  note s = tq_shapeD [OF sh]
  have "length (TupleQueue_abs (h, p, q)) \<le> (length ps - 1) * tuples_per_page q + j"
    using tq_shape_length [OF sh] by (simp add: TupleQueue_abs_def)
  also have "\<dots> \<le> length ps * tuples_per_page q" using s(1,13) by (cases ps) simp_all
  also have "\<dots> \<le> capacity p * tuples_per_page q"
    using subset_pages_length [OF s(2,3)] by simp
  finally have "length (TupleQueue_abs (h, p, q)) * tuple_size q \<le>
      capacity p * (tuples_per_page q * tuple_size q)" by (simp add: mult.assoc [symmetric])
  also have "tuples_per_page q * tuple_size q \<le> page_size p - PageHdr_size" unfolding s(9) by simp
  then have "capacity p * (tuples_per_page q * tuple_size q) \<le> capacity p * page_size p"
    by (intro mult_le_mono) simp_all
  also have "\<dots> < 2 ^ 32" using queue_okD(1) [OF assms] by (simp add: pool_inv_def)
  finally show ?thesis .
qed

lemma TupleQueue_size_length:
  assumes ok: "queue_ok h p q ps i j fl" and "2 \<le> tuple_size q"
  shows "TupleQueue_size q = int (length (TupleQueue_abs (h, p, q)))"
proof -
  note sh = queue_okD(2) [OF ok]
  let ?n = "length (TupleQueue_abs (h, p, q))"
  have "?n * 2 \<le> ?n * tuple_size q" using assms(2) by simp
  then have n: "?n < 2 ^ 31" using order_le_less_trans [OF _ TupleQueue_abs_bound [OF ok]] by fastforce
  have e: "enq_count q = (deq_count q + ?n) mod 2 ^ 32" and d: "deq_count q < 2 ^ 32"
    using tq_shapeD(15,16) [OF sh] tq_shape_derived(5) [OF sh] by (simp_all add: TupleQueue_abs_def)
  have "deq_count q mod 2 ^ 32 = deq_count q" using d by simp
  then have "u32_sub (enq_count q) (deq_count q) =
      ((deq_count q + ?n) mod 2 ^ 32 + (2 ^ 32 - deq_count q)) mod 2 ^ 32"
    unfolding u32_sub_def e by (simp only:)
  also have "\<dots> = (deq_count q + ?n + (2 ^ 32 - deq_count q)) mod 2 ^ 32" by (rule mod_add_left_eq)
  also have "\<dots> = (?n + 2 ^ 32) mod 2 ^ 32" using d by (simp add: algebra_simps)
  also have "\<dots> = ?n" using n by simp
  finally show ?thesis using n by (simp add: TupleQueue_size_def)
qed

end
