(* ===== verification/Queue_Interface.thy ===== *)
theory Queue_Interface
  imports Borealis_Prelude
begin

text \<open>
  The contract between the tuple queue and the code that reads and writes it through
  \<open>EnqIterator\<close> and \<open>DeqIterator\<close>: a queue whose contents are a list, written at the end and
  consumed at the front. The loops the clients run over the iterators (\<open>while (d.avail())\<close>,
  \<open>while (count < max && d.avail())\<close>, \<open>while (inv.continue_dequeue_on(d, i))\<close>) are defined
  over the operations; the laws of the locale \<open>fifo\<close> say what they compute.
\<close>

section \<open>Client loops over the iterator operations\<close>

text \<open>
  \<open>while (d.avail()) { acc.push_back(d.tuple()); ++d; }\<close>. A queue whose \<open>avail\<close> stayed true
  would loop for ever; \<open>None\<close> stands for that.
\<close>

partial_function (option) drain ::
  "('s \<Rightarrow> bool) \<Rightarrow> ('s \<Rightarrow> 'a) \<Rightarrow> ('s \<Rightarrow> 's result) \<Rightarrow> 'a list \<Rightarrow> 's \<Rightarrow> ('a list \<times> 's) result option" where
  "drain avail front deq acc s =
     (if avail s then
        (case deq s of
           Inl e \<Rightarrow> Some (Inl e)
         | Inr s' \<Rightarrow> drain avail front deq (acc @ [front s]) s')
      else Some (Inr (acc, s)))"

text \<open>The same loop with a bound on the number of tuples.\<close>

fun drain_upto ::
  "('s \<Rightarrow> bool) \<Rightarrow> ('s \<Rightarrow> 'a) \<Rightarrow> ('s \<Rightarrow> 's result) \<Rightarrow> nat \<Rightarrow> 'a list \<Rightarrow> 's \<Rightarrow> ('a list \<times> 's) result" where
  "drain_upto avail front deq 0 acc s = Inr (acc, s)"
| "drain_upto avail front deq (Suc n) acc s =
     (if avail s then
        (case deq s of
           Inl e \<Rightarrow> Inl e
         | Inr s' \<Rightarrow> drain_upto avail front deq n (acc @ [front s]) s')
      else Inr (acc, s))"

text \<open>
  The main loop of a box: \<open>cont\<close> is the guard (it may change the invocation object), \<open>body\<close>
  the loop body, which consumes exactly one tuple.
\<close>

partial_function (option) box_loop ::
  "('s \<Rightarrow> bool) \<Rightarrow> ('s \<Rightarrow> 'a) \<Rightarrow> ('s \<Rightarrow> 's result) \<Rightarrow> ('i \<Rightarrow> bool \<Rightarrow> bool \<times> 'i) \<Rightarrow> ('a \<Rightarrow> 'b \<Rightarrow> 'b)
   \<Rightarrow> 'i \<Rightarrow> 's \<Rightarrow> 'b \<Rightarrow> ('i \<times> 's \<times> 'b) result option" where
  "box_loop avail front deq cont body i s b =
     (if fst (cont i (avail s)) then
        (case deq s of
           Inl e \<Rightarrow> Some (Inl e)
         | Inr s' \<Rightarrow> box_loop avail front deq cont body (snd (cont i (avail s))) s' (body (front s) b))
      else Some (Inr (snd (cont i (avail s)), s, b)))"

text \<open>The same loop over the list of the queued tuples.\<close>

fun list_loop ::
  "('i \<Rightarrow> bool \<Rightarrow> bool \<times> 'i) \<Rightarrow> ('a \<Rightarrow> 'b \<Rightarrow> 'b) \<Rightarrow> 'i \<Rightarrow> 'a list \<Rightarrow> 'b \<Rightarrow> 'i \<times> 'a list \<times> 'b" where
  "list_loop cont body i [] b = (snd (cont i False), [], b)"
| "list_loop cont body i (x # xs) b =
     (if fst (cont i True) then list_loop cont body (snd (cont i True)) xs (body x b)
      else (snd (cont i True), x # xs, b))"

text \<open>The guard promises to be false on an empty queue.\<close>

definition guards_avail :: "('i \<Rightarrow> bool \<Rightarrow> bool \<times> 'i) \<Rightarrow> bool" where
  "guards_avail cont \<longleftrightarrow> (\<forall>i. \<not> fst (cont i False))"

text \<open>The loop consumes a prefix of the queue and folds its body over it.\<close>

fun loop_count :: "('i \<Rightarrow> bool \<Rightarrow> bool \<times> 'i) \<Rightarrow> 'i \<Rightarrow> 'a list \<Rightarrow> nat" where
  "loop_count cont i [] = 0"
| "loop_count cont i (x # xs) =
     (if fst (cont i True) then Suc (loop_count cont (snd (cont i True)) xs) else 0)"

lemma list_loop_fold:
  "fst (snd (list_loop cont body i xs b)) = drop (loop_count cont i xs) xs"
  "snd (snd (list_loop cont body i xs b)) = fold body (take (loop_count cont i xs) xs) b"
  by (induction xs arbitrary: i b) simp_all

lemma loop_count_le: "loop_count cont i xs \<le> length xs"
  by (induction xs arbitrary: i) simp_all

section \<open>The contract\<close>

text \<open>What a reader relies on: a source of tuples with contents, read at the front.\<close>

locale source =
  fixes inv :: "'s \<Rightarrow> bool"
    and contents :: "'s \<Rightarrow> 'a list"
    and avail :: "'s \<Rightarrow> bool"
    and front :: "'s \<Rightarrow> 'a"
    and deq :: "'s \<Rightarrow> 's result"
  assumes avail_law: "inv s \<Longrightarrow> avail s \<longleftrightarrow> contents s \<noteq> []"
    and front_law: "inv s \<Longrightarrow> contents s \<noteq> [] \<Longrightarrow> front s = hd (contents s)"
    and deq_law: "inv s \<Longrightarrow> contents s \<noteq> [] \<Longrightarrow>
      \<exists>s'. deq s = Inr s' \<and> inv s' \<and> contents s' = tl (contents s)"
begin

lemma drain_all:
  "inv s \<Longrightarrow> \<exists>s'. drain avail front deq acc s = Some (Inr (acc @ contents s, s')) \<and>
     inv s' \<and> contents s' = []"
proof (induction "contents s" arbitrary: acc s)
  case Nil
  then show ?case by (simp add: drain.simps avail_law)
next
  case (Cons x xs)
  then have av: "avail s" and fr: "front s = x" and cs: "contents s = x # xs"
    using avail_law front_law by (metis list.distinct(1), metis list.distinct(1) list.sel(1), simp)
  from Cons.prems cs deq_law obtain t where t: "deq s = Inr t" "inv t" "contents t = xs"
    by (metis list.distinct(1) list.sel(3))
  with Cons.hyps(1) [of t "acc @ [x]"] show ?case by (simp add: drain.simps av fr cs)
qed

lemma drain_upto_take:
  "inv s \<Longrightarrow> \<exists>s'. drain_upto avail front deq n acc s = Inr (acc @ take n (contents s), s') \<and>
     inv s' \<and> contents s' = drop n (contents s)"
proof (induction n arbitrary: acc s)
  case 0
  then show ?case by simp
next
  case (Suc n)
  show ?case
  proof (cases "contents s")
    case Nil
    with Suc.prems show ?thesis by (simp add: avail_law)
  next
    case (Cons x xs)
    with Suc.prems deq_law obtain t where t: "deq s = Inr t" "inv t" "contents t = xs"
      by (metis list.distinct(1) list.sel(3))
    with Suc.IH [of t "acc @ [x]"] Suc.prems Cons show ?thesis
      by (simp add: avail_law front_law)
  qed
qed

text \<open>A box run on the queue behaves as on the list of its contents, and terminates.\<close>

lemma box_loop_list:
  assumes "guards_avail cont"
  shows "inv s \<Longrightarrow> \<exists>s'. box_loop avail front deq cont body i s b =
      Some (Inr (fst (list_loop cont body i (contents s) b), s',
                 snd (snd (list_loop cont body i (contents s) b)))) \<and>
      inv s' \<and> contents s' = fst (snd (list_loop cont body i (contents s) b))"
proof (induction "contents s" arbitrary: i s b)
  case Nil
  then have "\<not> avail s" by (simp add: avail_law)
  with assms Nil show ?case by (simp add: box_loop.simps guards_avail_def flip: Nil.hyps)
next
  case (Cons x xs)
  then have av: "avail s" by (metis avail_law list.distinct(1))
  show ?case
  proof (cases "fst (cont i True)")
    case False
    with Cons.prems show ?thesis by (simp add: box_loop.simps av flip: Cons.hyps(2))
  next
    case True
    have fr: "front s = x" using Cons front_law by (metis list.distinct(1) list.sel(1))
    from Cons deq_law obtain t where t: "deq s = Inr t" "inv t" "xs = contents t"
      by (metis list.distinct(1) list.sel(3))
    from Cons.hyps(1) [OF t(3,2), of "snd (cont i True)" "body x b"] show ?thesis
      by (simp add: box_loop.simps av fr True t(1,3) flip: Cons.hyps(2))
  qed
qed

end

text \<open>A queue adds the writer's side.\<close>

locale fifo = source inv contents avail front deq
  for inv :: "'s \<Rightarrow> bool"
    and contents :: "'s \<Rightarrow> 'a list"
    and avail :: "'s \<Rightarrow> bool"
    and front :: "'s \<Rightarrow> 'a"
    and deq :: "'s \<Rightarrow> 's result" +
  fixes enq :: "'a \<Rightarrow> 's \<Rightarrow> 's result"
  assumes enq_law: "inv s \<Longrightarrow> enq x s = Inr s' \<Longrightarrow> inv s' \<and> contents s' = contents s @ [x]"
    and enq_err: "inv s \<Longrightarrow> enq x s = Inl e \<Longrightarrow> e = AuroraException"
begin

lemma enq_all:
  "inv s \<Longrightarrow> fold_result enq xs s = Inr s' \<Longrightarrow> inv s' \<and> contents s' = contents s @ xs"
proof (induction xs arbitrary: s)
  case Nil
  then show ?case by simp
next
  case (Cons x xs)
  then obtain t where t: "enq x s = Inr t" "fold_result enq xs t = Inr s'" by auto
  with Cons.prems(1) have "inv t" "contents t = contents s @ [x]" using enq_law by blast+
  with Cons.IH t(2) show ?case by auto
qed

text \<open>Tuples come out in the order they went in.\<close>

lemma enq_all_drain:
  assumes "inv s" "fold_result enq xs s = Inr s'"
  shows "\<exists>s''. drain avail front deq [] s' = Some (Inr (contents s @ xs, s'')) \<and> contents s'' = []"
  using enq_all [OF assms] drain_all [of s' "[]"] by auto

end

section \<open>Several queues on shared storage\<close>

text \<open>
  Queues that draw their pages from one pool: an operation on one of them leaves the contents
  of the others alone. \<open>inv Q s\<close> says that exactly the queues of \<open>Q\<close> are live.
\<close>

locale fifo_family =
  fixes inv :: "'q set \<Rightarrow> 's \<Rightarrow> bool"
    and contents :: "'s \<Rightarrow> 'q \<Rightarrow> 'a list"
    and avail :: "'q \<Rightarrow> 's \<Rightarrow> bool"
    and front :: "'q \<Rightarrow> 's \<Rightarrow> 'a"
    and deq :: "'q \<Rightarrow> 's \<Rightarrow> 's result"
    and enq :: "'q \<Rightarrow> 'a \<Rightarrow> 's \<Rightarrow> 's result"
  assumes avail_law: "inv Q s \<Longrightarrow> q \<in> Q \<Longrightarrow> avail q s \<longleftrightarrow> contents s q \<noteq> []"
    and front_law: "inv Q s \<Longrightarrow> q \<in> Q \<Longrightarrow> contents s q \<noteq> [] \<Longrightarrow> front q s = hd (contents s q)"
    and deq_law: "inv Q s \<Longrightarrow> q \<in> Q \<Longrightarrow> contents s q \<noteq> [] \<Longrightarrow>
      \<exists>s'. deq q s = Inr s' \<and> inv Q s' \<and> contents s' q = tl (contents s q) \<and>
        (\<forall>r \<in> Q - {q}. contents s' r = contents s r)"
    and enq_law: "inv Q s \<Longrightarrow> q \<in> Q \<Longrightarrow> enq q x s = Inr s' \<Longrightarrow>
      inv Q s' \<and> contents s' q = contents s q @ [x] \<and>
      (\<forall>r \<in> Q - {q}. contents s' r = contents s r)"
    and enq_err: "inv Q s \<Longrightarrow> q \<in> Q \<Longrightarrow> enq q x s = Inl e \<Longrightarrow> e = AuroraException"
begin

lemma member: "q \<in> Q \<Longrightarrow> fifo (inv Q) (\<lambda>s. contents s q) (avail q) (front q) (deq q) (enq q)"
proof (unfold_locales, goal_cases)
  case (1 s)
  then show ?case by (simp add: avail_law)
next
  case (2 s)
  then show ?case by (simp add: front_law)
next
  case (3 s)
  then show ?case using deq_law [of Q s q] by blast
next
  case (4 s x s')
  then show ?case using enq_law by blast
next
  case (5 s x e)
  then show ?case using enq_err by blast
qed

text \<open>One tuple multicast to a list of queues: a queue gets a copy for each time it is listed.\<close>

lemma enq_multicast:
  "inv Q s \<Longrightarrow> set qs \<subseteq> Q \<Longrightarrow> fold_result (\<lambda>q. enq q x) qs s = Inr s' \<Longrightarrow>
   inv Q s' \<and> (\<forall>r \<in> Q. contents s' r = contents s r @ replicate (count_list qs r) x)"
proof (induction qs arbitrary: s)
  case Nil
  then show ?case by simp
next
  case (Cons q qs)
  then obtain t where t: "enq q x s = Inr t" "fold_result (\<lambda>q. enq q x) qs t = Inr s'" by auto
  from Cons.prems enq_law [OF Cons.prems(1) _ t(1)] have inv: "inv Q t"
    and own: "contents t q = contents s q @ [x]"
    and other: "\<forall>r \<in> Q - {q}. contents t r = contents s r" by auto
  from Cons.IH [OF inv _ t(2)] Cons.prems(2) have
    "inv Q s'" "\<forall>r \<in> Q. contents s' r = contents t r @ replicate (count_list qs r) x" by auto
  moreover have "contents s' r = contents s r @ replicate (count_list (q # qs) r) x" if "r \<in> Q" for r
    using calculation(2) own other that by (cases "r = q") simp_all
  ultimately show ?case by blast
qed

lemma enq_multicast_err:
  "inv Q s \<Longrightarrow> set qs \<subseteq> Q \<Longrightarrow> fold_result (\<lambda>q. enq q x) qs s = Inl e \<Longrightarrow> e = AuroraException"
proof (induction qs arbitrary: s)
  case Nil
  then show ?case by simp
next
  case (Cons q qs)
  show ?case
  proof (cases "enq q x s")
    case (Inl e')
    with Cons.prems enq_err show ?thesis by auto
  next
    case (Inr t)
    with Cons enq_law [OF Cons.prems(1) _ Inr] show ?thesis by auto
  qed
qed

end

end
