(* ===== verification/Tuple_Queue_Ops.thy ===== *)
theory Tuple_Queue_Ops
  imports Tuple_Queue Queue_Interface
begin

text \<open>
  The life cycle of a tuple queue (constructor, \<open>empty()\<close>, destructor), the bulk operations,
  and the \<open>fifo\<close> contract discharged by the queue of \<open>Tuple_Queue\<close>.
\<close>

section \<open>The contract of the queue\<close>

definition tq_inv :: "queue_state \<Rightarrow> bool" where
  "tq_inv = (\<lambda>(h, p, q). \<exists>ps i j fl. queue_ok h p q ps i j fl)"

lemma tq_invI: "queue_ok h p q ps i j fl \<Longrightarrow> tq_inv (h, p, q)"
  by (auto simp: tq_inv_def)

lemma enq_post_inv: "enq_post x s ps i fl s' \<Longrightarrow> tq_inv s' \<and> TupleQueue_abs s' = TupleQueue_abs s @ [x]"
  by (auto simp: enq_post_def tq_inv_def split: prod.splits)

lemma deq_post_inv: "deq_post s ps j fl s' \<Longrightarrow> tq_inv s' \<and> TupleQueue_abs s' = tl (TupleQueue_abs s)"
  by (auto simp: deq_post_def tq_inv_def split: prod.splits)

lemma enq_fails:
  assumes "queue_ok h p q ps i j fl" "TupleQueue_enq x (h, p, q) = Inl e"
  shows "e = AuroraException" "fl = []"
proof -
  show "fl = []" using enq_total [OF assms(1), of x] assms(2) by auto
  moreover have "\<not> Suc j < tuples_per_page q" using enq_total [OF assms(1), of x] assms(2) by auto
  then have "Suc j = tuples_per_page q" using tq_shapeD(13) [OF queue_okD(2) [OF assms(1)]] by simp
  ultimately show "e = AuroraException" using enq_exhausted assms by fastforce
qed

interpretation tqi: fifo tq_inv TupleQueue_abs DeqIterator_avail DeqIterator_tuple
  DeqIterator_incr TupleQueue_enq
proof
  fix s s' :: queue_state and x :: tuple and e :: err
  assume "tq_inv s"
  then obtain h p q ps i j fl where s: "s = (h, p, q)" and ok: "queue_ok h p q ps i j fl"
    by (auto simp: tq_inv_def)
  note sh = queue_okD(2) [OF ok]
  show "DeqIterator_avail s = (TupleQueue_abs s \<noteq> [])"
    using tq_shape_avail [OF sh] by (simp add: s TupleQueue_abs_def)
  show "DeqIterator_tuple s = hd (TupleQueue_abs s)" if "TupleQueue_abs s \<noteq> []"
    using that deq_tuple [OF sh] by (simp add: s TupleQueue_abs_def)
  show "\<exists>s'. DeqIterator_incr s = Inr s' \<and> tq_inv s' \<and> TupleQueue_abs s' = tl (TupleQueue_abs s)"
    if "TupleQueue_abs s \<noteq> []"
    using that deq_refines [OF ok] deq_post_inv unfolding s by blast
  show "tq_inv s' \<and> TupleQueue_abs s' = TupleQueue_abs s @ [x]" if "TupleQueue_enq x s = Inr s'"
    using that enq_refines [OF ok] enq_post_inv unfolding s by blast
  show "e = AuroraException" if "TupleQueue_enq x s = Inl e"
    using that enq_fails(1) [OF ok] unfolding s by blast
qed

section \<open>Constructor and destructor\<close>

lemma tq_shape_initial:
  assumes "page \<in> set (pool_pages p)" "page \<noteq> 0" "hnext h page = 0"
    and "0 < tuple_size q" "0 < tuples_per_page q"
    and "tuples_per_page q = (page_size p - PageHdr_size) div tuple_size q"
    and "enq_count q = 0" "deq_count q = 0" "enq_page q = page" "deq_page q = page"
    and "enq_location q = page + PageHdr_size" "deq_location q = page + PageHdr_size"
  shows "tq_shape h p q [page] 0 0" "TupleQueue_abs (h, p, q) = []"
proof -
  show sh: "tq_shape h p q [page] 0 0"
    using assms by (simp add: tq_shape_def length_cells_between)
  show "TupleQueue_abs (h, p, q) = []"
    using tq_shape_derived(5) [OF sh] by (simp add: TupleQueue_abs_def cells_between_def)
qed

lemma pool_inv_page_size:
  assumes "pool_inv h p fl" "fl \<noteq> []"
  shows "page_size p < 2 ^ 32"
proof -
  have "0 < capacity p" using assms by (cases "capacity p") (auto simp: pool_inv_def pool_pages_def)
  then have "page_size p \<le> capacity p * page_size p" by simp
  also have "\<dots> < 2 ^ 32" using assms by (simp add: pool_inv_def)
  finally show ?thesis .
qed

lemma u32_sub_page_hdr:
  assumes "pool_inv h p fl" "fl \<noteq> []" "PageHdr_size \<le> page_size p"
  shows "u32_sub (page_size p) PageHdr_size = page_size p - PageHdr_size"
  using assms by (intro u32_sub_le) (simp_all add: pool_inv_page_size [OF assms(1,2), simplified])

text \<open>
  On a pool with a free page, and pages that hold at least one tuple, the constructor yields
  an empty queue that owns exactly the first free page.
\<close>

lemma TupleQueue_new_ok:
  assumes inv: "pool_inv h p (page # fl)" and ts: "0 < tsize" "PageHdr_size + tsize \<le> page_size p"
  shows "\<exists>h' p' q. TupleQueue_new tsize h p = Inr (h', p', q) \<and> queue_ok h' p' q [page] 0 0 fl \<and>
     TupleQueue_abs (h', p', q) = [] \<and> tuple_size q = tsize \<and> same_geometry p p' \<and>
     frame_outside p {page} h h'"
proof -
  from PagePool_alloc_Cons [OF inv] obtain p' where al: "PagePool_alloc h p = Inr (page, p')"
    and inv': "pool_inv h p' fl" and geo: "same_geometry p p'" by (auto simp: same_geometry_def)
  have tpp: "0 < (page_size p - PageHdr_size) div tsize" using ts by (simp add: div_greater_zero_iff)
  have "PageHdr_size \<le> page_size p" using ts by simp
  note sub = u32_sub_page_hdr [OF inv _ this]
  let ?q = "\<lparr>tuple_size = tsize, tuples_per_page = (page_size p - PageHdr_size) div tsize,
       enq_count = 0, deq_count = 0, last_timestamp = Timestamp_zero,
       enq_page = page, enq_location = page + PageHdr_size,
       deq_page = page, deq_location = page + PageHdr_size\<rparr>"
  have page: "page \<in> set (pool_pages p)" "page \<noteq> 0" "page \<notin> set fl"
    using inv by (auto simp: pool_inv_def)
  have new: "TupleQueue_new tsize h p = Inr (write_next page 0 h, p', ?q)"
    using ts tpp sub by (simp add: TupleQueue_new_def Let_def al)
  have "tq_shape (write_next page 0 h) p' ?q [page] 0 0 \<and> TupleQueue_abs (write_next page 0 h, p', ?q) = []"
    using page ts(1) tpp geo by (intro conjI tq_shape_initial [of page]) (simp_all add: same_geometry_def)
  moreover have "pool_inv (write_next page 0 h) p' fl" using inv' page(3) by simp
  ultimately show ?thesis
    using new page geo by (simp add: queue_ok_def frame_outside_write_next)
qed

lemma TupleQueue_new_exhausted:
  assumes "pool_inv h p []" "0 < tsize" "0 < u32_sub (page_size p) PageHdr_size div tsize"
  shows "TupleQueue_new tsize h p = Inl AuroraException"
  using assms by (simp add: TupleQueue_new_def Let_def PagePool_alloc_Nil)

lemma frame_outside_geometry:
  "same_geometry p p1 \<Longrightarrow> frame_outside p1 Q h h' = frame_outside p Q h h'"
  by (simp add: frame_outside_def same_geometry_def)

text \<open>The destructor's loop gives every page of the chain back; \<open>next\<close> is read before the free.\<close>

lemma free_chain_ok:
  "chain (hnext h) a ps 0 \<Longrightarrow> distinct ps \<Longrightarrow> set ps \<subseteq> set (pool_pages p) \<Longrightarrow> set ps \<inter> set fl = {} \<Longrightarrow>
   pool_inv h p fl \<Longrightarrow> length ps < fuel \<Longrightarrow>
   \<exists>h' p'. free_chain fuel a h p = Some (Inr (h', p')) \<and> pool_inv h' p' (rev ps @ fl) \<and>
     same_geometry p p' \<and> frame_outside p (set ps) h h' \<and> hdata h' = hdata h"
proof (induction ps arbitrary: a h p fl fuel)
  case Nil
  then show ?case by (cases fuel) auto
next
  case (Cons x xs)
  then obtain n where n: "fuel = Suc n" by (cases fuel) auto
  from Cons.prems have x: "a = x" "x \<noteq> 0" "x \<notin> set xs" "x \<in> set (pool_pages p)" "x \<notin> set fl" by auto
  from PagePool_free_ok [OF Cons.prems(5) x(4,5)] obtain p1 where
    fr: "PagePool_free x h p = Inr (write_next x (free_list p) h, p1)"
    and inv1: "pool_inv (write_next x (free_list p) h) p1 (x # fl)"
    and geo: "same_geometry p p1" by (auto simp: same_geometry_def)
  let ?h = "write_next x (free_list p) h"
  have "chain (hnext ?h) (hnext h x) xs 0" using Cons.prems(1) x by simp
  moreover have "set xs \<subseteq> set (pool_pages p1)" "set xs \<inter> set (x # fl) = {}"
    using Cons.prems geo x(3) by (auto simp: same_geometry_def)
  moreover have "distinct xs" "length xs < n" using Cons.prems(2,6) n by simp_all
  ultimately have "\<exists>h' p'. free_chain n (hnext h x) ?h p1 = Some (Inr (h', p')) \<and>
     pool_inv h' p' (rev xs @ x # fl) \<and> same_geometry p1 p' \<and> frame_outside p1 (set xs) ?h h' \<and>
     hdata h' = hdata ?h"
    using Cons.IH inv1 by blast
  then obtain h' p' where rec: "free_chain n (hnext h x) ?h p1 = Some (Inr (h', p'))"
    "pool_inv h' p' (rev xs @ x # fl)" "same_geometry p1 p'" "frame_outside p1 (set xs) ?h h'"
    "hdata h' = hdata ?h" by blast
  have "frame_outside p1 (set (x # xs)) ?h h'" by (rule frame_outside_mono [OF rec(4)]) auto
  then have "frame_outside p (set (x # xs)) ?h h'"
    unfolding frame_outside_geometry [OF geo] .
  moreover have "frame_outside p (set (x # xs)) h ?h" by (rule frame_outside_write_next) simp
  ultimately have "frame_outside p (set (x # xs)) h h'" using frame_outside_trans by blast
  moreover have "free_chain fuel a h p = Some (Inr (h', p'))" using fr rec(1) x(1,2) by (simp add: n)
  moreover have "same_geometry p p'" using geo rec(3) by (simp add: same_geometry_def)
  moreover have "pool_inv h' p' (rev (x # xs) @ fl)" using rec(2) by simp
  moreover have "hdata h' = hdata h" using rec(5) by simp
  ultimately show ?case by blast
qed

lemma queue_chain_length:
  assumes "queue_ok h p q ps i j fl"
  shows "length ps \<le> capacity p"
  using queue_okD(2) [OF assms] by (intro subset_pages_length) (simp_all add: tq_shape_def)

lemma free_queue_chain:
  assumes ok: "queue_ok h p q ps i j fl"
  shows "\<exists>h' p'. free_chain (Suc (capacity p)) (deq_page q) h p = Some (Inr (h', p')) \<and>
     pool_inv h' p' (rev ps @ fl) \<and> same_geometry p p' \<and> frame_outside p (set ps) h h' \<and>
     hdata h' = hdata h"
  using free_chain_ok [of h "deq_page q" ps p fl "Suc (capacity p)"] queue_chain_length [OF ok]
    queue_okD [OF ok] tq_shapeD(2-4) [OF queue_okD(2) [OF ok]] by simp

lemma TupleQueue_delete_ok:
  assumes ok: "queue_ok h p q ps i j fl"
  shows "\<exists>h' p'. TupleQueue_delete (h, p, q) = Some (Inr (h', p')) \<and>
     pool_inv h' p' (rev ps @ fl) \<and> same_geometry p p' \<and> frame_outside p (set ps) h h'"
  using free_queue_chain [OF ok] by (auto simp: TupleQueue_delete_def)

lemma TupleQueue_empty_ok:
  assumes ok: "queue_ok h p q ps i j fl"
  shows "\<exists>h' p' q'. TupleQueue_empty (h, p, q) = Some (Inr (h', p', q')) \<and>
     queue_ok h' p' q' [last ps] 0 0 (tl (rev ps @ fl)) \<and> TupleQueue_abs (h', p', q') = [] \<and>
     same_geometry p p' \<and> frame_outside p (set ps) h h' \<and> TupleQueue_size q' = 0"
proof -
  note s = tq_shapeD [OF queue_okD(2) [OF ok]]
  obtain page rest where r: "rev ps @ fl = page # rest" "page = last ps"
    using s(1) by (cases ps rule: rev_cases) auto
  from free_queue_chain [OF ok] obtain h1 p1 where
    fc: "free_chain (Suc (capacity p)) (deq_page q) h p = Some (Inr (h1, p1))"
    and inv1: "pool_inv h1 p1 (page # rest)" and geo1: "same_geometry p p1"
    and fr1: "frame_outside p (set ps) h h1" unfolding r(1) by auto
  from PagePool_alloc_Cons [OF inv1] obtain p2 where al: "PagePool_alloc h1 p1 = Inr (page, p2)"
    and inv2: "pool_inv h1 p2 rest" and geo2: "same_geometry p1 p2" by (auto simp: same_geometry_def)
  let ?q = "q\<lparr>enq_count := 0, deq_count := 0, enq_page := page, deq_page := page,
              enq_location := page + PageHdr_size, deq_location := page + PageHdr_size\<rparr>"
  let ?h = "write_next page 0 h1"
  have page: "page \<in> set (pool_pages p2)" "page \<noteq> 0" "page \<notin> set rest" "page \<in> set ps"
    using inv1 geo2 r(2) s(1) by (auto simp: pool_inv_def same_geometry_def)
  have "tq_shape ?h p2 ?q [page] 0 0 \<and> TupleQueue_abs (?h, p2, ?q) = []"
    using page s(7-9) geo1 geo2
    by (intro conjI tq_shape_initial [of page]) (simp_all add: same_geometry_def)
  moreover have "pool_inv ?h p2 rest" using inv2 page(3) by simp
  moreover have "TupleQueue_empty (h, p, q) = Some (Inr (?h, p2, ?q))"
    by (simp add: TupleQueue_empty_def fc al del: free_chain.simps)
  moreover have "frame_outside p (set ps) h ?h"
    using fr1 page(4) by (intro frame_outside_trans [OF _ frame_outside_write_next])
  moreover have "TupleQueue_size ?q = 0" by (simp add: TupleQueue_size_def u32_sub_def Let_def)
  ultimately show ?thesis
    using geo1 geo2 page r by (simp add: queue_ok_def same_geometry_def)
qed

section \<open>Bulk operations\<close>

definition TupleQueue_dequeue_all :: "queue_state \<Rightarrow> (tuple list \<times> queue_state) result option" where
  "TupleQueue_dequeue_all s = drain DeqIterator_avail DeqIterator_tuple DeqIterator_incr [] s"

text \<open>
  The tuples copied into the buffer are returned as a list, with their count. The description
  passed in gives the tuple size; zero divides by zero.
\<close>

definition TupleQueue_dequeue_to_buffer ::
  "nat \<Rightarrow> nat \<Rightarrow> queue_state \<Rightarrow> ((tuple list \<times> nat) \<times> queue_state) result" where
  "TupleQueue_dequeue_to_buffer buffer_size tsize s =
     (if tsize = 0 then Inl Undefined else
      let max_tuples = buffer_size div tsize
      in if max_tuples = 0 then Inl AuroraException
         else rbind (drain_upto DeqIterator_avail DeqIterator_tuple DeqIterator_incr max_tuples [] s)
                (\<lambda>(buffer, s'). Inr ((buffer, length buffer), s')))"

text \<open>\<open>get_staleness\<close>, with the current time as an argument.\<close>

definition TupleQueue_get_staleness :: "timestamp \<Rightarrow> tuple_queue \<Rightarrow> int" where
  "TupleQueue_get_staleness now q =
     (if Timestamp_eq (last_timestamp q) Timestamp_zero then 0
      else Timestamp_to_msecs (Timestamp_minus now (last_timestamp q)))"

lemma dequeue_all_ok:
  "tq_inv s \<Longrightarrow> \<exists>s'. TupleQueue_dequeue_all s = Some (Inr (TupleQueue_abs s, s')) \<and>
     tq_inv s' \<and> TupleQueue_abs s' = []"
  using tqi.drain_all [of s "[]"] by (simp add: TupleQueue_dequeue_all_def)

lemma dequeue_to_buffer_ok:
  assumes "tq_inv s" "0 < tsize" "tsize \<le> bsize"
  shows "\<exists>s'. TupleQueue_dequeue_to_buffer bsize tsize s =
      Inr ((take (bsize div tsize) (TupleQueue_abs s),
            min (length (TupleQueue_abs s)) (bsize div tsize)), s') \<and>
      tq_inv s' \<and> TupleQueue_abs s' = drop (bsize div tsize) (TupleQueue_abs s)"
proof -
  have n: "bsize div tsize \<noteq> 0" using assms(2,3) by (simp add: div_eq_0_iff)
  from tqi.drain_upto_take [OF assms(1), of "bsize div tsize" "[]"] n assms(2) show ?thesis
    by (auto simp: TupleQueue_dequeue_to_buffer_def Let_def min.commute)
qed

lemma enqueue_multiple_dequeue_all:
  assumes "tq_inv s" "TupleQueue_enqueue_multiple xs s = Inr s'"
  shows "\<exists>s''. TupleQueue_dequeue_all s' = Some (Inr (TupleQueue_abs s @ xs, s'')) \<and>
     TupleQueue_abs s'' = []"
  using tqi.enq_all_drain [OF assms(1), of xs s'] assms(2)
  by (simp add: TupleQueue_enqueue_multiple_def TupleQueue_dequeue_all_def)

end
