(* ===== verification/Queue_Store.thy ===== *)
theory Queue_Store
  imports Tuple_Queue_Ops
begin

text \<open>
  All the tuple queues of a node: they share one heap and one page pool. A pointer to a
  \<open>TupleQueue\<close> is a queue name; the operations are those of \<open>Tuple_Queue\<close> on the named queue.
  The live queues own disjoint sets of pages, so an operation on one does not show in another.
\<close>

type_synonym qid = nat

record store =
  st_heap :: heap
  st_pool :: page_pool
  st_queue :: "qid \<Rightarrow> tuple_queue"

definition store_view :: "qid \<Rightarrow> store \<Rightarrow> queue_state" where
  "store_view q st = (st_heap st, st_pool st, st_queue st q)"

definition store_put :: "qid \<Rightarrow> store \<Rightarrow> queue_state \<Rightarrow> store" where
  "store_put q st = (\<lambda>(h, p, tq).
     st\<lparr>st_heap := h, st_pool := p, st_queue := (st_queue st)(q := tq)\<rparr>)"

definition store_enq :: "qid \<Rightarrow> tuple \<Rightarrow> store \<Rightarrow> store result" where
  "store_enq q x st = rbind (TupleQueue_enq x (store_view q st)) (\<lambda>s. Inr (store_put q st s))"

definition store_avail :: "qid \<Rightarrow> store \<Rightarrow> bool" where
  "store_avail q st = DeqIterator_avail (store_view q st)"

definition store_front :: "qid \<Rightarrow> store \<Rightarrow> tuple" where
  "store_front q st = DeqIterator_tuple (store_view q st)"

definition store_deq :: "qid \<Rightarrow> store \<Rightarrow> store result" where
  "store_deq q st = rbind (DeqIterator_incr (store_view q st)) (\<lambda>s. Inr (store_put q st s))"

definition store_size :: "qid \<Rightarrow> store \<Rightarrow> int" where
  "store_size q st = TupleQueue_size (st_queue st q)"

definition store_new :: "qid \<Rightarrow> nat \<Rightarrow> store \<Rightarrow> store result" where
  "store_new q tsize st =
     rbind (TupleQueue_new tsize (st_heap st) (st_pool st)) (\<lambda>s. Inr (store_put q st s))"

definition store_contents :: "store \<Rightarrow> qid \<Rightarrow> tuple list" where
  "store_contents st q = TupleQueue_abs (store_view q st)"

section \<open>Invariant\<close>

text \<open>\<open>ps q\<close> are the pages of queue \<open>q\<close>, \<open>fl\<close> the free pages.\<close>

definition pages_ok ::
  "qid set \<Rightarrow> store \<Rightarrow> (qid \<Rightarrow> addr list) \<Rightarrow> (qid \<Rightarrow> nat) \<Rightarrow> (qid \<Rightarrow> nat) \<Rightarrow> addr list \<Rightarrow> bool" where
  "pages_ok Q st ps i j fl \<longleftrightarrow> pool_inv (st_heap st) (st_pool st) fl \<and>
     (\<forall>q \<in> Q. tq_shape (st_heap st) (st_pool st) (st_queue st q) (ps q) (i q) (j q) \<and>
        set (ps q) \<inter> set fl = {}) \<and>
     (\<forall>q \<in> Q. \<forall>r \<in> Q. q \<noteq> r \<longrightarrow> set (ps q) \<inter> set (ps r) = {})"

definition store_ok :: "qid set \<Rightarrow> store \<Rightarrow> bool" where
  "store_ok Q st \<longleftrightarrow> (\<exists>ps i j fl. pages_ok Q st ps i j fl)"

lemma pages_ok_member:
  "pages_ok Q st ps i j fl \<Longrightarrow> q \<in> Q \<Longrightarrow>
   queue_ok (st_heap st) (st_pool st) (st_queue st q) (ps q) (i q) (j q) fl"
  by (simp add: pages_ok_def queue_ok_def)

lemma pages_okD:
  assumes "pages_ok Q st ps i j fl"
  shows "pool_inv (st_heap st) (st_pool st) fl"
    "q \<in> Q \<Longrightarrow> tq_shape (st_heap st) (st_pool st) (st_queue st q) (ps q) (i q) (j q)"
    "q \<in> Q \<Longrightarrow> set (ps q) \<inter> set fl = {}"
    "q \<in> Q \<Longrightarrow> r \<in> Q \<Longrightarrow> q \<noteq> r \<Longrightarrow> set (ps q) \<inter> set (ps r) = {}"
  using assms by (simp_all add: pages_ok_def)

text \<open>
  One queue moves from \<open>(h, p, q)\<close> to \<open>(h', p', q')\<close> within its own and the free pages: the
  store stays well formed and the other queues keep their contents.
\<close>

lemma pages_ok_step:
  assumes ok: "pages_ok Q st ps i j fl" and q: "q \<in> Q"
    and new: "queue_ok h' p' tq ps' i' j' fl'" "set ps' \<union> set fl' = set (ps q) \<union> set fl"
    and geo: "same_geometry (st_pool st) p'"
    and fr: "frame_outside (st_pool st) (set (ps q) \<union> set fl) (st_heap st) h'"
  defines "st' \<equiv> store_put q st (h', p', tq)"
  shows "store_ok Q st'" "\<forall>r \<in> Q - {q}. store_contents st' r = store_contents st r"
proof -
  let ?ps = "ps(q := ps')" and ?i = "i(q := i')" and ?j = "j(q := j')"
  have other: "tq_shape h' p' (st_queue st r) (ps r) (i r) (j r)"
    "TupleQueue_abs (h', p', st_queue st r) = TupleQueue_abs (st_heap st, st_pool st, st_queue st r)"
    "set (ps r) \<inter> (set ps' \<union> set fl') = {}"
    if "r \<in> Q" "r \<noteq> q" for r
  proof -
    have dis: "set (ps r) \<inter> (set (ps q) \<union> set fl) = {}" and
      sh: "tq_shape (st_heap st) (st_pool st) (st_queue st r) (ps r) (i r) (j r)"
      using pages_okD(2,3) [OF ok that(1)] pages_okD(4) [OF ok that(1) q that(2)] by auto
    show "set (ps r) \<inter> (set ps' \<union> set fl') = {}" using dis new(2) by simp
    have geo': "pool_pages p' = pool_pages (st_pool st)" "page_size p' = page_size (st_pool st)"
      "capacity p' = capacity (st_pool st)" using geo by (simp_all add: same_geometry_def)
    show "tq_shape h' p' (st_queue st r) (ps r) (i r) (j r)"
      "TupleQueue_abs (h', p', st_queue st r) = TupleQueue_abs (st_heap st, st_pool st, st_queue st r)"
      using tq_shape_frame [OF sh fr dis geo'] by blast+
  qed
  have "pages_ok Q st' ?ps ?i ?j fl'"
    unfolding pages_ok_def
  proof (intro conjI ballI impI)
    show "pool_inv (st_heap st') (st_pool st') fl'"
      using queue_okD(1) [OF new(1)] by (simp add: st'_def store_put_def)
    show "tq_shape (st_heap st') (st_pool st') (st_queue st' r) (?ps r) (?i r) (?j r)" if "r \<in> Q" for r
      using that other(1) queue_okD(2) [OF new(1)] by (simp add: st'_def store_put_def)
    show "set (?ps r) \<inter> set fl' = {}" if "r \<in> Q" for r
      using that other(3) [of r] queue_okD(3) [OF new(1)] by auto
    show "set (?ps r) \<inter> set (?ps r') = {}" if "r \<in> Q" "r' \<in> Q" "r \<noteq> r'" for r r'
      using that other(3) [of r] other(3) [of r'] pages_okD(4) [OF ok that] by auto
  qed
  then show "store_ok Q st'" by (auto simp: store_ok_def)
  show "\<forall>r \<in> Q - {q}. store_contents st' r = store_contents st r"
    using other(2) by (simp add: store_contents_def store_view_def st'_def store_put_def)
qed

lemma store_contents_put [simp]: "store_contents (store_put q st s) q = TupleQueue_abs s"
  by (cases s) (simp add: store_contents_def store_view_def store_put_def)

interpretation sto: fifo_family store_ok store_contents store_avail store_front store_deq store_enq
proof
  fix Q :: "qid set" and st st' :: store and q :: qid and x :: tuple and e :: err
  assume st: "store_ok Q st" and q: "q \<in> Q"
  then obtain ps i j fl where pok: "pages_ok Q st ps i j fl" by (auto simp: store_ok_def)
  note ok = pages_ok_member [OF pok q]
  have inv: "tq_inv (store_view q st)" using tq_invI [OF ok] by (simp add: store_view_def)
  show "store_avail q st = (store_contents st q \<noteq> [])"
    using tqi.avail_law [OF inv] by (simp add: store_avail_def store_contents_def)
  show "store_front q st = hd (store_contents st q)" if "store_contents st q \<noteq> []"
    using tqi.front_law [OF inv] that by (simp add: store_front_def store_contents_def)
  show "\<exists>s'. store_deq q st = Inr s' \<and> store_ok Q s' \<and> store_contents s' q = tl (store_contents st q) \<and>
      (\<forall>r \<in> Q - {q}. store_contents s' r = store_contents st r)"
    if "store_contents st q \<noteq> []"
  proof -
    have "TupleQueue_abs (st_heap st, st_pool st, st_queue st q) \<noteq> []"
      using that by (simp add: store_contents_def store_view_def)
    from deq_refines [OF ok this] obtain h' p' tq ps' i' fl' where
      d: "DeqIterator_incr (store_view q st) = Inr (h', p', tq)"
      and n: "queue_ok h' p' tq ps' i' (j q) fl'" "set ps' \<union> set fl' = set (ps q) \<union> set fl"
        "same_geometry (st_pool st) p'" "frame_outside (st_pool st) (set (ps q) \<union> set fl) (st_heap st) h'"
      and abs: "TupleQueue_abs (h', p', tq) = tl (TupleQueue_abs (store_view q st))"
      by (auto simp: deq_post_def store_view_def)
    from pages_ok_step [OF pok q n] abs d show ?thesis
      by (simp add: store_deq_def store_contents_def [of st q])
  qed
  show "store_ok Q st' \<and> store_contents st' q = store_contents st q @ [x] \<and>
      (\<forall>r \<in> Q - {q}. store_contents st' r = store_contents st r)"
    if "store_enq q x st = Inr st'"
  proof -
    from that obtain h' p' tq where e: "TupleQueue_enq x (store_view q st) = Inr (h', p', tq)"
      and st': "st' = store_put q st (h', p', tq)" by (auto simp: store_enq_def)
    from enq_refines [OF ok] e obtain ps' j' fl' where
      n: "queue_ok h' p' tq ps' (i q) j' fl'" "set ps' \<union> set fl' = set (ps q) \<union> set fl"
        "same_geometry (st_pool st) p'" "frame_outside (st_pool st) (set (ps q) \<union> set fl) (st_heap st) h'"
      and abs: "TupleQueue_abs (h', p', tq) = TupleQueue_abs (store_view q st) @ [x]"
      by (fastforce simp: enq_post_def store_view_def)
    from pages_ok_step [OF pok q n] abs show ?thesis
      by (simp add: st' store_contents_def [of st q])
  qed
  show "e = AuroraException" if "store_enq q x st = Inl e"
  proof (cases "TupleQueue_enq x (store_view q st)")
    case (Inl e')
    with that enq_fails(1) [OF ok] show ?thesis by (simp add: store_enq_def store_view_def)
  next
    case (Inr s)
    with that show ?thesis by (simp add: store_enq_def)
  qed
qed

text \<open>The sizes the code reads are the lengths of the contents.\<close>

lemma store_size_length:
  assumes "store_ok Q st" "q \<in> Q" "2 \<le> tuple_size (st_queue st q)"
  shows "store_size q st = int (length (store_contents st q))"
proof -
  from assms(1) obtain ps i j fl where pok: "pages_ok Q st ps i j fl" by (auto simp: store_ok_def)
  from TupleQueue_size_length [OF pages_ok_member [OF pok assms(2)] assms(3)] show ?thesis
    by (simp add: store_size_def store_contents_def store_view_def)
qed

lemma same_tuple_size:
  "TupleQueue_enq x s = Inr s' \<Longrightarrow> tuple_size (snd (snd s')) = tuple_size (snd (snd s))"
  "DeqIterator_incr s = Inr s' \<Longrightarrow> tuple_size (snd (snd s')) = tuple_size (snd (snd s))"
  by (auto simp: TupleQueue_enq_def EnqIterator_incr_def EnqIterator_write_def DeqIterator_incr_def
      Let_def split: prod.splits if_splits)

lemma store_tuple_size:
  "store_enq q x st = Inr st' \<Longrightarrow> tuple_size (st_queue st' r) = tuple_size (st_queue st r)"
  "store_deq q st = Inr st' \<Longrightarrow> tuple_size (st_queue st' r) = tuple_size (st_queue st r)"
  using same_tuple_size
  by (fastforce simp: store_enq_def store_deq_def store_put_def store_view_def)+

text \<open>A new queue joins the live ones.\<close>

lemma store_new_ok:
  assumes ok: "pages_ok Q st ps i j (page # fl)" and q: "q \<notin> Q"
    and ts: "0 < tsize" "PageHdr_size + tsize \<le> page_size (st_pool st)"
  shows "\<exists>st'. store_new q tsize st = Inr st' \<and>
     pages_ok (insert q Q) st' (ps(q := [page])) (i(q := 0)) (j(q := 0)) fl \<and>
     store_contents st' q = [] \<and> (\<forall>r \<in> Q. store_contents st' r = store_contents st r) \<and>
     tuple_size (st_queue st' q) = tsize \<and> page_size (st_pool st') = page_size (st_pool st)"
proof -
  have inv: "pool_inv (st_heap st) (st_pool st) (page # fl)" using ok by (simp add: pages_ok_def)
  from TupleQueue_new_ok [OF inv ts] obtain h' p' tq where
    new: "TupleQueue_new tsize (st_heap st) (st_pool st) = Inr (h', p', tq)"
    and qok: "queue_ok h' p' tq [page] 0 0 fl" and abs: "TupleQueue_abs (h', p', tq) = []"
    and tsz: "tuple_size tq = tsize"
    and geo: "same_geometry (st_pool st) p'" and fr: "frame_outside (st_pool st) {page} (st_heap st) h'"
    by auto
  let ?st = "store_put q st (h', p', tq)"
  have other: "tq_shape h' p' (st_queue st r) (ps r) (i r) (j r)"
    "TupleQueue_abs (h', p', st_queue st r) = TupleQueue_abs (st_heap st, st_pool st, st_queue st r)"
    "set (ps r) \<inter> (insert page (set fl)) = {}" if "r \<in> Q" for r
  proof -
    have sh: "tq_shape (st_heap st) (st_pool st) (st_queue st r) (ps r) (i r) (j r)"
      and dis: "set (ps r) \<inter> (insert page (set fl)) = {}"
      using pages_okD(2,3) [OF ok that] by auto
    have geo': "pool_pages p' = pool_pages (st_pool st)" "page_size p' = page_size (st_pool st)"
      "capacity p' = capacity (st_pool st)" using geo by (simp_all add: same_geometry_def)
    have d: "set (ps r) \<inter> {page} = {}" using dis by auto
    show "tq_shape h' p' (st_queue st r) (ps r) (i r) (j r)"
      "TupleQueue_abs (h', p', st_queue st r) = TupleQueue_abs (st_heap st, st_pool st, st_queue st r)"
      "set (ps r) \<inter> (insert page (set fl)) = {}"
      using tq_shape_frame [OF sh fr d geo'] dis by blast+
  qed
  have "pages_ok (insert q Q) ?st (ps(q := [page])) (i(q := 0)) (j(q := 0)) fl"
    unfolding pages_ok_def
  proof (intro conjI ballI impI)
    let ?ps = "ps(q := [page])" and ?i = "i(q := 0)" and ?j = "j(q := 0)"
    show "pool_inv (st_heap ?st) (st_pool ?st) fl"
      using queue_okD(1) [OF qok] by (simp add: store_put_def)
    show "tq_shape (st_heap ?st) (st_pool ?st) (st_queue ?st r) (?ps r) (?i r) (?j r)"
      if "r \<in> insert q Q" for r
      using that other(1) queue_okD(2) [OF qok] by (auto simp: store_put_def)
    show "set (?ps r) \<inter> set fl = {}" if "r \<in> insert q Q" for r
      using that other(3) [of r] queue_okD(3) [OF qok] by auto
    show "set (?ps r) \<inter> set (?ps r') = {}" if "r \<in> insert q Q" "r' \<in> insert q Q" "r \<noteq> r'" for r r'
      using that other(3) [of r] other(3) [of r'] pages_okD(4) [OF ok _ _ that(3)] by auto
  qed
  moreover have "\<forall>r \<in> Q. store_contents ?st r = store_contents st r"
    using other(2) q by (auto simp: store_contents_def store_view_def store_put_def)
  ultimately show ?thesis
    using new abs tsz geo by (simp add: store_new_def store_put_def same_geometry_def
        store_contents_def store_view_def)
qed

end
