(* ===== verification/Streams.thy ===== *)
theory Streams
  imports Queue_Store
begin

text \<open>
  Streams (queryProcessor/runtime/Stream.h, Stream.cc): a tuple written to a stream is copied to
  every attached queue and to the input queue of every box port the catalog lists as a sink;
  while the stream is buffering the tuples go to its own buffer queue, which is dumped in
  front of the next tuple written after buffering has stopped.
\<close>

section \<open>State\<close>

text \<open>
  A sink port names a catalog box (\<open>None\<close> is a null \<open>CatalogBox\<close>) and one of its ports; the
  node's table of running boxes gives, for a name, whether the box is passive and its input
  queues (\<open>None\<close> is a null queue pointer).
\<close>

record box_port =
  port_box :: "string option"
  port_nr :: nat

record sink_box =
  sink_is_passive :: bool
  input_queues :: "qid option list"

record stream =
  stream_buf :: tuple
  num_tuples_enqueued :: nat
  out_queues :: "qid list"
  sink_ports :: "box_port list"
  buffering :: bool
  tuple_buffer :: qid

type_synonym box_table = "string \<Rightarrow> sink_box option"

section \<open>Operations\<close>

definition Stream_add_queue :: "qid \<Rightarrow> stream \<Rightarrow> stream" where
  "Stream_add_queue q s = s\<lparr>out_queues := out_queues s @ [q]\<rparr>"

text \<open>
  \<open>std::remove\<close> on its own: the kept elements are moved to the front, the vector keeps its
  length and its tail the old values.
\<close>

definition std_remove :: "qid \<Rightarrow> qid list \<Rightarrow> qid list" where
  "std_remove q qs = (let kept = filter (\<lambda>r. r \<noteq> q) qs in kept @ drop (length kept) qs)"

definition Stream_remove_queue :: "qid \<Rightarrow> stream \<Rightarrow> stream" where
  "Stream_remove_queue q s = s\<lparr>out_queues := std_remove q (out_queues s)\<rparr>"

definition Stream_clear_queues :: "stream \<Rightarrow> stream" where
  "Stream_clear_queues s = s\<lparr>out_queues := []\<rparr>"

definition Stream_all_queues_empty :: "stream \<Rightarrow> store \<Rightarrow> bool" where
  "Stream_all_queues_empty s st \<longleftrightarrow> list_all (\<lambda>q. \<not> store_size q st > 0) (out_queues s)"

definition Stream_begin_buffering :: "stream \<Rightarrow> stream" where
  "Stream_begin_buffering s = s\<lparr>buffering := True\<rparr>"

definition Stream_stop_buffering :: "stream \<Rightarrow> stream" where
  "Stream_stop_buffering s = s\<lparr>buffering := False\<rparr>"

text \<open>The second loop of \<open>push_tuple\<close>: an invalid port ends it, the other misses are skipped.\<close>

fun push_to_ports :: "box_table \<Rightarrow> tuple \<Rightarrow> box_port list \<Rightarrow> store \<Rightarrow> store result" where
  "push_to_ports boxes x [] st = Inr st"
| "push_to_ports boxes x (i # is) st =
     (case port_box i of
        None \<Rightarrow> Inr st
      | Some name \<Rightarrow>
         (case boxes name of
            None \<Rightarrow> push_to_ports boxes x is st
          | Some b \<Rightarrow>
             if sink_is_passive b then push_to_ports boxes x is st
             else if port_nr i < length (input_queues b)
             then (case input_queues b ! port_nr i of
                     None \<Rightarrow> push_to_ports boxes x is st
                   | Some q \<Rightarrow> rbind (store_enq q x st) (push_to_ports boxes x is))
             else Inl Undefined))"

definition Stream_push_tuple :: "box_table \<Rightarrow> stream \<Rightarrow> tuple \<Rightarrow> store \<Rightarrow> store result" where
  "Stream_push_tuple boxes s x st =
     rbind (fold_result (\<lambda>q. store_enq q x) (out_queues s) st)
       (push_to_ports boxes x (sink_ports s))"

text \<open>The dump loop of \<open>enqueue_tuple\<close>; \<open>None\<close> would be a loop that never ends.\<close>

partial_function (option) stream_dump ::
  "(tuple \<Rightarrow> store \<Rightarrow> store result) \<Rightarrow> qid \<Rightarrow> store \<Rightarrow> store result option" where
  "stream_dump push b st =
     (if store_avail b st
      then (case rbind (push (store_front b st) st) (store_deq b) of
              Inl e \<Rightarrow> Some (Inl e)
            | Inr st' \<Rightarrow> stream_dump push b st')
      else Some (Inr st))"

definition Stream_enqueue_tuple ::
  "box_table \<Rightarrow> stream \<times> store \<Rightarrow> (stream \<times> store) result option" where
  "Stream_enqueue_tuple boxes = (\<lambda>(s, st).
     let s' = s\<lparr>num_tuples_enqueued := u32_inc (num_tuples_enqueued s)\<rparr>;
         push = Stream_push_tuple boxes s;
         done = (\<lambda>r. rbind r (\<lambda>st'. Inr (s', st')))
     in if buffering s
        then Some (done (store_enq (tuple_buffer s) (stream_buf s) st))
        else if store_size (tuple_buffer s) st > 0
        then map_option (\<lambda>r. done (rbind r (push (stream_buf s)))) (stream_dump push (tuple_buffer s) st)
        else Some (done (push (stream_buf s) st)))"

text \<open>\<open>notify_enq\<close>: the queues notified, in order; here a null box or queue is dereferenced.\<close>

fun notify_ports :: "box_table \<Rightarrow> box_port list \<Rightarrow> qid list result" where
  "notify_ports boxes [] = Inr []"
| "notify_ports boxes (i # is) =
     (case port_box i of
        None \<Rightarrow> Inl Undefined
      | Some name \<Rightarrow>
         (case boxes name of
            None \<Rightarrow> notify_ports boxes is
          | Some b \<Rightarrow>
             if port_nr i < length (input_queues b)
             then (case input_queues b ! port_nr i of
                     None \<Rightarrow> Inl Undefined
                   | Some q \<Rightarrow> rbind (notify_ports boxes is) (\<lambda>qs. Inr (q # qs)))
             else Inl Undefined))"

definition Stream_notify_enq :: "box_table \<Rightarrow> stream \<Rightarrow> qid list result" where
  "Stream_notify_enq boxes s =
     (if \<not> buffering s
      then rbind (notify_ports boxes (sink_ports s)) (\<lambda>qs. Inr (out_queues s @ qs))
      else Inr [])"

text \<open>What a client does: write a tuple through the iterator, or switch buffering.\<close>

datatype stream_op = Begin_buffering | Stop_buffering | Write tuple

fun stream_op_run :: "box_table \<Rightarrow> stream_op \<Rightarrow> stream \<times> store \<Rightarrow> (stream \<times> store) result option" where
  "stream_op_run boxes Begin_buffering (s, st) = Some (Inr (Stream_begin_buffering s, st))"
| "stream_op_run boxes Stop_buffering (s, st) = Some (Inr (Stream_stop_buffering s, st))"
| "stream_op_run boxes (Write x) (s, st) = Stream_enqueue_tuple boxes (s\<lparr>stream_buf := x\<rparr>, st)"

fun stream_run :: "box_table \<Rightarrow> stream_op list \<Rightarrow> stream \<times> store \<Rightarrow> (stream \<times> store) result option" where
  "stream_run boxes [] c = Some (Inr c)"
| "stream_run boxes (a # as) c =
     (case stream_op_run boxes a c of
        None \<Rightarrow> None
      | Some (Inl e) \<Rightarrow> Some (Inl e)
      | Some (Inr c') \<Rightarrow> stream_run boxes as c')"

fun written :: "stream_op list \<Rightarrow> tuple list" where
  "written [] = []"
| "written (Write x # as) = x # written as"
| "written (_ # as) = written as"

section \<open>Where a tuple goes\<close>

text \<open>The queues reached through the sink ports, and the absence of a port number out of range.\<close>

fun sink_targets :: "box_table \<Rightarrow> box_port list \<Rightarrow> qid list" where
  "sink_targets boxes [] = []"
| "sink_targets boxes (i # is) =
     (case port_box i of
        None \<Rightarrow> []
      | Some name \<Rightarrow>
         (case boxes name of
            None \<Rightarrow> sink_targets boxes is
          | Some b \<Rightarrow>
             if sink_is_passive b then sink_targets boxes is
             else (case input_queues b ! port_nr i of
                     None \<Rightarrow> sink_targets boxes is
                   | Some q \<Rightarrow> q # sink_targets boxes is)))"

definition ports_in_range :: "box_table \<Rightarrow> box_port list \<Rightarrow> bool" where
  "ports_in_range boxes is \<longleftrightarrow> list_all (\<lambda>i. case port_box i of None \<Rightarrow> True | Some name \<Rightarrow>
     (case boxes name of None \<Rightarrow> True | Some b \<Rightarrow> port_nr i < length (input_queues b))) is"

definition stream_targets :: "box_table \<Rightarrow> stream \<Rightarrow> qid list" where
  "stream_targets boxes s = out_queues s @ sink_targets boxes (sink_ports s)"

lemma push_to_ports_fold:
  "ports_in_range boxes is \<Longrightarrow>
   push_to_ports boxes x is st = fold_result (\<lambda>q. store_enq q x) (sink_targets boxes is) st"
proof (induction "is" arbitrary: st)
  case Nil
  then show ?case by simp
next
  case (Cons i "is")
  then have IH: "push_to_ports boxes x is = fold_result (\<lambda>q. store_enq q x) (sink_targets boxes is)"
    by (intro ext) (simp add: ports_in_range_def)
  with Cons.prems show ?case
    by (auto simp: ports_in_range_def split: option.splits)
qed

lemma push_tuple_fold:
  "ports_in_range boxes (sink_ports s) \<Longrightarrow>
   Stream_push_tuple boxes s x st = fold_result (\<lambda>q. store_enq q x) (stream_targets boxes s) st"
  by (simp add: Stream_push_tuple_def stream_targets_def fold_result_append push_to_ports_fold
      ext [of "push_to_ports boxes x (sink_ports s)", OF push_to_ports_fold])

section \<open>Invariant and correctness\<close>

definition stream_ok :: "box_table \<Rightarrow> qid set \<Rightarrow> stream \<Rightarrow> store \<Rightarrow> bool" where
  "stream_ok boxes Q s st \<longleftrightarrow> store_ok Q st \<and> tuple_buffer s \<in> Q \<and>
     set (stream_targets boxes s) \<subseteq> Q \<and> tuple_buffer s \<notin> set (stream_targets boxes s) \<and>
     distinct (stream_targets boxes s) \<and> ports_in_range boxes (sink_ports s) \<and>
     2 \<le> tuple_size (st_queue st (tuple_buffer s))"

lemma stream_targets_cong [simp]:
  "stream_targets boxes (s\<lparr>num_tuples_enqueued := n\<rparr>) = stream_targets boxes s"
  "stream_targets boxes (s\<lparr>stream_buf := x\<rparr>) = stream_targets boxes s"
  "stream_targets boxes (s\<lparr>buffering := b\<rparr>) = stream_targets boxes s"
  by (simp_all add: stream_targets_def)

lemma stream_ok_cong [simp]:
  "stream_ok boxes Q (s\<lparr>num_tuples_enqueued := n\<rparr>) st = stream_ok boxes Q s st"
  "stream_ok boxes Q (s\<lparr>stream_buf := x\<rparr>) st = stream_ok boxes Q s st"
  "stream_ok boxes Q (s\<lparr>buffering := b\<rparr>) st = stream_ok boxes Q s st"
  by (simp_all add: stream_ok_def)

lemma fold_enq_tuple_size:
  "fold_result (\<lambda>q. store_enq q x) qs st = Inr st' \<Longrightarrow>
   tuple_size (st_queue st' r) = tuple_size (st_queue st r)"
  by (induction qs arbitrary: st) (auto dest: store_tuple_size(1))

lemma count_list_distinct: "distinct xs \<Longrightarrow> count_list xs a = (if a \<in> set xs then 1 else 0)"
  by (induction xs) auto

text \<open>What the write of the tuples \<open>xs\<close> to the targets of a stream does to the live queues.\<close>

definition delivered :: "box_table \<Rightarrow> qid set \<Rightarrow> stream \<Rightarrow> tuple list \<Rightarrow> store \<Rightarrow> store \<Rightarrow> bool" where
  "delivered boxes Q s xs st st' \<longleftrightarrow>
     (\<forall>r \<in> Q - {tuple_buffer s}. store_contents st' r =
        store_contents st r @ (if r \<in> set (stream_targets boxes s) then xs else []))"

lemma push_tuple_ok:
  assumes ok: "stream_ok boxes Q s st" and push: "Stream_push_tuple boxes s x st = Inr st'"
  shows "stream_ok boxes Q s st'" "delivered boxes Q s [x] st st'"
    "store_contents st' (tuple_buffer s) = store_contents st (tuple_buffer s)"
proof -
  have f: "fold_result (\<lambda>q. store_enq q x) (stream_targets boxes s) st = Inr st'"
    using push ok by (simp add: push_tuple_fold stream_ok_def)
  have st: "store_ok Q st" and T: "set (stream_targets boxes s) \<subseteq> Q"
    using ok by (simp_all add: stream_ok_def)
  note m = sto.enq_multicast [OF st T f]
  show "stream_ok boxes Q s st'"
    using ok m fold_enq_tuple_size [OF f] by (simp add: stream_ok_def)
  show "delivered boxes Q s [x] st st'"
    "store_contents st' (tuple_buffer s) = store_contents st (tuple_buffer s)"
    using m ok by (simp_all add: delivered_def stream_ok_def count_list_distinct)
qed

lemma push_tuple_err:
  "stream_ok boxes Q s st \<Longrightarrow> Stream_push_tuple boxes s x st = Inl e \<Longrightarrow> e = AuroraException"
  using sto.enq_multicast_err [of Q st "stream_targets boxes s" x e]
  by (simp add: push_tuple_fold stream_ok_def)

text \<open>The dump delivers the whole buffer in order, and ends.\<close>

lemma stream_dump_ok:
  assumes "stream_ok boxes Q s st"
  shows "\<exists>r. stream_dump (Stream_push_tuple boxes s) (tuple_buffer s) st = Some r \<and>
    (\<forall>e. r = Inl e \<longrightarrow> e = AuroraException) \<and>
    (\<forall>st'. r = Inr st' \<longrightarrow> stream_ok boxes Q s st' \<and> store_contents st' (tuple_buffer s) = [] \<and>
       delivered boxes Q s (store_contents st (tuple_buffer s)) st st')"
  using assms
proof (induction "store_contents st (tuple_buffer s)" arbitrary: st)
  case Nil
  then have "\<not> store_avail (tuple_buffer s) st"
    using sto.avail_law [of Q st "tuple_buffer s"] by (simp add: stream_ok_def)
  with Nil show ?case by (simp add: stream_dump.simps delivered_def)
next
  case (Cons x xs)
  let ?b = "tuple_buffer s"
  have st: "store_ok Q st" and b: "?b \<in> Q" using Cons.prems by (simp_all add: stream_ok_def)
  have ne: "store_contents st ?b \<noteq> []" using Cons.hyps(2) by (metis list.distinct(1))
  have av: "store_avail ?b st" using sto.avail_law [OF st b] ne by blast
  have fr: "store_front ?b st = x" using sto.front_law [OF st b ne] Cons.hyps(2) by (metis list.sel(1))
  show ?case
  proof (cases "Stream_push_tuple boxes s x st")
    case (Inl e)
    have "stream_dump (Stream_push_tuple boxes s) ?b st = Some (Inl e)"
      by (subst stream_dump.simps) (simp add: av fr Inl)
    with push_tuple_err [OF Cons.prems Inl] show ?thesis by simp
  next
    case (Inr t)
    note p = push_tuple_ok [OF Cons.prems Inr]
    have t: "store_ok Q t" "store_contents t ?b = x # xs"
      using p(1,3) Cons.hyps(2) by (simp_all add: stream_ok_def)
    from sto.deq_law [OF t(1) b] t(2) obtain u where u: "store_deq ?b t = Inr u" "store_ok Q u"
      "store_contents u ?b = xs" "\<forall>r \<in> Q - {?b}. store_contents u r = store_contents t r" by auto
    have oku: "stream_ok boxes Q s u"
      using p(1) u(2) store_tuple_size(2) [OF u(1)] by (simp add: stream_ok_def)
    have del: "delivered boxes Q s (x # xs) st v" if "delivered boxes Q s xs u v" for v
      using that p(2) u(4) by (simp add: delivered_def)
    have "stream_dump (Stream_push_tuple boxes s) ?b st =
        stream_dump (Stream_push_tuple boxes s) ?b u"
      by (subst stream_dump.simps) (simp add: av fr Inr u(1))
    with Cons.hyps(1) [OF u(3) [symmetric] oku] del Cons.hyps(2) show ?thesis
      unfolding u(3) by fastforce
  qed
qed

text \<open>A write: the tuple ends up behind everything written before, on every target.\<close>

definition stream_pending :: "stream \<Rightarrow> store \<Rightarrow> qid \<Rightarrow> tuple list" where
  "stream_pending s st r = store_contents st r @ store_contents st (tuple_buffer s)"

lemma enqueue_tuple_ok:
  assumes ok: "stream_ok boxes Q s st"
  shows "\<exists>r. Stream_enqueue_tuple boxes (s, st) = Some r \<and>
    (\<forall>e. r = Inl e \<longrightarrow> e = AuroraException) \<and>
    (\<forall>s' st'. r = Inr (s', st') \<longrightarrow> stream_ok boxes Q s' st' \<and>
       s' = s\<lparr>num_tuples_enqueued := u32_inc (num_tuples_enqueued s)\<rparr> \<and>
       (\<forall>q \<in> set (stream_targets boxes s). stream_pending s st' q = stream_pending s st q @ [stream_buf s]) \<and>
       (\<forall>q \<in> Q - {tuple_buffer s} - set (stream_targets boxes s).
          store_contents st' q = store_contents st q) \<and>
       (\<not> buffering s \<longrightarrow> store_contents st' (tuple_buffer s) = []))"
proof -
  let ?b = "tuple_buffer s" and ?x = "stream_buf s" and ?push = "Stream_push_tuple boxes s"
  have st: "store_ok Q st" and b: "?b \<in> Q" and T: "set (stream_targets boxes s) \<subseteq> Q - {?b}"
    and sz: "2 \<le> tuple_size (st_queue st ?b)"
    using ok by (auto simp: stream_ok_def)
  show ?thesis
  proof (cases "buffering s")
    case True
    show ?thesis
    proof (cases "store_enq ?b ?x st")
      case (Inl e)
      with sto.enq_err [OF st b Inl] True show ?thesis by (simp add: Stream_enqueue_tuple_def)
    next
      case (Inr st')
      note e = sto.enq_law [OF st b Inr]
      then have "stream_ok boxes Q s st'"
        using ok store_tuple_size(1) [OF Inr] by (simp add: stream_ok_def)
      moreover have "\<forall>q \<in> set (stream_targets boxes s). stream_pending s st' q = stream_pending s st q @ [?x]"
        using e T by (auto simp: stream_pending_def)
      ultimately show ?thesis using True Inr e by (simp add: Stream_enqueue_tuple_def)
    qed
  next
    case False
    have dump: "\<exists>r. (if store_size ?b st > 0 then stream_dump ?push ?b st else Some (Inr st)) = Some r \<and>
      (\<forall>e. r = Inl e \<longrightarrow> e = AuroraException) \<and>
      (\<forall>u. r = Inr u \<longrightarrow> stream_ok boxes Q s u \<and> store_contents u ?b = [] \<and>
         delivered boxes Q s (store_contents st ?b) st u)"
    proof (cases "store_size ?b st > 0")
      case True
      with stream_dump_ok [OF ok] show ?thesis by simp
    next
      case F: False
      with store_size_length [OF st b sz] have "store_contents st ?b = []" by simp
      with F ok show ?thesis by (simp add: delivered_def)
    qed
    then obtain r where r: "(if store_size ?b st > 0 then stream_dump ?push ?b st else Some (Inr st)) = Some r"
      and err: "\<forall>e. r = Inl e \<longrightarrow> e = AuroraException"
      and okr: "\<forall>u. r = Inr u \<longrightarrow> stream_ok boxes Q s u \<and> store_contents u ?b = [] \<and>
         delivered boxes Q s (store_contents st ?b) st u" by blast
    let ?s = "s\<lparr>num_tuples_enqueued := u32_inc (num_tuples_enqueued s)\<rparr>"
    have eq: "Stream_enqueue_tuple boxes (s, st) =
        Some (rbind (rbind r (?push ?x)) (\<lambda>st'. Inr (?s, st')))"
      using r False by (auto simp: Stream_enqueue_tuple_def Let_def split: if_splits)
    show ?thesis
    proof (cases r)
      case (Inl e)
      with err eq show ?thesis by simp
    next
      case (Inr u)
      with okr have u: "stream_ok boxes Q s u" "store_contents u ?b = []"
        "delivered boxes Q s (store_contents st ?b) st u" by auto
      show ?thesis
      proof (cases "?push ?x u")
        case (Inl e)
        with push_tuple_err [OF u(1) Inl] eq Inr show ?thesis by simp
      next
        case p: (Inr v)
        note pv = push_tuple_ok [OF u(1) p]
        have "stream_pending s v q = stream_pending s st q @ [?x]" if "q \<in> set (stream_targets boxes s)" for q
        proof -
          have "q \<in> Q - {?b}" using that T by blast
          with that pv(2,3) u(2,3) show ?thesis by (simp add: delivered_def stream_pending_def)
        qed
        moreover have "\<forall>q \<in> Q - {?b} - set (stream_targets boxes s). store_contents v q = store_contents st q"
          using pv(2) u(3) by (simp add: delivered_def)
        ultimately show ?thesis using eq Inr p pv(1,3) u(2) by simp
      qed
    qed
  qed
qed

text \<open>
  Any sequence of writes and buffering switches: on every target queue, the contents followed
  by what is still buffered grow by exactly the tuples written, in the order written.
\<close>

lemma stream_op_ok:
  assumes ok: "stream_ok boxes Q s st"
  shows "\<exists>r. stream_op_run boxes a (s, st) = Some r \<and> (\<forall>e. r = Inl e \<longrightarrow> e = AuroraException) \<and>
    (\<forall>s' st'. r = Inr (s', st') \<longrightarrow> stream_ok boxes Q s' st' \<and>
       stream_targets boxes s' = stream_targets boxes s \<and> tuple_buffer s' = tuple_buffer s \<and>
       (\<forall>q \<in> set (stream_targets boxes s). stream_pending s st' q = stream_pending s st q @ written [a]))"
proof (cases a)
  case (Write x)
  from enqueue_tuple_ok [of boxes Q "s\<lparr>stream_buf := x\<rparr>" st] ok show ?thesis
    by (fastforce simp: Write stream_pending_def)
qed (use ok in \<open>simp_all add: Stream_begin_buffering_def Stream_stop_buffering_def\<close>)

lemma written_Cons: "written (a # as) = written [a] @ written as"
  by (cases a) simp_all

lemma stream_run_ok:
  "stream_ok boxes Q s st \<Longrightarrow>
   \<exists>r. stream_run boxes as (s, st) = Some r \<and> (\<forall>e. r = Inl e \<longrightarrow> e = AuroraException) \<and>
    (\<forall>s' st'. r = Inr (s', st') \<longrightarrow> stream_ok boxes Q s' st' \<and>
       (\<forall>q \<in> set (stream_targets boxes s). stream_pending s st' q = stream_pending s st q @ written as))"
proof (induction as arbitrary: s st)
  case Nil
  then show ?case by (simp add: stream_pending_def)
next
  case (Cons a as)
  from stream_op_ok [OF Cons.prems, of a] obtain r where r: "stream_op_run boxes a (s, st) = Some r"
    and err: "\<forall>e. r = Inl e \<longrightarrow> e = AuroraException"
    and okr: "\<forall>s' st'. r = Inr (s', st') \<longrightarrow> stream_ok boxes Q s' st' \<and>
       stream_targets boxes s' = stream_targets boxes s \<and> tuple_buffer s' = tuple_buffer s \<and>
       (\<forall>q \<in> set (stream_targets boxes s). stream_pending s st' q = stream_pending s st q @ written [a])" by blast
  show ?case
  proof (cases r)
    case (Inl e)
    with r err show ?thesis by simp
  next
    case (Inr c)
    obtain s1 st1 where c: "c = (s1, st1)" by (cases c)
    with okr Inr have 1: "stream_ok boxes Q s1 st1" "stream_targets boxes s1 = stream_targets boxes s"
      "tuple_buffer s1 = tuple_buffer s"
      "\<forall>q \<in> set (stream_targets boxes s). stream_pending s st1 q = stream_pending s st q @ written [a]" by auto
    have p: "stream_pending s1 = stream_pending s" by (intro ext) (simp add: stream_pending_def 1(3))
    have run: "stream_run boxes (a # as) (s, st) = stream_run boxes as (s1, st1)"
      by (simp add: r Inr c)
    have "written [a] @ written as = written (a # as)" by (simp only: written_Cons [of a as])
    with Cons.IH [OF 1(1)] 1(4) show ?thesis unfolding run 1(2) p by (metis append.assoc)
  qed
qed

text \<open>
  \<open>remove_queue\<close> shrinks nothing: an attached queue that is not the last one is dropped, and the
  last one is listed, and written to, twice.
\<close>

lemma filter_remove_distinct:
  assumes "distinct qs" "q \<in> set qs"
  shows "length (filter (\<lambda>r. r \<noteq> q) qs) = length qs - 1"
proof -
  have "length (filter (\<lambda>r. r \<noteq> q) qs) = card (set qs - {q})"
    using distinct_card [of "filter (\<lambda>r. r \<noteq> q) qs"] assms(1) by (simp add: set_diff_eq)
  then show ?thesis using assms by (simp add: distinct_card)
qed

lemma std_remove_distinct:
  assumes "distinct qs" "q \<in> set qs"
  shows "std_remove q qs = filter (\<lambda>r. r \<noteq> q) qs @ [last qs]"
proof -
  have "qs \<noteq> []" using assms(2) by auto
  then have "drop (length qs - 1) qs = [last qs]"
    by (metis append_butlast_last_id append_eq_conv_conj length_butlast)
  then show ?thesis by (simp add: std_remove_def filter_remove_distinct [OF assms] Let_def)
qed

end
