(* ===== verification/Seek_Iterators.thy ===== *)
theory Seek_Iterators
  imports Tuple_Queue_Ops
begin

text \<open>
  \<open>TupleQueue::SeekIterator\<close> and \<open>RSeekIterator\<close> (storageMgr/TupleQueue.h): readers that walk over
  the pages of a queue without consuming the tuples, forwards along \<open>next\<close> and backwards
  along \<open>prev\<close>.
\<close>

section \<open>Operations\<close>

record seek_iterator =
  seek_location :: addr
  seek_page :: addr
  offset_last_tuple_on_page :: nat

definition offset_last :: "page_pool \<Rightarrow> tuple_queue \<Rightarrow> nat" where
  "offset_last p q =
     (let tpp = u32_sub (page_size p) PageHdr_size div tuple_size q
      in PageHdr_size + tuple_size q * (tpp - 1))"

definition SeekIterator_new :: "queue_state \<Rightarrow> seek_iterator" where
  "SeekIterator_new = (\<lambda>(h, p, q).
     \<lparr>seek_location = deq_location q, seek_page = deq_page q,
      offset_last_tuple_on_page = offset_last p q\<rparr>)"

definition SeekIterator_avail :: "queue_state \<times> seek_iterator \<Rightarrow> bool" where
  "SeekIterator_avail = (\<lambda>((h, p, q), it). seek_location it \<noteq> enq_location q)"

definition SeekIterator_tuple :: "queue_state \<times> seek_iterator \<Rightarrow> tuple" where
  "SeekIterator_tuple = (\<lambda>((h, p, q), it). hdata h (seek_location it))"

definition SeekIterator_incr :: "queue_state \<Rightarrow> seek_iterator \<Rightarrow> seek_iterator" where
  "SeekIterator_incr = (\<lambda>(h, p, q) it.
     let next_seek_location = seek_location it + tuple_size q
     in if next_seek_location + tuple_size q > seek_page it + page_size p
        then (let page = hnext h (seek_page it)
              in it\<lparr>seek_page := page, seek_location := page + PageHdr_size\<rparr>)
        else it\<lparr>seek_location := next_seek_location\<rparr>)"

definition SeekIterator_decr :: "queue_state \<Rightarrow> seek_iterator \<Rightarrow> seek_iterator" where
  "SeekIterator_decr = (\<lambda>(h, p, q) it.
     let next_seek_location = int (seek_location it) - int (tuple_size q)
     in if next_seek_location < int (seek_page it + PageHdr_size)
        then (let page = hprev h (seek_page it)
              in it\<lparr>seek_page := page, seek_location := page + offset_last_tuple_on_page it\<rparr>)
        else it\<lparr>seek_location := nat next_seek_location\<rparr>)"

text \<open>The reverse iterator starts one slot before the write position.\<close>

definition RSeekIterator_new :: "queue_state \<Rightarrow> seek_iterator" where
  "RSeekIterator_new = (\<lambda>(h, p, q).
     let off = offset_last p q;
         loc = int (enq_location q) - int (tuple_size q);
         page = enq_page q
     in if loc < int (page + PageHdr_size)
        then if page \<noteq> deq_page q
             then \<lparr>seek_location = hprev h page + off, seek_page = hprev h page,
                   offset_last_tuple_on_page = off\<rparr>
             else \<lparr>seek_location = deq_location q, seek_page = deq_page q,
                   offset_last_tuple_on_page = off\<rparr>
        else \<lparr>seek_location = nat loc, seek_page = page, offset_last_tuple_on_page = off\<rparr>)"

definition RSeekIterator_avail :: "queue_state \<times> seek_iterator \<Rightarrow> bool" where
  "RSeekIterator_avail = (\<lambda>((h, p, q), it). seek_location it \<noteq> deq_location q)"

definition RSeekIterator_tuple :: "queue_state \<times> seek_iterator \<Rightarrow> tuple" where
  "RSeekIterator_tuple = (\<lambda>((h, p, q), it). hdata h (seek_location it))"

definition RSeekIterator_incr :: "queue_state \<Rightarrow> seek_iterator \<Rightarrow> seek_iterator" where
  "RSeekIterator_incr = (\<lambda>(h, p, q) it.
     let next_seek_location = int (seek_location it) - int (tuple_size q)
     in if next_seek_location < int (seek_page it + PageHdr_size)
        then (let page = hprev h (seek_page it)
              in it\<lparr>seek_page := page, seek_location := page + offset_last_tuple_on_page it\<rparr>)
        else it\<lparr>seek_location := nat next_seek_location\<rparr>)"

definition RSeekIterator_decr :: "queue_state \<Rightarrow> seek_iterator \<Rightarrow> seek_iterator" where
  "RSeekIterator_decr = (\<lambda>(h, p, q) it.
     let next_seek_location = seek_location it + tuple_size q
     in if next_seek_location + tuple_size q > seek_page it + page_size p
        then (let page = hnext h (seek_page it)
              in it\<lparr>seek_page := page, seek_location := page + PageHdr_size\<rparr>)
        else it\<lparr>seek_location := next_seek_location\<rparr>)"

text \<open>Reading the whole queue, oldest first and newest first.\<close>

definition seek_read :: "queue_state \<Rightarrow> (tuple list \<times> queue_state \<times> seek_iterator) result option" where
  "seek_read s = drain SeekIterator_avail SeekIterator_tuple
     (\<lambda>(s, it). Inr (s, SeekIterator_incr s it)) [] (s, SeekIterator_new s)"

definition rseek_read :: "queue_state \<Rightarrow> (tuple list \<times> queue_state \<times> seek_iterator) result option" where
  "rseek_read s = drain RSeekIterator_avail RSeekIterator_tuple
     (\<lambda>(s, it). Inr (s, RSeekIterator_incr s it)) [] (s, RSeekIterator_new s)"

section \<open>Positions\<close>

text \<open>
  The iterator stands on slot \<open>k\<close>, counted over all pages of the queue from the first slot of
  the first page.
\<close>

definition slot_page :: "tuple_queue \<Rightarrow> addr list \<Rightarrow> nat \<Rightarrow> addr" where
  "slot_page q ps k = ps ! (k div tuples_per_page q)"

definition slot_addr :: "tuple_queue \<Rightarrow> addr list \<Rightarrow> nat \<Rightarrow> addr" where
  "slot_addr q ps k = slot_page q ps k + PageHdr_size + (k mod tuples_per_page q) * tuple_size q"

definition seek_at :: "tuple_queue \<Rightarrow> addr list \<Rightarrow> nat \<Rightarrow> seek_iterator \<Rightarrow> bool" where
  "seek_at q ps k it \<longleftrightarrow> seek_page it = slot_page q ps k \<and> seek_location it = slot_addr q ps k \<and>
     offset_last_tuple_on_page it = PageHdr_size + tuple_size q * (tuples_per_page q - 1)"

definition end_slot :: "tuple_queue \<Rightarrow> addr list \<Rightarrow> nat \<Rightarrow> nat" where
  "end_slot q ps j = (length ps - 1) * tuples_per_page q + j"

lemma chain_nth_next:
  "chain nx a ps 0 \<Longrightarrow> Suc m < length ps \<Longrightarrow> nx (ps ! m) = ps ! Suc m"
proof (induction ps arbitrary: a m)
  case Nil
  then show ?case by simp
next
  case (Cons x xs)
  then show ?case
  proof (cases m)
    case 0
    with Cons.prems show ?thesis by (cases xs) auto
  next
    case (Suc n)
    with Cons.prems Cons.IH [of "nx x" n] show ?thesis by simp
  qed
qed

lemma slot_start:
  assumes "tq_shape h p q ps i j"
  shows "slot_page q ps i = deq_page q" "slot_addr q ps i = deq_location q"
    "slot_page q ps (end_slot q ps j) = enq_page q" "slot_addr q ps (end_slot q ps j) = enq_location q"
proof -
  note s = tq_shapeD [OF assms]
  have i: "i div tuples_per_page q = 0" "i mod tuples_per_page q = i" using s(12) by simp_all
  have e: "end_slot q ps j div tuples_per_page q = length ps - 1"
    "end_slot q ps j mod tuples_per_page q = j"
    using s(8,13) by (simp_all add: end_slot_def)
  show "slot_page q ps i = deq_page q"
    using i s(1) tq_shape_derived(4) [OF assms] by (simp add: slot_page_def hd_conv_nth)
  then show "slot_addr q ps i = deq_location q"
    using i s(10) tq_shape_derived(4) [OF assms] by (simp add: slot_addr_def)
  show "slot_page q ps (end_slot q ps j) = enq_page q"
    using e s(1,6) by (simp add: slot_page_def last_conv_nth)
  then show "slot_addr q ps (end_slot q ps j) = enq_location q"
    using e s(6,11) by (simp add: slot_addr_def)
qed

lemma slot_Suc:
  assumes "0 < t"
  shows "Suc (k mod t) < t \<Longrightarrow> Suc k div t = k div t \<and> Suc k mod t = Suc (k mod t)"
    "Suc (k mod t) = t \<Longrightarrow> Suc k div t = Suc (k div t) \<and> Suc k mod t = 0"
  using assms by (simp_all add: div_Suc mod_Suc)

lemma slot_page_le:
  assumes "k \<le> end_slot q ps j" "j < tuples_per_page q" "ps \<noteq> []"
  shows "k div tuples_per_page q < length ps"
proof -
  have "k div tuples_per_page q \<le> end_slot q ps j div tuples_per_page q"
    using assms(1) by (rule div_le_mono)
  also have "\<dots> = length ps - 1" using assms(2) by (simp add: end_slot_def)
  finally show ?thesis using assms(3) by (cases ps) simp_all
qed

lemma nat_int_minus [simp]: "nat (int (a + b) - int b) = a"
  by simp

lemma seek_incr_at:
  assumes sh: "tq_shape h p q ps i j" and at: "seek_at q ps k it" and k: "k < end_slot q ps j"
  shows "seek_at q ps (Suc k) (SeekIterator_incr (h, p, q) it)"
proof -
  note s = tq_shapeD [OF sh]
  let ?t = "tuples_per_page q"
  have mod: "k mod ?t < (page_size p - PageHdr_size) div tuple_size q" using s(8,9) by simp
  have over: "seek_page it + page_size p < seek_location it + tuple_size q + tuple_size q \<longleftrightarrow>
      Suc (k mod ?t) = ?t"
    using at slot_overflow [OF s(7) mod, of "slot_page q ps k"] s(9)
    by (simp add: seek_at_def slot_addr_def)
  have pg: "Suc k div ?t < length ps" using slot_page_le [of "Suc k" q ps j] k s(1,13) by simp
  consider "Suc (k mod ?t) < ?t" | "Suc (k mod ?t) = ?t" using mod_less_divisor [OF s(8), of k] by linarith
  then show ?thesis
  proof cases
    case 1
    with at over slot_Suc(1) [OF s(8) 1] show ?thesis
      by (simp add: seek_at_def SeekIterator_incr_def Let_def slot_addr_def slot_page_def)
  next
    case 2
    then have "hnext h (ps ! (k div ?t)) = ps ! Suc (k div ?t)"
      using chain_nth_next [OF s(4)] pg slot_Suc(2) [OF s(8) 2] by simp
    with 2 at over slot_Suc(2) [OF s(8) 2] show ?thesis
      by (simp add: seek_at_def SeekIterator_incr_def Let_def slot_addr_def slot_page_def)
  qed
qed

lemma seek_decr_at:
  assumes sh: "tq_shape h p q ps i j" and at: "seek_at q ps (Suc k) it" and k: "Suc k \<le> end_slot q ps j"
  shows "seek_at q ps k (SeekIterator_decr (h, p, q) it)"
proof -
  note s = tq_shapeD [OF sh]
  let ?t = "tuples_per_page q"
  have pg: "Suc k div ?t < length ps" using slot_page_le [OF k s(13,1)] .
  consider "Suc (k mod ?t) < ?t" | "Suc (k mod ?t) = ?t" using mod_less_divisor [OF s(8), of k] by linarith
  then show ?thesis
  proof cases
    case 1
    note d = slot_Suc(1) [OF s(8) 1]
    have "seek_location it = slot_addr q ps k + tuple_size q"
      using at d by (simp add: seek_at_def slot_addr_def slot_page_def)
    moreover have "slot_page q ps k + PageHdr_size \<le> slot_addr q ps k" by (simp add: slot_addr_def)
    moreover have "seek_page it = slot_page q ps k" using at d by (simp add: seek_at_def slot_page_def)
    ultimately have "SeekIterator_decr (h, p, q) it = it\<lparr>seek_location := slot_addr q ps k\<rparr>"
      by (simp add: SeekIterator_decr_def Let_def)
    then show ?thesis
      using at d by (simp add: seek_at_def slot_page_def)
  next
    case 2
    note d = slot_Suc(2) [OF s(8) 2]
    have "hprev h (ps ! Suc (k div ?t)) = ps ! (k div ?t)"
      using prev_linked_nth [OF s(5)] pg d by simp
    moreover have "k mod ?t = ?t - 1" using 2 by simp
    ultimately show ?thesis
      using at d s(7) by (simp add: seek_at_def SeekIterator_decr_def Let_def slot_addr_def slot_page_def)
  qed
qed

lemma RSeek_eq: "RSeekIterator_incr = SeekIterator_decr" "RSeekIterator_decr = SeekIterator_incr"
  by (simp_all add: RSeekIterator_incr_def SeekIterator_decr_def RSeekIterator_decr_def
      SeekIterator_incr_def)

section \<open>Reading forwards\<close>

text \<open>What a forward iterator has still to deliver: the tuples from its location on.\<close>

definition seek_abs :: "queue_state \<times> seek_iterator \<Rightarrow> tuple list" where
  "seek_abs = (\<lambda>((h, p, q), it).
     map (hdata h) (dropWhile (\<lambda>c. c \<noteq> seek_location it) (queue_cells h p q)))"

definition seek_inv :: "queue_state \<times> seek_iterator \<Rightarrow> bool" where
  "seek_inv = (\<lambda>((h, p, q), it). \<exists>ps i j fl k. queue_ok h p q ps i j fl \<and> i \<le> k \<and>
     k \<le> end_slot q ps j \<and> seek_at q ps k it)"

lemma seek_invI:
  "queue_ok h p q ps i j fl \<Longrightarrow> i \<le> k \<Longrightarrow> k \<le> end_slot q ps j \<Longrightarrow> seek_at q ps k it \<Longrightarrow>
   seek_inv ((h, p, q), it)"
  by (auto simp: seek_inv_def)

lemma dropWhile_nth_distinct:
  "distinct xs \<Longrightarrow> m < length xs \<Longrightarrow> dropWhile (\<lambda>c. c \<noteq> xs ! m) xs = drop m xs"
proof (induction xs arbitrary: m)
  case Nil
  then show ?case by simp
next
  case (Cons x xs)
  then show ?case by (cases m) auto
qed

lemma dropWhile_notin: "y \<notin> set xs \<Longrightarrow> dropWhile (\<lambda>c. c \<noteq> y) xs = []"
  by (simp add: dropWhile_eq_Nil_conv) blast

lemma nth_queue_cells:
  assumes sh: "tq_shape h p q ps i j" and k: "i \<le> k" "k < end_slot q ps j"
  shows "queue_cells h p q ! (k - i) = slot_addr q ps k" "k - i < length (queue_cells h p q)"
proof -
  note s = tq_shapeD [OF sh]
  let ?t = "tuples_per_page q"
  let ?all = "concat (map (page_cells (tuple_size q) ?t) ps)"
  have pg: "k div ?t < length ps" using k(2) slot_page_le [of k q ps j] s(1,13) by simp
  have "?all ! (k div ?t * ?t + k mod ?t) = page_cells (tuple_size q) ?t (ps ! (k div ?t)) ! (k mod ?t)"
    using pg s(8) by (intro nth_concat_blocks) simp_all
  then have nth: "?all ! k = slot_addr q ps k" using s(8) by (simp add: slot_addr_def slot_page_def)
  have "end_slot q ps j \<le> length ?all"
    using s(1,13) by (cases ps) (auto simp: end_slot_def)
  then show "queue_cells h p q ! (k - i) = slot_addr q ps k" "k - i < length (queue_cells h p q)"
    using k nth unfolding tq_shape_derived(5) [OF sh] cells_between_def end_slot_def by simp_all
qed

lemma enq_location_fresh:
  assumes sh: "tq_shape h p q ps i j"
  shows "enq_location q \<notin> set (queue_cells h p q)"
proof -
  note s = tq_shapeD [OF sh]
  let ?cells = "cells_between (tuple_size q) (tuples_per_page q) ps i"
  have "?cells (Suc j) = ?cells j @ [enq_location q]"
    unfolding s(11) using cells_between_snoc [OF s(1) s(13) tq_shape_bound [OF sh]] by simp
  with distinct_cells_between [OF sh, of i "Suc j"] show ?thesis
    by (simp add: tq_shape_derived(5) [OF sh])
qed

lemma queue_cells_distinct: "tq_shape h p q ps i j \<Longrightarrow> distinct (queue_cells h p q)"
  by (simp add: tq_shape_derived(5) distinct_cells_between)

lemma seek_abs_at:
  assumes sh: "tq_shape h p q ps i j" and k: "i \<le> k" "k \<le> end_slot q ps j" and at: "seek_at q ps k it"
  shows "seek_abs ((h, p, q), it) = drop (k - i) (TupleQueue_abs (h, p, q))"
proof (cases "k = end_slot q ps j")
  case True
  have "length (queue_cells h p q) = k - i"
    using tq_shape_length [OF sh] by (simp add: True end_slot_def)
  with True at enq_location_fresh [OF sh] show ?thesis
    by (simp add: seek_abs_def seek_at_def slot_start(4) [OF sh] dropWhile_notin TupleQueue_abs_def)
next
  case False
  then have "k < end_slot q ps j" using k by simp
  note c = nth_queue_cells [OF sh k(1) this]
  with dropWhile_nth_distinct [OF queue_cells_distinct [OF sh] c(2)] at show ?thesis
    by (simp add: seek_abs_def seek_at_def TupleQueue_abs_def drop_map)
qed

interpretation seek: source seek_inv seek_abs SeekIterator_avail SeekIterator_tuple
  "\<lambda>(s, it). Inr (s, SeekIterator_incr s it)"
proof
  fix x :: "queue_state \<times> seek_iterator"
  assume "seek_inv x"
  then obtain h p q it ps i j fl k where x: "x = ((h, p, q), it)" and ok: "queue_ok h p q ps i j fl"
    and k: "i \<le> k" "k \<le> end_slot q ps j" and at: "seek_at q ps k it"
    by (auto simp: seek_inv_def)
  note sh = queue_okD(2) [OF ok]
  note abs = seek_abs_at [OF sh k at]
  have len: "length (queue_cells h p q) = end_slot q ps j - i"
    using tq_shape_length [OF sh] by (simp add: end_slot_def)
  then have ne: "seek_abs x \<noteq> [] \<longleftrightarrow> k < end_slot q ps j"
    using k by (auto simp: x abs TupleQueue_abs_def)
  have loc: "seek_location it = queue_cells h p q ! (k - i)" "k - i < length (queue_cells h p q)"
    if "k < end_slot q ps j"
    using nth_queue_cells [OF sh k(1) that] at by (simp_all add: seek_at_def)
  show "SeekIterator_avail x = (seek_abs x \<noteq> [])"
  proof (cases "k < end_slot q ps j")
    case True
    then have "seek_location it \<in> set (queue_cells h p q)" using loc nth_mem by metis
    then show ?thesis
      using True ne enq_location_fresh [OF sh] by (auto simp: x SeekIterator_avail_def)
  next
    case False
    then have "k = end_slot q ps j" using k by simp
    then have "seek_location it = enq_location q"
      using at slot_start(4) [OF sh] by (simp add: seek_at_def)
    with False ne show ?thesis by (simp add: x SeekIterator_avail_def)
  qed
  assume "seek_abs x \<noteq> []"
  with ne have lt: "k < end_slot q ps j" by simp
  show "SeekIterator_tuple x = hd (seek_abs x)"
    using loc [OF lt] by (simp add: x abs SeekIterator_tuple_def TupleQueue_abs_def hd_drop_conv_nth)
  have at': "seek_at q ps (Suc k) (SeekIterator_incr (h, p, q) it)" by (rule seek_incr_at [OF sh at lt])
  have "seek_abs ((h, p, q), SeekIterator_incr (h, p, q) it) = tl (seek_abs x)"
    using seek_abs_at [OF sh _ _ at'] k(1) lt by (simp add: x abs Suc_diff_le drop_Suc tl_drop)
  moreover have "seek_inv ((h, p, q), SeekIterator_incr (h, p, q) it)"
    by (rule seek_invI [OF ok _ _ at']) (use k(1) lt in simp_all)
  ultimately show "\<exists>s'. (case x of (s, it) \<Rightarrow> Inr (s, SeekIterator_incr s it)) = Inr s' \<and> seek_inv s' \<and>
      seek_abs s' = tl (seek_abs x)" by (simp add: x)
qed

text \<open>
  The forward iterator delivers the contents of the queue and leaves the queue as it was.
\<close>

lemma pool_page_size_less:
  assumes "pool_inv h p fl" "pool_pages p \<noteq> []"
  shows "page_size p < 2 ^ 32"
proof -
  have "0 < capacity p" using assms(2) by (cases "capacity p") (simp_all add: pool_pages_def)
  then have "page_size p \<le> capacity p * page_size p" by simp
  also have "\<dots> < 2 ^ 32" using assms(1) by (simp add: pool_inv_def)
  finally show ?thesis .
qed

lemma offset_last_eq:
  assumes "queue_ok h p q ps i j fl"
  shows "offset_last p q = PageHdr_size + tuple_size q * (tuples_per_page q - 1)"
proof -
  note s = tq_shapeD [OF queue_okD(2) [OF assms]]
  have "pool_pages p \<noteq> []" using s(1,3) by auto
  note less = pool_page_size_less [OF queue_okD(1) [OF assms] this]
  have "PageHdr_size \<le> page_size p" using s(8,9) by (cases "PageHdr_size \<le> page_size p") simp_all
  then have "u32_sub (page_size p) PageHdr_size = page_size p - PageHdr_size"
    using less by (rule u32_sub_le)
  with s(9) show ?thesis by (simp add: offset_last_def)
qed

lemma seek_new_at:
  assumes ok: "queue_ok h p q ps i j fl"
  shows "seek_at q ps i (SeekIterator_new (h, p, q))" "i \<le> end_slot q ps j"
  using slot_start(1,2) [OF queue_okD(2) [OF ok]] offset_last_eq [OF ok]
    tq_shape_bound [OF queue_okD(2) [OF ok]]
  by (simp_all add: seek_at_def SeekIterator_new_def end_slot_def)

lemma drain_seek_queue:
  "drain SeekIterator_avail SeekIterator_tuple (\<lambda>(s, it). Inr (s, SeekIterator_incr s it)) acc (s, it)
     = Some (Inr (ts, s', it')) \<Longrightarrow> s' = s" if "seek_inv (s, it)"
  using that
proof (induction "seek_abs (s, it)" arbitrary: acc it)
  case Nil
  then show ?case by (subst (asm) drain.simps) (simp add: seek.avail_law)
next
  case (Cons x xs)
  then have av: "SeekIterator_avail (s, it)" by (metis seek.avail_law list.distinct(1))
  from Cons seek.deq_law [of "(s, it)"] have
    "seek_inv (s, SeekIterator_incr s it)" "seek_abs (s, SeekIterator_incr s it) = xs"
    by (simp_all flip: Cons.hyps(2))
  with Cons.hyps(1) Cons.prems(1) av show ?case by (subst (asm) (2) drain.simps) auto
qed

lemma seek_read_all:
  assumes "tq_inv s"
  shows "\<exists>it. seek_read s = Some (Inr (TupleQueue_abs s, s, it))"
proof -
  obtain h p q ps i j fl where s: "s = (h, p, q)" and ok: "queue_ok h p q ps i j fl"
    using assms by (auto simp: tq_inv_def)
  let ?x = "(s, SeekIterator_new s)"
  have inv: "seek_inv ?x"
    using seek_new_at [OF ok] unfolding s by (intro seek_invI [OF ok]) simp_all
  have abs: "seek_abs ?x = TupleQueue_abs s"
    using seek_abs_at [OF queue_okD(2) [OF ok] _ _ seek_new_at(1) [OF ok]] seek_new_at(2) [OF ok]
    by (simp add: s)
  from seek.drain_all [OF inv, of "[]"] obtain s' it where
    "drain SeekIterator_avail SeekIterator_tuple (\<lambda>(s, it). Inr (s, SeekIterator_incr s it)) [] ?x =
       Some (Inr (TupleQueue_abs s, s', it))" by (auto simp: abs)
  with drain_seek_queue [OF inv this] show ?thesis by (auto simp: seek_read_def)
qed

section \<open>Reading backwards\<close>

text \<open>
  \<open>RSeekIterator::avail()\<close> compares with the location of the oldest tuple and is false there:
  what the iterator delivers are the tuples behind the oldest one.
\<close>

definition rseek_abs :: "queue_state \<times> seek_iterator \<Rightarrow> tuple list" where
  "rseek_abs = (\<lambda>((h, p, q), it).
     map (hdata h) (dropWhile (\<lambda>c. c \<noteq> seek_location it) (rev (tl (queue_cells h p q)))))"

definition rseek_inv :: "queue_state \<times> seek_iterator \<Rightarrow> bool" where
  "rseek_inv = (\<lambda>((h, p, q), it). \<exists>ps i j fl k. queue_ok h p q ps i j fl \<and> i \<le> k \<and>
     k < end_slot q ps j \<and> seek_at q ps k it)"

lemma rseek_invI:
  "queue_ok h p q ps i j fl \<Longrightarrow> i \<le> k \<Longrightarrow> k < end_slot q ps j \<Longrightarrow> seek_at q ps k it \<Longrightarrow>
   rseek_inv ((h, p, q), it)"
  by (auto simp: rseek_inv_def)

lemma rev_nth_minus: "m < length ys \<Longrightarrow> rev ys ! (length ys - 1 - m) = ys ! m"
  by (simp add: rev_nth)

lemma rseek_abs_at:
  assumes sh: "tq_shape h p q ps i j" and k: "i \<le> k" "k < end_slot q ps j" and at: "seek_at q ps k it"
  shows "rseek_abs ((h, p, q), it) = rev (take (k - i) (tl (TupleQueue_abs (h, p, q))))"
proof -
  let ?cs = "queue_cells h p q"
  note c = nth_queue_cells [OF sh k] and dist = queue_cells_distinct [OF sh]
  have loc: "seek_location it = ?cs ! (k - i)" using at c(1) by (simp add: seek_at_def)
  have "dropWhile (\<lambda>a. a \<noteq> ?cs ! (k - i)) (rev (tl ?cs)) = rev (take (k - i) (tl ?cs))"
  proof (cases "k = i")
    case True
    have "?cs ! 0 \<notin> set (tl ?cs)" using dist c(2) by (cases ?cs) auto
    with True show ?thesis by (simp add: dropWhile_notin)
  next
    case False
    then have m: "k - i - 1 < length (tl ?cs)" using c(2) k by simp
    let ?r = "rev (tl ?cs)" and ?n = "length (tl ?cs) - 1 - (k - i - 1)"
    have "?r ! ?n = tl ?cs ! (k - i - 1)" using m by (rule rev_nth_minus)
    also have "\<dots> = ?cs ! Suc (k - i - 1)" using m by (rule nth_tl)
    also have "\<dots> = ?cs ! (k - i)" using False k by (simp add: Suc_diff_Suc)
    finally have "?r ! ?n = ?cs ! (k - i)" .
    moreover have "dropWhile (\<lambda>a. a \<noteq> ?r ! ?n) ?r = drop ?n ?r"
      using dist m by (intro dropWhile_nth_distinct) (simp_all add: distinct_tl)
    moreover have "drop ?n ?r = rev (take (k - i) (tl ?cs))"
      using m False k by (simp add: drop_rev)
    ultimately show ?thesis by simp
  qed
  then show ?thesis
    by (simp add: rseek_abs_def loc TupleQueue_abs_def take_map rev_map flip: map_tl)
qed

interpretation rseek: source rseek_inv rseek_abs RSeekIterator_avail RSeekIterator_tuple
  "\<lambda>(s, it). Inr (s, RSeekIterator_incr s it)"
proof
  fix x :: "queue_state \<times> seek_iterator"
  assume "rseek_inv x"
  then obtain h p q it ps i j fl k where x: "x = ((h, p, q), it)" and ok: "queue_ok h p q ps i j fl"
    and k: "i \<le> k" "k < end_slot q ps j" and at: "seek_at q ps k it"
    by (auto simp: rseek_inv_def)
  note sh = queue_okD(2) [OF ok]
  note abs = rseek_abs_at [OF sh k at] and c = nth_queue_cells [OF sh k]
  let ?cs = "queue_cells h p q"
  have loc: "seek_location it = ?cs ! (k - i)" using at c(1) by (simp add: seek_at_def)
  have "i < end_slot q ps j" using k by simp
  from nth_queue_cells(1) [OF sh order_refl this] have first: "deq_location q = ?cs ! 0"
    using slot_start(2) [OF sh] by simp
  have "length (rseek_abs x) = k - i"
    using c(2) k by (simp add: x abs TupleQueue_abs_def)
  then have ne: "rseek_abs x \<noteq> [] \<longleftrightarrow> i < k" by (simp flip: length_greater_0_conv)
  have "?cs ! (k - i) = ?cs ! 0 \<longleftrightarrow> k - i = 0"
    using c(2) queue_cells_distinct [OF sh] by (subst nth_eq_iff_index_eq) auto
  then show "RSeekIterator_avail x = (rseek_abs x \<noteq> [])"
    using ne k(1) by (auto simp: x RSeekIterator_avail_def loc first)
  assume "rseek_abs x \<noteq> []"
  with ne have lt: "i < k" by simp
  then obtain m where m: "k = Suc m" "i \<le> m" by (cases k) auto
  have last: "take (k - i) (tl (TupleQueue_abs (h, p, q))) =
      take (m - i) (tl (TupleQueue_abs (h, p, q))) @ [hdata h (seek_location it)]"
    using m c(2) by (simp add: Suc_diff_le take_Suc_conv_app_nth TupleQueue_abs_def nth_tl loc)
  then show "RSeekIterator_tuple x = hd (rseek_abs x)"
    by (simp add: x abs RSeekIterator_tuple_def)
  have at': "seek_at q ps m (RSeekIterator_incr (h, p, q) it)"
    unfolding RSeek_eq using at k(2) unfolding m(1) by (intro seek_decr_at [OF sh]) simp_all
  have m': "m < end_slot q ps j" using k(2) m(1) by simp
  have "rseek_abs ((h, p, q), RSeekIterator_incr (h, p, q) it) = tl (rseek_abs x)"
    using rseek_abs_at [OF sh m(2) m' at'] by (simp add: x abs last)
  then show "\<exists>s'. (case x of (s, it) \<Rightarrow> Inr (s, RSeekIterator_incr s it)) = Inr s' \<and> rseek_inv s' \<and>
      rseek_abs s' = tl (rseek_abs x)"
    using rseek_invI [OF ok m(2) m' at'] by (simp add: x)
qed

lemma rseek_new_at:
  assumes ok: "queue_ok h p q ps i j fl" and ne: "i < end_slot q ps j"
  shows "seek_at q ps (end_slot q ps j - 1) (RSeekIterator_new (h, p, q))"
proof -
  note sh = queue_okD(2) [OF ok]
  let ?it = "\<lparr>seek_location = enq_location q, seek_page = enq_page q,
     offset_last_tuple_on_page = offset_last p q\<rparr>"
  have at: "seek_at q ps (end_slot q ps j) ?it"
    using slot_start(3,4) [OF sh] offset_last_eq [OF ok] by (simp add: seek_at_def)
  have dec: "seek_at q ps (end_slot q ps j - 1) (SeekIterator_decr (h, p, q) ?it)"
    using at ne by (intro seek_decr_at [OF sh]) simp_all
  have "enq_page q \<noteq> deq_page q" if "enq_location q < enq_page q + PageHdr_size + tuple_size q"
  proof
    assume same: "enq_page q = deq_page q"
    have "j = 0" using that tq_shapeD(6,7,11) [OF sh] by (cases j) simp_all
    moreover have "length ps = 1"
      using same tq_shapeD(1,2,6) [OF sh] tq_shape_derived(4) [OF sh]
      by (cases ps) (auto split: if_splits dest: last_in_set)
    ultimately show False using ne by (simp add: end_slot_def)
  qed
  then have "RSeekIterator_new (h, p, q) = SeekIterator_decr (h, p, q) ?it"
    by (auto simp: RSeekIterator_new_def SeekIterator_decr_def Let_def)
  with dec show ?thesis by simp
qed

lemma rseek_read_tail:
  assumes "tq_inv s" "TupleQueue_abs s \<noteq> []"
  shows "\<exists>x. rseek_read s = Some (Inr (rev (tl (TupleQueue_abs s)), x))"
proof -
  obtain h p q ps i j fl where s: "s = (h, p, q)" and ok: "queue_ok h p q ps i j fl"
    using assms(1) by (auto simp: tq_inv_def)
  note sh = queue_okD(2) [OF ok]
  have len: "length (TupleQueue_abs s) = end_slot q ps j - i"
    using tq_shape_length [OF sh] by (simp add: s TupleQueue_abs_def end_slot_def)
  with assms(2) have ne: "i < end_slot q ps j" by (cases "TupleQueue_abs s") simp_all
  note at = rseek_new_at [OF ok ne]
  have k: "i \<le> end_slot q ps j - 1" "end_slot q ps j - 1 < end_slot q ps j" using ne by simp_all
  have "rseek_abs (s, RSeekIterator_new s) = rev (tl (TupleQueue_abs s))"
    using rseek_abs_at [OF sh k at] len by (simp add: s)
  with rseek.drain_all [OF rseek_invI [OF ok k at], of "[]"] show ?thesis
    by (auto simp: rseek_read_def s)
qed

end
