(* ===== verification/Example_Network.thy ===== *)
theory Example_Network
  imports Streams Seek_Iterators
begin

text \<open>
  A concrete node used by the witnesses: a pool of six 64-byte pages at address 4096 and three
  queues of 28-byte tuples (two to a page) on it.
\<close>

definition example_tuple :: "int \<Rightarrow> tuple" where
  "example_tuple n =
     \<lparr>tv = Timestamp n 0, local_tv = Timestamp n 0, tuple_flag = 0, tuple_type = INSERTION,
      win_spec = -1, quality = 0, rev_id = -1, tuple_id = n, rev_field = -1,
      tuple_stime = Timestamp n 0, body = [word_of_int n]\<rparr>"

definition example_heap :: heap where
  "example_heap = \<lparr>hnext = \<lambda>_. 0, hprev = \<lambda>_. 0, hdata = \<lambda>_. example_tuple 0\<rparr>"

definition no_queue :: tuple_queue where
  "no_queue = \<lparr>tuple_size = 0, tuples_per_page = 0, enq_count = 0, deq_count = 0,
     last_timestamp = Timestamp_zero, enq_page = 0, enq_location = 0, deq_page = 0, deq_location = 0\<rparr>"

definition example_store :: "store result" where
  "example_store =
     rbind (PagePool_new 4096 4096 True 64 6 False example_heap) (\<lambda>(h, p).
     rbind (store_new 0 28 \<lparr>st_heap = h, st_pool = p, st_queue = \<lambda>_. no_queue\<rparr>) (\<lambda>st0.
     rbind (store_new 1 28 st0) (\<lambda>st1. store_new 2 28 st1)))"

text \<open>A stream that writes to queue 0 and, through port 0 of box \<open>f\<close>, to queue 1; queue 2 is its buffer.\<close>

definition example_boxes :: box_table where
  "example_boxes = (\<lambda>name. if name = ''f''
     then Some \<lparr>sink_is_passive = False, input_queues = [Some 1]\<rparr> else None)"

definition example_stream :: stream where
  "example_stream = \<lparr>stream_buf = example_tuple 0, num_tuples_enqueued = 0, out_queues = [0],
     sink_ports = [\<lparr>port_box = Some ''f'', port_nr = 0\<rparr>], buffering = False, tuple_buffer = 2\<rparr>"

lemma example_pool:
  "\<exists>h p. PagePool_new 4096 4096 True 64 6 False example_heap = Inr (h, p) \<and>
     pool_inv h p (pool_pages p) \<and> page_size p = 64 \<and> length (pool_pages p) = 6"
proof -
  obtain h p where new: "PagePool_new 4096 4096 True 64 6 False example_heap = Inr (h, p)"
    by (simp add: PagePool_new_def Let_def)
  from PagePool_new_inv [OF new] show ?thesis using new by simp
qed

lemma example_store_ok:
  "\<exists>st. example_store = Inr st \<and> store_ok {0, 1, 2} st \<and> store_contents st 0 = [] \<and>
     store_contents st 1 = [] \<and> store_contents st 2 = [] \<and> tuple_size (st_queue st 2) = 28"
proof -
  from example_pool obtain h p where new: "PagePool_new 4096 4096 True 64 6 False example_heap = Inr (h, p)"
    and inv: "pool_inv h p (pool_pages p)" and ps: "page_size p = 64" "length (pool_pages p) = 6" by blast
  have "3 \<le> length (pool_pages p)" using ps(2) by simp
  then obtain a b c fl where fl: "pool_pages p = a # b # c # fl"
    unfolding numeral_3_eq_3 Suc_le_length_iff by blast
  let ?st = "\<lparr>st_heap = h, st_pool = p, st_queue = \<lambda>_. no_queue\<rparr>"
  have p0: "pages_ok {} ?st (\<lambda>_. []) (\<lambda>_. 0) (\<lambda>_. 0) (a # b # c # fl)"
    using inv by (simp add: pages_ok_def fl)
  from store_new_ok [OF p0, of 0 28] ps obtain st0 ps0 i0 j0 where
    s0: "store_new 0 28 ?st = Inr st0" and p1: "pages_ok {0} st0 ps0 i0 j0 (b # c # fl)"
    and c0: "store_contents st0 0 = []" and z0: "page_size (st_pool st0) = 64"
    by (auto simp: PageHdr_size_def)
  from store_new_ok [OF p1, of 1 28] z0 c0 obtain st1 ps1 i1 j1 where
    s1: "store_new 1 28 st0 = Inr st1" and p2: "pages_ok {1, 0} st1 ps1 i1 j1 (c # fl)"
    and c1: "store_contents st1 1 = []" "store_contents st1 0 = []" and z1: "page_size (st_pool st1) = 64"
    by (auto simp: PageHdr_size_def)
  from store_new_ok [OF p2, of 2 28] z1 c1 obtain st2 ps2 i2 j2 where
    s2: "store_new 2 28 st1 = Inr st2" and p3: "pages_ok {2, 1, 0} st2 ps2 i2 j2 fl"
    and c2: "store_contents st2 2 = []" "store_contents st2 1 = []" "store_contents st2 0 = []"
    and z2: "tuple_size (st_queue st2 2) = 28"
    by (auto simp: PageHdr_size_def)
  have "store_ok {0, 1, 2} st2" using p3 by (auto simp: store_ok_def insert_commute)
  then show ?thesis using new s0 s1 s2 c2 z2 by (simp add: example_store_def)
qed

lemma example_storeD:
  assumes "example_store = Inr st"
  shows "store_ok {0, 1, 2} st" "store_contents st 0 = []" "store_contents st 1 = []"
    "store_contents st 2 = []" "tuple_size (st_queue st 2) = 28"
proof -
  obtain t where t: "example_store = Inr t" "store_ok {0, 1, 2} t" "store_contents t 0 = []"
    "store_contents t 1 = []" "store_contents t 2 = []" "tuple_size (st_queue t 2) = 28"
    using example_store_ok by blast
  with assms have "t = st" by (metis sum.inject(2))
  with t show "store_ok {0, 1, 2} st" "store_contents st 0 = []" "store_contents st 1 = []"
    "store_contents st 2 = []" "tuple_size (st_queue st 2) = 28" by blast+
qed

lemma example_stream_ok:
  "example_store = Inr st \<Longrightarrow> stream_ok example_boxes {0, 1, 2} example_stream st"
  using example_storeD(1,5) [of st]
  by (simp add: stream_ok_def stream_targets_def example_boxes_def example_stream_def ports_in_range_def)

section \<open>Evaluating the model on the example\<close>

lemma PagePool_link_numeral:
  "PagePool_link psize (numeral k) node h =
   PagePool_link psize (pred_numeral k) (node + psize) (write_next node (node + psize) h)"
  by (simp add: numeral_eq_Suc)

lemmas store_eval = example_store_def PagePool_new_def example_heap_def store_new_def store_put_def
  TupleQueue_new_def PagePool_alloc_def PageHdr_size_def u32_sub_def u32_inc_def write_next_def
  PagePool_link_numeral

lemmas queue_eval = TupleQueue_enq_def EnqIterator_incr_def EnqIterator_write_def TupleQueue_size_def
  DeqIterator_avail_def DeqIterator_tuple_def DeqIterator_incr_def u32_sub_def u32_inc_def
  write_data_def write_next_def write_prev_def PagePool_alloc_def PagePool_free_def PageHdr_size_def

lemmas stream_eval = example_stream_def example_boxes_def Stream_begin_buffering_def
  Stream_stop_buffering_def Stream_enqueue_tuple_def Stream_push_tuple_def store_enq_def
  store_view_def store_put_def store_size_def store_avail_def store_front_def store_deq_def

text \<open>A write while the stream buffers, and one after it has stopped.\<close>

definition example_ops :: "stream_op list" where
  "example_ops = [Begin_buffering, Write (example_tuple 1), Stop_buffering, Write (example_tuple 2)]"

lemma example_run:
  "\<exists>st s' st'. example_store = Inr st \<and>
     stream_run example_boxes example_ops (example_stream, st) = Some (Inr (s', st'))"
  unfolding example_ops_def
  apply (simp add: store_eval Let_def)
  apply (simp add: stream_eval queue_eval stream_dump.simps Let_def)
  done

end
