(* ===== verification/Storage_Properties.thy ===== *)
theory Storage_Properties
  imports Example_Network
begin

text \<open>
  What the storage manager promises its callers, stated over the code's definitions: the page
  pool, the tuple queue and its iterators, and the independence of the queues of a node.
\<close>

section \<open>A concrete queue\<close>

definition example_queue :: "queue_state result" where
  "example_queue =
     rbind (PagePool_new 4096 4096 True 64 6 False example_heap) (\<lambda>(h, p). TupleQueue_new 28 h p)"

lemma example_queue_ok:
  "\<exists>h p q page fl. example_queue = Inr (h, p, q) \<and> queue_ok h p q [page] 0 0 fl \<and>
     TupleQueue_abs (h, p, q) = [] \<and> tuple_size q = 28"
proof -
  from example_pool obtain h p where new: "PagePool_new 4096 4096 True 64 6 False example_heap = Inr (h, p)"
    and inv: "pool_inv h p (pool_pages p)" and ps: "page_size p = 64" "length (pool_pages p) = 6" by blast
  obtain page fl where fl: "pool_pages p = page # fl" using ps(2) by (cases "pool_pages p") auto
  from TupleQueue_new_ok [of h p page fl 28] inv ps obtain h' p' q where
    "TupleQueue_new 28 h p = Inr (h', p', q)" "queue_ok h' p' q [page] 0 0 fl"
    "TupleQueue_abs (h', p', q) = []" "tuple_size q = 28"
    by (auto simp: fl PageHdr_size_def)
  then show ?thesis using new by (auto simp: example_queue_def)
qed

lemma example_queue_inv:
  "\<exists>s. example_queue = Inr s \<and> tq_inv s \<and> TupleQueue_abs s = []"
  using example_queue_ok tq_invI by blast

lemma example_queueD:
  assumes "example_queue = Inr s"
  shows "tq_inv s" "TupleQueue_abs s = []"
proof -
  obtain t where t: "example_queue = Inr t" "tq_inv t" "TupleQueue_abs t = []" using example_queue_inv by blast
  have "t = s" using t(1) assms by (metis sum.inject(2))
  with t show "tq_inv s" "TupleQueue_abs s = []" by blast+
qed

lemma example_enqueued:
  "\<exists>s s'. example_queue = Inr s \<and> tq_inv s \<and> TupleQueue_abs s = [] \<and>
     TupleQueue_enqueue_multiple [example_tuple 1, example_tuple 2, example_tuple 3] s = Inr s' \<and>
     tq_inv s' \<and> TupleQueue_abs s' = [example_tuple 1, example_tuple 2, example_tuple 3]"
proof -
  have "\<exists>s s'. example_queue = Inr s \<and>
     TupleQueue_enqueue_multiple [example_tuple 1, example_tuple 2, example_tuple 3] s = Inr s'"
    by (simp add: example_queue_def store_eval TupleQueue_enqueue_multiple_def queue_eval Let_def)
  then obtain s s' where s: "example_queue = Inr s"
    "TupleQueue_enqueue_multiple [example_tuple 1, example_tuple 2, example_tuple 3] s = Inr s'" by blast
  note q = example_queueD [OF s(1)]
  have "tq_inv s' \<and> TupleQueue_abs s' = TupleQueue_abs s @ [example_tuple 1, example_tuple 2, example_tuple 3]"
    using tqi.enq_all [OF q(1)] s(2) unfolding TupleQueue_enqueue_multiple_def by blast
  then have "tq_inv s'" "TupleQueue_abs s' = [example_tuple 1, example_tuple 2, example_tuple 3]"
    unfolding q(2) by simp_all
  then show ?thesis using s q by blast
qed

section \<open>Tuple queues\<close>



text \<open>
  C17. The tuple queue is a queue: the tuples written by a bulk enqueue and read by a bulk
  dequeue come out behind the earlier contents in the order they went in, whatever the page
  boundaries, and the queue is empty afterwards. Both loops end.
\<close>

theorem tuple_queue_roundtrip:
  assumes "tq_inv s" "TupleQueue_enqueue_multiple xs s = Inr s'"
  shows "\<exists>s''. TupleQueue_dequeue_all s' = Some (Inr (TupleQueue_abs s @ xs, s'')) \<and>
     tq_inv s'' \<and> TupleQueue_abs s'' = []"
  using tqi.enq_all [OF assms(1), of xs s'] tqi.drain_all [of s' "[]"] assms(2)
  by (auto simp: TupleQueue_enqueue_multiple_def TupleQueue_dequeue_all_def)

theorem tuple_queue_roundtrip_witness:
  "\<exists>s s' s''. example_queue = Inr s \<and>
     TupleQueue_enqueue_multiple [example_tuple 1, example_tuple 2, example_tuple 3] s = Inr s' \<and>
     TupleQueue_dequeue_all s' = Some (Inr ([example_tuple 1, example_tuple 2, example_tuple 3], s''))"
proof -
  obtain s s' where s: "example_queue = Inr s" "tq_inv s" "TupleQueue_abs s = []"
    "TupleQueue_enqueue_multiple [example_tuple 1, example_tuple 2, example_tuple 3] s = Inr s'"
    using example_enqueued by blast
  from tuple_queue_roundtrip [OF s(2,4)] obtain s'' where
    "TupleQueue_dequeue_all s' = Some (Inr ([example_tuple 1, example_tuple 2, example_tuple 3], s''))"
    unfolding s(3) append_Nil by blast
  then show ?thesis using s(1,4) by blast
qed

text \<open>
  C33. An enqueue fails only when it has to open a page and the pool has none left, and then with
  the pool's exception.
\<close>

theorem enqueue_fails_iff_exhausted:
  assumes "queue_ok h p q ps i j fl"
  shows "TupleQueue_enq x (h, p, q) =
      (if fl = [] \<and> Suc j = tuples_per_page q then Inl AuroraException
       else Inr (projr (TupleQueue_enq x (h, p, q))))"
proof (cases "fl = [] \<and> Suc j = tuples_per_page q")
  case True
  then show ?thesis using enq_exhausted [of h p q ps i j x] assms by simp
next
  case False
  have "j < tuples_per_page q" using queue_okD(2) [OF assms] by (simp add: tq_shape_def)
  then have "fl \<noteq> [] \<or> Suc j < tuples_per_page q" using False by auto
  then obtain s' where "TupleQueue_enq x (h, p, q) = Inr s'" using enq_total [OF assms] by blast
  then show ?thesis using False by simp
qed

theorem enqueue_fails_iff_exhausted_witness:
  "\<exists>h p q s'. example_queue = Inr (h, p, q) \<and> TupleQueue_enq (example_tuple 1) (h, p, q) = Inr s'"
proof -
  obtain h p q page fl where q: "example_queue = Inr (h, p, q)" "queue_ok h p q [page] 0 0 fl"
    using example_queue_ok by blast
  have "tuples_per_page (snd (snd (projr example_queue))) = 2"
    by (simp add: example_queue_def store_eval Let_def)
  then have "tuples_per_page q = 2" unfolding q(1) by simp
  then have "TupleQueue_enq (example_tuple 1) (h, p, q) = Inr (projr (TupleQueue_enq (example_tuple 1) (h, p, q)))"
    using enqueue_fails_iff_exhausted [OF q(2), of "example_tuple 1"] by simp
  then show ?thesis using q(1) by blast
qed

lemma fold_enq_pages:
  assumes "queue_ok h p q ps i j fl" "fold_result TupleQueue_enq xs (h, p, q) = Inr s'"
  shows "\<exists>h' p' q' ps' j' fl'. s' = (h', p', q') \<and> queue_ok h' p' q' ps' i j' fl' \<and>
    set ps' \<union> set fl' = set ps \<union> set fl"
  using assms
proof (induction xs arbitrary: h p q ps j fl)
  case Nil
  then have "s' = (h, p, q)" by simp
  then show ?case using Nil(1) by blast
next
  case (Cons x xs)
  from Cons.prems(2) obtain h1 p1 q1 where s1: "TupleQueue_enq x (h, p, q) = Inr (h1, p1, q1)"
    "fold_result TupleQueue_enq xs (h1, p1, q1) = Inr s'" by fastforce
  from enq_refines [OF Cons.prems(1) s1(1)] obtain ps1 j1 fl1 where
    "queue_ok h1 p1 q1 ps1 i j1 fl1" "set ps1 \<union> set fl1 = set ps \<union> set fl" by (auto simp: enq_post_def)
  from Cons.IH [OF this(1) s1(2)] this(2) show ?case by auto
qed

text \<open>
  No page is lost: a queue that is created, written to and deleted gives all its pages back;
  the pool has as many free pages as before.
\<close>

lemma queue_returns_its_pages:
  assumes "pool_inv h p (page # fl)" "0 < tsize" "PageHdr_size + tsize \<le> page_size p"
    and "TupleQueue_new tsize h p = Inr s" "TupleQueue_enqueue_multiple xs s = Inr s'"
  shows "\<exists>h' p'. TupleQueue_delete s' = Some (Inr (h', p')) \<and>
    PagePool_free_pages p' = PagePool_free_pages p"
proof -
  obtain h1 p1 q1 where s: "s = (h1, p1, q1)" "queue_ok h1 p1 q1 [page] 0 0 fl"
    using TupleQueue_new_ok [OF assms(1-3)] assms(4) by auto
  have "fold_result TupleQueue_enq xs (h1, p1, q1) = Inr s'"
    using assms(5) unfolding s(1) TupleQueue_enqueue_multiple_def .
  from fold_enq_pages [OF s(2) this] obtain h2 p2 q2 ps j fl2 where s': "s' = (h2, p2, q2)"
    "queue_ok h2 p2 q2 ps 0 j fl2" "set ps \<union> set fl2 = set [page] \<union> set fl" by blast
  obtain h3 p3 where del: "TupleQueue_delete s' = Some (Inr (h3, p3))" "pool_inv h3 p3 (rev ps @ fl2)"
    using TupleQueue_delete_ok [OF s'(2)] unfolding s'(1) by blast
  have "distinct (rev ps @ fl2)" "distinct (page # fl)"
    using del(2) assms(1) unfolding pool_inv_def by blast+
  moreover have "set (rev ps @ fl2) = set (page # fl)" using s'(3) by simp
  ultimately have "length (rev ps @ fl2) = length (page # fl)" by (metis distinct_card)
  then show ?thesis
    using del PagePool_free_pages_length [OF del(2)] PagePool_free_pages_length [OF assms(1)] by simp
qed

text \<open>
  The size of a queue, computed from the wrapping 32-bit counters, is the number of tuples it
  holds, for tuples of at least two bytes.
\<close>

lemma queue_size_exact:
  assumes "queue_ok h p q ps i j fl" "2 \<le> tuple_size q"
  shows "TupleQueue_size q = int (length (TupleQueue_abs (h, p, q)))"
  using TupleQueue_size_length [OF assms] .

text \<open>
  A dequeue into a buffer of bsize bytes takes the oldest tuples, as many as fit, reports
  their number, and leaves the others in the queue.
\<close>

lemma dequeue_to_buffer_takes_prefix:
  assumes "tq_inv s" "0 < tsize" "tsize \<le> bsize"
  shows "\<exists>s'. TupleQueue_dequeue_to_buffer bsize tsize s =
      Inr ((take (bsize div tsize) (TupleQueue_abs s),
            min (length (TupleQueue_abs s)) (bsize div tsize)), s') \<and>
      tq_inv s' \<and> TupleQueue_abs s' = drop (bsize div tsize) (TupleQueue_abs s)"
  using dequeue_to_buffer_ok [OF assms] .

section \<open>Iterators\<close>

text \<open>
  C34. Reading a queue with the forward seek iterator sees exactly what dequeuing it would return,
  in the same order, and changes nothing.
\<close>

theorem seek_sees_what_dequeue_returns:
  assumes "tq_inv s"
  shows "\<exists>xs it s'. seek_read s = Some (Inr (xs, s, it)) \<and> TupleQueue_dequeue_all s = Some (Inr (xs, s'))"
  using seek_read_all [OF assms] dequeue_all_ok [OF assms] by blast

theorem seek_sees_what_dequeue_returns_witness:
  "\<exists>s it s'. example_queue = Inr s \<and> seek_read s = Some (Inr ([], s, it)) \<and>
     TupleQueue_dequeue_all s = Some (Inr ([], s'))"
proof -
  obtain s where s: "example_queue = Inr s" "tq_inv s" "TupleQueue_abs s = []" using example_queue_inv by blast
  from dequeue_all_ok [OF s(2)] obtain s1 where d: "TupleQueue_dequeue_all s = Some (Inr ([], s1))"
    unfolding s(3) by blast
  from seek_sees_what_dequeue_returns [OF s(2)] obtain xs it s' where
    r: "seek_read s = Some (Inr (xs, s, it))" "TupleQueue_dequeue_all s = Some (Inr (xs, s'))" by blast
  have "xs = []" using r(2) d by simp
  then show ?thesis using s(1) r by blast
qed

text \<open>
  The reverse iterator never reaches the oldest tuple of a queue: it reads all the others,
  newest first, and stops one short.
\<close>

lemma reverse_seek_misses_oldest:
  assumes "tq_inv s" "TupleQueue_abs s \<noteq> []"
  shows "\<exists>x. rseek_read s = Some (Inr (rev (tl (TupleQueue_abs s)), x))"
  using rseek_read_tail [OF assms] .

section \<open>The page pool and the queues of a node\<close>

text \<open>
  Allocation never hands out a page twice: the page leaves the free list, the pool's invariant
  holds again, and giving the page back restores the number of allocated pages.
\<close>

lemma pool_alloc_free_roundtrip:
  assumes "pool_inv h p fl" "PagePool_alloc h p = Inr (page, p')"
  shows "\<exists>fl'. fl = page # fl' \<and> page \<notin> set fl' \<and> pool_inv h p' fl' \<and>
    alloced_pages p' = Suc (alloced_pages p) \<and>
    (\<exists>h' p''. PagePool_free page h p' = Inr (h', p'') \<and> pool_inv h' p'' (page # fl') \<and>
       alloced_pages p'' = alloced_pages p)"
proof -
  obtain fl' where fl: "fl = page # fl'" "pool_inv h p' fl'" "pool_pages p' = pool_pages p"
    "alloced_pages p' = Suc (alloced_pages p)"
    using PagePool_alloc_Inr [OF assms] by blast
  have mem: "page \<in> set (pool_pages p')" "page \<notin> set fl'"
    using assms(1) unfolding fl(1,3) pool_inv_def by auto
  show ?thesis using PagePool_free_ok [OF fl(2) mem] fl mem by auto
qed

text \<open>
  C29. The queues of a node do not interfere: though all live on one heap and one pool, a write to
  one of them and a read from another change only the queue they name.
\<close>

theorem queues_are_independent:
  assumes "store_ok Q st" "q \<in> Q"
  shows "(\<forall>x st'. store_enq q x st = Inr st' \<longrightarrow> store_ok Q st' \<and>
      store_contents st' q = store_contents st q @ [x] \<and>
      (\<forall>r \<in> Q - {q}. store_contents st' r = store_contents st r)) \<and>
    (store_contents st q \<noteq> [] \<longrightarrow> (\<exists>st'. store_deq q st = Inr st' \<and> store_ok Q st' \<and>
      store_contents st' q = tl (store_contents st q) \<and>
      (\<forall>r \<in> Q - {q}. store_contents st' r = store_contents st r)))"
  using sto.enq_law [OF assms] sto.deq_law [OF assms] by blast

theorem queues_are_independent_witness:
  "\<exists>st st'. example_store = Inr st \<and> store_enq 1 (example_tuple 1) st = Inr st' \<and>
     store_contents st' 1 = [example_tuple 1] \<and> store_contents st' 0 = []"
proof -
  have "\<exists>st st'. example_store = Inr st \<and> store_enq 1 (example_tuple 1) st = Inr st'"
    by (simp add: store_eval queue_eval store_enq_def store_view_def Let_def)
  then obtain st st' where st: "example_store = Inr st" "store_enq 1 (example_tuple 1) st = Inr st'" by blast
  note d = example_storeD [OF st(1)]
  from queues_are_independent [OF d(1), of 1] st(2) d(2,3) show ?thesis using st by auto
qed

end
