(* ===== verification/Box_Runs.thy ===== *)
theory Box_Runs
  imports Tuple_Queue_Ops
begin

text \<open>
  One invocation of a query box (\<open>QBoxInvocation\<close> in queryProcessor/runtime/QBox.h): the guard
  \<open>continue_dequeue_on\<close> of the boxes' main loops, with its tuple limit and its deadline, and
  the loops over an input queue that it bounds.
\<close>

section \<open>State\<close>

text \<open>
  \<open>clock\<close> is the sequence of values \<open>Scheduler::ticks()\<close> returns, \<open>ticks_read\<close> how many have
  been read; \<open>_box\<close> is only tested for null.
\<close>

record qbox_invocation =
  tuples_dequeued :: nat
  has_box :: bool
  tuple_limit :: "nat list"
  end_time :: nat
  last_ticks :: nat
  next_tick :: nat
  clock :: "nat \<Rightarrow> nat"
  ticks_read :: nat

definition CALLS_BETWEEN_TICK :: nat where
  "CALLS_BETWEEN_TICK = 1"

definition TUPLE_PROCESSING_LIMIT :: nat where
  "TUPLE_PROCESSING_LIMIT = 10"

definition QBoxInvocation_new :: "(nat \<Rightarrow> nat) \<Rightarrow> qbox_invocation" where
  "QBoxInvocation_new clk =
     \<lparr>tuples_dequeued = 0, has_box = False, tuple_limit = [], end_time = 0, last_ticks = 0,
      next_tick = 1, clock = clk, ticks_read = 0\<rparr>"

section \<open>Operations\<close>

definition ticks :: "qbox_invocation \<Rightarrow> nat \<times> qbox_invocation" where
  "ticks qi =
     (let n = u32_sub (next_tick qi) 1
      in if n = 0
         then (let v = clock qi (ticks_read qi)
               in (v, qi\<lparr>next_tick := CALLS_BETWEEN_TICK, last_ticks := v,
                         ticks_read := Suc (ticks_read qi)\<rparr>))
         else (last_ticks qi, qi\<lparr>next_tick := n\<rparr>))"

text \<open>
  The first argument is the input port, the last whether the iterator has a tuple; the scheduler
  fills \<open>tuple_limit\<close> with one entry per input port.
\<close>

definition continue_dequeue_on :: "nat \<Rightarrow> qbox_invocation \<Rightarrow> bool \<Rightarrow> bool \<times> qbox_invocation" where
  "continue_dequeue_on port qi avail =
     (if \<not> avail then (False, qi\<lparr>tuples_dequeued := 0\<rparr>)
      else
        let qi1 = qi\<lparr>tuples_dequeued := u32_inc (tuples_dequeued qi)\<rparr>
        in if has_box qi1 \<and> tuple_limit qi1 \<noteq> [] \<and> tuples_dequeued qi1 \<ge> tuple_limit qi1 ! port
           then (False, qi1\<lparr>tuples_dequeued := 0\<rparr>)
           else if end_time qi1 \<noteq> 0
           then (let (t, qi2) = ticks qi1
                 in if t \<ge> end_time qi2 then (False, qi2\<lparr>tuples_dequeued := 0\<rparr>) else (True, qi2))
           else (True, qi1))"

text \<open>\<open>get_max_tuples_to_dequeue\<close>: \<open>numeric_limits<int>::max()\<close>.\<close>

definition get_max_tuples_to_dequeue :: nat where
  "get_max_tuples_to_dequeue = 2 ^ 31 - 1"

text \<open>
  The loop \<open>while (inv.continue_dequeue_on(d, port)) { ...; ++d; }\<close> over the tuples queued on a
  port, and the same loop over the paged queue itself.
\<close>

definition run_port ::
  "nat \<Rightarrow> (tuple \<Rightarrow> 'b \<Rightarrow> 'b) \<Rightarrow> qbox_invocation \<Rightarrow> tuple list \<Rightarrow> 'b \<Rightarrow> qbox_invocation \<times> tuple list \<times> 'b" where
  "run_port port f qi xs b = list_loop (continue_dequeue_on port) f qi xs b"

definition run_queue ::
  "nat \<Rightarrow> (tuple \<Rightarrow> 'b \<Rightarrow> 'b) \<Rightarrow> qbox_invocation \<Rightarrow> queue_state \<Rightarrow> 'b
   \<Rightarrow> (qbox_invocation \<times> queue_state \<times> 'b) result option" where
  "run_queue port f qi s b =
     box_loop DeqIterator_avail DeqIterator_tuple DeqIterator_incr (continue_dequeue_on port) f qi s b"

section \<open>The guard\<close>

lemma continue_guards: "guards_avail (continue_dequeue_on port)"
  by (simp add: guards_avail_def continue_dequeue_on_def)

text \<open>How many tuples a run consumes.\<close>

definition run_count :: "nat \<Rightarrow> qbox_invocation \<Rightarrow> 'a list \<Rightarrow> nat" where
  "run_count port qi xs = loop_count (continue_dequeue_on port) qi xs"

lemma run_port_eq:
  "run_port port f qi xs b =
     (fst (run_port port f qi xs b), drop (run_count port qi xs) xs,
      fold f (take (run_count port qi xs) xs) b)"
  by (simp add: run_port_def run_count_def prod_eq_iff list_loop_fold)

lemma run_port_ex:
  "\<exists>qi'. run_port port f qi xs b =
     (qi', drop (run_count port qi xs) xs, fold f (take (run_count port qi xs) xs) b)"
  by (rule exI, rule run_port_eq)

lemma run_count_le: "run_count port qi xs \<le> length xs"
  by (simp add: run_count_def loop_count_le)

lemma list_loop_fst_indep:
  "fst (list_loop cont f i xs b) = fst (list_loop cont f' i xs b')"
  by (induction xs arbitrary: i b b') simp_all

text \<open>The run on the paged queue is the run on the list of its contents, and ends.\<close>

lemma run_queue_list:
  assumes "tq_inv s"
  shows "\<exists>s' qi'. run_queue port f qi s b =
      Some (Inr (qi', s', fold f (take (run_count port qi (TupleQueue_abs s)) (TupleQueue_abs s)) b)) \<and>
      tq_inv s' \<and> TupleQueue_abs s' = drop (run_count port qi (TupleQueue_abs s)) (TupleQueue_abs s)"
  using tqi.box_loop_list [OF continue_guards assms, of port f qi b]
  by (auto simp: run_queue_def run_count_def list_loop_fold)

text \<open>The tuple limit: a run stops one tuple short of it.\<close>

lemma run_count_limited:
  assumes "has_box qi" "tuple_limit qi \<noteq> []" "end_time qi = 0" "tuple_limit qi ! port < 2 ^ 32"
  shows "tuples_dequeued qi < tuple_limit qi ! port \<Longrightarrow>
    run_count port qi xs = min (length xs) (tuple_limit qi ! port - 1 - tuples_dequeued qi)"
  using assms
proof (induction xs arbitrary: qi)
  case Nil
  then show ?case by (simp add: run_count_def)
next
  case (Cons x xs)
  let ?d = "tuples_dequeued qi" and ?l = "tuple_limit qi ! port"
  have inc: "u32_inc ?d = Suc ?d" using Cons.prems by simp
  show ?case
  proof (cases "Suc ?d < ?l")
    case True
    let ?qi = "qi\<lparr>tuples_dequeued := Suc ?d\<rparr>"
    have "run_count port ?qi xs = min (length xs) (?l - 1 - Suc ?d)"
      using Cons.IH [of ?qi] Cons.prems True by simp
    moreover have "run_count port qi (x # xs) = Suc (run_count port ?qi xs)"
      using Cons.prems True by (simp add: run_count_def continue_dequeue_on_def inc)
    ultimately show ?thesis using True by simp
  next
    case False
    with Cons.prems show ?thesis
      by (simp add: run_count_def continue_dequeue_on_def inc)
  qed
qed

text \<open>The deadline: nothing is dequeued once the clock has reached it.\<close>

lemma run_count_deadline:
  assumes "end_time qi \<noteq> 0" "next_tick qi = 1" "end_time qi \<le> clock qi (ticks_read qi)"
  shows "run_count port qi xs = 0"
  using assms by (cases xs) (simp_all add: run_count_def continue_dequeue_on_def ticks_def u32_sub_def Let_def)

section \<open>Emissions\<close>

text \<open>What a run writes, in order: output port and tuple.\<close>

type_synonym emissions = "(nat \<times> tuple) list"

definition port_out :: "nat \<Rightarrow> emissions \<Rightarrow> tuple list" where
  "port_out p es = map snd (filter (\<lambda>e. fst e = p) es)"

lemma port_out_simps [simp]:
  "port_out p [] = []"
  "port_out p ((q, t) # es) = (if q = p then t # port_out p es else port_out p es)"
  "port_out p (es @ fs) = port_out p es @ port_out p fs"
  by (simp_all add: port_out_def)

text \<open>The ports whose queues are notified after a run: those written to, in port order.\<close>

definition notified :: "nat \<Rightarrow> emissions \<Rightarrow> nat list" where
  "notified n es = filter (\<lambda>p. port_out p es \<noteq> []) [0..<n]"

lemma fold_append: "fold (\<lambda>t es. es @ f t) ts es = es @ concat (map f ts)"
  by (induction ts arbitrary: es) simp_all

lemma port_out_concat: "port_out p (concat (map f ts)) = concat (map (\<lambda>t. port_out p (f t)) ts)"
  by (induction ts) simp_all

section \<open>Windows\<close>

text \<open>The enumerations that the boxes with windows share, and the bytes of an \<open>int32\<close>, lowest first.\<close>

datatype window_method = WINDOW_BY_TUPLES | WINDOW_BY_VALUES

datatype order_by_method = ORDER_BY_FIELD | ORDER_BY_TUPLENUM

definition int32_bytes :: "int \<Rightarrow> byte list" where
  "int32_bytes v = map (\<lambda>k. of_int (v div 256 ^ k)) [0..<4]"

text \<open>Overwriting memory from its beginning.\<close>

definition overlay :: "byte list \<Rightarrow> byte list \<Rightarrow> byte list" where
  "overlay bs old = bs @ drop (length bs) old"

end
