(* ===== verification/Routing_Boxes.thy ===== *)
theory Routing_Boxes
  imports Box_Runs "HOL-Library.Sublist"
begin

text \<open>
  The boxes that only route tuples: Union (boxes/UnionQBox.cc), Filter (boxes/FilterQBox.cc,
  FilterQBox.h) and RandomDrop (boxes/RandomDropQBox.cc). A run reads the tuples queued on the
  input ports and writes emissions (port and tuple, in order).
\<close>

section \<open>Union\<close>

text \<open>
  \<open>inputs\<close> are the queued tuples per port, from port \<open>i\<close> on; each is read in turn for as long
  as the invocation allows.
\<close>

fun union_ports ::
  "nat \<Rightarrow> qbox_invocation \<Rightarrow> tuple list list \<Rightarrow> emissions \<Rightarrow> qbox_invocation \<times> tuple list list \<times> emissions" where
  "union_ports i qi [] out = (qi, [], out)"
| "union_ports i qi (xs # inputs) out =
     (let (qi1, rest, out1) = run_port i (\<lambda>t es. es @ [(0, t)]) qi xs out;
          (qi2, rests, out2) = union_ports (Suc i) qi1 inputs out1
      in (qi2, rest # rests, out2))"

definition UnionQBox_run :: "qbox_invocation \<Rightarrow> tuple list list \<Rightarrow> qbox_invocation \<times> tuple list list \<times> emissions" where
  "UnionQBox_run qi inputs = union_ports 0 qi inputs []"

text \<open>Every port gives up a prefix; the prefixes are written one after the other, in port order.\<close>

lemma union_ports_spec:
  "\<exists>qi' ns. union_ports i qi inputs out =
     (qi', map2 drop ns inputs, out @ map (Pair 0) (concat (map2 take ns inputs))) \<and>
     length ns = length inputs"
proof (induction inputs arbitrary: i qi out)
  case Nil
  then show ?case by simp
next
  case (Cons xs inputs)
  let ?n = "run_count i qi xs" and ?f = "\<lambda>t es. es @ [(0, t)]"
  obtain qi1 where "run_port i ?f qi xs out = (qi1, drop ?n xs, fold ?f (take ?n xs) out)"
    using run_port_ex [of i ?f qi xs out] by blast
  then have run: "run_port i ?f qi xs out = (qi1, drop ?n xs, out @ map (Pair 0) (take ?n xs))"
    by (simp add: fold_append)
  obtain qi2 ns where "union_ports (Suc i) qi1 inputs (out @ map (Pair 0) (take ?n xs)) =
      (qi2, map2 drop ns inputs, (out @ map (Pair 0) (take ?n xs)) @ map (Pair 0) (concat (map2 take ns inputs)))"
    "length ns = length inputs"
    using Cons.IH by blast
  then show ?case by (intro exI [of _ qi2] exI [of _ "?n # ns"]) (simp add: run)
qed

section \<open>Filter\<close>

text \<open>
  The predicates are parsed expressions, here functions on the tuple; \<open>null_vals i t\<close> is the
  tuple \<open>iterate_over_and_null_vals\<close> builds in array mode.
\<close>

record filter_box =
  expressions :: "(tuple \<Rightarrow> bool) list"
  pass_on_false_port :: bool
  array_rewrite :: bool

definition is_punctuation :: "tuple \<Rightarrow> bool" where
  "is_punctuation t \<longleftrightarrow> tuple_type t = BOUNDARY \<or> tuple_type t = RECONCILIATION_DONE"

text \<open>The loop over the expressions, from number \<open>i\<close> on; the flag is \<open>passed\<close>.\<close>

fun filter_exprs :: "nat \<Rightarrow> (tuple \<Rightarrow> bool) list \<Rightarrow> tuple \<Rightarrow> emissions \<times> bool" where
  "filter_exprs i [] t = ([], False)"
| "filter_exprs i (e # es) t =
     (if is_punctuation t then (let (out, passed) = filter_exprs (Suc i) es t in ((i, t) # out, passed))
      else if e t then ([(i, t)], True)
      else if win_spec t \<ge> 0 then ([(i, set_fake_flag True t)], True)
      else filter_exprs (Suc i) es t)"

text \<open>
  One iteration of the main loop. In array mode the output tuple of every stream but the first
  is built in an uninitialised buffer.
\<close>

definition filter_step :: "filter_box \<Rightarrow> (nat \<Rightarrow> tuple \<Rightarrow> tuple) \<Rightarrow> tuple \<Rightarrow> emissions result" where
  "filter_step box null_vals t =
     (if get_fake_flag t then Inr [(0, t)]
      else if array_rewrite box
      then (if length (expressions box) > 1 then Inl Undefined else Inr [(0, null_vals 0 t)])
      else
        let (out, passed) = filter_exprs 0 (expressions box) t
        in Inr (out @ (if \<not> passed \<and> pass_on_false_port box
                       then [(length (expressions box), t)] else [])))"

definition FilterQBox_run ::
  "filter_box \<Rightarrow> (nat \<Rightarrow> tuple \<Rightarrow> tuple) \<Rightarrow> qbox_invocation \<Rightarrow> tuple list
   \<Rightarrow> qbox_invocation \<times> tuple list \<times> emissions result" where
  "FilterQBox_run box null_vals qi xs =
     run_port 0 (\<lambda>t r. rbind r (\<lambda>out. rbind (filter_step box null_vals t) (\<lambda>es. Inr (out @ es))))
       qi xs (Inr [])"

text \<open>The ports notified at the end: those written to, the false port last and only if enabled.\<close>

definition FilterQBox_notified :: "filter_box \<Rightarrow> emissions \<Rightarrow> nat list" where
  "FilterQBox_notified box out =
     notified (length (expressions box)) out @
     (if pass_on_false_port box \<and> port_out (length (expressions box)) out \<noteq> []
      then [length (expressions box)] else [])"

text \<open>
  Specification: the number of the first predicate that holds; and the tuples on a port for one
  tuple. A data tuple with a window specification, which comes from a load shedder, goes to the first port whatever its predicates, as a fake
  tuple if the first one does not hold.
\<close>

definition first_match :: "(tuple \<Rightarrow> bool) list \<Rightarrow> tuple \<Rightarrow> nat option" where
  "first_match es t = (case find (\<lambda>i. (es ! i) t) [0..<length es] of None \<Rightarrow> None | Some i \<Rightarrow> Some i)"

definition filter_spec :: "filter_box \<Rightarrow> tuple \<Rightarrow> nat \<Rightarrow> tuple list" where
  "filter_spec box t p =
     (let n = length (expressions box)
      in if get_fake_flag t then (if p = 0 then [t] else [])
         else if is_punctuation t
         then (if p < n \<or> p = n \<and> pass_on_false_port box then [t] else [])
         else if 0 \<le> win_spec t \<and> n \<noteq> 0
         then (if p = 0 then [if hd (expressions box) t then t else set_fake_flag True t] else [])
         else case first_match (expressions box) t of
             Some i \<Rightarrow> if p = i then [t] else []
           | None \<Rightarrow> if p = n \<and> pass_on_false_port box then [t] else [])"

lemma first_match_Nil [simp]: "first_match [] t = None"
  by (simp add: first_match_def)

lemma find_map: "find P (map f xs) = map_option f (find (P \<circ> f) xs)"
  by (induction xs) simp_all

lemma first_match_Cons [simp]:
  "first_match (e # es) t = (if e t then Some 0 else map_option Suc (first_match es t))"
proof -
  have "[0..<length (e # es)] = 0 # map Suc [0..<length es]"
    by (simp add: map_Suc_upt upt_conv_Cons del: upt_Suc)
  then show ?thesis
    by (simp add: first_match_def find_map comp_def del: upt_Suc split: option.splits)
qed

lemma first_match_less: "first_match es t = Some i \<Longrightarrow> i < length es"
  by (induction es arbitrary: i) (auto split: if_splits)

lemma filter_exprs_punctuation:
  "is_punctuation t \<Longrightarrow> filter_exprs i es t = (map (\<lambda>k. (k, t)) [i..<i + length es], False)"
proof (induction es arbitrary: i)
  case Nil
  then show ?case by simp
next
  case (Cons e es)
  have "[i..<i + length (e # es)] = i # [Suc i..<Suc i + length es]"
    by (simp add: upt_conv_Cons del: upt_Suc)
  with Cons show ?case by simp
qed

lemma filter_exprs_match:
  "\<not> is_punctuation t \<Longrightarrow> win_spec t < 0 \<Longrightarrow>
   filter_exprs i es t = (case first_match es t of None \<Rightarrow> ([], False) | Some k \<Rightarrow> ([(i + k, t)], True))"
  by (induction es arbitrary: i) (simp_all split: option.splits)

lemma port_out_upt:
  "port_out p (map (\<lambda>k. (k, t)) [i..<j]) = (if i \<le> p \<and> p < j then [t] else [])"
proof (induction j)
  case 0
  then show ?case by simp
next
  case (Suc j)
  then show ?case by (cases "i \<le> j") auto
qed

text \<open>A tuple with a window specification always goes on at port 0, if need be as a fake tuple.\<close>

lemma filter_step_win_spec:
  assumes "\<not> array_rewrite box" "0 \<le> win_spec t" "\<not> get_fake_flag t" "\<not> is_punctuation t"
    and "expressions box = e # es"
  shows "filter_step box null_vals t = Inr [(0, if e t then t else set_fake_flag True t)]"
  using assms by (simp add: filter_step_def)

text \<open>One tuple is routed as specified.\<close>

lemma filter_step_spec:
  assumes "\<not> array_rewrite box"
  shows "\<exists>es. filter_step box null_vals t = Inr es \<and> port_out p es = filter_spec box t p"
proof -
  consider "get_fake_flag t" | "\<not> get_fake_flag t" "is_punctuation t"
    | e es where "\<not> get_fake_flag t" "\<not> is_punctuation t" "0 \<le> win_spec t" "expressions box = e # es"
    | "\<not> get_fake_flag t" "\<not> is_punctuation t" "win_spec t < 0 \<or> expressions box = []"
    using linorder_not_less list.exhaust by metis
  then show ?thesis
  proof cases
    case 1
    then show ?thesis by (simp add: filter_step_def filter_spec_def)
  next
    case 2
    then show ?thesis
      using assms by (auto simp: filter_step_def filter_spec_def Let_def filter_exprs_punctuation port_out_upt)
  next
    case 3
    from filter_step_win_spec [OF assms 3(3,1,2,4)] 3 show ?thesis by (simp add: filter_spec_def Let_def)
  next
    case 4
    then have "filter_exprs 0 (expressions box) t =
        (case first_match (expressions box) t of None \<Rightarrow> ([], False) | Some k \<Rightarrow> ([(k, t)], True))"
      by (auto simp: filter_exprs_match split: option.splits)
    with 4 show ?thesis
      using assms by (auto simp: filter_step_def filter_spec_def Let_def split: option.splits dest: first_match_less)
  qed
qed

lemma filter_fold:
  assumes "\<not> array_rewrite box"
  shows "\<exists>es. fold (\<lambda>t r. rbind r (\<lambda>out. rbind (filter_step box null_vals t) (\<lambda>e. Inr (out @ e))))
      ts (Inr out) = Inr es \<and> (\<forall>p. port_out p es = port_out p out @ concat (map (\<lambda>t. filter_spec box t p) ts))"
proof (induction ts arbitrary: out)
  case Nil
  then show ?case by simp
next
  case (Cons t ts)
  from filter_step_spec [OF assms] obtain e where e: "filter_step box null_vals t = Inr e"
    "\<forall>p. port_out p e = filter_spec box t p"
    by (metis Inr_inject)
  from Cons.IH [of "out @ e"] e show ?case by simp
qed

lemma FilterQBox_run_spec:
  assumes "\<not> array_rewrite box"
  shows "\<exists>qi' es. FilterQBox_run box null_vals qi xs = (qi', drop (run_count 0 qi xs) xs, Inr es) \<and>
    (\<forall>p. port_out p es = concat (map (\<lambda>t. filter_spec box t p) (take (run_count 0 qi xs) xs)))"
  using filter_fold [OF assms, of null_vals "take (run_count 0 qi xs) xs" "[]"]
  unfolding FilterQBox_run_def by (subst run_port_eq) auto

section \<open>RandomDrop\<close>

text \<open>
  \<open>dice k\<close> is the outcome of the \<open>k\<close>-th comparison of \<open>rand_r(&seed) / RAND_MAX\<close> with the drop
  rate (\<open>seed\<close> is static, so the sequence goes on over all runs); at most 100 tuples are read,
  whatever the invocation says. The result is the remaining input, the emissions and the
  number of draws made so far.
\<close>

fun random_drop_loop ::
  "(nat \<Rightarrow> bool) \<Rightarrow> nat \<Rightarrow> nat \<Rightarrow> tuple list \<Rightarrow> emissions \<Rightarrow> tuple list \<times> emissions \<times> nat" where
  "random_drop_loop dice draws tuple_count [] out = ([], out, draws)"
| "random_drop_loop dice draws tuple_count (t # xs) out =
     (if tuple_count < 100
      then (if get_fake_flag t then random_drop_loop dice draws (Suc tuple_count) xs (out @ [(0, t)])
            else if dice draws then random_drop_loop dice (Suc draws) (Suc tuple_count) xs out
            else random_drop_loop dice (Suc draws) (Suc tuple_count) xs (out @ [(0, t)]))
      else (t # xs, out, draws))"

definition RandomDropQBox_run ::
  "(nat \<Rightarrow> bool) \<Rightarrow> nat \<Rightarrow> tuple list \<Rightarrow> tuple list \<times> emissions \<times> nat" where
  "RandomDropQBox_run dice draws xs = random_drop_loop dice draws 0 xs []"

text \<open>
  Specification, by positions: a tuple is kept if it is fake or if the comparison says so whose number is the number of tuples
  before it that are not fake.
\<close>

definition draws_for :: "tuple list \<Rightarrow> nat" where
  "draws_for ts = length (filter (\<lambda>t. \<not> get_fake_flag t) ts)"

definition random_kept :: "(nat \<Rightarrow> bool) \<Rightarrow> nat \<Rightarrow> tuple list \<Rightarrow> tuple list" where
  "random_kept dice draws ts =
     map (nth ts) (filter (\<lambda>i. get_fake_flag (ts ! i) \<or> \<not> dice (draws + draws_for (take i ts))) [0..<length ts])"

lemma draws_for_simps [simp]:
  "draws_for [] = 0"
  "draws_for (t # ts) = (if get_fake_flag t then draws_for ts else Suc (draws_for ts))"
  by (simp_all add: draws_for_def)

lemma random_kept_simps [simp]:
  "random_kept dice draws [] = []"
  "random_kept dice draws (t # ts) =
     (if get_fake_flag t then t # random_kept dice draws ts
      else if dice draws then random_kept dice (Suc draws) ts else t # random_kept dice (Suc draws) ts)"
proof -
  have "[0..<length (t # ts)] = 0 # map Suc [0..<length ts]"
    by (simp add: map_Suc_upt upt_conv_Cons del: upt_Suc)
  then show "random_kept dice draws (t # ts) =
     (if get_fake_flag t then t # random_kept dice draws ts
      else if dice draws then random_kept dice (Suc draws) ts else t # random_kept dice (Suc draws) ts)"
    by (simp add: random_kept_def filter_map comp_def del: upt_Suc)
qed (simp add: random_kept_def)

lemma random_drop_loop_spec:
  "random_drop_loop dice draws n xs out =
     (drop (100 - n) xs, out @ map (Pair 0) (random_kept dice draws (take (100 - n) xs)), draws + draws_for (take (100 - n) xs))"
proof (induction xs arbitrary: draws n out)
  case Nil
  then show ?case by simp
next
  case (Cons t xs)
  show ?case
  proof (cases "n < 100")
    case False
    then show ?thesis by simp
  next
    case True
    then have "100 - n = Suc (100 - Suc n)" by simp
    then show ?thesis using True Cons.IH by simp
  qed
qed

end
