(* ===== verification/Lock_Boxes.thy ===== *)
theory Lock_Boxes
  imports Box_Runs
begin

text \<open>
  Lock sets (runtime/LockSet.h) and the Lock and Unlock boxes (boxes/LockQBox.cc, UnlockQBox.cc):
  between a Lock and an Unlock box at most one tuple per key is in flight; the others wait in
  the Lock box, in their order of arrival. A box holds the mutex of the lock set for the whole
  of a run, so runs are the atomic steps.
\<close>

section \<open>Operations\<close>

text \<open>\<open>_locked[key]\<close> of an absent key is false.\<close>

type_synonym lock_set = "int \<Rightarrow> bool"

definition take_lock :: "int \<Rightarrow> lock_set \<Rightarrow> bool \<times> lock_set" where
  "take_lock key lset = (if lset key then (False, lset) else (True, lset(key := True)))"

definition release_lock :: "int \<Rightarrow> lock_set \<Rightarrow> lock_set" where
  "release_lock key lset = lset(key := False)"

type_synonym pending_map = "int \<Rightarrow> tuple list option"

record lock_box =
  locks :: lock_set
  pending :: pending_map
  emitted :: "tuple list"

text \<open>
  First loop of a run: every key with stalled tuples, in the order \<open>keys\<close> in which the hash map
  enumerates them. Keys whose list becomes empty are collected and erased after the loop.
\<close>

fun lock_pending :: "int list \<Rightarrow> lock_box \<Rightarrow> int list \<Rightarrow> (lock_box \<times> int list) result" where
  "lock_pending [] b dels = Inr (b, dels)"
| "lock_pending (k # ks) b dels =
     (let (ok, lset) = take_lock k (locks b)
      in if ok
         then (case pending b k of
                 Some (t # ts) \<Rightarrow>
                   lock_pending ks
                     (b\<lparr>locks := lset, emitted := emitted b @ [t], pending := (pending b)(k \<mapsto> ts)\<rparr>)
                     (if ts = [] then dels @ [k] else dels)
               | _ \<Rightarrow> Inl Undefined)
         else lock_pending ks b dels)"

text \<open>An iteration of the second loop.\<close>

definition lock_tuple :: "(tuple \<Rightarrow> int) \<Rightarrow> tuple \<Rightarrow> lock_box \<Rightarrow> lock_box" where
  "lock_tuple key_expr t b =
     (let key = key_expr t; (ok, lset) = take_lock key (locks b)
      in if ok then b\<lparr>locks := lset, emitted := emitted b @ [t]\<rparr>
         else b\<lparr>pending := (pending b)
                 (key \<mapsto> (case pending b key of None \<Rightarrow> [] | Some ts \<Rightarrow> ts) @ [t])\<rparr>)"

text \<open>The result tells whether the box asks to be scheduled again.\<close>

definition LockQBox_run ::
  "(tuple \<Rightarrow> int) \<Rightarrow> (pending_map \<Rightarrow> int list) \<Rightarrow> qbox_invocation \<Rightarrow> tuple list \<Rightarrow> lock_box
   \<Rightarrow> (qbox_invocation \<times> tuple list \<times> lock_box \<times> bool) result" where
  "LockQBox_run key_expr order qi xs b =
     rbind (lock_pending (order (pending b)) b []) (\<lambda>(b1, dels).
       let b2 = b1\<lparr>pending := fold (\<lambda>k m. m(k := None)) dels (pending b1)\<rparr>;
           (qi', rest, b3) = run_port 0 (lock_tuple key_expr) qi xs b2
       in Inr (qi', rest, b3, pending b3 \<noteq> Map.empty))"

definition UnlockQBox_run ::
  "(tuple \<Rightarrow> int) \<Rightarrow> qbox_invocation \<Rightarrow> tuple list \<Rightarrow> lock_set \<times> tuple list
   \<Rightarrow> qbox_invocation \<times> tuple list \<times> lock_set \<times> tuple list" where
  "UnlockQBox_run key_expr qi xs s =
     run_port 0 (\<lambda>t (lset, out). (release_lock (key_expr t) lset, out @ [t])) qi xs s"

section \<open>What a run of the Lock box keeps\<close>

text \<open>Tuples of one key, in order, and how many.\<close>

definition of_key :: "(tuple \<Rightarrow> int) \<Rightarrow> int \<Rightarrow> tuple list \<Rightarrow> tuple list" where
  "of_key f k ts = filter (\<lambda>t. f t = k) ts"

lemma of_key_simps [simp]:
  "of_key f k [] = []"
  "of_key f k (t # ts) = (if f t = k then t # of_key f k ts else of_key f k ts)"
  "of_key f k (ts @ us) = of_key f k ts @ of_key f k us"
  by (simp_all add: of_key_def)

definition waiting :: "pending_map \<Rightarrow> int \<Rightarrow> tuple list" where
  "waiting m k = (case m k of None \<Rightarrow> [] | Some ts \<Rightarrow> ts)"

text \<open>
  \<open>arrived\<close> are the tuples the box has read so far: of each key the emitted ones and the
  waiting ones, in the order of arrival. \<open>stable\<close> says that a key with waiting tuples is locked.
\<close>

definition lock_fifo :: "(tuple \<Rightarrow> int) \<Rightarrow> tuple list \<Rightarrow> lock_box \<Rightarrow> bool" where
  "lock_fifo f arrived b \<longleftrightarrow>
     (\<forall>k. of_key f k arrived = of_key f k (emitted b) @ waiting (pending b) k) \<and>
     (\<forall>k. \<forall>t \<in> set (waiting (pending b) k). f t = k)"

definition stable :: "lock_box \<Rightarrow> bool" where
  "stable b \<longleftrightarrow> (\<forall>k. waiting (pending b) k \<noteq> [] \<longrightarrow> locks b k)"

definition no_empty :: "pending_map \<Rightarrow> bool" where
  "no_empty m \<longleftrightarrow> (\<forall>k. m k \<noteq> Some [])"

text \<open>Per key: one again tuple out if and only if the lock has been taken.\<close>

definition taken :: "(tuple \<Rightarrow> int) \<Rightarrow> lock_box \<Rightarrow> lock_box \<Rightarrow> bool" where
  "taken f b b' \<longleftrightarrow> (\<forall>k. length (of_key f k (emitted b')) + (if locks b k then 1 else 0) =
      length (of_key f k (emitted b)) + (if locks b' k then 1 else 0) \<and> (locks b k \<longrightarrow> locks b' k))"

lemma taken_refl [simp]: "taken f b b"
  by (simp add: taken_def)

lemma taken_trans:
  assumes "taken f a b" "taken f b c"
  shows "taken f a c"
  unfolding taken_def
proof (intro allI conjI)
  fix k
  from assms have "length (of_key f k (emitted b)) + (if locks a k then 1 else 0) =
      length (of_key f k (emitted a)) + (if locks b k then 1 else 0)"
    "length (of_key f k (emitted c)) + (if locks b k then 1 else 0) =
      length (of_key f k (emitted b)) + (if locks c k then 1 else 0)"
    by (simp_all add: taken_def)
  then show "length (of_key f k (emitted c)) + (if locks a k then 1 else 0) =
      length (of_key f k (emitted a)) + (if locks c k then 1 else 0)" by linarith
  show "locks a k \<longrightarrow> locks c k" using assms by (simp add: taken_def)
qed

lemma lock_fifo_key: "lock_fifo f arrived b \<Longrightarrow> t \<in> set (waiting (pending b) k) \<Longrightarrow> f t = k"
  unfolding lock_fifo_def by blast

text \<open>What the first loop leaves: the keys enumerated are locked, those emptied are collected.\<close>

definition pending_post ::
  "(tuple \<Rightarrow> int) \<Rightarrow> tuple list \<Rightarrow> int list \<Rightarrow> lock_box \<Rightarrow> lock_box \<Rightarrow> int list \<Rightarrow> bool" where
  "pending_post f arrived ks b b' dels' \<longleftrightarrow> lock_fifo f arrived b' \<and> taken f b b' \<and>
     set dels' = {k \<in> set ks. pending b' k = Some []} \<and>
     (\<forall>k \<in> set ks. locks b' k) \<and> (\<forall>k. k \<notin> set ks \<longrightarrow> pending b' k = pending b k)"

lemma pending_postD:
  assumes "pending_post f arrived ks b b' dels'"
  shows "lock_fifo f arrived b'" "taken f b b'" "set dels' = {k \<in> set ks. pending b' k = Some []}"
    "\<forall>k \<in> set ks. locks b' k" "\<forall>k. k \<notin> set ks \<longrightarrow> pending b' k = pending b k"
  using assms unfolding pending_post_def by blast+

lemma lock_pending_ok:
  "distinct ks \<Longrightarrow> \<forall>k \<in> set ks. \<exists>t ts. pending b k = Some (t # ts) \<Longrightarrow>
   lock_fifo f arrived b \<Longrightarrow>
   \<exists>b' dels'. lock_pending ks b dels = Inr (b', dels @ dels') \<and> pending_post f arrived ks b b' dels'"
proof (induction ks arbitrary: b dels)
  case Nil
  then show ?case by (simp add: pending_post_def)
next
  case (Cons k ks)
  from Cons.prems(2) obtain t ts where p: "pending b k = Some (t # ts)" by auto
  have d: "distinct ks" "k \<notin> set ks" using Cons.prems(1) by simp_all
  show ?case
  proof (cases "locks b k")
    case True
    have "\<forall>k \<in> set ks. \<exists>t ts. pending b k = Some (t # ts)" using Cons.prems(2) by simp
    from Cons.IH [OF d(1) this Cons.prems(3), of dels] obtain b' dels' where
      run: "lock_pending ks b dels = Inr (b', dels @ dels')" and post: "pending_post f arrived ks b b' dels'"
      by blast
    note * = pending_postD [OF post]
    have "pending b' k = Some (t # ts)" using *(5) d(2) p by simp
    then have "set dels' = {k' \<in> set (k # ks). pending b' k' = Some []}" unfolding *(3) by fastforce
    moreover have "locks b' k" using *(2) True by (simp add: taken_def)
    then have "\<forall>k' \<in> set (k # ks). locks b' k'" using *(4) by simp
    moreover have "\<forall>k'. k' \<notin> set (k # ks) \<longrightarrow> pending b' k' = pending b k'" using *(5) by simp
    ultimately have "pending_post f arrived (k # ks) b b' dels'"
      unfolding pending_post_def using *(1,2) by (intro conjI)
    moreover have "lock_pending (k # ks) b dels = Inr (b', dels @ dels')"
      using True run by (simp add: take_lock_def)
    ultimately show ?thesis by blast
  next
    case False
    let ?b = "b\<lparr>locks := (locks b)(k := True), emitted := emitted b @ [t], pending := (pending b)(k \<mapsto> ts)\<rparr>"
    let ?d = "if ts = [] then dels @ [k] else dels"
    have ft: "f t = k" "\<forall>u \<in> set ts. f u = k"
      using lock_fifo_key [OF Cons.prems(3), of _ k] p by (simp_all add: waiting_def)
    have fifo: "lock_fifo f arrived ?b"
      using Cons.prems(3) p ft by (auto simp: lock_fifo_def waiting_def split: if_splits)
    have tk: "taken f b ?b" using False ft by (auto simp: taken_def)
    have "\<forall>k' \<in> set ks. \<exists>t ts. pending ?b k' = Some (t # ts)" using Cons.prems(2) d(2) by auto
    from Cons.IH [OF d(1) this fifo, of ?d] obtain b' dels' where
      run: "lock_pending ks ?b ?d = Inr (b', ?d @ dels')" and post: "pending_post f arrived ks ?b b' dels'"
      by blast
    note * = pending_postD [OF post]
    let ?e = "if ts = [] then k # dels' else dels'"
    have k: "pending b' k = Some ts" using *(5) d(2) by simp
    then have "set ?e = {k' \<in> set (k # ks). pending b' k' = Some []}"
      using *(3) by (cases "ts = []") (simp_all only: if_True if_False list.set, fastforce+)
    moreover have "locks b' k" using *(2) by (simp add: taken_def)
    then have "\<forall>k' \<in> set (k # ks). locks b' k'" using *(4) by simp
    moreover have "\<forall>k'. k' \<notin> set (k # ks) \<longrightarrow> pending b' k' = pending b k'" using *(5) by simp
    ultimately have "pending_post f arrived (k # ks) b b' ?e"
      unfolding pending_post_def using *(1) taken_trans [OF tk *(2)] by (intro conjI)
    moreover have "lock_pending (k # ks) b dels = Inr (b', dels @ ?e)"
      using False p run by (simp add: take_lock_def)
    ultimately show ?thesis by blast
  qed
qed

lemma fold_erase: "fold (\<lambda>k m. m(k := None)) dels m = (\<lambda>k. if k \<in> set dels then None else m k)"
  by (induction dels arbitrary: m) (auto simp: fun_eq_iff)

lemma lock_tuple_ok:
  assumes "lock_fifo f arrived b" "stable b" "no_empty (pending b)"
  shows "lock_fifo f (arrived @ [t]) (lock_tuple f t b)" "stable (lock_tuple f t b)"
    "no_empty (pending (lock_tuple f t b))" "taken f b (lock_tuple f t b)"
proof -
  have w: "waiting (pending b) (f t) = []" if "\<not> locks b (f t)"
    using that assms(2) by (auto simp: stable_def)
  show "lock_fifo f (arrived @ [t]) (lock_tuple f t b)"
    using assms(1) w unfolding lock_fifo_def lock_tuple_def take_lock_def Let_def waiting_def
    by (auto split: option.splits if_splits)
  show "stable (lock_tuple f t b)"
    using assms(2) unfolding stable_def lock_tuple_def take_lock_def Let_def waiting_def
    by (auto split: option.splits if_splits)
  show "no_empty (pending (lock_tuple f t b))"
    using assms(3) by (auto simp: no_empty_def lock_tuple_def take_lock_def Let_def)
  show "taken f b (lock_tuple f t b)"
    by (auto simp: taken_def lock_tuple_def take_lock_def Let_def)
qed

lemma lock_tuples_ok:
  "lock_fifo f arrived b \<Longrightarrow> stable b \<Longrightarrow> no_empty (pending b) \<Longrightarrow>
   lock_fifo f (arrived @ ts) (fold (lock_tuple f) ts b) \<and> stable (fold (lock_tuple f) ts b) \<and>
   no_empty (pending (fold (lock_tuple f) ts b)) \<and> taken f b (fold (lock_tuple f) ts b)"
proof (induction ts arbitrary: arrived b)
  case Nil
  then show ?case by simp
next
  case (Cons t ts)
  note s = lock_tuple_ok [OF Cons.prems, of t]
  from Cons.IH [OF s(1-3)] taken_trans [OF s(4)] show ?case by simp
qed

text \<open>\<open>order\<close> enumerates the keys of the hash map once each.\<close>

definition enumerates :: "(pending_map \<Rightarrow> int list) \<Rightarrow> bool" where
  "enumerates order \<longleftrightarrow> (\<forall>m. finite (dom m) \<longrightarrow> distinct (order m) \<and> set (order m) = dom m)"

lemma LockQBox_run_ok:
  assumes ord: "enumerates order" "finite (dom (pending b))"
    and fifo: "lock_fifo f arrived b" and ne: "no_empty (pending b)"
  shows "\<exists>qi' b' again. LockQBox_run f order qi xs b = Inr (qi', drop (run_count 0 qi xs) xs, b', again) \<and>
     lock_fifo f (arrived @ take (run_count 0 qi xs) xs) b' \<and> stable b' \<and> no_empty (pending b') \<and>
     finite (dom (pending b')) \<and> taken f b b' \<and> (again \<longleftrightarrow> (\<exists>k. waiting (pending b') k \<noteq> []))"
proof -
  let ?ks = "order (pending b)" and ?n = "run_count 0 qi xs"
  have ks: "distinct ?ks" "set ?ks = dom (pending b)" using ord by (simp_all add: enumerates_def)
  have "\<forall>k \<in> set ?ks. \<exists>t ts. pending b k = Some (t # ts)"
  proof
    fix k assume "k \<in> set ?ks"
    then obtain ts where "pending b k = Some ts" using ks by auto
    with ne show "\<exists>t ts. pending b k = Some (t # ts)" by (cases ts) (auto simp: no_empty_def)
  qed
  from lock_pending_ok [OF ks(1) this fifo, of "[]"] obtain b1 dels where
    p: "lock_pending ?ks b [] = Inr (b1, dels)" and post: "pending_post f arrived ?ks b b1 dels" by auto
  note fifo1 = pending_postD(1) [OF post] and t1 = pending_postD(2) [OF post]
    and dels = pending_postD(3) [OF post, unfolded ks(2)] and lk = pending_postD(4) [OF post, unfolded ks(2)]
    and rest = pending_postD(5) [OF post, unfolded ks(2)]
  let ?b2 = "b1\<lparr>pending := fold (\<lambda>k m. m(k := None)) dels (pending b1)\<rparr>"
  have w2: "waiting (pending ?b2) k = waiting (pending b1) k" for k
    using dels by (auto simp: fold_erase waiting_def)
  have fifo2: "lock_fifo f arrived ?b2"
    using fifo1 unfolding lock_fifo_def w2 by (auto simp: fold_erase split: if_splits)
  have dom1: "dom (pending b1) \<subseteq> dom (pending b)"
  proof
    fix k assume "k \<in> dom (pending b1)"
    then show "k \<in> dom (pending b)" using rest by (cases "k \<in> dom (pending b)") auto
  qed
  have stab: "stable ?b2"
    unfolding stable_def w2
  proof (intro allI impI)
    fix k assume "waiting (pending b1) k \<noteq> []"
    then have "k \<in> dom (pending b1)" by (auto simp: waiting_def split: option.splits)
    then show "locks ?b2 k" using dom1 lk by auto
  qed
  have ne2: "no_empty (pending ?b2)"
    unfolding no_empty_def
  proof
    fix k
    show "pending ?b2 k \<noteq> Some []"
      using dels dom1 by (cases "pending b1 k = Some []") (auto simp: fold_erase)
  qed
  have fin2: "finite (dom (pending ?b2))"
  proof (rule finite_subset [OF _ ord(2)])
    have "dom (pending ?b2) \<subseteq> dom (pending b1)" by (auto simp: fold_erase split: if_splits)
    with dom1 show "dom (pending ?b2) \<subseteq> dom (pending b)" by (rule subset_trans [rotated])
  qed
  have t2: "taken f b ?b2" using t1 by (simp add: taken_def)
  obtain qi' where run: "run_port 0 (lock_tuple f) qi xs ?b2 =
      (qi', drop ?n xs, fold (lock_tuple f) (take ?n xs) ?b2)"
    using run_port_ex [of 0 "lock_tuple f" qi xs ?b2] by blast
  let ?b3 = "fold (lock_tuple f) (take ?n xs) ?b2"
  note m = lock_tuples_ok [OF fifo2 stab ne2, of "take ?n xs"]
  have "finite (dom (pending (fold (lock_tuple f) ts c)))" if "finite (dom (pending c))" for ts c
    using that
    by (induction ts arbitrary: c) (simp_all add: lock_tuple_def take_lock_def Let_def)
  then have fin3: "finite (dom (pending ?b3))" using fin2 by blast
  have again: "pending ?b3 \<noteq> Map.empty \<longleftrightarrow> (\<exists>k. waiting (pending ?b3) k \<noteq> [])"
    using m by (auto simp: fun_eq_iff waiting_def no_empty_def split: option.splits)
  have "LockQBox_run f order qi xs b = Inr (qi', drop ?n xs, ?b3, pending ?b3 \<noteq> Map.empty)"
    by (simp add: LockQBox_run_def p run Let_def)
  with m fin3 again taken_trans [OF t2] show ?thesis by blast
qed

section \<open>The two boxes together\<close>

text \<open>
  The Lock box, the lock set, the tuples the Lock box has read and those the Unlock box has
  released. The Unlock box reads tuples that left the Lock box, each at most once.
\<close>

record lock_system =
  sys_box :: lock_box
  arrived :: "tuple list"
  released :: "tuple list"

definition lock_system_init :: lock_system where
  "lock_system_init =
     \<lparr>sys_box = \<lparr>locks = \<lambda>_. False, pending = Map.empty, emitted = []\<rparr>, arrived = [], released = []\<rparr>"

definition from_lock_box :: "(tuple \<Rightarrow> int) \<Rightarrow> tuple list \<Rightarrow> lock_system \<Rightarrow> bool" where
  "from_lock_box f ts s \<longleftrightarrow> (\<forall>k. length (of_key f k (released s @ ts)) \<le> length (of_key f k (emitted (sys_box s))))"

inductive lock_step :: "(tuple \<Rightarrow> int) \<Rightarrow> (pending_map \<Rightarrow> int list) \<Rightarrow> lock_system \<Rightarrow> lock_system \<Rightarrow> bool"
  for f order where
  lock_run: "LockQBox_run f order qi xs (sys_box s) = Inr (qi', rest, b', again) \<Longrightarrow>
    lock_step f order s (s\<lparr>sys_box := b', arrived := arrived s @ take (length xs - length rest) xs\<rparr>)"
| unlock_run: "UnlockQBox_run f qi ys (locks (sys_box s), []) = (qi', rest, lset, out) \<Longrightarrow>
    from_lock_box f (take (length ys - length rest) ys) s \<Longrightarrow>
    lock_step f order s (s\<lparr>sys_box := (sys_box s)\<lparr>locks := lset\<rparr>, released := released s @ out\<rparr>)"

inductive lock_reachable :: "(tuple \<Rightarrow> int) \<Rightarrow> (pending_map \<Rightarrow> int list) \<Rightarrow> lock_system \<Rightarrow> bool"
  for f order where
  init: "lock_reachable f order lock_system_init"
| step: "lock_reachable f order s \<Longrightarrow> lock_step f order s s' \<Longrightarrow> lock_reachable f order s'"

definition lock_inv :: "(tuple \<Rightarrow> int) \<Rightarrow> lock_system \<Rightarrow> bool" where
  "lock_inv f s \<longleftrightarrow> lock_fifo f (arrived s) (sys_box s) \<and> no_empty (pending (sys_box s)) \<and>
     finite (dom (pending (sys_box s))) \<and>
     (\<forall>k. length (of_key f k (emitted (sys_box s))) =
        length (of_key f k (released s)) + (if locks (sys_box s) k then 1 else 0))"

lemma unlock_fold:
  "fold (\<lambda>t (lset, out). (release_lock (f t) lset, out @ [t])) ts (lset, out) =
     (\<lambda>k. lset k \<and> of_key f k ts = [], out @ ts)"
  by (induction ts arbitrary: lset out) (auto simp: release_lock_def fun_eq_iff)

lemma UnlockQBox_run_eq:
  "\<exists>qi'. UnlockQBox_run f qi ys (lset, out) =
     (qi', drop (run_count 0 qi ys) ys, \<lambda>k. lset k \<and> of_key f k (take (run_count 0 qi ys) ys) = [],
      out @ take (run_count 0 qi ys) ys)"
  unfolding UnlockQBox_run_def
  using run_port_ex [of 0 "\<lambda>t (lset, out). (release_lock (f t) lset, out @ [t])" qi ys "(lset, out)"]
  unfolding unlock_fold .

lemma take_consumed: "take (length xs - length (drop n xs)) xs = take n xs"
  by (cases "n \<le> length xs") simp_all

lemma lock_inv_step:
  assumes ord: "enumerates order" and inv: "lock_inv f s" and st: "lock_step f order s s'"
  shows "lock_inv f s'"
  using st
proof cases
  case (lock_run qi xs qi' rest b' again)
  let ?n = "run_count 0 qi xs"
  from LockQBox_run_ok [OF ord, of "sys_box s" f "arrived s" qi xs] inv obtain qi2 b2 again2 where
    run: "LockQBox_run f order qi xs (sys_box s) = Inr (qi2, drop ?n xs, b2, again2)"
    and ok: "lock_fifo f (arrived s @ take ?n xs) b2" "no_empty (pending b2)" "finite (dom (pending b2))"
      "taken f (sys_box s) b2"
    by (auto simp: lock_inv_def)
  from run lock_run have eq: "b' = b2" "rest = drop ?n xs" by simp_all
  have "length (of_key f k (emitted b2)) = length (of_key f k (released s)) + (if locks b2 k then 1 else 0)" for k
  proof -
    have "length (of_key f k (emitted b2)) + (if locks (sys_box s) k then 1 else 0) =
        length (of_key f k (emitted (sys_box s))) + (if locks b2 k then 1 else 0)"
      using ok(4) by (simp add: taken_def)
    moreover have "length (of_key f k (emitted (sys_box s))) =
        length (of_key f k (released s)) + (if locks (sys_box s) k then 1 else 0)"
      using inv by (simp add: lock_inv_def)
    ultimately show ?thesis by linarith
  qed
  with ok(1-3) show ?thesis unfolding lock_run(1) lock_inv_def eq take_consumed by simp
next
  case (unlock_run qi ys qi' rest lset out)
  let ?n = "run_count 0 qi ys"
  from UnlockQBox_run_eq [of f qi ys "locks (sys_box s)" "[]"] unlock_run(2)
  have lset: "lset = (\<lambda>k. locks (sys_box s) k \<and> of_key f k (take ?n ys) = [])"
    and out: "out = take ?n ys" and rest: "rest = drop ?n ys" by auto
  have "length (of_key f k (emitted (sys_box s))) =
      length (of_key f k (released s @ out)) + (if lset k then 1 else 0)" for k
  proof -
    have "length (of_key f k (emitted (sys_box s))) =
        length (of_key f k (released s)) + (if locks (sys_box s) k then 1 else 0)"
      using inv by (simp add: lock_inv_def)
    moreover have "length (of_key f k (released s)) + length (of_key f k out) \<le>
        length (of_key f k (emitted (sys_box s)))"
      using unlock_run(3) unfolding from_lock_box_def rest take_consumed out by simp
    ultimately show ?thesis
      unfolding lset out by (cases "of_key f k (take ?n ys)") (auto split: if_splits)
  qed
  with inv show ?thesis unfolding unlock_run(1) lock_inv_def by (simp add: lock_fifo_def)
qed

lemma lock_inv_reachable:
  assumes "enumerates order"
  shows "lock_reachable f order s \<Longrightarrow> lock_inv f s"
proof (induction rule: lock_reachable.induct)
  case init
  then show ?case by (simp add: lock_inv_def lock_system_init_def lock_fifo_def waiting_def no_empty_def)
next
  case (step s s')
  then show ?case using lock_inv_step [OF assms] by blast
qed

end
