(* ===== verification/Wait_For.thy ===== *)
theory Wait_For
  imports Box_Runs
begin

text \<open>
  The WaitFor box (boxes/WaitForQBox.cc, WaitForQBox.h): tuples of stream 0 are buffered with
  the time of their arrival; a tuple of stream 1 releases the buffered tuples for which the
  predicate holds; a tuple that has waited longer than the timeout is thrown away.
\<close>

section \<open>Operations\<close>

record wait_tuple =
  wt_timestamp :: timestamp
  wt_tuple :: tuple

record wait_for_box =
  wf_timeout :: timestamp
  wf_buffer :: "wait_tuple list"

text \<open>The expiry loop: \<open>i = _buffer.erase(i)\<close> or \<open>++i\<close>.\<close>

fun wait_expire :: "timestamp \<Rightarrow> timestamp \<Rightarrow> wait_tuple list \<Rightarrow> wait_tuple list" where
  "wait_expire now timeout [] = []"
| "wait_expire now timeout (w # ws) =
     (if Timestamp_gt (Timestamp_minus now timeout) (wt_timestamp w) then wait_expire now timeout ws
      else w # wait_expire now timeout ws)"

text \<open>One enabling tuple is run through the buffer: what is emitted and what stays.\<close>

fun wait_enable :: "(tuple \<Rightarrow> tuple \<Rightarrow> bool) \<Rightarrow> tuple \<Rightarrow> wait_tuple list \<Rightarrow> tuple list \<times> wait_tuple list" where
  "wait_enable predicate e [] = ([], [])"
| "wait_enable predicate e (w # ws) =
     (let (out, kept) = wait_enable predicate e ws
      in if predicate (wt_tuple w) e then (wt_tuple w # out, kept) else (out, w # kept))"

fun wait_enable_all ::
  "(tuple \<Rightarrow> tuple \<Rightarrow> bool) \<Rightarrow> tuple list \<Rightarrow> tuple list \<Rightarrow> wait_tuple list \<Rightarrow> tuple list \<times> wait_tuple list" where
  "wait_enable_all predicate [] out buf = (out, buf)"
| "wait_enable_all predicate (e # es) out buf =
     (let (o1, buf1) = wait_enable predicate e buf in wait_enable_all predicate es (out @ o1) buf1)"

text \<open>
  A run on the tuples \<open>xs\<close> and \<open>es\<close> queued on the two ports; each loop reads at most
  \<open>get_max_tuples_to_dequeue\<close> tuples.
\<close>

definition WaitForQBox_run ::
  "timestamp \<Rightarrow> (tuple \<Rightarrow> tuple \<Rightarrow> bool) \<Rightarrow> tuple list \<Rightarrow> tuple list \<Rightarrow> wait_for_box
   \<Rightarrow> tuple list \<times> tuple list \<times> tuple list \<times> wait_for_box" where
  "WaitForQBox_run now predicate xs es b =
     (let n = get_max_tuples_to_dequeue;
          buf1 = wait_expire now (wf_timeout b) (wf_buffer b);
          buf2 = buf1 @ map (\<lambda>t. \<lparr>wt_timestamp = now, wt_tuple = t\<rparr>) (take n xs);
          (out, buf3) = wait_enable_all predicate (take n es) [] buf2
      in (drop n xs, drop n es, out, b\<lparr>wf_buffer := buf3\<rparr>))"

section \<open>Correctness\<close>

definition expired :: "timestamp \<Rightarrow> timestamp \<Rightarrow> wait_tuple \<Rightarrow> bool" where
  "expired now timeout w \<longleftrightarrow> wt_timestamp w < Timestamp_minus now timeout"

lemma wait_expire_filter: "wait_expire now timeout ws = filter (\<lambda>w. \<not> expired now timeout w) ws"
  by (induction ws) (simp_all add: expired_def)

lemma wait_enable_filter:
  "wait_enable predicate e ws =
     (map wt_tuple (filter (\<lambda>w. predicate (wt_tuple w) e) ws), filter (\<lambda>w. \<not> predicate (wt_tuple w) e) ws)"
  by (induction ws) simp_all

text \<open>
  The enabling tuples together: a buffered tuple leaves at the first of them for which the
  predicate holds, and stays if there is none.
\<close>

lemma wait_enable_all_kept:
  "snd (wait_enable_all predicate es out ws) = filter (\<lambda>w. \<forall>e \<in> set es. \<not> predicate (wt_tuple w) e) ws"
  by (induction es arbitrary: out ws) (simp_all add: wait_enable_filter conj_commute)

lemma wait_enable_all_mset:
  "mset (fst (wait_enable_all predicate es out ws)) + mset (map wt_tuple (snd (wait_enable_all predicate es out ws)))
     = mset out + mset (map wt_tuple ws)"
proof (induction es arbitrary: out ws)
  case Nil
  then show ?case by simp
next
  case (Cons e es)
  have "image_mset wt_tuple (mset (filter (\<lambda>w. predicate (wt_tuple w) e) ws)) +
      image_mset wt_tuple (mset (filter (\<lambda>w. \<not> predicate (wt_tuple w) e) ws)) = image_mset wt_tuple (mset ws)"
    using mset_filter_partition [of "\<lambda>w. predicate (wt_tuple w) e" ws] by (simp flip: image_mset_union)
  with Cons.IH [of "out @ map wt_tuple (filter (\<lambda>w. predicate (wt_tuple w) e) ws)"
      "filter (\<lambda>w. \<not> predicate (wt_tuple w) e) ws"]
  show ?case by (simp add: wait_enable_filter add.assoc)
qed

lemma wait_enable_all_out:
  "t \<in> set (fst (wait_enable_all predicate es out ws)) \<Longrightarrow> t \<in> set out \<or>
   (\<exists>w \<in> set ws. wt_tuple w = t \<and> (\<exists>e \<in> set es. predicate t e))"
proof (induction es arbitrary: out ws)
  case Nil
  then show ?case by simp
next
  case (Cons e es)
  then show ?case by (fastforce simp: wait_enable_filter)
qed

text \<open>
  No tuple is lost or emitted twice: what was buffered and not expired, and what arrived, is
  what is emitted and what stays buffered.
\<close>

lemma WaitForQBox_run_spec:
  assumes "WaitForQBox_run now predicate xs es b = (xs', es', out, b')"
    and "length xs \<le> get_max_tuples_to_dequeue" "length es \<le> get_max_tuples_to_dequeue"
  shows "mset out + mset (map wt_tuple (wf_buffer b')) =
      mset (map wt_tuple (filter (\<lambda>w. \<not> expired now (wf_timeout b) w) (wf_buffer b))) + mset xs"
    "\<forall>w \<in> set (wf_buffer b'). \<forall>e \<in> set es. \<not> predicate (wt_tuple w) e"
    "\<forall>t \<in> set out. \<exists>e \<in> set es. predicate t e"
    "xs' = []" "es' = []"
proof -
  let ?buf = "filter (\<lambda>w. \<not> expired now (wf_timeout b) w) (wf_buffer b) @
      map (\<lambda>t. \<lparr>wt_timestamp = now, wt_tuple = t\<rparr>) xs"
  from assms have out: "out = fst (wait_enable_all predicate es [] ?buf)"
    and buf: "wf_buffer b' = snd (wait_enable_all predicate es [] ?buf)"
    and rest: "xs' = []" "es' = []"
    by (auto simp: WaitForQBox_run_def Let_def wait_expire_filter split: prod.splits)
  show "xs' = []" "es' = []" by (fact rest)+
  show "mset out + mset (map wt_tuple (wf_buffer b')) =
      mset (map wt_tuple (filter (\<lambda>w. \<not> expired now (wf_timeout b) w) (wf_buffer b))) + mset xs"
    unfolding out buf wait_enable_all_mset by (simp add: comp_def)
  show "\<forall>w \<in> set (wf_buffer b'). \<forall>e \<in> set es. \<not> predicate (wt_tuple w) e"
    unfolding buf wait_enable_all_kept by auto
  show "\<forall>t \<in> set out. \<exists>e \<in> set es. predicate t e"
    unfolding out using wait_enable_all_out [of _ predicate es "[]" ?buf] by fastforce
qed

end
