(* ===== verification/Control_Boxes.thy ===== *)
theory Control_Boxes
  imports Box_Runs
begin

text \<open>
  The boxes with a control stream: what all of them share (boxes/SControlQBox.h, SControlQBox.cc)
  and SOutput (boxes/SOutputQBox.h, SOutputQBox.cc), which sits at the boundary of a node and,
  after a recovery from a checkpoint, drops the stable tuples it had already sent and undoes
  the tentative ones.
\<close>

section \<open>Control boxes\<close>

definition CONTROL_STREAM :: nat where "CONTROL_STREAM = 0"

definition DATA_STREAM :: nat where "DATA_STREAM = 1"

text \<open>
  \<open>id_counter\<close> is the counter behind the default tuple ids, \<open>header_size\<close> the size of the tuple
  header, \<open>body_size\<close> the number of bytes after the header on each of the two output streams.
\<close>

record scontrol_box =
  output_flags :: "nat \<Rightarrow> bool"
  box_emitted :: emissions
  id_counter :: int
  header_size :: nat
  body_size :: "nat \<Rightarrow> nat"

definition zero_tuple :: "nat \<Rightarrow> tuple" where
  "zero_tuple n =
     \<lparr>tv = Timestamp_zero, local_tv = Timestamp_zero, tuple_flag = 0, tuple_type = INSERTION,
      win_spec = 0, quality = 0, rev_id = 0, tuple_id = 0, rev_field = 0,
      tuple_stime = Timestamp_zero, body = replicate n 0\<rparr>"

text \<open>Write to the enqueue iterator of a stream, advance it, set the stream's output flag.\<close>

definition write_output :: "nat \<Rightarrow> tuple \<Rightarrow> 'a scontrol_box_scheme \<Rightarrow> 'a scontrol_box_scheme" where
  "write_output stream t s =
     s\<lparr>box_emitted := box_emitted s @ [(stream, t)], output_flags := (output_flags s)(stream := True)\<rparr>"

definition emit_tuple :: "tuple \<Rightarrow> 'a scontrol_box_scheme \<Rightarrow> 'a scontrol_box_scheme" where
  "emit_tuple src s = write_output DATA_STREAM src s"

definition emit_tuple_with_different_type ::
  "tuple \<Rightarrow> TupleType \<Rightarrow> 'a scontrol_box_scheme \<Rightarrow> 'a scontrol_box_scheme" where
  "emit_tuple_with_different_type src ty s = write_output DATA_STREAM (src\<lparr>tuple_type := ty\<rparr>) s"

text \<open>A control tuple: zeroed, default header, then type and time.\<close>

definition emit_control_tuple ::
  "nat \<Rightarrow> TupleType \<Rightarrow> timestamp \<Rightarrow> 'a scontrol_box_scheme \<Rightarrow> 'a scontrol_box_scheme" where
  "emit_control_tuple stream ty data s =
     (let t0 = clear_tuple (zero_tuple (body_size s stream));
          (c, t1) = set_default_header (header_size s) (id_counter s) t0
      in write_output stream (t1\<lparr>tuple_type := ty, tuple_stime := data\<rparr>) (s\<lparr>id_counter := c\<rparr>))"

definition emit_undo_tuple :: "tuple \<Rightarrow> 'a scontrol_box_scheme \<Rightarrow> 'a scontrol_box_scheme" where
  "emit_undo_tuple src s = write_output DATA_STREAM (src\<lparr>tuple_type := UNDO\<rparr>) s"

text \<open>The streams notified, in order, and the box with their flags reset.\<close>

definition notify_outputs :: "'a scontrol_box_scheme \<Rightarrow> nat list \<times> 'a scontrol_box_scheme" where
  "notify_outputs s =
     (let d = output_flags s DATA_STREAM;
          s1 = (if d then s\<lparr>output_flags := (output_flags s)(DATA_STREAM := False)\<rparr> else s);
          c = output_flags s1 CONTROL_STREAM;
          s2 = (if c then s1\<lparr>output_flags := (output_flags s1)(CONTROL_STREAM := False)\<rparr> else s1)
      in ((if d then [DATA_STREAM] else []) @ (if c then [CONTROL_STREAM] else []), s2))"

abbreviation data_out :: "'a scontrol_box_scheme \<Rightarrow> tuple list" where
  "data_out s \<equiv> port_out DATA_STREAM (box_emitted s)"

abbreviation control_out :: "'a scontrol_box_scheme \<Rightarrow> tuple list" where
  "control_out s \<equiv> port_out CONTROL_STREAM (box_emitted s)"

lemma stream_numbers [simp]: "CONTROL_STREAM \<noteq> DATA_STREAM" "DATA_STREAM \<noteq> CONTROL_STREAM"
  by (simp_all add: CONTROL_STREAM_def DATA_STREAM_def)

lemma emit_data_out [simp]:
  "data_out (emit_tuple t s) = data_out s @ [t]"
  "data_out (emit_undo_tuple t s) = data_out s @ [t\<lparr>tuple_type := UNDO\<rparr>]"
  "control_out (emit_tuple t s) = control_out s"
  "control_out (emit_undo_tuple t s) = control_out s"
  by (simp_all add: emit_tuple_def emit_undo_tuple_def write_output_def)

lemma notify_outputs_emitted [simp]: "box_emitted (snd (notify_outputs s)) = box_emitted s"
  by (simp add: notify_outputs_def Let_def)

text \<open>A stream is notified exactly when its flag is set, and no flag is left set.\<close>

lemma notify_outputs_set:
  "set (fst (notify_outputs s)) = {p. (p = DATA_STREAM \<or> p = CONTROL_STREAM) \<and> output_flags s p}"
  "\<not> output_flags (snd (notify_outputs s)) DATA_STREAM"
  "\<not> output_flags (snd (notify_outputs s)) CONTROL_STREAM"
  by (auto simp: notify_outputs_def Let_def)

section \<open>SOutput\<close>

datatype soutput_state = NORMAL | DROP_DUPLICATES | FINISH_RECONCILIATION

record soutput_box = scontrol_box +
  so_init :: bool
  so_state :: soutput_state
  last_stable_tuple :: tuple
  produced_stables :: bool
  produced_tentatives :: bool
  rec_done_tuple :: tuple
  produce_rec_done :: bool

definition SOutputQBox_MAX :: nat where "SOutputQBox_MAX = 100"

text \<open>
  \<open>init_impl\<close>, after that of the control box: both \<open>memset\<close> calls clear the last stable tuple, the
  buffer of the RECONCILIATION_DONE tuple keeps what the memory held (\<open>garbage\<close>).
\<close>

definition SOutputQBox_init :: "tuple \<Rightarrow> soutput_box \<Rightarrow> soutput_box" where
  "SOutputQBox_init garbage s =
     s\<lparr>last_stable_tuple := zero_tuple (body_size s DATA_STREAM), so_state := NORMAL,
       produced_stables := False, produced_tentatives := False, so_init := False,
       produce_rec_done := False, rec_done_tuple := garbage\<rparr>"

definition save_last_stable_tuple :: "tuple \<Rightarrow> soutput_box \<Rightarrow> soutput_box" where
  "save_last_stable_tuple src s = s\<lparr>last_stable_tuple := src\<rparr>"

text \<open>An iteration of the main loop.\<close>

definition SOutputQBox_step :: "tuple \<Rightarrow> soutput_box \<Rightarrow> soutput_box" where
  "SOutputQBox_step src s =
     (let s0 = (if produce_rec_done s
                then s\<lparr>rec_done_tuple := (rec_done_tuple s)\<lparr>tuple_stime := tuple_stime src\<rparr>\<rparr> else s);
          ty = tuple_type src
      in case so_state s0 of
           NORMAL \<Rightarrow>
             let s1 = (if ty = INSERTION
                       then (save_last_stable_tuple src s0)\<lparr>produced_stables := True\<rparr> else s0);
                 s2 = (if ty = TENTATIVE then s1\<lparr>produced_tentatives := True\<rparr> else s1)
             in emit_tuple src s2
         | DROP_DUPLICATES \<Rightarrow>
             if tuple_id src = tuple_id (last_stable_tuple s0)
             then let s1 = (if produced_tentatives s0 then emit_undo_tuple (last_stable_tuple s0) s0 else s0)
                  in s1\<lparr>produced_stables := False, produced_tentatives := False,
                        so_state := FINISH_RECONCILIATION\<rparr>
             else s0
         | FINISH_RECONCILIATION \<Rightarrow>
             let s1 = (if ty = INSERTION
                       then (save_last_stable_tuple src s0)\<lparr>produced_stables := True\<rparr> else s0);
                 s2 = (if ty = TENTATIVE
                       then (emit_control_tuple DATA_STREAM RECONCILIATION_DONE (tuple_stime src) s1)
                              \<lparr>produced_tentatives := True, so_state := NORMAL\<rparr>
                       else s1);
                 s3 = (if ty = RECONCILIATION_DONE
                       then s2\<lparr>so_state := NORMAL, produce_rec_done := True, rec_done_tuple := src\<rparr>
                       else s2)
             in if ty \<noteq> RECONCILIATION_DONE then emit_tuple src s3 else s3)"

text \<open>
  The guard \<open>inv.continue_dequeue_on(...) && (nb_tuples < MAX)\<close>, with the counter as part of the
  guard's state.
\<close>

definition SOutputQBox_guard :: "qbox_invocation \<times> nat \<Rightarrow> bool \<Rightarrow> bool \<times> (qbox_invocation \<times> nat)" where
  "SOutputQBox_guard = (\<lambda>(qi, nb) avail.
     let (c, qi') = continue_dequeue_on 0 qi avail; go = (c \<and> nb < SOutputQBox_MAX)
     in (go, (qi', if go then nb + 1 else nb)))"

definition SOutputQBox_run ::
  "qbox_invocation \<Rightarrow> tuple list \<Rightarrow> soutput_box \<Rightarrow> qbox_invocation \<times> tuple list \<times> nat list \<times> soutput_box" where
  "SOutputQBox_run qi xs s =
     (let ((qi', nb), rest, s1) =
            list_loop SOutputQBox_guard SOutputQBox_step (qi, 0) xs (s\<lparr>so_init := True\<rparr>);
          s2 = (if rest = [] \<and> produce_rec_done s1
                then let s2 = emit_tuple (rec_done_tuple s1) (s1\<lparr>produce_rec_done := False\<rparr>)
                     in emit_control_tuple CONTROL_STREAM (tuple_type (rec_done_tuple s2))
                          (tuple_stime (rec_done_tuple s2)) s2
                else s1);
          (ports, s3) = notify_outputs s2
      in (qi', rest, ports, s3))"

text \<open>A checkpoint: state, last stable tuple and whether tentative tuples were produced.\<close>

record soutput_box_state =
  ps_state :: soutput_state
  ps_tuple :: tuple
  ps_produced_tentatives :: bool

definition SOutputQBox_pack_state :: "soutput_box \<Rightarrow> soutput_box_state \<times> soutput_box" where
  "SOutputQBox_pack_state s =
     (\<lparr>ps_state = so_state s, ps_tuple = last_stable_tuple s, ps_produced_tentatives = produced_tentatives s\<rparr>,
      if so_state s = NORMAL \<or> so_state s = FINISH_RECONCILIATION then s\<lparr>produced_stables := False\<rparr> else s)"

definition SOutputQBox_unpack_state :: "soutput_box_state \<Rightarrow> soutput_box \<Rightarrow> soutput_box" where
  "SOutputQBox_unpack_state ps s =
     (if \<not> so_init s
      then (save_last_stable_tuple (ps_tuple ps) (s\<lparr>so_state := ps_state ps\<rparr>))
             \<lparr>produced_tentatives := ps_produced_tentatives ps\<rparr>
      else if so_state s = NORMAL \<or> so_state s = DROP_DUPLICATES
      then (if produced_stables s then s\<lparr>so_state := DROP_DUPLICATES\<rparr>
            else if produced_tentatives s
            then (emit_undo_tuple (ps_tuple ps) s)
                   \<lparr>produced_stables := False, produced_tentatives := False,
                    so_state := FINISH_RECONCILIATION\<rparr>
            else s)
      else s)"

section \<open>What SOutput sends\<close>

lemma port_out_record [simp]:
  "box_emitted (s\<lparr>produced_stables := a\<rparr>) = box_emitted s"
  "box_emitted (s\<lparr>produced_tentatives := a\<rparr>) = box_emitted s"
  "box_emitted (s\<lparr>so_state := st\<rparr>) = box_emitted s"
  "box_emitted (s\<lparr>so_init := a\<rparr>) = box_emitted s"
  "box_emitted (s\<lparr>rec_done_tuple := t\<rparr>) = box_emitted s"
  "box_emitted (s\<lparr>produce_rec_done := a\<rparr>) = box_emitted s"
  for s :: soutput_box
  by simp_all

text \<open>In the normal state every tuple is passed on.\<close>

definition is_type :: "TupleType \<Rightarrow> tuple \<Rightarrow> bool" where
  "is_type ty t \<longleftrightarrow> tuple_type t = ty"

text \<open>The last stable tuple of a list of tuples, if there is one.\<close>

definition last_stable :: "tuple list \<Rightarrow> tuple option" where
  "last_stable ts = (let ss = filter (is_type INSERTION) ts in if ss = [] then None else Some (last ss))"

lemma last_stable_snoc:
  "last_stable (ts @ [t]) = (if tuple_type t = INSERTION then Some t else last_stable ts)"
  by (simp add: last_stable_def is_type_def)

lemma normal_step:
  assumes "so_state s = NORMAL"
  shows "data_out (SOutputQBox_step t s) = data_out s @ [t]" "so_state (SOutputQBox_step t s) = NORMAL"
    "so_init (SOutputQBox_step t s) = so_init s"
    "produced_tentatives (SOutputQBox_step t s) \<longleftrightarrow> produced_tentatives s \<or> tuple_type t = TENTATIVE"
    "produced_stables (SOutputQBox_step t s) \<longleftrightarrow> produced_stables s \<or> tuple_type t = INSERTION"
    "last_stable_tuple (SOutputQBox_step t s) =
       (if tuple_type t = INSERTION then t else last_stable_tuple s)"
  using assms
  by (simp_all add: SOutputQBox_step_def Let_def save_last_stable_tuple_def emit_tuple_def write_output_def)

lemma normal_steps:
  assumes "so_state s = NORMAL"
  shows "data_out (fold SOutputQBox_step ts s) = data_out s @ ts \<and>
    so_state (fold SOutputQBox_step ts s) = NORMAL \<and>
    so_init (fold SOutputQBox_step ts s) = so_init s \<and>
    (produced_tentatives (fold SOutputQBox_step ts s) \<longleftrightarrow>
       produced_tentatives s \<or> (\<exists>t \<in> set ts. tuple_type t = TENTATIVE)) \<and>
    (produced_stables (fold SOutputQBox_step ts s) \<longleftrightarrow> produced_stables s \<or> last_stable ts \<noteq> None) \<and>
    last_stable_tuple (fold SOutputQBox_step ts s) =
      (case last_stable ts of None \<Rightarrow> last_stable_tuple s | Some t \<Rightarrow> t)"
proof (induction ts rule: rev_induct)
  case Nil
  then show ?case using assms by (simp add: last_stable_def)
next
  case (snoc t ts)
  then show ?case
    using normal_step [of "fold SOutputQBox_step ts s" t] by (auto simp: last_stable_snoc)
qed

text \<open>While duplicates are dropped nothing is sent until the last stable tuple comes by again.\<close>

lemma drop_steps:
  "so_state s = DROP_DUPLICATES \<Longrightarrow> \<forall>t \<in> set ts. tuple_id t \<noteq> tuple_id (last_stable_tuple s) \<Longrightarrow>
   data_out (fold SOutputQBox_step ts s) = data_out s \<and>
   so_state (fold SOutputQBox_step ts s) = DROP_DUPLICATES \<and>
   last_stable_tuple (fold SOutputQBox_step ts s) = last_stable_tuple s \<and>
   produced_tentatives (fold SOutputQBox_step ts s) = produced_tentatives s"
proof (induction ts arbitrary: s)
  case Nil
  then show ?case by simp
next
  case (Cons t ts)
  let ?s = "SOutputQBox_step t s"
  have "so_state ?s = DROP_DUPLICATES" "last_stable_tuple ?s = last_stable_tuple s"
    "produced_tentatives ?s = produced_tentatives s" "data_out ?s = data_out s"
    using Cons.prems by (simp_all add: SOutputQBox_step_def Let_def)
  with Cons.IH [of ?s] Cons.prems(2) show ?case by simp
qed

lemma drop_end:
  assumes "so_state s = DROP_DUPLICATES" "tuple_id t = tuple_id (last_stable_tuple s)"
  shows "data_out (SOutputQBox_step t s) = data_out s @
      (if produced_tentatives s then [(last_stable_tuple s)\<lparr>tuple_type := UNDO\<rparr>] else [])"
    "so_state (SOutputQBox_step t s) = FINISH_RECONCILIATION"
  using assms by (simp_all add: SOutputQBox_step_def Let_def)

lemma finish_step:
  assumes "so_state s = FINISH_RECONCILIATION" "tuple_type t \<noteq> TENTATIVE" "tuple_type t \<noteq> RECONCILIATION_DONE"
  shows "data_out (SOutputQBox_step t s) = data_out s @ [t]"
    "so_state (SOutputQBox_step t s) = FINISH_RECONCILIATION"
  using assms
  by (simp_all add: SOutputQBox_step_def Let_def save_last_stable_tuple_def emit_tuple_def write_output_def)

lemma finish_steps:
  "so_state s = FINISH_RECONCILIATION \<Longrightarrow>
   \<forall>t \<in> set ts. tuple_type t \<noteq> TENTATIVE \<and> tuple_type t \<noteq> RECONCILIATION_DONE \<Longrightarrow>
   data_out (fold SOutputQBox_step ts s) = data_out s @ ts \<and>
   so_state (fold SOutputQBox_step ts s) = FINISH_RECONCILIATION"
proof (induction ts arbitrary: s)
  case Nil
  then show ?case by simp
next
  case (Cons t ts)
  with finish_step [of s t] Cons.IH [of "SOutputQBox_step t s"] show ?case by simp
qed

text \<open>
  Exactly-once delivery across a recovery. After a checkpoint the box has sent \<open>xs @ [l] @ ts\<close>, with
  \<open>l\<close> the last stable tuple, and is recovered; the input is replayed, \<open>ys\<close> up to the duplicate \<open>d\<close>
  of \<open>l\<close> and new tuples \<open>zs\<close> behind it. Downstream sees no duplicate of what was sent, one undo if
  tentative tuples had been sent, and all of \<open>zs\<close>.
\<close>

lemma recovery_exactly_once:
  fixes xs :: "tuple list" and ps :: soutput_box_state
  assumes s: "so_state s = NORMAL" "so_init s"
    and l: "tuple_type l = INSERTION" "last_stable ts = None"
    and replay: "\<forall>t \<in> set ys. tuple_id t \<noteq> tuple_id l" "tuple_id d = tuple_id l"
    and zs: "\<forall>t \<in> set zs. tuple_type t \<noteq> TENTATIVE \<and> tuple_type t \<noteq> RECONCILIATION_DONE"
  defines "before \<equiv> fold SOutputQBox_step (xs @ [l] @ ts) s"
  defines "after \<equiv> fold SOutputQBox_step (ys @ [d] @ zs) (SOutputQBox_unpack_state ps before)"
  shows "data_out after = data_out s @ xs @ [l] @ ts @
     (if produced_tentatives s \<or> (\<exists>t \<in> set (xs @ ts). tuple_type t = TENTATIVE)
      then [l\<lparr>tuple_type := UNDO\<rparr>] else []) @ zs"
    "so_state after = FINISH_RECONCILIATION"
proof -
  have lst: "last_stable (xs @ [l] @ ts) = Some l"
    using l by (auto simp: last_stable_def is_type_def Let_def split: if_splits)
  note b = normal_steps [OF s(1), of "xs @ [l] @ ts", folded before_def, unfolded lst]
  let ?u = "SOutputQBox_unpack_state ps before"
  have u: "so_state ?u = DROP_DUPLICATES" "last_stable_tuple ?u = l" "data_out ?u = data_out before"
    "produced_tentatives ?u = produced_tentatives before"
    using b s(2) by (simp_all add: SOutputQBox_unpack_state_def)
  let ?v = "fold SOutputQBox_step ys ?u"
  have v: "data_out ?v = data_out ?u" "so_state ?v = DROP_DUPLICATES" "last_stable_tuple ?v = l"
    "produced_tentatives ?v = produced_tentatives ?u"
    using drop_steps [OF u(1), of ys] u(2) replay(1) by simp_all
  have "tuple_id d = tuple_id (last_stable_tuple ?v)" using v(3) replay(2) by simp
  note w = drop_end [OF v(2) this]
  note z = finish_steps [OF w(2) zs]
  have after: "after = fold SOutputQBox_step zs (SOutputQBox_step d ?v)" by (simp add: after_def)
  have pt: "produced_tentatives before \<longleftrightarrow>
      produced_tentatives s \<or> (\<exists>t \<in> set (xs @ ts). tuple_type t = TENTATIVE)"
    using b l(1) by auto
  show "data_out after = data_out s @ xs @ [l] @ ts @
     (if produced_tentatives s \<or> (\<exists>t \<in> set (xs @ ts). tuple_type t = TENTATIVE)
      then [l\<lparr>tuple_type := UNDO\<rparr>] else []) @ zs"
    unfolding after pt [symmetric] using b z w(1) v u by simp
  show "so_state after = FINISH_RECONCILIATION" unfolding after using z by simp
qed

text \<open>The main loop processes a prefix of the queue of at most 100 tuples.\<close>

lemma loop_count_bounded:
  "loop_count SOutputQBox_guard (qi, nb) xs \<le> SOutputQBox_MAX - nb"
proof (induction xs arbitrary: qi nb)
  case Nil
  then show ?case by simp
next
  case (Cons x xs)
  obtain c qi' where c: "continue_dequeue_on 0 qi True = (c, qi')" by (cases "continue_dequeue_on 0 qi True")
  show ?case
    using Cons [of qi' "nb + 1"] by (auto simp: SOutputQBox_guard_def c Let_def)
qed

text \<open>A stored RECONCILIATION_DONE goes out once, on both streams, when the queue is empty.\<close>

lemma SOutputQBox_run_emits:
  assumes "SOutputQBox_run qi xs s = (qi', rest, ports, s')"
  defines "n \<equiv> loop_count SOutputQBox_guard (qi, 0) xs"
  defines "s1 \<equiv> fold SOutputQBox_step (take n xs) (s\<lparr>so_init := True\<rparr>)"
  shows "rest = drop n xs" "n \<le> 100"
    "data_out s' = data_out s1 @ (if rest = [] \<and> produce_rec_done s1 then [rec_done_tuple s1] else [])"
    "rest = [] \<Longrightarrow> \<not> produce_rec_done s'"
proof -
  obtain q nb where loop: "list_loop SOutputQBox_guard SOutputQBox_step (qi, 0) xs (s\<lparr>so_init := True\<rparr>) =
      ((q, nb), drop n xs, s1)"
    using list_loop_fold [of SOutputQBox_guard SOutputQBox_step "(qi, 0)" xs "s\<lparr>so_init := True\<rparr>"]
    unfolding n_def s1_def by (metis prod.collapse)
  show "n \<le> 100" using loop_count_bounded [of qi 0 xs] by (simp add: n_def SOutputQBox_MAX_def)
  let ?s2 = "if drop n xs = [] \<and> produce_rec_done s1
     then emit_control_tuple CONTROL_STREAM (tuple_type (rec_done_tuple s1)) (tuple_stime (rec_done_tuple s1))
            (emit_tuple (rec_done_tuple s1) (s1\<lparr>produce_rec_done := False\<rparr>))
     else s1"
  have r: "rec_done_tuple (emit_tuple t (s1\<lparr>produce_rec_done := False\<rparr>)) = rec_done_tuple s1" for t
    by (simp add: emit_tuple_def write_output_def)
  have run: "rest = drop n xs" "s' = snd (notify_outputs ?s2)"
    using assms(1) unfolding SOutputQBox_run_def loop by (auto simp: Let_def r split: prod.splits if_splits)
  show "rest = drop n xs" by (fact run(1))
  show "data_out s' = data_out s1 @ (if rest = [] \<and> produce_rec_done s1 then [rec_done_tuple s1] else [])"
    unfolding run
    by (simp add: emit_control_tuple_def write_output_def Let_def split: prod.splits)
  have "produce_rec_done (snd (notify_outputs s)) = produce_rec_done s" for s :: soutput_box
    by (simp add: notify_outputs_def Let_def)
  then show "\<not> produce_rec_done s'" if "rest = []"
    using that unfolding run
    by (simp add: emit_control_tuple_def emit_tuple_def write_output_def Let_def split: prod.splits)
qed

end
