(* ===== verification/Field_Ext.thy ===== *)
theory Field_Ext
  imports Tuples
begin

text \<open>
  Field extractors (util/FieldExt.cc, FieldExt.h): the parser of their description and the
  reading of a field from a tuple, as raw bytes and as the text that group-by keys are made of.
  C strings are the characters before the terminating zero.
\<close>

section \<open>Numbers as text\<close>

text \<open>The decimal digits of a number, most significant first.\<close>

fun digits :: "nat \<Rightarrow> nat list" where
  "digits n = (if n < 10 then [n] else digits (n div 10) @ [n mod 10])"

declare digits.simps [simp del]

text \<open>\<open>sprintf(result, "%d", i)\<close>.\<close>

definition print_int :: "int \<Rightarrow> byte list" where
  "print_int i = (if i < 0 then [45] else []) @ map (\<lambda>d. of_nat (48 + d)) (digits (nat \<bar>i\<bar>))"

text \<open>\<open>strtol(pos, &tmp, 10)\<close>: the value and the rest; \<open>None\<close> when there is no number (\<open>tmp = pos\<close>).\<close>

definition is_space :: "char \<Rightarrow> bool" where
  "is_space c \<longleftrightarrow> c \<in> {CHR 0x20, CHR 0x09, CHR 0x0A, CHR 0x0B, CHR 0x0C, CHR 0x0D}"

definition digit_of :: "char \<Rightarrow> nat option" where
  "digit_of c = (let n = of_char c in if 48 \<le> n \<and> n \<le> 57 then Some (n - 48) else (None :: nat option))"

definition is_digit :: "char \<Rightarrow> bool" where
  "is_digit c \<longleftrightarrow> digit_of c \<noteq> None"

fun read_digits :: "nat \<Rightarrow> string \<Rightarrow> nat \<times> string" where
  "read_digits acc [] = (acc, [])"
| "read_digits acc (c # cs) =
     (case digit_of c of Some d \<Rightarrow> read_digits (10 * acc + d) cs | None \<Rightarrow> (acc, c # cs))"

definition LONG_MAX :: int where "LONG_MAX = 2 ^ 31 - 1"

definition saturate_long :: "int \<Rightarrow> int" where
  "saturate_long i = max (- LONG_MAX - 1) (min LONG_MAX i)"

definition strtol :: "string \<Rightarrow> (int \<times> string) option" where
  "strtol s =
     (let s1 = dropWhile is_space s;
          neg = (case s1 of c # _ \<Rightarrow> c = CHR ''-'' | [] \<Rightarrow> False);
          s2 = (case s1 of c # cs \<Rightarrow> if c = CHR ''-'' \<or> c = CHR ''+'' then cs else s1 | [] \<Rightarrow> s1)
      in case s2 of [] \<Rightarrow> None
         | c # _ \<Rightarrow> if is_digit c
             then let (n, rest) = read_digits 0 s2
                  in Some (saturate_long (if neg then - int n else int n), rest)
             else None)"

section \<open>Field extractors\<close>

record field_ext =
  fe_port :: int
  fe_type :: char
  fe_offset :: int
  fe_size :: int

text \<open>\<open>*pos\<close>: at the end of the string it is the terminating zero.\<close>

definition peek :: "string \<Rightarrow> char" where
  "peek s = (case s of [] \<Rightarrow> CHR 0x00 | c # _ \<Rightarrow> c)"

definition field_types :: "char list" where
  "field_types = ''iL12stf''"

text \<open>The result of an \<open>int32\<close> sum, with the wrap-around of two's complement.\<close>

definition int32_of :: "int \<Rightarrow> int" where
  "int32_of i = sint (word_of_int i :: 32 word)"

lemma int32_of_id: "- (2 ^ 31) \<le> i \<Longrightarrow> i < 2 ^ 31 \<Longrightarrow> int32_of i = i"
  by (simp add: int32_of_def sint_sbintrunc' signed_take_bit_int_eq_self)

text \<open>
  \<open>init_from_string\<close>: the message of the exception or the extractor. \<open>long\<close> and \<open>int\<close> have the same
  width, so a number out of range is saturated and \<open>val > INT_MAX\<close> is never true. The size of the header, a byte, is
  added to the offset as an \<open>int32\<close>.
\<close>

definition FieldExt_init_from_string :: "nat \<Rightarrow> string \<Rightarrow> string + field_ext" where
  "FieldExt_init_from_string hsize ident =
     (if peek ident \<noteq> CHR '':'' then Inl ''missing first colon''
      else case strtol (tl ident) of
        None \<Rightarrow> Inl ''bad port''
      | Some (port, p1) \<Rightarrow>
          if port > LONG_MAX \<or> port < 0 then Inl ''bad port''
          else if peek p1 \<noteq> CHR '':'' then Inl (''missing second colon, at \"'' @ p1 @ ''\"'')
          else
            let p2 = tl p1; ty = peek p2
            in if ty \<notin> set field_types then Inl ''invalid field type''
               else if peek (tl p2) \<noteq> CHR '':'' then Inl ''missing third colon''
               else case strtol (tl (tl p2)) of
                 None \<Rightarrow> Inl ''bad offset''
               | Some (off, p3) \<Rightarrow>
                   if off > LONG_MAX then Inl ''bad offset''
                   else if peek p3 \<noteq> CHR '':'' then Inl ''missing fourth colon''
                   else case strtol (tl p3) of
                     None \<Rightarrow> Inl ''bad size''
                   | Some (sz, p4) \<Rightarrow>
                       if sz > LONG_MAX \<or> sz < 0 then Inl ''bad size''
                       else if peek p4 \<noteq> CHR '':'' then Inl ''missing fifth colon''
                       else if peek (tl p4) \<noteq> CHR 0x00
                       then Inl ''string doesn't end after fifth colon''
                       else Inr \<lparr>fe_port = port, fe_type = ty, fe_offset = int32_of (off + int hsize), fe_size = sz\<rparr>)"

text \<open>
  The bytes of a field. The offset counts from the start of the header; reading the header's own
  bytes, or bytes past the end of the tuple, is outside the model.
\<close>

definition tuple_bytes :: "nat \<Rightarrow> int \<Rightarrow> int \<Rightarrow> tuple \<Rightarrow> byte list result" where
  "tuple_bytes hsize off sz t =
     (let o' = off - int hsize
      in if o' < 0 \<or> o' + sz > int (length (body t)) then Inl Undefined
         else Inr (take (nat sz) (drop (nat o') (body t))))"

definition FieldExt_evaluate :: "nat \<Rightarrow> field_ext \<Rightarrow> tuple \<Rightarrow> byte list result" where
  "FieldExt_evaluate hsize fe t =
     rbind (tuple_bytes hsize (fe_offset fe) (fe_size fe) t)
       (\<lambda>bs. Inr (if fe_type fe = CHR ''s'' then bs @ [0] else bs))"

definition FieldExt_evaluate2 :: "nat \<Rightarrow> field_ext \<Rightarrow> tuple \<Rightarrow> tuple \<Rightarrow> byte list result" where
  "FieldExt_evaluate2 hsize fe t1 t2 =
     (if fe_port fe = 0 then FieldExt_evaluate hsize fe t1 else FieldExt_evaluate hsize fe t2)"

text \<open>A little-endian number of the bytes, unsigned and signed.\<close>

fun le_nat :: "byte list \<Rightarrow> nat" where
  "le_nat [] = 0"
| "le_nat (b # bs) = unat b + 256 * le_nat bs"

definition le_int :: "byte list \<Rightarrow> int" where
  "le_int bs =
     (let n = int (le_nat bs); m = 256 ^ length bs in if 2 * n < m then n else n - m)"

text \<open>\<open>fmt1\<close> and \<open>fmt2\<close> are \<open>%.6f\<close> and \<open>%.12f\<close> of the C library; the trailing zero is optional.\<close>

definition FieldExt_evaluate_as_char ::
  "(byte list \<Rightarrow> byte list) \<Rightarrow> (byte list \<Rightarrow> byte list) \<Rightarrow> nat \<Rightarrow> field_ext \<Rightarrow> bool \<Rightarrow> tuple \<Rightarrow> byte list result" where
  "FieldExt_evaluate_as_char fmt1 fmt2 hsize fe addnull t =
     rbind
       (let ty = fe_type fe; get = (\<lambda>off n. tuple_bytes hsize (fe_offset fe + off) n t)
        in if ty = CHR ''s'' then get 0 (fe_size fe)
           else if ty = CHR ''i'' then rbind (get 0 4) (\<lambda>b. Inr (print_int (le_int b)))
           else if ty = CHR ''L'' then rbind (get 0 8) (\<lambda>b. Inr (print_int (le_int b)))
           else if ty = CHR ''S'' then rbind (get 0 2) (\<lambda>b. Inr (print_int (le_int b)))
           else if ty = CHR ''B'' then rbind (get 0 1) (\<lambda>b. Inr (print_int (le_int b)))
           else if ty = CHR ''1'' then rbind (get 0 4) (\<lambda>b. Inr (fmt1 b))
           else if ty = CHR ''2'' then rbind (get 0 8) (\<lambda>b. Inr (fmt2 b))
           else if ty = CHR ''t''
           then rbind (get 0 4) (\<lambda>s. rbind (get 4 4) (\<lambda>u.
                  Inr (print_int (le_int s) @ [44] @ print_int (le_int u))))
           else Inr [])
       (\<lambda>bs. Inr (if addnull then bs @ [0] else bs))"

datatype DataType = DT_INT | DT_LONG | DT_SHORT | DT_BYTE | DT_SINGLE | DT_DOUBLE | DT_STRING | DT_TIMESTAMP

text \<open>\<open>get_return_types\<close>; an unknown type ends the process.\<close>

definition FieldExt_get_return_types :: "field_ext \<Rightarrow> DataType list result" where
  "FieldExt_get_return_types fe =
     (let ty = fe_type fe
      in if ty = CHR ''i'' then Inr [DT_INT] else if ty = CHR ''L'' then Inr [DT_LONG]
         else if ty = CHR ''S'' then Inr [DT_SHORT] else if ty = CHR ''B'' then Inr [DT_BYTE]
         else if ty = CHR ''1'' then Inr [DT_SINGLE] else if ty = CHR ''2'' then Inr [DT_DOUBLE]
         else if ty = CHR ''s'' then Inr [DT_STRING] else if ty = CHR ''t'' then Inr [DT_TIMESTAMP]
         else Inl Fatal)"


section \<open>Printing and reading numbers\<close>

lemma digits_less: "d \<in> set (digits n) \<Longrightarrow> d < 10"
proof (induction n rule: digits.induct)
  case (1 n)
  then show ?case by (cases "n < 10") (auto simp: digits.simps [of n])
qed

lemma digits_Cons: "\<exists>d ds. digits n = d # ds"
  by (metis digits.simps list.exhaust snoc_eq_iff_butlast list.distinct(1))

lemma digits_value: "foldl (\<lambda>a d. 10 * a + d) 0 (digits n) = n"
proof (induction n rule: digits.induct)
  case (1 n)
  then show ?case by (cases "n < 10") (simp_all add: digits.simps [of n])
qed

lemma digits_inject [simp]: "digits m = digits n \<longleftrightarrow> m = n"
  by (metis digits_value)

text \<open>A number written in decimal is read back.\<close>

definition decimal :: "nat \<Rightarrow> string" where
  "decimal n = map (\<lambda>d. char_of (48 + d)) (digits n)"

lemma digit_of_char: "d < 10 \<Longrightarrow> digit_of (char_of (48 + d)) = Some d"
  by (simp add: digit_of_def Let_def)

lemma read_digits_decimal:
  assumes "\<forall>d \<in> set ds. d < 10" "rest = [] \<or> digit_of (hd rest) = None"
  shows "read_digits acc (map (\<lambda>d. char_of (48 + d)) ds @ rest) = (foldl (\<lambda>a d. 10 * a + d) acc ds, rest)"
  using assms(1)
proof (induction ds arbitrary: acc)
  case Nil
  then show ?case using assms(2) by (cases rest) auto
next
  case (Cons d ds)
  then show ?case by (simp add: digit_of_char)
qed

lemma char_of_digit_simps:
  assumes "d < (10 :: nat)"
  shows "\<not> is_space (char_of (48 + d))" "char_of (48 + d) \<noteq> CHR ''-''" "char_of (48 + d) \<noteq> CHR ''+''"
proof -
  have c: "48 \<le> (of_char c :: nat)" "of_char c < (58 :: nat)" if "char_of (48 + d) = c" for c
    using assms by (simp_all flip: that add: mod_less)
  show "\<not> is_space (char_of (48 + d))" unfolding is_space_def using c(1) by fastforce
  show "char_of (48 + d) \<noteq> CHR ''-''" "char_of (48 + d) \<noteq> CHR ''+''"
    using c(1) [of "CHR ''-''"] c(1) [of "CHR ''+''"] by auto
qed

lemma strtol_decimal:
  assumes "int n \<le> LONG_MAX" "rest = [] \<or> digit_of (hd rest) = None"
  shows "strtol (decimal n @ rest) = Some (int n, rest)"
proof -
  obtain d ds where ds: "digits n = d # ds" using digits_Cons by blast
  then have d: "d < 10" using digits_less [of d n] by simp
  have "\<forall>d \<in> set (digits n). d < 10" by (simp add: digits_less)
  from read_digits_decimal [OF this assms(2), of 0]
  have r: "read_digits 0 (decimal n @ rest) = (n, rest)" by (simp add: decimal_def digits_value)
  have dec: "decimal n @ rest = char_of (48 + d) # (map (\<lambda>d. char_of (48 + d)) ds @ rest)"
    by (simp add: decimal_def ds)
  have s: "saturate_long (int n) = int n"
    using assms(1) by (simp add: saturate_long_def LONG_MAX_def)
  have dg: "is_digit (char_of (48 + d))" by (simp add: is_digit_def digit_of_char d)
  show ?thesis
    unfolding strtol_def dec using r [unfolded dec] s dg char_of_digit_simps [OF d] by (simp add: Let_def)
qed

lemma digit_of_colon [simp]: "digit_of CHR '':'' = None"
  by (simp add: digit_of_def)

lemma peek_simps [simp]: "peek [] = CHR 0x00" "peek (c # s) = c"
  by (simp_all add: peek_def)

text \<open>The description of a field, as the code reads it: port, type, offset and size.\<close>

definition field_description :: "nat \<Rightarrow> char \<Rightarrow> nat \<Rightarrow> nat \<Rightarrow> string" where
  "field_description port ty off sz =
     '':'' @ decimal port @ '':'' @ [ty] @ '':'' @ decimal off @ '':'' @ decimal sz @ '':''"

lemma FieldExt_init_description:
  assumes "int port \<le> LONG_MAX" "int off + int hsize \<le> LONG_MAX" "int sz \<le> LONG_MAX" "ty \<in> set field_types"
  shows "FieldExt_init_from_string hsize (field_description port ty off sz) =
     Inr \<lparr>fe_port = int port, fe_type = ty, fe_offset = int off + int hsize, fe_size = int sz\<rparr>"
proof -
  have "int32_of (int off + int hsize) = int off + int hsize" using assms(2) by (intro int32_of_id) (simp_all add: LONG_MAX_def)
  with assms show ?thesis
    by (simp add: FieldExt_init_from_string_def field_description_def strtol_decimal Let_def)
qed

text \<open>An offset near the largest number wraps to a negative one.\<close>

lemma FieldExt_offset_wraps:
  assumes "ty \<in> set field_types"
  shows "FieldExt_init_from_string 32 (field_description 0 ty (2 ^ 31 - 1) 4) =
     Inr \<lparr>fe_port = 0, fe_type = ty, fe_offset = 31 - 2 ^ 31, fe_size = 4\<rparr>"
proof -
  have "int32_of (int (2 ^ 31 - 1) + int 32) = 31 - 2 ^ 31" by (simp add: int32_of_def)
  moreover have "int (2 ^ 31 - 1) \<le> LONG_MAX" "int 4 \<le> LONG_MAX" "int 0 \<le> LONG_MAX" by (simp_all add: LONG_MAX_def)
  ultimately show ?thesis
    using assms strtol_decimal by (simp add: FieldExt_init_from_string_def field_description_def Let_def)
qed

text \<open>Whatever the text, an extractor that is built has a known type, a port and a size.\<close>

lemma FieldExt_init_ok:
  assumes "FieldExt_init_from_string hsize s = Inr fe"
  shows "fe_type fe \<in> set field_types" "0 \<le> fe_port fe" "0 \<le> fe_size fe" "hd s = CHR '':''"

proof -
  show "fe_type fe \<in> set field_types" "0 \<le> fe_port fe" "0 \<le> fe_size fe"
    using assms
    by (auto simp: FieldExt_init_from_string_def Let_def split: if_splits option.splits prod.splits)
  show "hd s = CHR '':''"
    using assms by (cases s) (auto simp: FieldExt_init_from_string_def split: if_splits)
  
qed

section \<open>Text of numbers\<close>

lemma print_int_bytes:
  "b \<in> set (print_int i) \<Longrightarrow> b = 45 \<or> (48 \<le> unat b \<and> unat b \<le> 57)"
proof -
  have "unat (of_nat (48 + d) :: byte) = 48 + d" if "d \<in> set (digits n)" for d n
    using digits_less [OF that] by (simp add: unat_of_nat take_bit_eq_mod del: of_nat_add)
  then show "b = 45 \<or> (48 \<le> unat b \<and> unat b \<le> 57)" if "b \<in> set (print_int i)"
    using that digits_less by (fastforce simp: print_int_def simp del: of_nat_add split: if_splits)
qed

lemma print_int_inject:
  assumes "print_int i = print_int j"
  shows "i = j"
proof -
  let ?b = "\<lambda>d. of_nat (48 + d) :: byte"
  have u: "unat (?b d) = 48 + d" if "d < 10" for d
    using that by (simp add: unat_of_nat take_bit_eq_mod del: of_nat_add)
  have inj: "inj_on ?b {d. d < 10}"
    by (rule inj_on_inverseI [where g = "\<lambda>b. unat b - 48"]) (simp add: u del: of_nat_add)
  have nohd: "?b d \<noteq> 45" if "d < 10" for d using u [OF that] by (auto simp del: of_nat_add)
  have hd: "hd (map ?b (digits n)) \<noteq> 45" for n
  proof -
    obtain d ds where "digits n = d # ds" using digits_Cons by blast
    then show ?thesis using digits_less [of d n] nohd [of d] by (simp del: of_nat_add)
  qed
  have dg: "m = n" if "map ?b (digits m) = map ?b (digits n)" for m n
  proof -
    have "set (digits m) \<union> set (digits n) \<subseteq> {d. d < 10}" using digits_less by auto
    with that have "digits m = digits n" using inj_on_map_eq_map [of ?b] inj inj_on_subset by blast
    then show ?thesis by simp
  qed
  have hdj: "hd (print_int k) = 45 \<longleftrightarrow> k < 0" for k
    using hd [of "nat k"] by (simp add: print_int_def del: of_nat_add)
  then have "i < 0 \<longleftrightarrow> j < 0" using assms by metis
  then show ?thesis
    using assms dg [of "nat \<bar>i\<bar>" "nat \<bar>j\<bar>"] by (auto simp: print_int_def simp del: of_nat_add split: if_splits)
qed

end
