(* ===== verification/BSort_Box.thy ===== *)
theory BSort_Box
  imports Box_Runs Field_Ext "HOL-Library.List_Lexorder"
begin

text \<open>
  The BSort box (boxes/BSortQBox.cc, BSortQBox.h) with the buffers it keeps per group
  (util/BufferList.cc, util/HashForBufferList.cc): a bounded sort. Every tuple is inserted into the
  ordered buffer of its group, and when that buffer holds \<open>slack + 1\<close> tuples the lowest is sent.
\<close>

section \<open>Buffers and the hash of buffers\<close>

record node =
  nd_att :: "byte list"
  nd_tuple :: tuple

type_synonym buffer_list = "node list"

definition BufferList_pop_front :: "buffer_list \<Rightarrow> (node \<times> buffer_list) result" where
  "BufferList_pop_front b = (case b of [] \<Rightarrow> Inl Undefined | n # b' \<Rightarrow> Inr (n, b'))"

text \<open>
  \<open>strcmp\<close> on the bytes of two C strings: what follows a zero does not count, and the end of the
  list stands for the terminating zero.
\<close>

fun strcmp :: "byte list \<Rightarrow> byte list \<Rightarrow> int" where
  "strcmp [] [] = 0"
| "strcmp [] (y # ys) = (if y = 0 then 0 else -1)"
| "strcmp (x # xs) [] = (if x = 0 then 0 else 1)"
| "strcmp (x # xs) (y # ys) =
     (if x < y then -1 else if y < x then 1 else if x = 0 then 0 else strcmp xs ys)"

text \<open>The hash map from group values to buffers compares its keys with \<open>strcmp\<close>.\<close>

type_synonym buffer_hash = "(byte list \<times> buffer_list) list"

fun get_buffer_list :: "buffer_hash \<Rightarrow> byte list \<Rightarrow> buffer_list option" where
  "get_buffer_list [] v = None"
| "get_buffer_list ((k, b) # h) v = (if strcmp k v = 0 then Some b else get_buffer_list h v)"

definition add_buffer_list :: "byte list \<Rightarrow> buffer_list \<Rightarrow> buffer_hash \<Rightarrow> buffer_hash" where
  "add_buffer_list k b h = (if get_buffer_list h k = None then (k, b) # h else h)"

text \<open>A change of a buffer through the pointer the hash map returned.\<close>

fun set_buffer_list :: "byte list \<Rightarrow> buffer_list \<Rightarrow> buffer_hash \<Rightarrow> buffer_hash" where
  "set_buffer_list v b [] = []"
| "set_buffer_list v b ((k, b0) # h) =
     (if strcmp k v = 0 then (k, b) # h else (k, b0) # set_buffer_list v b h)"

definition get_buffer_list_size :: "buffer_hash \<Rightarrow> byte list \<Rightarrow> int" where
  "get_buffer_list_size h v = (case get_buffer_list h v of Some b \<Rightarrow> int (length b) | None \<Rightarrow> 0)"

section \<open>Insertion into an ordered buffer\<close>

text \<open>The loop over the middle of the buffer; a tuple that no element exceeds is dropped.\<close>

fun insert_before :: "(byte list \<Rightarrow> byte list \<Rightarrow> bool) \<Rightarrow> node \<Rightarrow> buffer_list \<Rightarrow> buffer_list" where
  "insert_before lt new_node [] = []"
| "insert_before lt new_node (n # ns) =
     (if lt (nd_att new_node) (nd_att n) then new_node # n # ns else n # insert_before lt new_node ns)"

text \<open>The body shared by the \<open>add_..._to_buffer\<close> functions, for a comparison \<open><\<close> and \<open>>=\<close>.\<close>

definition add_ordered ::
  "(byte list \<Rightarrow> byte list \<Rightarrow> bool) \<Rightarrow> (byte list \<Rightarrow> byte list \<Rightarrow> bool) \<Rightarrow> node \<Rightarrow> buffer_list \<Rightarrow> buffer_list" where
  "add_ordered lt ge new_node b =
     (if lt (nd_att new_node) (nd_att (hd b)) then new_node # b
      else if ge (nd_att new_node) (nd_att (last b)) then b @ [new_node]
      else hd b # insert_before lt new_node (tl b))"

text \<open>Comparison and printing of floating point values, which are not interpreted.\<close>

record float_ops =
  single_less :: "byte list \<Rightarrow> byte list \<Rightarrow> bool"
  single_geq :: "byte list \<Rightarrow> byte list \<Rightarrow> bool"
  double_less :: "byte list \<Rightarrow> byte list \<Rightarrow> bool"
  double_geq :: "byte list \<Rightarrow> byte list \<Rightarrow> bool"
  print_single :: "byte list \<Rightarrow> byte list"
  print_double :: "byte list \<Rightarrow> byte list"

definition int_att :: "nat \<Rightarrow> byte list \<Rightarrow> int" where
  "int_att n a = le_int (take n a)"

definition add_int_to_buffer :: "nat \<Rightarrow> node \<Rightarrow> buffer_list \<Rightarrow> buffer_list result" where
  "add_int_to_buffer n new_node b =
     (if b = [] then Inl AssertionFailed
      else Inr (add_ordered (\<lambda>x y. int_att n x < int_att n y) (\<lambda>x y. int_att n x \<ge> int_att n y) new_node b))"

definition add_int_8to_buffer :: "node \<Rightarrow> buffer_list \<Rightarrow> buffer_list result" where
  "add_int_8to_buffer = add_int_to_buffer 1"

definition add_int_16to_buffer :: "node \<Rightarrow> buffer_list \<Rightarrow> buffer_list result" where
  "add_int_16to_buffer = add_int_to_buffer 2"

definition add_int_32to_buffer :: "node \<Rightarrow> buffer_list \<Rightarrow> buffer_list result" where
  "add_int_32to_buffer = add_int_to_buffer 4"

definition add_int_64to_buffer :: "node \<Rightarrow> buffer_list \<Rightarrow> buffer_list result" where
  "add_int_64to_buffer = add_int_to_buffer 8"

definition add_single_to_buffer :: "float_ops \<Rightarrow> node \<Rightarrow> buffer_list \<Rightarrow> buffer_list result" where
  "add_single_to_buffer fo new_node b =
     (if b = [] then Inl Undefined else Inr (add_ordered (single_less fo) (single_geq fo) new_node b))"

definition add_double_to_buffer :: "float_ops \<Rightarrow> node \<Rightarrow> buffer_list \<Rightarrow> buffer_list result" where
  "add_double_to_buffer fo new_node b =
     (if b = [] then Inl Undefined else Inr (add_ordered (double_less fo) (double_geq fo) new_node b))"

definition add_string_to_buffer :: "node \<Rightarrow> buffer_list \<Rightarrow> buffer_list result" where
  "add_string_to_buffer new_node b =
     (if b = [] then Inl Undefined
      else Inr (add_ordered (\<lambda>x y. strcmp x y < 0) (\<lambda>x y. strcmp x y \<ge> 0) new_node b))"

text \<open>The switch over the type of the sort attribute; any other type leaves the buffer as it is.\<close>

definition add_by_type :: "float_ops \<Rightarrow> char \<Rightarrow> node \<Rightarrow> buffer_list \<Rightarrow> buffer_list result" where
  "add_by_type fo ty new_node b =
     (if ty = CHR ''f'' then add_single_to_buffer fo new_node b
      else if ty = CHR ''1'' then add_single_to_buffer fo new_node b
      else if ty = CHR ''2'' then add_double_to_buffer fo new_node b
      else if ty = CHR ''i'' then add_int_32to_buffer new_node b
      else if ty = CHR ''L'' then add_int_64to_buffer new_node b
      else if ty = CHR ''S'' then add_int_16to_buffer new_node b
      else if ty = CHR ''B'' then add_int_8to_buffer new_node b
      else if ty = CHR ''s'' then add_string_to_buffer new_node b
      else Inr b)"

section \<open>The box\<close>

text \<open>\<open>current_buffer\<close> is the group whose buffer \<open>_buffer\<close> points to.\<close>

record bsort_box =
  slack :: int
  field_att :: field_ext
  field_group :: "field_ext list"
  buffer_hash :: buffer_hash
  current_buffer :: "byte list"

text \<open>
  The group-by values as text, separated by a byte 1; \<open>limit\<close> is the size of the memory they are
  copied to, allocated for 64 characters per value.
\<close>

fun group_by_values_from ::
  "float_ops \<Rightarrow> nat \<Rightarrow> nat \<Rightarrow> tuple \<Rightarrow> byte list \<Rightarrow> bool \<Rightarrow> field_ext list \<Rightarrow> byte list result" where
  "group_by_values_from fo hsize limit t acc first [] = Inr acc"
| "group_by_values_from fo hsize limit t acc first (f # fs) =
     rbind (FieldExt_evaluate_as_char (print_single fo) (print_double fo) hsize f False t) (\<lambda>v.
       let acc' = acc @ (if first then [] else [1]) @ v
       in if length acc' > limit then Inl Undefined
          else group_by_values_from fo hsize limit t acc' False fs)"

definition group_by_values :: "float_ops \<Rightarrow> nat \<Rightarrow> field_ext list \<Rightarrow> tuple \<Rightarrow> byte list result" where
  "group_by_values fo hsize fs t =
     group_by_values_from fo hsize (65 * length fs + 1) t [] True fs"

text \<open>\<open>add_to_buffer\<close>: the group's key and the box afterwards.\<close>

definition BSort_add_to_buffer ::
  "float_ops \<Rightarrow> nat \<Rightarrow> tuple \<Rightarrow> bsort_box \<Rightarrow> (byte list \<times> bsort_box) result" where
  "BSort_add_to_buffer fo hsize t box =
     rbind (FieldExt_evaluate hsize (field_att box) t) (\<lambda>att.
     rbind (group_by_values fo hsize (field_group box) t) (\<lambda>key.
       let new_node = \<lparr>nd_att = att, nd_tuple = t\<rparr>; h = buffer_hash box
       in if h = [] \<or> get_buffer_list h key = None
          then Inr (key, box\<lparr>buffer_hash := add_buffer_list key [new_node] h, current_buffer := key\<rparr>)
          else if get_buffer_list_size h key = 0
          then Inr (key, box\<lparr>buffer_hash := set_buffer_list key [new_node] h, current_buffer := key\<rparr>)
          else rbind (add_by_type fo (fe_type (field_att box)) new_node (the (get_buffer_list h key)))
                 (\<lambda>b. Inr (key,
                    if fe_type (field_att box) \<in> set ''f12iLSBs''
                    then box\<lparr>buffer_hash := set_buffer_list key b h, current_buffer := key\<rparr>
                    else box))))"

definition BSort_emit_lowest :: "bsort_box \<Rightarrow> (tuple \<times> bsort_box) result" where
  "BSort_emit_lowest box =
     (case get_buffer_list (buffer_hash box) (current_buffer box) of
        None \<Rightarrow> Inl Undefined
      | Some b \<Rightarrow> rbind (BufferList_pop_front b) (\<lambda>(n, b').
          Inr (nd_tuple n,
               box\<lparr>buffer_hash := set_buffer_list (current_buffer box) b' (buffer_hash box)\<rparr>)))"

text \<open>An iteration of the main loop: the state is the box and what it has sent.\<close>

definition BSort_step ::
  "float_ops \<Rightarrow> nat \<Rightarrow> tuple \<Rightarrow> bsort_box \<times> tuple list \<Rightarrow> (bsort_box \<times> tuple list) result" where
  "BSort_step fo hsize t = (\<lambda>(box, out).
     rbind (BSort_add_to_buffer fo hsize t box) (\<lambda>(key, box1).
       if get_buffer_list_size (buffer_hash box1) key = slack box1 + 1
       then rbind (BSort_emit_lowest box1) (\<lambda>(u, box2). Inr (box2, out @ [u]))
       else Inr (box1, out)))"

text \<open>A run: what is left of the queue, and the box and its output or the failure.\<close>

definition BSortQBox_run ::
  "float_ops \<Rightarrow> nat \<Rightarrow> tuple list \<Rightarrow> bsort_box \<Rightarrow> tuple list \<times> (bsort_box \<times> tuple list) result" where
  "BSortQBox_run fo hsize xs box =
     (drop get_max_tuples_to_dequeue xs,
      fold_result (BSort_step fo hsize) (take get_max_tuples_to_dequeue xs) (box, []))"

section \<open>The group-by parameter\<close>

text \<open>\<open>index(s, c)\<close>: the rest of the string from the first occurrence of the character on.\<close>

definition index_of :: "char \<Rightarrow> string \<Rightarrow> string option" where
  "index_of c s = (let r = dropWhile (\<lambda>x. x \<noteq> c) s in if r = [] then None else Some r)"

lemma index_of_length: "index_of c s = Some r \<Longrightarrow> length r \<le> length s \<and> r \<noteq> []"
  by (auto simp: index_of_def Let_def length_dropWhile_le split: if_splits)

text \<open>The number of separators behind a pointer to a separator.\<close>

function count_separators :: "string \<Rightarrow> nat" where
  "count_separators p =
     (case index_of CHR '','' (tl p) of None \<Rightarrow> 0
      | Some p' \<Rightarrow> if p = [] then 0 else Suc (count_separators p'))"
  by auto
termination
proof (relation "measure length")
  fix p p' :: string
  assume "index_of CHR '','' (tl p) = Some p'" "p \<noteq> []"
  then show "(p', p) \<in> measure length" using index_of_length [of "CHR '',''" "tl p" p'] by (cases p) auto
qed simp

text \<open>
  The loop that builds the extractors; a null pointer left over would be undefined. The pointer is
  moved past the separator that was found.
\<close>

fun parse_group_fields :: "nat \<Rightarrow> nat \<Rightarrow> string option \<Rightarrow> field_ext list result" where
  "parse_group_fields hsize 0 p = Inr []"
| "parse_group_fields hsize (Suc n) None = Inl Undefined"
| "parse_group_fields hsize (Suc n) (Some p) =
     (case FieldExt_init_from_string hsize p of
        Inl msg \<Rightarrow> Inl AuroraException
      | Inr f \<Rightarrow> rbind (parse_group_fields hsize n (map_option tl (index_of CHR '','' (tl p))))
          (\<lambda>fs. Inr (f # fs)))"

definition BSort_parse_group_by :: "nat \<Rightarrow> string \<Rightarrow> field_ext list result" where
  "BSort_parse_group_by hsize atts =
     (if atts = [] then Inr []
      else case index_of CHR '','' atts of
        None \<Rightarrow> parse_group_fields hsize 1 (Some atts)
      | Some p \<Rightarrow> parse_group_fields hsize (2 + count_separators p) (Some atts))"

text \<open>
  \<open>setup_impl\<close> and \<open>init_impl\<close>: the parameters \<open>order-on\<close>, \<open>slack\<close> and \<open>group-by\<close>, with one input
  stream.
\<close>

definition BSort_setup :: "nat \<Rightarrow> nat \<Rightarrow> string \<Rightarrow> int \<Rightarrow> string \<Rightarrow> bsort_box result" where
  "BSort_setup num_inputs hsize order_on sl group_by =
     (if num_inputs \<noteq> 1 \<or> order_on = [] then Inl AuroraException
      else case FieldExt_init_from_string hsize order_on of
        Inl msg \<Rightarrow> Inl AuroraException
      | Inr f \<Rightarrow> rbind (BSort_parse_group_by hsize group_by) (\<lambda>fs.
          Inr \<lparr>slack = sl, field_att = f, field_group = fs, buffer_hash = [], current_buffer = []\<rparr>))"

text \<open>
  An extractor's description contains no separator, and none is cut off at one: a parameter with
  more than one attribute is always rejected.
\<close>

lemma set_dropWhile_span: "set s \<subseteq> {c. P c} \<union> set (dropWhile P s)"
  by (induction s) auto

lemma read_digits_set: "set s \<subseteq> {c. is_digit c} \<union> set (snd (read_digits acc s))"
proof (induction s arbitrary: acc)
  case Nil
  then show ?case by simp
next
  case (Cons c s)
  show ?case
  proof (cases "digit_of c")
    case None
    then show ?thesis by auto
  next
    case (Some d)
    then show ?thesis using Cons.IH [of "10 * acc + d"] by (auto simp: is_digit_def)
  qed
qed

lemma strtol_read:
  assumes "strtol s = Some (n, rest)"
  obtains s2 where "rest = snd (read_digits 0 s2)"
    "dropWhile is_space s = s2 \<or> dropWhile is_space s = CHR ''-'' # s2 \<or> dropWhile is_space s = CHR ''+'' # s2"
proof (cases "dropWhile is_space s")
  case Nil
  with assms show ?thesis by (simp add: strtol_def)
next
  case (Cons c cs)
  define s2 where "s2 = (if c = CHR ''-'' \<or> c = CHR ''+'' then cs else c # cs)"
  have "rest = snd (read_digits 0 s2)"
    using assms Cons unfolding strtol_def Let_def s2_def
    by (simp split: list.splits if_splits prod.splits)
  then show ?thesis using Cons by (intro that [of s2]) (simp_all add: s2_def)
qed

lemma strtol_set:
  assumes "strtol s = Some (n, rest)" "x \<in> set s" "x \<notin> set rest"
  shows "is_space x \<or> is_digit x \<or> x = CHR ''-'' \<or> x = CHR ''+''"
proof -
  from strtol_read [OF assms(1)] obtain s2 where s2: "rest = snd (read_digits 0 s2)"
    "dropWhile is_space s = s2 \<or> dropWhile is_space s = CHR ''-'' # s2 \<or> dropWhile is_space s = CHR ''+'' # s2" .
  have "set s2 \<subseteq> {c. is_digit c} \<union> set rest" using read_digits_set [of s2 0] s2(1) by simp
  moreover have "x \<in> {c. is_space c} \<union> set (dropWhile is_space s)" using set_dropWhile_span [of s is_space] assms(2) by blast
  moreover have "set (dropWhile is_space s) \<subseteq> {CHR ''-'', CHR ''+''} \<union> set s2" using s2(2) by auto
  ultimately show ?thesis using assms(3) by blast
qed

lemma strtol_comma: "strtol s = Some (n, rest) \<Longrightarrow> CHR '','' \<in> set s \<Longrightarrow> CHR '','' \<in> set rest"
  using strtol_set [of s n rest "CHR '',''"] by (auto simp: is_space_def is_digit_def digit_of_def)

lemma peek_neq_0: "peek s = c \<Longrightarrow> c \<noteq> CHR 0x00 \<Longrightarrow> s = c # tl s"
  by (cases s) auto

lemma in_set_tl: "x \<in> set (tl s) \<Longrightarrow> x \<in> set s"
  by (cases s) auto

lemma colon_comma: "CHR '':'' \<noteq> CHR '',''"
  by simp

lemma read_digits_subset: "set (snd (read_digits acc s)) \<subseteq> set s"
proof (induction s arbitrary: acc)
  case (Cons c s)
  show ?case by (cases "digit_of c") (use Cons.IH in auto)
qed simp

lemma strtol_subset:
  assumes "strtol s = Some (n, rest)"
  shows "set rest \<subseteq> set s"
proof -
  from strtol_read [OF assms] obtain s2 where s2: "rest = snd (read_digits 0 s2)"
    "dropWhile is_space s = s2 \<or> dropWhile is_space s = CHR ''-'' # s2 \<or> dropWhile is_space s = CHR ''+'' # s2" .
  from s2(2) have "set s2 \<subseteq> set (dropWhile is_space s)" by auto
  also have "\<dots> \<subseteq> set s" by (auto dest: set_dropWhileD)
  finally show ?thesis using s2(1) read_digits_subset [of 0 s2] by simp
qed

lemma FieldExt_init_no_comma:
  assumes "FieldExt_init_from_string hsize s = Inr f" "CHR 0x00 \<notin> set s"
  shows "CHR '','' \<notin> set s"
proof
  assume c: "CHR '','' \<in> set s"
  from assms(1) obtain port p1 off p3 sz p4 where
    a: "peek s = CHR '':''" "strtol (tl s) = Some (port, p1)" "peek p1 = CHR '':''"
      "peek (tl p1) \<in> set field_types" "peek (tl (tl p1)) = CHR '':''"
      "strtol (tl (tl (tl p1))) = Some (off, p3)" "peek p3 = CHR '':''"
      "strtol (tl p3) = Some (sz, p4)" "peek p4 = CHR '':''" "peek (tl p4) = CHR 0x00"
    by (auto simp: FieldExt_init_from_string_def Let_def split: if_splits option.splits prod.splits)
  have ty: "peek (tl p1) \<noteq> CHR 0x00" "peek (tl p1) \<noteq> CHR '',''" using a(4) by (auto simp: field_types_def)
  have s: "s = CHR '':'' # tl s" using peek_neq_0 [OF a(1)] by simp
  have p1: "p1 = CHR '':'' # peek (tl p1) # CHR '':'' # tl (tl (tl p1))"
    using peek_neq_0 [OF a(3)] peek_neq_0 [OF refl ty(1)] peek_neq_0 [OF a(5)] by simp
  have p3: "p3 = CHR '':'' # tl p3" using peek_neq_0 [OF a(7)] by simp
  have p4: "p4 = CHR '':'' # tl p4" using peek_neq_0 [OF a(9)] by simp
  have nz: "CHR 0x00 \<notin> set (tl s)" using assms(2) by (auto dest: in_set_tl)
  have "CHR '','' \<in> set (tl s)" using c s by (metis colon_comma set_ConsD)
  then have "CHR '','' \<in> set p1" using strtol_comma [OF a(2)] by simp
  then have "CHR '','' \<in> set (tl (tl (tl p1)))" using p1 ty(2) by (metis colon_comma set_ConsD)
  then have "CHR '','' \<in> set p3" using strtol_comma [OF a(6)] by simp
  then have "CHR '','' \<in> set (tl p3)" using p3 by (metis colon_comma set_ConsD)
  then have "CHR '','' \<in> set p4" using strtol_comma [OF a(8)] by simp
  then have "tl p4 \<noteq> []" using p4 by (metis colon_comma empty_iff empty_set set_ConsD)
  then have "CHR 0x00 \<in> set (tl p4)" using a(10) by (cases "tl p4") auto
  moreover have "CHR 0x00 \<notin> set p1" using strtol_subset [OF a(2)] nz by blast
  then have "CHR 0x00 \<notin> set (tl (tl (tl p1)))" by (blast dest: in_set_tl)
  then have "CHR 0x00 \<notin> set p3" using strtol_subset [OF a(6)] by blast
  then have "CHR 0x00 \<notin> set (tl p3)" by (blast dest: in_set_tl)
  then have "CHR 0x00 \<notin> set p4" using strtol_subset [OF a(8)] by blast
  then have "CHR 0x00 \<notin> set (tl p4)" by (blast dest: in_set_tl)
  ultimately show False by contradiction
qed

lemma BSort_parse_several:
  assumes "CHR '','' \<in> set atts" "CHR 0x00 \<notin> set atts"
  shows "BSort_parse_group_by hsize atts = Inl AuroraException"
proof -
  obtain p where "index_of CHR '','' atts = Some p"
    using assms(1) by (auto simp: index_of_def Let_def)
  moreover obtain msg where "FieldExt_init_from_string hsize atts = Inl msg"
    using FieldExt_init_no_comma [OF _ assms(2)] assms(1) by (metis sum.exhaust)
  ultimately show ?thesis using assms(1) by (auto simp: BSort_parse_group_by_def)
qed

section \<open>Ordered insertion\<close>

text \<open>A comparison that is given by the values of the attribute in a linear order.\<close>

locale att_order =
  fixes lt ge :: "byte list \<Rightarrow> byte list \<Rightarrow> bool"
    and val :: "byte list \<Rightarrow> 'k :: linorder"
  assumes lt_val: "lt x y \<longleftrightarrow> val x < val y"
    and ge_val: "ge x y \<longleftrightarrow> val y \<le> val x"
begin

abbreviation nval :: "node \<Rightarrow> 'k" where
  "nval n \<equiv> val (nd_att n)"

abbreviation ordered :: "buffer_list \<Rightarrow> bool" where
  "ordered b \<equiv> sorted (map nval b)"

lemma insert_before_split:
  "\<exists>n \<in> set b. nval x < nval n \<Longrightarrow>
   insert_before lt x b = takeWhile (\<lambda>n. nval n \<le> nval x) b @ x # dropWhile (\<lambda>n. nval n \<le> nval x) b"
  by (induction b) (auto simp: lt_val not_le)

text \<open>The new tuple goes behind all that are not above it: insertion is stable.\<close>

lemma add_ordered_split:
  assumes "ordered b" "b \<noteq> []"
  shows "add_ordered lt ge x b =
    takeWhile (\<lambda>n. nval n \<le> nval x) b @ x # dropWhile (\<lambda>n. nval n \<le> nval x) b"
proof -
  obtain n ns where b: "b = n # ns" using assms(2) by (cases b) auto
  consider "nval x < nval n" | "nval n \<le> nval x" "nval (last b) \<le> nval x"
    | "nval n \<le> nval x" "nval x < nval (last b)" by force
  then show ?thesis
  proof cases
    case 1
    then show ?thesis by (auto simp: add_ordered_def b lt_val)
  next
    case 2
    have "\<forall>m \<in> set b. nval m \<le> nval (last b)"
      using assms(1) by (induction b) (auto simp: b)
    then have "\<forall>m \<in> set b. nval m \<le> nval x" using 2(2) by force
    then have "takeWhile (\<lambda>n. nval n \<le> nval x) b = b" "dropWhile (\<lambda>n. nval n \<le> nval x) b = []"
      by (simp_all add: takeWhile_eq_all_conv)
    moreover have "add_ordered lt ge x b = b @ [x]"
      using 2 by (auto simp: add_ordered_def b lt_val ge_val not_less)
    ultimately show ?thesis by (simp only:)
  next
    case 3
    then have ns: "ns \<noteq> []" using b by auto
    then have "last b \<in> set ns" by (simp add: b)
    then have "\<exists>m \<in> set ns. nval x < nval m" using 3(2) by blast
    from insert_before_split [OF this] 3 ns show ?thesis
      by (auto simp: add_ordered_def b lt_val ge_val not_less not_le)
  qed
qed

lemma add_ordered_ordered:
  assumes "ordered b" "b \<noteq> []"
  shows "ordered (add_ordered lt ge x b)"
proof -
  let ?P = "\<lambda>n. nval n \<le> nval x"
  define p q where "p = takeWhile ?P b" and "q = dropWhile ?P b"
  have "ordered (p @ q)" using assms(1) by (simp add: p_def q_def)
  then have s: "ordered p" "ordered q" "\<forall>m \<in> set p. \<forall>n \<in> set q. nval m \<le> nval n"
    unfolding map_append sorted_append by auto
  have q: "\<forall>n \<in> set q. nval x \<le> nval n"
  proof (cases q)
    case Nil
    show ?thesis unfolding Nil by simp
  next
    case (Cons n ns)
    then have "\<not> ?P n" unfolding q_def by (metis hd_dropWhile list.distinct(1) list.sel(1))
    with s(2) Cons show ?thesis by force
  qed
  have p: "\<forall>m \<in> set p. nval m \<le> nval x" unfolding p_def by (blast dest: set_takeWhileD)
  have "ordered (p @ x # q)" unfolding map_append sorted_append using s p q by simp
  then show ?thesis unfolding add_ordered_split [OF assms] p_def q_def .
qed

lemma add_ordered_mset:
  assumes "ordered b" "b \<noteq> []"
  shows "mset (add_ordered lt ge x b) = add_mset x (mset b)"
proof -
  let ?P = "\<lambda>n. nval n \<le> nval x"
  have "mset b = mset (takeWhile ?P b) + mset (dropWhile ?P b)"
    by (metis mset_append takeWhile_dropWhile_id)
  then show ?thesis unfolding add_ordered_split [OF assms] by simp
qed

end

text \<open>
  The bounded sort of one group as a function on lists: \<open>add\<close> inserts into a buffer with tuples.
\<close>

fun bounded_sort :: "(node \<Rightarrow> buffer_list \<Rightarrow> buffer_list) \<Rightarrow> nat \<Rightarrow> buffer_list \<Rightarrow> node list \<Rightarrow> node list \<times> buffer_list" where
  "bounded_sort add k b [] = ([], b)"
| "bounded_sort add k b (x # xs) =
     (let b1 = (if b = [] then [x] else add x b)
      in if length b1 = k + 1
         then (let (out, b2) = bounded_sort add k (tl b1) xs in (hd b1 # out, b2))
         else bounded_sort add k b1 xs)"

lemma bounded_sort_append:
  "bounded_sort add k b (xs @ ys) =
     (let (o1, b1) = bounded_sort add k b xs; (o2, b2) = bounded_sort add k b1 ys in (o1 @ o2, b2))"
  by (induction xs arbitrary: b) (auto simp: Let_def split: prod.splits)

text \<open>No element comes before one that is more than \<open>k\<close> places ahead and above it.\<close>

definition disorder_bounded :: "(node \<Rightarrow> 'k :: linorder) \<Rightarrow> nat \<Rightarrow> node list \<Rightarrow> bool" where
  "disorder_bounded f k xs \<longleftrightarrow> (\<forall>j < length xs. \<forall>x \<in> set (take (j - k) xs). f x \<le> f (xs ! j))"

lemma disorder_bounded_snoc:
  "disorder_bounded f k (xs @ [x]) \<longleftrightarrow>
   disorder_bounded f k xs \<and> (\<forall>y \<in> set (take (length xs - k) xs). f y \<le> f x)"
  by (auto simp: disorder_bounded_def nth_append less_Suc_eq)

lemma subseteq_mset_disjoint:
  assumes "A \<subseteq># B + C" "\<And>a. a \<in># A \<Longrightarrow> a \<notin># B"
  shows "A \<subseteq># C"
proof (rule mset_subset_eqI)
  fix a
  show "count A a \<le> count C a"
    using mset_subset_eq_count [OF assms(1), of a] assms(2) [of a]
    by (cases "a \<in># A") (simp_all add: not_in_iff)
qed

context att_order
begin

abbreviation bsort :: "nat \<Rightarrow> buffer_list \<Rightarrow> node list \<Rightarrow> node list \<times> buffer_list" where
  "bsort \<equiv> bounded_sort (add_ordered lt ge)"

definition add1 :: "node \<Rightarrow> buffer_list \<Rightarrow> buffer_list" where
  "add1 x b = (if b = [] then [x] else add_ordered lt ge x b)"

lemma add1:
  assumes "ordered b"
  shows "ordered (add1 x b)" "mset (add1 x b) = add_mset x (mset b)" "length (add1 x b) = Suc (length b)"
    "set (add1 x b) = insert x (set b)" "add1 x b \<noteq> []"
proof -
  show m: "mset (add1 x b) = add_mset x (mset b)"
    using add_ordered_mset [OF assms] by (simp add: add1_def)
  show "ordered (add1 x b)" using add_ordered_ordered [OF assms] by (simp add: add1_def)
  show "length (add1 x b) = Suc (length b)" by (metis m size_add_mset size_mset)
  show "set (add1 x b) = insert x (set b)" by (metis m set_mset_add_mset_insert set_mset_mset)
  then show "add1 x b \<noteq> []" by auto
qed

lemma bsort_step:
  "bsort k b (x # xs) =
     (if length (add1 x b) = k + 1
      then (let (out, b2) = bsort k (tl (add1 x b)) xs in (hd (add1 x b) # out, b2))
      else bsort k (add1 x b) xs)"
  by (simp add: add1_def Let_def)

text \<open>Nothing is lost, the buffer stays ordered and within its bound.\<close>

lemma bsort_conserves:
  assumes "ordered b" "length b \<le> k"
  shows "ordered (snd (bsort k b xs)) \<and> length (snd (bsort k b xs)) \<le> k \<and>
    mset (fst (bsort k b xs)) + mset (snd (bsort k b xs)) = mset b + mset xs"
  using assms
proof (induction xs arbitrary: b)
  case Nil
  then show ?case by simp
next
  case (Cons x xs)
  note a = add1 [OF Cons.prems(1), of x]
  obtain n ns where b1: "add1 x b = n # ns" using a(5) by (cases "add1 x b") auto
  show ?case
  proof (cases "length (add1 x b) = k + 1")
    case True
    then have "ordered ns" "length ns \<le> k" using a(1) b1 by auto
    note IH = Cons.IH [OF this]
    obtain out b2 where run: "bsort k ns xs = (out, b2)" by fastforce
    have "add_mset n (mset ns) = add_mset x (mset b)" using a(2) b1 by simp
    then have "add_mset n (mset ns + mset xs) = mset b + mset (x # xs)"
      by (metis mset.simps(2) union_mset_add_mset_left union_mset_add_mset_right)
    then have "add_mset n (mset out + mset b2) = mset b + mset (x # xs)" using IH run by simp
    moreover have "bsort k b (x # xs) = (n # out, b2)" unfolding bsort_step using True b1 run by simp
    ultimately show ?thesis using IH run by simp
  next
    case False
    then have "length (add1 x b) \<le> k" using a(3) Cons.prems(2) by simp
    from Cons.IH [OF a(1) this] a(2) False show ?thesis unfolding bsort_step by simp
  qed
qed

lemma bsort_snoc:
  "bsort k [] (ys @ [x]) =
     (let (out, b) = bsort k [] ys; b1 = add1 x b
      in if length b1 = k + 1 then (out @ [hd b1], tl b1) else (out, b1))"
  by (simp add: bounded_sort_append add1_def Let_def case_prod_unfold)

text \<open>An input that is out of order by at most \<open>k\<close> places comes out in order.\<close>

lemma bsort_prefix_sorted:
  assumes "disorder_bounded nval k xs"
  shows "sorted (map nval (fst (bsort k [] xs))) \<and>
    (\<forall>u \<in> set (fst (bsort k [] xs)). \<forall>n \<in> set (snd (bsort k [] xs)). nval u \<le> nval n) \<and>
    (\<forall>u \<in> set (fst (bsort k [] xs)). \<exists>y \<in> set (take (length xs - k) xs). nval u \<le> nval y)"
  using assms
proof (induction xs rule: rev_induct)
  case Nil
  then show ?case by simp
next
  case (snoc x ys)
  obtain out b where run: "bsort k [] ys = (out, b)" by fastforce
  have dis: "disorder_bounded nval k ys" "\<forall>y \<in> set (take (length ys - k) ys). nval y \<le> nval x"
    using snoc.prems by (simp_all add: disorder_bounded_snoc)
  note IH = snoc.IH [OF dis(1), unfolded run fst_conv snd_conv]
  have con: "ordered b" "length b \<le> k" "mset out + mset b = mset ys"
    using bsort_conserves [of "[]" k ys] run by simp_all
  note a = add1 [OF con(1), of x]
  have below: "\<forall>u \<in> set out. \<forall>n \<in> set (add1 x b). nval u \<le> nval n"
    using IH dis(2) a(4) by (metis insert_iff order_trans)
  have wit: "\<forall>u \<in> set out. \<exists>y \<in> set (take (length (ys @ [x]) - k) (ys @ [x])). nval u \<le> nval y"
  proof
    fix u assume "u \<in> set out"
    then obtain y where "y \<in> set (take (length ys - k) ys)" "nval u \<le> nval y" using IH by blast
    moreover have "set (take (length ys - k) ys) \<subseteq> set (take (length (ys @ [x]) - k) (ys @ [x]))"
      using set_take_subset_set_take [of "length ys - k" "length (ys @ [x]) - k" "ys @ [x]"] by simp
    ultimately show "\<exists>y \<in> set (take (length (ys @ [x]) - k) (ys @ [x])). nval u \<le> nval y" by blast
  qed
  show ?case
  proof (cases "length (add1 x b) = k + 1")
    case False
    then show ?thesis unfolding bsort_snoc run using IH below wit by simp
  next
    case True
    obtain n ns where b1: "add1 x b = n # ns" using a(5) by (cases "add1 x b") auto
    have min: "\<forall>m \<in> set (add1 x b). nval n \<le> nval m" using a(1) unfolding b1 by simp
    have "\<exists>y \<in> set (take (length (ys @ [x]) - k) (ys @ [x])). y \<in> set (add1 x b)"
    proof (rule ccontr)
      let ?t = "take (length (ys @ [x]) - k) (ys @ [x])" and ?d = "drop (length (ys @ [x]) - k) (ys @ [x])"
      assume none: "\<not> ?thesis"
      have "mset (add1 x b) \<subseteq># mset (ys @ [x])" using a(2) by (simp flip: con(3))
      also have "mset (ys @ [x]) = mset ?t + mset ?d" by (metis append_take_drop_id mset_append)
      finally have "mset (add1 x b) \<subseteq># mset ?t + mset ?d" .
      then have "mset (add1 x b) \<subseteq># mset ?d" by (rule subseteq_mset_disjoint) (use none in auto)
      from size_mset_mono [OF this] have "length (add1 x b) \<le> length ?d" by simp
      then show False using True by simp
    qed
    then have "\<exists>y \<in> set (take (length (ys @ [x]) - k) (ys @ [x])). nval n \<le> nval y" using min by blast
    with wit show ?thesis
      unfolding bsort_snoc run using True IH below min b1 by (auto simp: sorted_append)
  qed
qed

end

section \<open>Text order and the hash of buffers\<close>

text \<open>The C string in an array: what comes before the first zero byte.\<close>

definition c_str :: "byte list \<Rightarrow> byte list" where
  "c_str a = takeWhile (\<lambda>b. b \<noteq> 0) a"

lemma strcmp_less: "strcmp x y < 0 \<longleftrightarrow> c_str x < c_str y"
  by (induction x y rule: strcmp.induct) (auto simp: c_str_def word_gt_0)

lemma strcmp_eq: "strcmp x y = 0 \<longleftrightarrow> c_str x = c_str y"
  by (induction x y rule: strcmp.induct) (auto simp: c_str_def)

lemma get_set_buffer_list:
  "get_buffer_list (set_buffer_list v b h) w =
     (if c_str w = c_str v then map_option (\<lambda>_. b) (get_buffer_list h v) else get_buffer_list h w)"
  by (induction h rule: set_buffer_list.induct) (auto simp: strcmp_eq)

lemma get_buffer_list_cong: "c_str v = c_str w \<Longrightarrow> get_buffer_list h v = get_buffer_list h w"
  by (induction h v rule: get_buffer_list.induct) (auto simp: strcmp_eq)

definition buffer_of :: "buffer_hash \<Rightarrow> byte list \<Rightarrow> buffer_list" where
  "buffer_of h v = (case get_buffer_list h v of None \<Rightarrow> [] | Some b \<Rightarrow> b)"

lemma buffer_of_set:
  "get_buffer_list h v \<noteq> None \<Longrightarrow>
   buffer_of (set_buffer_list v b h) w = (if c_str w = c_str v then b else buffer_of h w)"
  by (auto simp: buffer_of_def get_set_buffer_list)

lemma buffer_of_add:
  "get_buffer_list h v = None \<Longrightarrow>
   buffer_of (add_buffer_list v b h) w = (if c_str w = c_str v then b else buffer_of h w)"
  by (auto simp: buffer_of_def add_buffer_list_def strcmp_eq)

lemma buffer_of_Nil [simp]: "buffer_of [] v = []"
  by (simp add: buffer_of_def)

interpretation int_order: att_order
  "\<lambda>x y. int_att n x < int_att n y" "\<lambda>x y. int_att n x \<ge> int_att n y" "int_att n" for n
  by unfold_locales simp_all

interpretation string_order: att_order "\<lambda>x y. strcmp x y < 0" "\<lambda>x y. strcmp x y \<ge> 0" c_str
  by unfold_locales (auto simp: strcmp_less simp flip: not_less)

section \<open>The box sorts each group\<close>

definition att_of :: "nat \<Rightarrow> bsort_box \<Rightarrow> tuple \<Rightarrow> byte list" where
  "att_of hsize box t = (case FieldExt_evaluate hsize (field_att box) t of Inr a \<Rightarrow> a | Inl _ \<Rightarrow> [])"

definition group_of :: "float_ops \<Rightarrow> nat \<Rightarrow> bsort_box \<Rightarrow> tuple \<Rightarrow> byte list" where
  "group_of fo hsize box t =
     (case group_by_values fo hsize (field_group box) t of Inr g \<Rightarrow> c_str g | Inl _ \<Rightarrow> [])"

definition node_of :: "nat \<Rightarrow> bsort_box \<Rightarrow> tuple \<Rightarrow> node" where
  "node_of hsize box t = \<lparr>nd_att = att_of hsize box t, nd_tuple = t\<rparr>"

text \<open>All the fields the box reads lie within the tuple.\<close>

definition readable :: "float_ops \<Rightarrow> nat \<Rightarrow> bsort_box \<Rightarrow> tuple \<Rightarrow> bool" where
  "readable fo hsize box t \<longleftrightarrow>
     \<not> isl (FieldExt_evaluate hsize (field_att box) t) \<and> \<not> isl (group_by_values fo hsize (field_group box) t)"

text \<open>The type of the sort attribute has an ordered insertion.\<close>

definition adds_with :: "float_ops \<Rightarrow> char \<Rightarrow> (node \<Rightarrow> buffer_list \<Rightarrow> buffer_list) \<Rightarrow> bool" where
  "adds_with fo ty add \<longleftrightarrow> ty \<in> set ''f12iLSBs'' \<and>
     (\<forall>x b. b \<noteq> [] \<longrightarrow> add_by_type fo ty x b = Inr (add x b) \<and> set (add x b) \<subseteq> insert x (set b))"

definition same_setup :: "bsort_box \<Rightarrow> bsort_box \<Rightarrow> bool" where
  "same_setup box box' \<longleftrightarrow> slack box' = slack box \<and> field_att box' = field_att box \<and>
     field_group box' = field_group box"

lemma same_setup_cong:
  assumes "same_setup box box'"
  shows "att_of hsize box' = att_of hsize box" "group_of fo hsize box' = group_of fo hsize box"
    "node_of hsize box' = node_of hsize box" "readable fo hsize box' = readable fo hsize box"
  using assms
  by (auto simp: same_setup_def att_of_def group_of_def node_of_def readable_def fun_eq_iff split: sum.splits)

lemma BSort_add_to_buffer_ok:
  assumes "readable fo hsize box t" "adds_with fo (fe_type (field_att box)) add"
  defines "g \<equiv> group_of fo hsize box t" and "x \<equiv> node_of hsize box t"
  shows "\<exists>key box'. BSort_add_to_buffer fo hsize t box = Inr (key, box') \<and> c_str key = g \<and>
    current_buffer box' = key \<and> same_setup box box' \<and> get_buffer_list (buffer_hash box') key \<noteq> None \<and>
    (\<forall>w. buffer_of (buffer_hash box') w =
       (if c_str w = g
        then let b = buffer_of (buffer_hash box) key in if b = [] then [x] else add x b
        else buffer_of (buffer_hash box) w))"
proof -
  obtain a key where ak: "FieldExt_evaluate hsize (field_att box) t = Inr a"
    "group_by_values fo hsize (field_group box) t = Inr key"
    using assms(1) unfolding readable_def by (metis sum.collapse(2))
  have g: "g = c_str key" and x: "x = \<lparr>nd_att = a, nd_tuple = t\<rparr>"
    by (simp_all add: g_def x_def group_of_def node_of_def att_of_def ak)
  let ?h = "buffer_hash box"
  show ?thesis
  proof (cases "get_buffer_list ?h key")
    case None
    then have "BSort_add_to_buffer fo hsize t box =
        Inr (key, box\<lparr>buffer_hash := add_buffer_list key [x] ?h, current_buffer := key\<rparr>)"
      by (simp add: BSort_add_to_buffer_def ak x Let_def)
    moreover have "buffer_of ?h key = []" using None by (simp add: buffer_of_def)
    moreover have "get_buffer_list (add_buffer_list key [x] ?h) key \<noteq> None"
      using None by (simp add: add_buffer_list_def strcmp_eq)
    ultimately show ?thesis using g None by (simp add: same_setup_def buffer_of_add)
  next
    case (Some b)
    then have bo: "buffer_of ?h key = b" and ne: "?h \<noteq> []" by (auto simp: buffer_of_def)
    let ?b1 = "if b = [] then [x] else add x b"
    have "BSort_add_to_buffer fo hsize t box =
        Inr (key, box\<lparr>buffer_hash := set_buffer_list key ?b1 ?h, current_buffer := key\<rparr>)"
      using assms(2) ne Some
      by (simp add: BSort_add_to_buffer_def ak x [symmetric] Let_def get_buffer_list_size_def adds_with_def)
    moreover have "get_buffer_list (set_buffer_list key ?b1 ?h) key \<noteq> None"
      using Some by (simp add: get_set_buffer_list)
    ultimately show ?thesis using g Some bo by (simp add: same_setup_def buffer_of_set)
  qed
qed

definition bounded_step ::
  "(node \<Rightarrow> buffer_list \<Rightarrow> buffer_list) \<Rightarrow> nat \<Rightarrow> node \<Rightarrow> buffer_list \<Rightarrow> node list \<times> buffer_list" where
  "bounded_step add k x b =
     (let b1 = (if b = [] then [x] else add x b)
      in if length b1 = k + 1 then ([hd b1], tl b1) else ([], b1))"

lemma bounded_sort_step:
  "bounded_sort add k b (x # xs) =
     (fst (bounded_step add k x b) @ fst (bounded_sort add k (snd (bounded_step add k x b)) xs),
      snd (bounded_sort add k (snd (bounded_step add k x b)) xs))"
  by (simp add: bounded_step_def Let_def case_prod_unfold)

lemma c_str_idem [simp]: "c_str (c_str k) = c_str k"
  by (simp add: c_str_def takeWhile_takeWhile)

lemma buffer_of_cong: "c_str v = c_str w \<Longrightarrow> buffer_of h v = buffer_of h w"
  by (simp add: buffer_of_def get_buffer_list_cong [of v w])

lemma group_of_c_str [simp]: "c_str (group_of fo hsize box t) = group_of fo hsize box t"
  by (cases "group_by_values fo hsize (field_group box) t") (simp_all add: group_of_def, simp add: c_str_def)

text \<open>One tuple: a step of the bounded sort of its group, the other groups are left alone.\<close>

lemma BSort_step_ok:
  assumes "readable fo hsize box t" "adds_with fo (fe_type (field_att box)) add" "slack box = int k"
  defines "g \<equiv> group_of fo hsize box t" and "x \<equiv> node_of hsize box t"
  shows "\<exists>box'. BSort_step fo hsize t (box, out) =
      Inr (box', out @ map nd_tuple (fst (bounded_step add k x (buffer_of (buffer_hash box) g)))) \<and>
    same_setup box box' \<and>
    (\<forall>w. buffer_of (buffer_hash box') w =
       (if c_str w = g then snd (bounded_step add k x (buffer_of (buffer_hash box) g))
        else buffer_of (buffer_hash box) w))"
proof -
  let ?b = "buffer_of (buffer_hash box) g"
  let ?b1 = "if ?b = [] then [x] else add x ?b"
  obtain key box1 where add: "BSort_add_to_buffer fo hsize t box = Inr (key, box1)" "c_str key = g"
    "current_buffer box1 = key" "same_setup box box1" "get_buffer_list (buffer_hash box1) key \<noteq> None"
    "\<forall>w. buffer_of (buffer_hash box1) w =
       (if c_str w = g
        then let b = buffer_of (buffer_hash box) key in if b = [] then [x] else add x b
        else buffer_of (buffer_hash box) w)"
    using BSort_add_to_buffer_ok [OF assms(1,2)] unfolding g_def x_def by blast
  have kb: "buffer_of (buffer_hash box) key = ?b"
    using add(2) by (intro buffer_of_cong) (simp add: g_def)
  have b1: "get_buffer_list (buffer_hash box1) key = Some ?b1"
    using add(5) add(6) [rule_format, of key] add(2) kb by (auto simp: buffer_of_def Let_def)
  have sz: "get_buffer_list_size (buffer_hash box1) key = int (length ?b1)"
    by (simp add: get_buffer_list_size_def b1)
  have sl: "slack box1 = int k" using add(4) assms(3) by (simp add: same_setup_def)
  show ?thesis
  proof (cases "length ?b1 = k + 1")
    case False
    then have "get_buffer_list_size (buffer_hash box1) key \<noteq> slack box1 + 1" using sz sl by linarith
    then have "BSort_step fo hsize t (box, out) = Inr (box1, out)" by (simp add: BSort_step_def add(1))
    moreover have "bounded_step add k x ?b = ([], ?b1)"
      unfolding bounded_step_def Let_def using False by (rule if_not_P)
    ultimately show ?thesis using add(4,6) kb by (simp add: Let_def)
  next
    case True
    then obtain n ns where ns: "?b1 = n # ns" by (cases ?b1) auto
    let ?box = "box1\<lparr>buffer_hash := set_buffer_list key ns (buffer_hash box1)\<rparr>"
    have "get_buffer_list_size (buffer_hash box1) key = slack box1 + 1" using sz sl True by linarith
    moreover have "BSort_emit_lowest box1 = Inr (nd_tuple n, ?box)"
      by (simp only: BSort_emit_lowest_def add(3) b1 ns BufferList_pop_front_def) simp
    ultimately have step: "BSort_step fo hsize t (box, out) = Inr (?box, out @ [nd_tuple n])"
      by (simp add: BSort_step_def add(1))
    have bs: "bounded_step add k x ?b = ([n], ns)"
      using True unfolding bounded_step_def Let_def ns by simp
    have "same_setup box ?box" using add(4) by (simp add: same_setup_def)
    moreover have "buffer_of (buffer_hash ?box) w = (if c_str w = g then ns else buffer_of (buffer_hash box) w)" for w
      using add(2,6) by (simp add: buffer_of_set [OF add(5)])
    ultimately show ?thesis using step bs by simp
  qed
qed

text \<open>The buffers hold each tuple under its own group.\<close>

definition grouped :: "float_ops \<Rightarrow> nat \<Rightarrow> bsort_box \<Rightarrow> bool" where
  "grouped fo hsize box \<longleftrightarrow>
     (\<forall>w. \<forall>n \<in> set (buffer_of (buffer_hash box) w). group_of fo hsize box (nd_tuple n) = c_str w)"

definition of_group :: "float_ops \<Rightarrow> nat \<Rightarrow> bsort_box \<Rightarrow> byte list \<Rightarrow> tuple list \<Rightarrow> tuple list" where
  "of_group fo hsize box g = filter (\<lambda>t. group_of fo hsize box t = g)"

lemma set_bounded_step:
  assumes "adds_with fo ty add"
  shows "set (fst (bounded_step add k x b)) \<union> set (snd (bounded_step add k x b)) \<subseteq> insert x (set b)"
proof -
  define b1 where "b1 = (if b = [] then [x] else add x b)"
  have "set b1 \<subseteq> insert x (set b)" "b1 \<noteq> [] \<or> length b1 \<noteq> k + 1"
    using assms by (auto simp: b1_def adds_with_def)
  then show ?thesis
    unfolding bounded_step_def b1_def [symmetric] Let_def by (cases b1) auto
qed

text \<open>A run refines the bounded sort of every group.\<close>

lemma BSort_run_refines:
  assumes "\<forall>t \<in> set xs. readable fo hsize box t" "adds_with fo (fe_type (field_att box)) add"
    "slack box = int k" "grouped fo hsize box"
  shows "\<exists>box' os. fold_result (BSort_step fo hsize) xs (box, out) = Inr (box', out @ os) \<and>
    same_setup box box' \<and> grouped fo hsize box' \<and>
    (\<forall>g. c_str g = g \<longrightarrow>
       (let r = bounded_sort add k (buffer_of (buffer_hash box) g)
                  (map (node_of hsize box) (of_group fo hsize box g xs))
        in of_group fo hsize box g os = map nd_tuple (fst r) \<and> buffer_of (buffer_hash box') g = snd r))"
  using assms
proof (induction xs arbitrary: box out)
  case Nil
  then show ?case by (intro exI [of _ box] exI [of _ "[]"]) (simp add: same_setup_def of_group_def Let_def)
next
  case (Cons t xs)
  let ?g = "group_of fo hsize box t" and ?x = "node_of hsize box t"
  let ?s = "bounded_step add k ?x (buffer_of (buffer_hash box) ?g)"
  obtain box1 where st: "BSort_step fo hsize t (box, out) = Inr (box1, out @ map nd_tuple (fst ?s))"
    "same_setup box box1"
    "\<forall>w. buffer_of (buffer_hash box1) w =
       (if c_str w = ?g then snd ?s else buffer_of (buffer_hash box) w)"
    using BSort_step_ok [of fo hsize box t add k out] Cons.prems by auto
  note same = same_setup_cong [OF st(2)]
  have in_g: "group_of fo hsize box (nd_tuple n) = ?g" if "n \<in> set (fst ?s) \<union> set (snd ?s)" for n
  proof -
    have "n = ?x \<or> n \<in> set (buffer_of (buffer_hash box) ?g)"
      using that set_bounded_step [OF Cons.prems(2), of k ?x "buffer_of (buffer_hash box) ?g"] by blast
    then show ?thesis using Cons.prems(4) unfolding grouped_def by (auto simp: node_of_def)
  qed
  have gr1: "grouped fo hsize box1"
    using Cons.prems(4) in_g unfolding grouped_def same st(3) [rule_format] by (auto split: if_splits)
  have "\<forall>u \<in> set xs. readable fo hsize box1 u" using Cons.prems(1) by (simp add: same)
  moreover have "adds_with fo (fe_type (field_att box1)) add" "slack box1 = int k"
    using Cons.prems(2,3) st(2) by (simp_all add: same_setup_def)
  ultimately obtain box2 os where run:
    "fold_result (BSort_step fo hsize) xs (box1, out @ map nd_tuple (fst ?s)) =
       Inr (box2, (out @ map nd_tuple (fst ?s)) @ os)"
    "same_setup box1 box2" "grouped fo hsize box2"
    "\<forall>g. c_str g = g \<longrightarrow>
       (let r = bounded_sort add k (buffer_of (buffer_hash box1) g)
                  (map (node_of hsize box1) (of_group fo hsize box1 g xs))
        in of_group fo hsize box1 g os = map nd_tuple (fst r) \<and> buffer_of (buffer_hash box2) g = snd r)"
    using Cons.IH [of box1 "out @ map nd_tuple (fst ?s)"] gr1 by blast
  have "of_group fo hsize box1 = of_group fo hsize box" by (simp add: of_group_def same fun_eq_iff)
  note run4 = run(4) [unfolded this same Let_def, rule_format]
  have "same_setup box box2" using st(2) run(2) by (simp add: same_setup_def)
  moreover have "fold_result (BSort_step fo hsize) (t # xs) (box, out) =
      Inr (box2, out @ (map nd_tuple (fst ?s) @ os))" using st(1) run(1) by simp
  moreover have "of_group fo hsize box g (map nd_tuple (fst ?s) @ os) =
      map nd_tuple (fst (bounded_sort add k (buffer_of (buffer_hash box) g)
        (map (node_of hsize box) (of_group fo hsize box g (t # xs))))) \<and>
      buffer_of (buffer_hash box2) g = snd (bounded_sort add k (buffer_of (buffer_hash box) g)
        (map (node_of hsize box) (of_group fo hsize box g (t # xs))))"
    if "c_str g = g" for g
  proof (cases "?g = g")
    case True
    have "of_group fo hsize box g (map nd_tuple (fst ?s)) = map nd_tuple (fst ?s)"
      using in_g True by (auto simp: of_group_def intro!: filter_True)
    then show ?thesis
      using run4 [OF that] st(3) [rule_format, of g] True that
      by (simp add: of_group_def bounded_sort_step del: bounded_sort.simps)
  next
    case False
    have "of_group fo hsize box g (map nd_tuple (fst ?s)) = []"
      using in_g False by (auto simp: of_group_def intro!: filter_False)
    then show ?thesis
      using run4 [OF that] st(3) [rule_format, of g] False that by (simp add: of_group_def)
  qed
  ultimately show ?case using run(3) unfolding Let_def by blast
qed

context att_order
begin

text \<open>
  From empty buffers: per group the output is ordered when the input is out of order by at most
  \<open>k\<close> places; output and buffer together are the input, and at most \<open>k\<close> tuples stay behind.
\<close>

lemma run_sorts:
  assumes "\<forall>t \<in> set xs. readable fo hsize box t"
    and "adds_with fo (fe_type (field_att box)) (add_ordered lt ge)"
    and "slack box = int k" "buffer_hash box = []" "length xs \<le> get_max_tuples_to_dequeue"
  shows "\<exists>box' os. BSortQBox_run fo hsize xs box = ([], Inr (box', os)) \<and> grouped fo hsize box' \<and>
    (\<forall>g. c_str g = g \<longrightarrow>
       mset (of_group fo hsize box g os) + mset (map nd_tuple (buffer_of (buffer_hash box') g)) =
         mset (of_group fo hsize box g xs) \<and>
       length (buffer_of (buffer_hash box') g) \<le> k \<and>
       (disorder_bounded nval k (map (node_of hsize box) (of_group fo hsize box g xs)) \<longrightarrow>
          sorted (map (\<lambda>t. val (att_of hsize box t)) (of_group fo hsize box g os))))"
proof -
  have "grouped fo hsize box" by (simp add: grouped_def assms(4))
  from BSort_run_refines [OF assms(1,2,3) this, of "[]"] obtain box' os where run:
    "fold_result (BSort_step fo hsize) xs (box, []) = Inr (box', os)" "grouped fo hsize box'"
    "\<forall>g. c_str g = g \<longrightarrow>
       (let r = bsort k [] (map (node_of hsize box) (of_group fo hsize box g xs))
        in of_group fo hsize box g os = map nd_tuple (fst r) \<and> buffer_of (buffer_hash box') g = snd r)"
    by (auto simp: assms(4) Let_def)
  have "BSortQBox_run fo hsize xs box = ([], Inr (box', os))"
    using assms(5) run(1) by (simp add: BSortQBox_run_def)
  moreover have "mset (of_group fo hsize box g os) + mset (map nd_tuple (buffer_of (buffer_hash box') g)) =
         mset (of_group fo hsize box g xs)" (is ?A)
    "length (buffer_of (buffer_hash box') g) \<le> k" (is ?B)
    "disorder_bounded nval k (map (node_of hsize box) (of_group fo hsize box g xs)) \<longrightarrow>
      sorted (map (\<lambda>t. val (att_of hsize box t)) (of_group fo hsize box g os))" (is ?C)
    if "c_str g = g" for g
  proof -
    define ns where "ns = map (node_of hsize box) (of_group fo hsize box g xs)"
    obtain out b where r: "bsort k [] ns = (out, b)" by fastforce
    then have os: "of_group fo hsize box g os = map nd_tuple out" and b: "buffer_of (buffer_hash box') g = b"
      using run(3) that by (auto simp: ns_def [symmetric])
    have con: "length b \<le> k" "mset out + mset b = mset ns" using bsort_conserves [of "[]" k ns] r by simp_all
    have "mset (map nd_tuple out) + mset (map nd_tuple b) = image_mset nd_tuple (mset ns)"
      by (simp flip: con(2))
    also have "\<dots> = mset (of_group fo hsize box g xs)" by (simp add: ns_def node_of_def multiset.map_comp comp_def)
    finally show ?A by (simp add: os b)
    show ?B using con(1) b by simp
    have "set out \<subseteq> set ns" by (metis con(2) mset_subset_eq_add_left set_mset_mset set_mset_mono)
    then have "\<forall>n \<in> set out. nd_att n = att_of hsize box (nd_tuple n)" by (auto simp: ns_def node_of_def)
    then have eq: "map (\<lambda>t. val (att_of hsize box t)) (map nd_tuple out) = map nval out" by simp
    show ?C unfolding os eq ns_def [symmetric] using bsort_prefix_sorted [of k ns] r by simp
  qed
  ultimately show ?thesis using run(2) by blast
qed

end

lemma set_insert_before: "set (insert_before lt x b) \<subseteq> insert x (set b)"
  by (induction b) auto

lemma set_add_ordered: "b \<noteq> [] \<Longrightarrow> set (add_ordered lt ge x b) \<subseteq> insert x (set b)"
  using set_insert_before [of lt x "tl b"] by (cases b) (auto simp: add_ordered_def)

text \<open>The types whose attributes are compared as integers, and strings.\<close>

definition int_width :: "char \<Rightarrow> nat option" where
  "int_width ty = (if ty = CHR ''i'' then Some 4 else if ty = CHR ''L'' then Some 8
     else if ty = CHR ''S'' then Some 2 else if ty = CHR ''B'' then Some 1 else None)"

lemma adds_with_int:
  "int_width ty = Some n \<Longrightarrow>
   adds_with fo ty (add_ordered (\<lambda>x y. int_att n x < int_att n y) (\<lambda>x y. int_att n x \<ge> int_att n y))"
  by (auto simp: int_width_def adds_with_def add_by_type_def add_int_32to_buffer_def add_int_64to_buffer_def
      add_int_16to_buffer_def add_int_8to_buffer_def add_int_to_buffer_def
      dest!: subsetD [OF set_add_ordered, rotated] split: if_splits)

lemma adds_with_string:
  "adds_with fo CHR ''s'' (add_ordered (\<lambda>x y. strcmp x y < 0) (\<lambda>x y. strcmp x y \<ge> 0))"
  by (auto simp: adds_with_def add_by_type_def add_string_to_buffer_def
      dest!: subsetD [OF set_add_ordered, rotated])

text \<open>
  A sort attribute of type timestamp passes the parser, but only the first tuple of a group
  enters a buffer: the later ones are dropped.
\<close>

lemma BSort_timestamp_drops:
  assumes "fe_type (field_att box) = CHR ''t''" "readable fo hsize box t"
    and "buffer_of (buffer_hash box) (group_of fo hsize box t) \<noteq> []"
    and "slack box + 1 \<noteq> int (length (buffer_of (buffer_hash box) (group_of fo hsize box t)))"
  shows "BSort_step fo hsize t (box, out) = Inr (box, out)"
proof -
  obtain a key where ak: "FieldExt_evaluate hsize (field_att box) t = Inr a"
    "group_by_values fo hsize (field_group box) t = Inr key"
    using assms(2) unfolding readable_def by (metis sum.collapse(2))
  then have "c_str key = c_str (group_of fo hsize box t)" by (simp add: group_of_def)
  note eq = buffer_of_cong [OF this, of "buffer_hash box"]
  obtain b where b: "get_buffer_list (buffer_hash box) key = Some b" "b \<noteq> []" "slack box + 1 \<noteq> int (length b)"
    using assms(3,4) unfolding eq [symmetric] by (auto simp: buffer_of_def split: option.splits)
  then have "BSort_add_to_buffer fo hsize t box = Inr (key, box)"
    using assms(1)
    by (auto simp: BSort_add_to_buffer_def ak Let_def get_buffer_list_size_def add_by_type_def)
  then show ?thesis using b by (simp add: BSort_step_def get_buffer_list_size_def)
qed

text \<open>Grouping by an integer attribute separates exactly the tuples with different values.\<close>

lemma c_str_print_int: "c_str (print_int i) = print_int i"
  unfolding c_str_def takeWhile_eq_all_conv using print_int_bytes by fastforce

lemma group_of_single_int:
  assumes "field_group box = [f]" "int_width (fe_type f) = Some n"
    and "tuple_bytes hsize (fe_offset f) (int n) t = Inr a" "length (print_int (le_int a)) \<le> 66"
  shows "group_of fo hsize box t = print_int (le_int a)"
  using assms
  by (auto simp: group_of_def group_by_values_def FieldExt_evaluate_as_char_def Let_def int_width_def
      c_str_print_int split: if_splits)

text \<open>The deprecated type \<open>f\<close> passes the parser, but every tuple then falls in the same group.\<close>

lemma group_of_float:
  assumes "field_group box = [f]" "fe_type f = CHR ''f''"
  shows "group_of fo hsize box t = []"
  using assms by (simp add: group_of_def group_by_values_def FieldExt_evaluate_as_char_def c_str_def)

end
