(* ===== verification/Box_Properties.thy ===== *)
theory Box_Properties
  imports Storage_Properties Routing_Boxes Lock_Boxes Wait_For Control_Boxes BSort_Box
begin

text \<open>
  What the boxes of a query network compute, stated over the code's definitions: the loop of a
  run over its queue, the routing boxes, locks, WaitFor, SOutput, and the sorting box with its field
  extractors.
\<close>

section \<open>Concrete invocations\<close>

definition example_invocation :: qbox_invocation where
  "example_invocation = QBoxInvocation_new (\<lambda>_. 0)"

lemmas run_eval = run_port_def run_count_def continue_dequeue_on_def QBoxInvocation_new_def u32_inc_def
  example_invocation_def

section \<open>The loop of a run\<close>

text \<open>
  C18. A box's loop over its input queue ends, never trips an assertion of the queue, processes the
  oldest tuples in order, and leaves exactly the tuples it did not process in the queue: the loop
  over pages and offsets computes what the loop over a list computes.
\<close>

theorem run_loop_refines_list:
  assumes "tq_inv s"
  shows "\<exists>n s' qi'. n = run_count port qi (TupleQueue_abs s) \<and>
    run_queue port f qi s b = Some (Inr (qi', s', fold f (take n (TupleQueue_abs s)) b)) \<and>
    tq_inv s' \<and> TupleQueue_abs s' = drop n (TupleQueue_abs s)"
  using run_queue_list [OF assms, of port f qi b] by simp

theorem run_loop_refines_list_witness:
  "\<exists>s s' s'' qi'. example_queue = Inr s \<and>
     TupleQueue_enqueue_multiple [example_tuple 1, example_tuple 2, example_tuple 3] s = Inr s' \<and>
     run_queue 0 (\<lambda>t ts. ts @ [t]) example_invocation s' [] =
       Some (Inr (qi', s'', [example_tuple 1, example_tuple 2, example_tuple 3])) \<and>
     TupleQueue_abs s'' = []"
proof -
  obtain s s' where s: "example_queue = Inr s"
    "TupleQueue_enqueue_multiple [example_tuple 1, example_tuple 2, example_tuple 3] s = Inr s'"
    and s': "tq_inv s'" "TupleQueue_abs s' = [example_tuple 1, example_tuple 2, example_tuple 3]"
    using example_enqueued by blast
  have n: "run_count 0 example_invocation [example_tuple 1, example_tuple 2, example_tuple 3] = 3"
    by (simp add: run_eval)
  from run_loop_refines_list [OF s'(1), of 0 example_invocation "\<lambda>t ts. ts @ [t]" "[]"] obtain s'' qi' where
    "run_queue 0 (\<lambda>t ts. ts @ [t]) example_invocation s' [] =
       Some (Inr (qi', s'', [example_tuple 1, example_tuple 2, example_tuple 3]))" "TupleQueue_abs s'' = []"
    unfolding s'(2) n by auto
  then show ?thesis using s by blast
qed

text \<open>
  A tuple limit of L on a port lets a run process at most L - 1 tuples.
\<close>

lemma tuple_limit_off_by_one:
  assumes "has_box qi" "tuple_limit qi \<noteq> []" "end_time qi = 0" "tuple_limit qi ! port < 2 ^ 32"
    and "tuples_dequeued qi = 0" "0 < tuple_limit qi ! port"
  shows "run_count port qi xs = min (length xs) (tuple_limit qi ! port - 1)"
  using run_count_limited [OF assms(1-4)] assms(5,6) by simp

section \<open>Routing\<close>

text \<open>
  Union forwards: of every input port a prefix of the queue is consumed, nothing else, and
  the output is those prefixes, one port after the other, each in order.
\<close>

lemma union_forwards_prefixes:
  "\<exists>qi' ns. UnionQBox_run qi inputs =
     (qi', map2 drop ns inputs, map (Pair 0) (concat (map2 take ns inputs))) \<and> length ns = length inputs"
  using union_ports_spec [of 0 qi inputs "[]"] by (simp add: UnionQBox_run_def)

text \<open>
  C30. Filter, when it does not rewrite arrays: on every output port appear, in order, exactly the consumed tuples routed there. A
  data tuple without a window specification goes to the port of the first predicate that holds, or to the last port if none does and
  the box has one; one with a window specification goes to port 0, as a fake tuple if the first predicate fails; boundaries
  and the marks of the end of a recovery go to all ports; fake tuples to port 0.
\<close>

theorem filter_routes:
  assumes "\<not> array_rewrite box"
  shows "\<exists>qi' es. FilterQBox_run box null_vals qi xs = (qi', drop (run_count 0 qi xs) xs, Inr es) \<and>
    (\<forall>p. port_out p es = concat (map (\<lambda>t. filter_spec box t p) (take (run_count 0 qi xs) xs)))"
  using FilterQBox_run_spec [OF assms] .

definition example_filter :: filter_box where
  "example_filter =
     \<lparr>expressions = [\<lambda>t. tuple_id t = 1, \<lambda>t. tuple_id t \<le> 2], pass_on_false_port = True, array_rewrite = False\<rparr>"

theorem filter_routes_witness:
  "\<exists>qi' es. FilterQBox_run example_filter (\<lambda>_ t. t) example_invocation
       [example_tuple 2, example_tuple 1, example_tuple 3] = (qi', [], Inr es) \<and>
     port_out 0 es = [example_tuple 1] \<and> port_out 1 es = [example_tuple 2] \<and> port_out 2 es = [example_tuple 3]"
proof -
  let ?xs = "[example_tuple 2, example_tuple 1, example_tuple 3]"
  have n: "run_count 0 example_invocation ?xs = 3" by (simp add: run_eval)
  have h: "\<not> array_rewrite example_filter"
    by (simp add: example_filter_def)
  have spec: "concat (map (\<lambda>t. filter_spec example_filter t p) ?xs) =
      (if p = 0 then [example_tuple 1] else if p = 1 then [example_tuple 2]
       else if p = 2 then [example_tuple 3] else [])" for p
    by (simp add: filter_spec_def example_filter_def example_tuple_def get_fake_flag_def FAKE_FLAG_def
        is_punctuation_def Let_def)
  from filter_routes [OF h, of "\<lambda>_ t. t" example_invocation ?xs] obtain qi' es where
    "FilterQBox_run example_filter (\<lambda>_ t. t) example_invocation ?xs = (qi', drop 3 ?xs, Inr es)"
    "\<forall>p. port_out p es = concat (map (\<lambda>t. filter_spec example_filter t p) (take 3 ?xs))"
    unfolding n by blast
  then show ?thesis using spec by simp
qed

text \<open>
  C35. RandomDrop: a run takes the first 100 tuples of its queue, or all if there are fewer, whatever the invocation says. It forwards, unchanged and in order, exactly
  those that are fake or whose random number is above the drop rate; a number is drawn for every tuple that is not
  fake and for no other, and the sequence of numbers goes on where the last run stopped.
\<close>

theorem random_drop_selects:
  "RandomDropQBox_run dice draws xs =
     (drop 100 xs, map (Pair 0) (random_kept dice draws (take 100 xs)), draws + draws_for (take 100 xs))"
  using random_drop_loop_spec [of dice draws 0 xs "[]"] by (simp add: RandomDropQBox_run_def)

section \<open>Locks\<close>

text \<open>
  C8. Mutual exclusion: in every reachable state of a Lock and an Unlock box on one lock set, at
  most one tuple of each key has left the Lock box and not yet passed the Unlock box, the lock
  is held exactly then, and the tuples of a key leave the Lock box in the order they arrived.
\<close>

theorem lock_mutual_exclusion:
  assumes "enumerates order" "lock_reachable f order s"
  shows "length (of_key f k (emitted (sys_box s))) =
      length (of_key f k (released s)) + (if locks (sys_box s) k then 1 else 0) \<and>
    of_key f k (arrived s) = of_key f k (emitted (sys_box s)) @ waiting (pending (sys_box s)) k"
  using lock_inv_reachable [OF assms] by (simp add: lock_inv_def lock_fifo_def)

definition example_order :: "pending_map \<Rightarrow> int list" where
  "example_order m = sorted_list_of_set (dom m)"

lemma example_order_enumerates: "enumerates example_order"
  by (simp add: enumerates_def example_order_def)

text \<open>Two tuples of key 1 arrive; only the first leaves.\<close>

theorem lock_mutual_exclusion_witness:
  "\<exists>s. lock_reachable (\<lambda>_. 1) example_order s \<and> arrived s = [example_tuple 1, example_tuple 2] \<and>
     length (of_key (\<lambda>_. 1) 1 (emitted (sys_box s))) = 1 \<and>
     [example_tuple 1, example_tuple 2] = of_key (\<lambda>_. 1) 1 (emitted (sys_box s)) @ waiting (pending (sys_box s)) 1"
proof -
  let ?f = "\<lambda>_::tuple. 1::int" and ?xs = "[example_tuple 1, example_tuple 2]"
  obtain qi' b' again where run: "LockQBox_run ?f example_order example_invocation ?xs (sys_box lock_system_init) =
      Inr (qi', [], b', again)" and held: "locks b' 1"
    by (simp add: LockQBox_run_def lock_system_init_def example_order_def lock_tuple_def take_lock_def run_eval Let_def)
  let ?s = "lock_system_init\<lparr>sys_box := b', arrived := arrived lock_system_init @ ?xs\<rparr>"
  have r: "lock_reachable ?f example_order ?s"
    using lock_step.lock_run [OF run] by (auto intro: lock_reachable.step [OF lock_reachable.init])
  have "locks (sys_box ?s) 1" "released ?s = []" "arrived ?s = ?xs"
    using held by (simp_all add: lock_system_init_def)
  then show ?thesis
    using lock_mutual_exclusion [OF example_order_enumerates r, of 1] r
    by (intro exI [of _ ?s]) (simp add: of_key_def)
qed


text \<open>
  C32. No tuple waits for a free lock: from every reachable state a run of the Lock box succeeds,
  consumes what the invocation allows, and leaves waiting only tuples whose key is locked; it asks
  to be run again exactly when tuples wait.
\<close>

theorem lock_run_progress:
  assumes "enumerates order" "lock_reachable f order s"
  shows "\<exists>qi' b' again. LockQBox_run f order qi xs (sys_box s) = Inr (qi', drop (run_count 0 qi xs) xs, b', again) \<and>
    (\<forall>k. waiting (pending b') k \<noteq> [] \<longrightarrow> locks b' k) \<and> (again \<longleftrightarrow> (\<exists>k. waiting (pending b') k \<noteq> []))"
proof -
  have "lock_inv f s" by (rule lock_inv_reachable [OF assms])
  then have "finite (dom (pending (sys_box s)))" "lock_fifo f (arrived s) (sys_box s)" "no_empty (pending (sys_box s))"
    by (simp_all add: lock_inv_def)
  from LockQBox_run_ok [OF assms(1) this, of qi xs] show ?thesis unfolding stable_def by blast
qed

theorem lock_run_progress_witness:
  "\<exists>qi' b' again. LockQBox_run (\<lambda>_. 1) example_order example_invocation [example_tuple 1, example_tuple 2]
     (sys_box lock_system_init) = Inr (qi', [], b', again)"
proof -
  have "run_count 0 example_invocation [example_tuple 1, example_tuple 2] = 2" by (simp add: run_eval)
  then show ?thesis
    using lock_run_progress [OF example_order_enumerates lock_reachable.init, of "\<lambda>_. 1" example_invocation
        "[example_tuple 1, example_tuple 2]"] by auto
qed

section \<open>WaitFor\<close>

text \<open>
  C31. WaitFor neither loses nor duplicates: the tuples it emits and those it keeps are the
  unexpired buffered ones and the ones that arrived; what it emits was enabled by one of the
  enabling tuples, and what it keeps by none.
\<close>

theorem wait_for_conserves:
  assumes "WaitForQBox_run now predicate xs es b = (xs', es', out, b')"
    and "length xs \<le> get_max_tuples_to_dequeue" "length es \<le> get_max_tuples_to_dequeue"
  shows "mset out + mset (map wt_tuple (wf_buffer b')) =
      mset (map wt_tuple (filter (\<lambda>w. \<not> expired now (wf_timeout b) w) (wf_buffer b))) + mset xs \<and>
    (\<forall>w \<in> set (wf_buffer b'). \<forall>e \<in> set es. \<not> predicate (wt_tuple w) e) \<and>
    (\<forall>t \<in> set out. \<exists>e \<in> set es. predicate t e) \<and> xs' = [] \<and> es' = []"
  using WaitForQBox_run_spec [OF assms] by blast

theorem wait_for_conserves_witness:
  "\<exists>xs' es' out b'. WaitForQBox_run (Timestamp 5 0) (\<lambda>t e. tuple_id t = tuple_id e)
       [example_tuple 1, example_tuple 2] [example_tuple 2] \<lparr>wf_timeout = Timestamp 1 0, wf_buffer = []\<rparr>
     = (xs', es', out, b') \<and>
     mset out + mset (map wt_tuple (wf_buffer b')) = {# example_tuple 1, example_tuple 2 #} \<and> xs' = []"
proof -
  obtain xs' es' out b' where run: "WaitForQBox_run (Timestamp 5 0) (\<lambda>t e. tuple_id t = tuple_id e)
       [example_tuple 1, example_tuple 2] [example_tuple 2] \<lparr>wf_timeout = Timestamp 1 0, wf_buffer = []\<rparr>
     = (xs', es', out, b')" using prod_cases4 by blast
  have "length [example_tuple 1, example_tuple 2] \<le> get_max_tuples_to_dequeue"
    "length [example_tuple 2] \<le> get_max_tuples_to_dequeue"
    by (simp_all add: get_max_tuples_to_dequeue_def)
  from wait_for_conserves [OF run this] run show ?thesis by (auto simp: add_mset_commute)
qed

section \<open>SOutput\<close>

text \<open>
  C7. Exactly-once output across a recovery: SOutput has sent xs @ [l] @ ts, with l the last
  stable tuple, and is restored from a checkpoint; its input is replayed, ys up to a duplicate
  d of l, then zs. Downstream sees no duplicate of the stable tuples, one undo of everything
  after l if tentative tuples had been sent, and then all of zs.
\<close>

theorem soutput_recovers_exactly_once:
  assumes "so_state s = NORMAL" "so_init s"
    and "tuple_type l = INSERTION" "last_stable ts = None"
    and "\<forall>t \<in> set ys. tuple_id t \<noteq> tuple_id l" "tuple_id d = tuple_id l"
    and "\<forall>t \<in> set zs. tuple_type t \<noteq> TENTATIVE \<and> tuple_type t \<noteq> RECONCILIATION_DONE"
  shows "data_out (fold SOutputQBox_step (ys @ [d] @ zs)
        (SOutputQBox_unpack_state ps (fold SOutputQBox_step (xs @ [l] @ ts) s))) =
      data_out s @ xs @ [l] @ ts @
      (if produced_tentatives s \<or> (\<exists>t \<in> set (xs @ ts). tuple_type t = TENTATIVE)
       then [l\<lparr>tuple_type := UNDO\<rparr>] else []) @ zs"
  using recovery_exactly_once(1) [OF assms] .

definition example_soutput :: soutput_box where
  "example_soutput =
     \<lparr>output_flags = \<lambda>_. False, box_emitted = [], id_counter = 0, header_size = 32, body_size = \<lambda>_. 4,
      so_init = True, so_state = NORMAL, last_stable_tuple = example_tuple 0, produced_stables = False,
      produced_tentatives = False, rec_done_tuple = example_tuple 0, produce_rec_done = False\<rparr>"

theorem soutput_recovers_exactly_once_witness:
  "data_out (fold SOutputQBox_step ([] @ [example_tuple 1] @ [example_tuple 2, example_tuple 3])
     (SOutputQBox_unpack_state (fst (SOutputQBox_pack_state example_soutput))
        (fold SOutputQBox_step ([] @ [example_tuple 1] @ [(example_tuple 2)\<lparr>tuple_type := TENTATIVE\<rparr>]) example_soutput))) =
   [example_tuple 1, (example_tuple 2)\<lparr>tuple_type := TENTATIVE\<rparr>, (example_tuple 1)\<lparr>tuple_type := UNDO\<rparr>,
    example_tuple 2, example_tuple 3]"
proof -
  have s: "so_state example_soutput = NORMAL" "so_init example_soutput" "data_out example_soutput = []"
    by (simp_all add: example_soutput_def)
  have l: "tuple_type (example_tuple 1) = INSERTION"
    "last_stable [(example_tuple 2)\<lparr>tuple_type := TENTATIVE\<rparr>] = None"
    by (simp_all add: example_tuple_def last_stable_def is_type_def)
  have z: "\<forall>t \<in> set [example_tuple 2, example_tuple 3]. tuple_type t \<noteq> TENTATIVE \<and> tuple_type t \<noteq> RECONCILIATION_DONE"
    by (simp add: example_tuple_def)
  show ?thesis
    using soutput_recovers_exactly_once [OF s(1,2) l _ _ z, where ys = "[]" and xs = "[]" and d = "example_tuple 1"] s(3)
    by simp
qed

text \<open>
  A run of SOutput handles a prefix of its queue of at most 100 tuples, and sends a pending
  end-of-reconciliation mark exactly when the queue is empty, after everything else, and once.
\<close>

lemma soutput_run_bounded:
  assumes "SOutputQBox_run qi xs s = (qi', rest, ports, s')"
  shows "\<exists>n s1. n \<le> 100 \<and> rest = drop n xs \<and>
    s1 = fold SOutputQBox_step (take n xs) (s\<lparr>so_init := True\<rparr>) \<and>
    data_out s' = data_out s1 @ (if rest = [] \<and> produce_rec_done s1 then [rec_done_tuple s1] else []) \<and>
    (rest = [] \<longrightarrow> \<not> produce_rec_done s')"
  using SOutputQBox_run_emits [OF assms] by blast

section \<open>Field extractors and sorting\<close>

text \<open>
  A group-by parameter that names more than one attribute is always rejected.
\<close>

lemma group_by_several_rejected:
  assumes "CHR '','' \<in> set atts" "CHR 0x00 \<notin> set atts"
  shows "BSort_setup num_inputs hsize order_on sl atts = Inl AuroraException"
  using BSort_parse_several [OF assms, of hsize] by (auto simp: BSort_setup_def split: sum.split)

text \<open>
  C9. The sorting box, sorting on an integer attribute, in one run that starts with empty buffers and reads its whole queue, and group by
  group: nothing is lost or invented, a group's buffer does not exceed the slack, and where no tuple comes more than slack places late
  the output is sorted. (On an attribute of type t tuples are lost, bsort_timestamp_loses_tuples.)
\<close>

theorem bsort_sorts_groups:
  assumes "\<forall>t \<in> set xs. readable fo hsize box t" "int_width (fe_type (field_att box)) = Some n"
    and "slack box = int k" "buffer_hash box = []" "length xs \<le> get_max_tuples_to_dequeue"
  shows "\<exists>box' os. BSortQBox_run fo hsize xs box = ([], Inr (box', os)) \<and>
    (\<forall>g. c_str g = g \<longrightarrow>
       mset (of_group fo hsize box g os) + mset (map nd_tuple (buffer_of (buffer_hash box') g)) =
         mset (of_group fo hsize box g xs) \<and>
       length (buffer_of (buffer_hash box') g) \<le> k \<and>
       (disorder_bounded (\<lambda>x. int_att n (nd_att x)) k (map (node_of hsize box) (of_group fo hsize box g xs)) \<longrightarrow>
          sorted (map (\<lambda>t. int_att n (att_of hsize box t)) (of_group fo hsize box g os))))"
  using int_order.run_sorts [OF assms(1) adds_with_int [OF assms(2)] assms(3-5)] by blast

definition sort_tuple :: "nat \<Rightarrow> tuple" where
  "sort_tuple n = (example_tuple (int n))\<lparr>body := [of_nat n, 0, 0, 0]\<rparr>"

definition example_bsort :: bsort_box where
  "example_bsort =
     \<lparr>slack = 1, field_att = \<lparr>fe_port = 0, fe_type = CHR ''i'', fe_offset = 32, fe_size = 4\<rparr>,
      field_group = [], buffer_hash = [], current_buffer = []\<rparr>"

definition no_floats :: float_ops where
  "no_floats =
     \<lparr>single_less = \<lambda>_ _. False, single_geq = \<lambda>_ _. True, double_less = \<lambda>_ _. False,
      double_geq = \<lambda>_ _. True, print_single = \<lambda>_. [], print_double = \<lambda>_. []\<rparr>"

theorem bsort_sorts_groups_witness:
  "\<exists>box' os. BSortQBox_run no_floats 32 [sort_tuple 2, sort_tuple 1, sort_tuple 3] example_bsort = ([], Inr (box', os)) \<and>
     length (buffer_of (buffer_hash box') []) \<le> 1 \<and>
     sorted (map (\<lambda>t. int_att 4 (att_of 32 example_bsort t)) (of_group no_floats 32 example_bsort [] os))"
proof -
  let ?xs = "[sort_tuple 2, sort_tuple 1, sort_tuple 3]"
  have h: "\<forall>t \<in> set ?xs. readable no_floats 32 example_bsort t"
    by (simp add: readable_def FieldExt_evaluate_def tuple_bytes_def example_bsort_def sort_tuple_def
        group_by_values_def Let_def)
  have b: "int_width (fe_type (field_att example_bsort)) = Some 4" "slack example_bsort = int 1"
    "buffer_hash example_bsort = []" "length ?xs \<le> get_max_tuples_to_dequeue"
    by (simp_all add: example_bsort_def int_width_def get_max_tuples_to_dequeue_def)
  have g: "of_group no_floats 32 example_bsort [] ?xs = ?xs"
    by (simp add: of_group_def group_of_def example_bsort_def group_by_values_def c_str_def)
  have a: "int_att 4 (nd_att (node_of 32 example_bsort (sort_tuple n))) = int n" if "n < 4" for n
    using that by (simp add: node_of_def att_of_def FieldExt_evaluate_def tuple_bytes_def example_bsort_def
        sort_tuple_def int_att_def le_int_def unat_of_nat Let_def)
  have d: "disorder_bounded (\<lambda>x. int_att 4 (nd_att x)) 1
      (map (node_of 32 example_bsort) (of_group no_floats 32 example_bsort [] ?xs))"
    unfolding g by (simp add: disorder_bounded_def a less_Suc_eq numeral_3_eq_3)
  have c: "c_str [] = []" by (simp add: c_str_def)
  from bsort_sorts_groups [OF h b] c d show ?thesis by blast
qed

text \<open>
  Sorting by a timestamp attribute, which the parameter parser accepts, loses data: once a
  group's buffer is not empty, further tuples of the group disappear without output or error.
\<close>

lemma bsort_timestamp_loses_tuples:
  assumes "fe_type (field_att box) = CHR ''t''" "readable fo hsize box t"
    and "buffer_of (buffer_hash box) (group_of fo hsize box t) \<noteq> []"
    and "slack box + 1 \<noteq> int (length (buffer_of (buffer_hash box) (group_of fo hsize box t)))"
  shows "BSort_step fo hsize t (box, out) = Inr (box, out)"
  using BSort_timestamp_drops [OF assms] .

end
