(* ===== verification/Tuple_Buckets.thy ===== *)
theory Tuple_Buckets
  imports Control_Boxes Complex_Main
begin

text \<open>
  The buckets in which SUnion collects the tuples of an interval (boxes/Bucket.cc, Bucket.h): one
  growing buffer per input stream, with the time of its first tuple and the position of the
  first tuple that is not sent yet.
\<close>

section \<open>The buffer of one stream\<close>

text \<open>
  The dynamic buffer with its counter \<open>_cur_nb_tuples\<close> is the list of its tuples, \<open>max_nb_tuples\<close>
  the room allocated. The functions that read the clock take its value as argument.
\<close>

record tuples_buffer =
  first_tuple_time :: timestamp
  timer_set :: bool
  max_nb_tuples :: nat
  lowest_index :: nat
  buffered :: "tuple list"

definition DEFAULT_SIZE :: nat where "DEFAULT_SIZE = 1000"

text \<open>The constructor leaves the time of the first tuple as default constructed.\<close>

definition TuplesBuffer_new :: tuples_buffer where
  "TuplesBuffer_new =
     \<lparr>first_tuple_time = Timestamp_zero, timer_set = False, max_nb_tuples = DEFAULT_SIZE,
      lowest_index = 0, buffered = []\<rparr>"

definition tb_is_empty :: "tuples_buffer \<Rightarrow> bool" where
  "tb_is_empty tb \<longleftrightarrow> buffered tb = []"

definition tb_is_expired :: "timestamp \<Rightarrow> rat \<Rightarrow> tuples_buffer \<Rightarrow> bool" where
  "tb_is_expired now max_msec_delay tb \<longleftrightarrow>
     (let late = of_int (Timestamp_to_msecs (Timestamp_minus now (first_tuple_time tb))) > max_msec_delay
      in (\<not> tb_is_empty tb \<and> late) \<or> (tb_is_empty tb \<and> timer_set tb \<and> late))"

definition tb_get_first_tuple_time :: "timestamp \<Rightarrow> tuples_buffer \<Rightarrow> timestamp" where
  "tb_get_first_tuple_time now tb =
     (if tb_is_empty tb \<and> \<not> timer_set tb then now else first_tuple_time tb)"

definition tb_set_timer :: "timestamp \<Rightarrow> tuples_buffer \<Rightarrow> tuples_buffer" where
  "tb_set_timer now tb =
     (if tb_is_empty tb then tb\<lparr>first_tuple_time := now, timer_set := True\<rparr> else tb)"

definition tb_insert_tuple :: "timestamp \<Rightarrow> tuple \<Rightarrow> tuples_buffer \<Rightarrow> tuples_buffer" where
  "tb_insert_tuple now t tb =
     (let tb1 = (if tb_is_empty tb \<and> \<not> timer_set tb then tb\<lparr>first_tuple_time := now\<rparr> else tb);
          tb2 = (if length (buffered tb1) \<ge> max_nb_tuples tb1
                 then tb1\<lparr>max_nb_tuples := 2 * max_nb_tuples tb1\<rparr> else tb1)
      in tb2\<lparr>buffered := buffered tb2 @ [t]\<rparr>)"

text \<open>\<open>tuple_at\<close>: an index beyond the tuples reads memory that holds none.\<close>

definition tb_tuple_at :: "nat \<Rightarrow> tuples_buffer \<Rightarrow> tuple result" where
  "tb_tuple_at i tb = (if i < length (buffered tb) then Inr (buffered tb ! i) else Inl Undefined)"

definition tb_more_tuples :: "tuples_buffer \<Rightarrow> bool" where
  "tb_more_tuples tb \<longleftrightarrow> lowest_index tb < length (buffered tb)"

definition tb_advance_lowest :: "tuples_buffer \<Rightarrow> tuples_buffer" where
  "tb_advance_lowest tb =
     (if tb_more_tuples tb then tb\<lparr>lowest_index := lowest_index tb + 1\<rparr> else tb)"

definition tb_reset_lowest :: "tuples_buffer \<Rightarrow> tuples_buffer" where
  "tb_reset_lowest tb = tb\<lparr>lowest_index := 0\<rparr>"

text \<open>Guarded by \<open>more_tuples\<close> and \<open>is_empty\<close> at every call; otherwise the process ends.\<close>

definition tb_lowest_tuple :: "tuples_buffer \<Rightarrow> tuple" where
  "tb_lowest_tuple tb = buffered tb ! lowest_index tb"

definition tb_lowest_value :: "tuples_buffer \<Rightarrow> timestamp" where
  "tb_lowest_value tb = tuple_stime (buffered tb ! lowest_index tb)"

definition tb_highest_tuple :: "tuples_buffer \<Rightarrow> tuple result" where
  "tb_highest_tuple tb = (if tb_is_empty tb then Inl Fatal else Inr (last (buffered tb)))"

definition tb_highest_value :: "tuples_buffer \<Rightarrow> timestamp" where
  "tb_highest_value tb = tuple_stime (last (buffered tb))"

definition tb_clear :: "tuples_buffer \<Rightarrow> tuples_buffer" where
  "tb_clear tb = tb\<lparr>buffered := []\<rparr>"

text \<open>
  The search of \<open>clear_after\<close> counts the tuples up to and with the one found; as many are then
  taken off the end.
\<close>

fun tuples_up_to :: "int \<Rightarrow> nat \<Rightarrow> tuple list \<Rightarrow> nat option" where
  "tuples_up_to uid n [] = None"
| "tuples_up_to uid n (t # ts) = (if tuple_id t = uid then Some (n + 1) else tuples_up_to uid (n + 1) ts)"

definition tb_clear_after :: "int \<Rightarrow> tuples_buffer \<Rightarrow> tuples_buffer" where
  "tb_clear_after uid tb =
     (case tuples_up_to uid 0 (buffered tb) of
        Some n \<Rightarrow> tb\<lparr>buffered := take (length (buffered tb) - n) (buffered tb)\<rparr>
      | None \<Rightarrow> tb\<lparr>buffered := []\<rparr>)"

text \<open>The loop of \<open>clear_tentative\<close> stops at the first tentative tuple.\<close>

fun before_tentative :: "tuple list \<Rightarrow> tuple list" where
  "before_tentative [] = []"
| "before_tentative (t # ts) = (if tuple_type t = TENTATIVE then [] else t # before_tentative ts)"

definition tb_clear_tentative :: "tuples_buffer \<Rightarrow> tuples_buffer" where
  "tb_clear_tentative tb = tb\<lparr>buffered := before_tentative (buffered tb)\<rparr>"

definition tb_is_stable_buffer :: "tuples_buffer \<Rightarrow> bool" where
  "tb_is_stable_buffer tb \<longleftrightarrow> buffered tb = [] \<or> tuple_type (last (buffered tb)) \<noteq> TENTATIVE"

section \<open>Buckets\<close>

text \<open>
  The maps \<open>_buffers\<close> and \<open>_boundaries\<close> have the stream numbers from 0 on as keys; the callers
  pass input ports, which are among them.
\<close>

record bucket =
  buffers :: "tuples_buffer list"
  boundaries :: "bool list"
  contains_tentative_tuples :: bool
  contains_tuples :: bool

definition Bucket_new :: "nat \<Rightarrow> bucket" where
  "Bucket_new nb_buffers =
     \<lparr>buffers = replicate nb_buffers TuplesBuffer_new, boundaries = replicate nb_buffers False,
      contains_tentative_tuples = False, contains_tuples = False\<rparr>"

definition Bucket_bound :: "nat \<Rightarrow> bucket \<Rightarrow> bucket" where
  "Bucket_bound stream b = b\<lparr>boundaries := (boundaries b)[stream := True]\<rparr>"

definition Bucket_reset_stability :: "bucket \<Rightarrow> bucket" where
  "Bucket_reset_stability b =
     b\<lparr>contains_tentative_tuples := list_ex (\<lambda>tb. \<not> tb_is_stable_buffer tb) (buffers b)\<rparr>"

definition Bucket_clear_all_tentative_tuples :: "bucket \<Rightarrow> bucket" where
  "Bucket_clear_all_tentative_tuples b =
     Bucket_reset_stability (b\<lparr>buffers := map tb_clear_tentative (buffers b)\<rparr>)"

text \<open>A change of the buffer of a stream; an unknown stream is reported and ignored.\<close>

definition on_buffer :: "nat \<Rightarrow> (tuples_buffer \<Rightarrow> tuples_buffer) \<Rightarrow> bucket \<Rightarrow> bucket" where
  "on_buffer stream f b = b\<lparr>buffers := (buffers b)[stream := f (buffers b ! stream)]\<rparr>"

definition Bucket_insert_tuple_overwriting :: "timestamp \<Rightarrow> nat \<Rightarrow> tuple \<Rightarrow> bucket \<Rightarrow> bucket" where
  "Bucket_insert_tuple_overwriting now stream t b =
     (if stream < length (buffers b)
      then
        let tb = buffers b ! stream;
            stable_buffer = tb_is_stable_buffer tb;
            empty_buffer = tb_is_empty tb;
            stable_tuple = (tuple_type t = INSERTION)
        in if stable_tuple \<and> stable_buffer
           then (on_buffer stream (tb_insert_tuple now t) b)\<lparr>contains_tuples := True\<rparr>
           else if \<not> stable_tuple \<and> (\<not> stable_buffer \<or> empty_buffer)
           then (on_buffer stream (tb_insert_tuple now t) b)
                  \<lparr>contains_tentative_tuples := True, contains_tuples := True\<rparr>
           else if stable_tuple \<and> \<not> stable_buffer
           then (on_buffer stream (tb_insert_tuple now t)
                   (Bucket_reset_stability (on_buffer stream tb_clear_tentative b)))\<lparr>contains_tuples := True\<rparr>
           else b
      else b)"

definition Bucket_insert_tuple :: "timestamp \<Rightarrow> nat \<Rightarrow> tuple \<Rightarrow> bucket \<Rightarrow> bucket" where
  "Bucket_insert_tuple now stream t b =
     (if stream < length (buffers b)
      then let b1 = (on_buffer stream (tb_insert_tuple now t) b)\<lparr>contains_tuples := True\<rparr>
           in if tuple_type t = TENTATIVE then b1\<lparr>contains_tentative_tuples := True\<rparr> else b1
      else b)"

definition Bucket_clear_all :: "bucket \<Rightarrow> bucket" where
  "Bucket_clear_all b =
     b\<lparr>contains_tentative_tuples := False, contains_tuples := False, buffers := map tb_clear (buffers b)\<rparr>"

text \<open>What \<open>clear_stream\<close> and \<open>clear_stream_after\<close> do at the end.\<close>

definition recompute_contains :: "bucket \<Rightarrow> bucket" where
  "recompute_contains b = b\<lparr>contains_tuples := list_ex (\<lambda>tb. \<not> tb_is_empty tb) (buffers b)\<rparr>"

definition Bucket_clear_stream :: "nat \<Rightarrow> bucket \<Rightarrow> bucket" where
  "Bucket_clear_stream stream b =
     recompute_contains
       (if stream < length (buffers b) then Bucket_reset_stability (on_buffer stream tb_clear b) else b)"

definition Bucket_clear_stream_after :: "nat \<Rightarrow> int \<Rightarrow> bucket \<Rightarrow> bucket" where
  "Bucket_clear_stream_after stream uid b =
     recompute_contains
       (if stream < length (buffers b)
        then Bucket_reset_stability (on_buffer stream (tb_clear_after uid) b) else b)"

text \<open>
  The searches over the buffers, with the best value so far; stream numbers are \<open>int\<close> because
  -1 stands for none.
\<close>

fun find_highest_from :: "int \<Rightarrow> int \<Rightarrow> timestamp \<Rightarrow> tuples_buffer list \<Rightarrow> int" where
  "find_highest_from i hi hv [] = hi"
| "find_highest_from i hi hv (tb # tbs) =
     (if \<not> tb_is_empty tb \<and> Timestamp_gt (tb_highest_value tb) hv
      then find_highest_from (i + 1) i (tb_highest_value tb) tbs
      else find_highest_from (i + 1) hi hv tbs)"

definition Bucket_find_highest_index :: "bucket \<Rightarrow> int" where
  "Bucket_find_highest_index b = find_highest_from 0 (-1) Timestamp_zero (buffers b)"

fun find_lowest_from :: "int \<Rightarrow> int \<Rightarrow> timestamp \<Rightarrow> tuples_buffer list \<Rightarrow> int" where
  "find_lowest_from i li lv [] = li"
| "find_lowest_from i li lv (tb # tbs) =
     (if tb_more_tuples tb \<and> (Timestamp_eq lv Timestamp_zero \<or> Timestamp_lt (tb_lowest_value tb) lv)
      then find_lowest_from (i + 1) i (tb_lowest_value tb) tbs
      else find_lowest_from (i + 1) li lv tbs)"

definition find_lowest_index :: "tuples_buffer list \<Rightarrow> int" where
  "find_lowest_index tbs = find_lowest_from 0 (-1) Timestamp_zero tbs"

fun find_second_from :: "int \<Rightarrow> int \<Rightarrow> timestamp \<Rightarrow> timestamp \<Rightarrow> tuples_buffer list \<Rightarrow> timestamp" where
  "find_second_from i li lv sv [] = sv"
| "find_second_from i li lv sv (tb # tbs) =
     (if li \<noteq> i \<and> tb_more_tuples tb \<and>
         (Timestamp_gt (tb_lowest_value tb) lv \<or> Timestamp_eq (tb_lowest_value tb) lv) \<and>
         (Timestamp_lt (tb_lowest_value tb) sv \<or> Timestamp_eq sv Timestamp_zero)
      then find_second_from (i + 1) li lv (tb_lowest_value tb) tbs
      else find_second_from (i + 1) li lv sv tbs)"

definition find_second_lowest_value :: "int \<Rightarrow> timestamp \<Rightarrow> tuples_buffer list \<Rightarrow> timestamp" where
  "find_second_lowest_value li lv tbs = find_second_from 0 li lv Timestamp_zero tbs"

text \<open>
  \<open>get_last_tuple\<close>: an empty bucket ends the process, an index of -1 makes a null pointer that
  is then dereferenced.
\<close>

definition Bucket_get_last_tuple :: "bucket \<Rightarrow> tuple result" where
  "Bucket_get_last_tuple b =
     (if \<not> contains_tuples b then Inl Fatal
      else let hi = Bucket_find_highest_index b
           in if hi < 0 then Inl Undefined else tb_highest_tuple (buffers b ! nat hi))"

section \<open>Sending a bucket\<close>

text \<open>The inner loop: tuples of one stream up to the lowest value of the others.\<close>

function emit_lowest_run ::
  "TupleType \<Rightarrow> timestamp \<Rightarrow> timestamp \<Rightarrow> tuples_buffer \<Rightarrow> tuple list \<times> tuples_buffer" where
  "emit_lowest_run ty second lowest tb =
     (if tb_more_tuples tb \<and> (Timestamp_lt lowest second \<or> Timestamp_eq lowest second \<or>
                             Timestamp_eq second Timestamp_zero)
      then let src = tb_lowest_tuple tb;
               tb1 = tb_advance_lowest tb;
               lowest1 = (if tb_more_tuples tb1 then tb_lowest_value tb1 else lowest);
               (out, tb2) = emit_lowest_run ty second lowest1 tb1
           in (src\<lparr>tuple_type := ty\<rparr> # out, tb2)
      else ([], tb))"
  by auto
termination
  by (relation "measure (\<lambda>(ty, second, lowest, tb). length (buffered tb) - lowest_index tb)")
    (auto simp: tb_advance_lowest_def tb_more_tuples_def)

declare emit_lowest_run.simps [simp del]

text \<open>The tuples a buffer has still to send, and how many the whole bucket has.\<close>

definition unsent :: "tuples_buffer \<Rightarrow> tuple list" where
  "unsent tb = drop (lowest_index tb) (buffered tb)"

definition unsent_total :: "tuples_buffer list \<Rightarrow> nat" where
  "unsent_total tbs = sum_list (map (length \<circ> unsent) tbs)"

text \<open>
  The outer loop, with a bound on its number of rounds; the number of unsent tuples is enough, as
  each round sends at least one.
\<close>

fun emit_rounds :: "nat \<Rightarrow> TupleType \<Rightarrow> tuples_buffer list \<Rightarrow> (tuple list \<times> tuples_buffer list) option" where
  "emit_rounds fuel ty tbs =
     (let li = find_lowest_index tbs
      in if li = -1 then Some ([], tbs)
         else case fuel of
             0 \<Rightarrow> None
           | Suc n \<Rightarrow>
               let tb = tbs ! nat li;
                   lowest = tb_lowest_value tb;
                   second = find_second_lowest_value li lowest tbs;
                   (out, tb1) = emit_lowest_run ty second lowest tb
               in map_option (\<lambda>(rest, tbs1). (out @ rest, tbs1)) (emit_rounds n ty (tbs[nat li := tb1])))"

declare emit_rounds.simps [simp del]

definition Bucket_emit_tuples :: "TupleType \<Rightarrow> bucket \<Rightarrow> (tuple list \<times> bucket) option" where
  "Bucket_emit_tuples ty b =
     map_option (\<lambda>(out, tbs). (out, b\<lparr>buffers := map tb_reset_lowest tbs\<rparr>))
       (emit_rounds (unsent_total (buffers b)) ty (buffers b))"

definition Bucket_emit_tuples_on_separate_outputs :: "TupleType \<Rightarrow> bucket \<Rightarrow> tuple list list" where
  "Bucket_emit_tuples_on_separate_outputs ty b =
     map (\<lambda>tb. map (\<lambda>t. t\<lparr>tuple_type := ty\<rparr>) (buffered tb)) (buffers b)"

section \<open>Time, boundaries and copies\<close>

definition Bucket_is_expired :: "timestamp \<Rightarrow> rat list \<Rightarrow> bucket \<Rightarrow> bool" where
  "Bucket_is_expired now delays b \<longleftrightarrow>
     list_ex (\<lambda>i. tb_is_expired now (delays ! i) (buffers b ! i)) [0..<length (buffers b)]"

definition Bucket_set_timer :: "timestamp \<Rightarrow> nat \<Rightarrow> bucket \<Rightarrow> bucket" where
  "Bucket_set_timer now stream b =
     (if stream < length (buffers b) then on_buffer stream (tb_set_timer now) b else b)"

definition Bucket_get_first_tuple_time :: "timestamp \<Rightarrow> bucket \<Rightarrow> timestamp" where
  "Bucket_get_first_tuple_time now b =
     fold (\<lambda>tb m. let t = tb_get_first_tuple_time now tb in if Timestamp_lt t m then t else m) (buffers b) now"

definition Bucket_is_bounded :: "bucket \<Rightarrow> bool" where
  "Bucket_is_bounded b \<longleftrightarrow> list_all (\<lambda>x. x) (boundaries b)"

definition Bucket_is_bounded_on :: "nat \<Rightarrow> bucket \<Rightarrow> bool" where
  "Bucket_is_bounded_on stream b \<longleftrightarrow> boundaries b ! stream"

definition Bucket_is_empty :: "bucket \<Rightarrow> bool" where
  "Bucket_is_empty b \<longleftrightarrow> \<not> contains_tuples b"

definition Bucket_is_tentative :: "bucket \<Rightarrow> bool" where
  "Bucket_is_tentative b \<longleftrightarrow> contains_tentative_tuples b"

text \<open>A copy gets the tuples of every stream, inserted anew.\<close>

definition Bucket_deep_copy :: "timestamp \<Rightarrow> bucket \<Rightarrow> bucket" where
  "Bucket_deep_copy now b =
     fold (\<lambda>i c. fold (Bucket_insert_tuple now i) (buffered (buffers b ! i)) c) [0..<length (buffers b)]
       (Bucket_new (length (buffers b)))"

end
