(* ===== verification/Bucket_Merge.thy ===== *)
theory Bucket_Merge
  imports Tuple_Buckets "HOL-Library.Sublist"
begin

text \<open>
  How a bucket is sent: the loops of \<open>Bucket::emit_tuples\<close> end, send every tuple once, keep the
  order of each stream, and merge ordered streams into an ordered output.
\<close>

section \<open>Lemmas on sending\<close>

abbreviation retag :: "TupleType \<Rightarrow> tuple \<Rightarrow> tuple" where
  "retag ty t \<equiv> t\<lparr>tuple_type := ty\<rparr>"

lemma more_tuples_unsent: "tb_more_tuples tb \<longleftrightarrow> unsent tb \<noteq> []"
  by (simp add: tb_more_tuples_def unsent_def not_le)

lemma lowest_unsent:
  "unsent tb \<noteq> [] \<Longrightarrow> tb_lowest_tuple tb = hd (unsent tb)"
  "unsent tb \<noteq> [] \<Longrightarrow> tb_lowest_value tb = tuple_stime (hd (unsent tb))"
  by (simp_all add: unsent_def tb_lowest_tuple_def tb_lowest_value_def hd_drop_conv_nth not_le)

lemma unsent_advance:
  "unsent tb \<noteq> [] \<Longrightarrow> unsent (tb_advance_lowest tb) = tl (unsent tb)"
  by (simp add: tb_advance_lowest_def more_tuples_unsent) (simp add: unsent_def drop_Suc tl_drop)

lemma buffered_advance [simp]: "buffered (tb_advance_lowest tb) = buffered tb"
  by (simp add: tb_advance_lowest_def)

text \<open>The run of tuples of one stream: up to the first one above the second lowest value.\<close>

definition run_length :: "timestamp \<Rightarrow> tuple list \<Rightarrow> nat" where
  "run_length second ts =
     length (takeWhile (\<lambda>t. tuple_stime t \<le> second \<or> second = Timestamp_zero) ts)"

lemma run_length_Cons [simp]:
  "run_length second (t # ts) =
     (if tuple_stime t \<le> second \<or> second = Timestamp_zero then Suc (run_length second ts) else 0)"
  "run_length second [] = 0"
  by (simp_all add: run_length_def)

lemma emit_lowest_run_spec:
  assumes "unsent tb \<noteq> [] \<longrightarrow> lowest = tuple_stime (hd (unsent tb))"
  shows "\<exists>tb1. emit_lowest_run ty second lowest tb =
      (map (retag ty) (take (run_length second (unsent tb)) (unsent tb)), tb1) \<and>
    unsent tb1 = drop (run_length second (unsent tb)) (unsent tb) \<and> buffered tb1 = buffered tb"
  using assms
proof (induction ty second lowest tb rule: emit_lowest_run.induct)
  case (1 ty second lowest tb)
  show ?case
  proof (cases "unsent tb")
    case Nil
    then show ?thesis by (simp add: emit_lowest_run.simps [of ty second lowest tb] more_tuples_unsent)
  next
    case (Cons t ts)
    then have ne: "unsent tb \<noteq> []" and lo: "lowest = tuple_stime t" using "1.prems" by simp_all
    let ?go = "tuple_stime t \<le> second \<or> second = Timestamp_zero"
    have cond: "(tb_more_tuples tb \<and> (Timestamp_lt lowest second \<or> Timestamp_eq lowest second \<or>
        Timestamp_eq second Timestamp_zero)) = ?go"
      using ne lo by (auto simp: more_tuples_unsent)
    show ?thesis
    proof (cases ?go)
      case False
      then have "emit_lowest_run ty second lowest tb = ([], tb)"
        unfolding emit_lowest_run.simps [of ty second lowest tb] cond by simp
      then show ?thesis using Cons False by simp
    next
      case True
      let ?tb1 = "tb_advance_lowest tb"
      let ?lowest1 = "if tb_more_tuples ?tb1 then tb_lowest_value ?tb1 else lowest"
      have un: "unsent ?tb1 = ts" using unsent_advance [OF ne] Cons by simp
      have "unsent ?tb1 \<noteq> [] \<longrightarrow> ?lowest1 = tuple_stime (hd (unsent ?tb1))"
        by (simp add: more_tuples_unsent lowest_unsent)
      from "1.IH" [OF _ refl refl refl this] cond True obtain tb2 where
        "emit_lowest_run ty second ?lowest1 ?tb1 =
           (map (retag ty) (take (run_length second ts) ts), tb2)"
        "unsent tb2 = drop (run_length second ts) ts" "buffered tb2 = buffered tb"
        by (auto simp: un)
      then show ?thesis
        unfolding emit_lowest_run.simps [of ty second lowest tb] cond
        using Cons True lowest_unsent(1) [OF ne] by (simp add: Let_def)
    qed
  qed
qed

text \<open>The search for the lowest value finds a stream that has something to send, if there is one.\<close>

lemma find_lowest_from_index:
  assumes "find_lowest_from i li lv tbs \<noteq> li"
  shows "\<exists>j < length tbs. find_lowest_from i li lv tbs = i + int j \<and> unsent (tbs ! j) \<noteq> []"
  using assms
proof (induction tbs arbitrary: i li lv)
  case Nil
  then show ?case by simp
next
  case (Cons tb tbs)
  define li' lv' where "li' = (if tb_more_tuples tb \<and> (Timestamp_eq lv Timestamp_zero \<or>
      Timestamp_lt (tb_lowest_value tb) lv) then i else li)"
    and "lv' = (if tb_more_tuples tb \<and> (Timestamp_eq lv Timestamp_zero \<or>
      Timestamp_lt (tb_lowest_value tb) lv) then tb_lowest_value tb else lv)"
  have step: "find_lowest_from i li lv (tb # tbs) = find_lowest_from (i + 1) li' lv' tbs"
    by (cases "tb_more_tuples tb \<and> (Timestamp_eq lv Timestamp_zero \<or> Timestamp_lt (tb_lowest_value tb) lv)")
      (simp_all only: li'_def lv'_def find_lowest_from.simps if_True if_False simp_thms)
  show ?case
  proof (cases "find_lowest_from (i + 1) li' lv' tbs = li'")
    case True
    then have "li' \<noteq> li" using Cons.prems step by simp
    then have "li' = i" "tb_more_tuples tb" by (auto simp: li'_def split: if_splits)
    then show ?thesis using True step by (intro exI [of _ 0]) (simp add: more_tuples_unsent)
  next
    case False
    from Cons.IH [OF this] obtain j where "j < length tbs"
      "find_lowest_from (i + 1) li' lv' tbs = i + 1 + int j" "unsent (tbs ! j) \<noteq> []" by blast
    then show ?thesis using step by (intro exI [of _ "Suc j"]) simp
  qed
qed

lemma find_lowest_from_none:
  "find_lowest_from i li lv tbs = li \<Longrightarrow> li < i \<Longrightarrow> lv = Timestamp_zero \<Longrightarrow> tb \<in> set tbs \<Longrightarrow> unsent tb = []"
proof (induction tbs arbitrary: i li lv)
  case Nil
  then show ?case by simp
next
  case (Cons a tbs)
  have "\<not> tb_more_tuples a"
  proof
    assume "tb_more_tuples a"
    then have *: "find_lowest_from (i + 1) i (tb_lowest_value a) tbs = li" using Cons.prems by simp
    show False
    proof (cases "find_lowest_from (i + 1) i (tb_lowest_value a) tbs = i")
      case True
      then show False using * Cons.prems(2) by simp
    next
      case False
      from find_lowest_from_index [OF this] * Cons.prems(2) show False by auto
    qed
  qed
  with Cons show ?case by (auto simp: more_tuples_unsent)
qed

lemma find_lowest_index_none: "find_lowest_index tbs = -1 \<longleftrightarrow> (\<forall>tb \<in> set tbs. unsent tb = [])"
proof
  show "find_lowest_index tbs = -1 \<Longrightarrow> \<forall>tb \<in> set tbs. unsent tb = []"
    using find_lowest_from_none [of 0 "-1" Timestamp_zero tbs] by (simp add: find_lowest_index_def)
  show "\<forall>tb \<in> set tbs. unsent tb = [] \<Longrightarrow> find_lowest_index tbs = -1"
    using find_lowest_from_index [of 0 "-1" Timestamp_zero tbs] nth_mem
    unfolding find_lowest_index_def by blast
qed

lemma find_lowest_index_some:
  assumes "find_lowest_index tbs \<noteq> -1"
  obtains j where "find_lowest_index tbs = int j" "j < length tbs" "unsent (tbs ! j) \<noteq> []"
  using find_lowest_from_index [of 0 "-1" Timestamp_zero tbs] assms by (auto simp: find_lowest_index_def)

text \<open>The second lowest value is the default one or at least the lowest.\<close>

lemma find_second_from_ge:
  "sv = Timestamp_zero \<or> lv \<le> sv \<Longrightarrow>
   find_second_from i li lv sv tbs = Timestamp_zero \<or> lv \<le> find_second_from i li lv sv tbs"
  by (induction tbs arbitrary: i sv) (auto simp: le_less)

lemma find_second_ge:
  "find_second_lowest_value li lv tbs = Timestamp_zero \<or> lv \<le> find_second_lowest_value li lv tbs"
  by (simp add: find_second_lowest_value_def find_second_from_ge)

text \<open>One round of the outer loop.\<close>

lemma emit_rounds_step:
  assumes "find_lowest_index tbs = int j" "j < length tbs" "unsent (tbs ! j) \<noteq> []"
  defines "second \<equiv> find_second_lowest_value (int j) (tb_lowest_value (tbs ! j)) tbs"
  defines "n \<equiv> run_length second (unsent (tbs ! j))"
  shows "\<exists>tb1. emit_rounds (Suc fuel) ty tbs =
      map_option (\<lambda>(rest, tbs1). (map (retag ty) (take n (unsent (tbs ! j))) @ rest, tbs1))
        (emit_rounds fuel ty (tbs[j := tb1])) \<and>
    unsent tb1 = drop n (unsent (tbs ! j)) \<and> buffered tb1 = buffered (tbs ! j) \<and> 0 < n \<and>
    n \<le> length (unsent (tbs ! j))"
proof -
  let ?tb = "tbs ! j"
  obtain tb1 where run: "emit_lowest_run ty second (tb_lowest_value ?tb) ?tb =
      (map (retag ty) (take n (unsent ?tb)), tb1)" "unsent tb1 = drop n (unsent ?tb)"
    "buffered tb1 = buffered ?tb"
    using emit_lowest_run_spec [of ?tb "tb_lowest_value ?tb" ty second] assms(3)
    unfolding n_def by (auto simp: lowest_unsent)
  have "second = Timestamp_zero \<or> tb_lowest_value ?tb \<le> second"
    unfolding second_def by (rule find_second_ge)
  then have "0 < n"
    using assms(3) lowest_unsent(2) [OF assms(3)] unfolding n_def by (cases "unsent ?tb") auto
  moreover have "n \<le> length (unsent ?tb)" by (simp add: n_def run_length_def length_takeWhile_le)
  ultimately show ?thesis
    using run assms(1) unfolding emit_rounds.simps [of "Suc fuel"]
    by (intro exI [of _ tb1]) (simp add: Let_def second_def [symmetric])
qed

lemma unsent_total_update:
  assumes "j < length tbs"
  shows "unsent_total (tbs[j := tb]) + length (unsent (tbs ! j)) = unsent_total tbs + length (unsent tb)"
  using assms
proof (induction tbs arbitrary: j)
  case Nil
  then show ?case by simp
next
  case (Cons a tbs)
  then show ?case by (cases j) (simp_all add: unsent_total_def)
qed

text \<open>The bound on the rounds is enough: a bucket can always be sent, whatever the times in it.\<close>

lemma emit_rounds_total:
  assumes "unsent_total tbs \<le> fuel"
  shows "\<exists>out tbs1. emit_rounds fuel ty tbs = Some (out, tbs1) \<and> map buffered tbs1 = map buffered tbs \<and>
    mset out = mset (map (retag ty) (concat (map unsent tbs)))"
  using assms
proof (induction fuel arbitrary: tbs)
  case 0
  then have "\<forall>tb \<in> set tbs. unsent tb = []" by (auto simp: unsent_total_def)
  then show ?case by (simp add: emit_rounds.simps find_lowest_index_none)
next
  case (Suc fuel)
  show ?case
  proof (cases "find_lowest_index tbs = -1")
    case True
    then have "concat (map unsent tbs) = []" by (simp add: find_lowest_index_none)
    then show ?thesis using True by (simp add: emit_rounds.simps)
  next
    case False
    then obtain j where j: "find_lowest_index tbs = int j" "j < length tbs" "unsent (tbs ! j) \<noteq> []"
      by (rule find_lowest_index_some)
    from emit_rounds_step [OF this, of fuel ty] obtain tb1 n where st:
      "emit_rounds (Suc fuel) ty tbs =
        map_option (\<lambda>(rest, tbs1). (map (retag ty) (take n (unsent (tbs ! j))) @ rest, tbs1))
          (emit_rounds fuel ty (tbs[j := tb1]))"
      "unsent tb1 = drop n (unsent (tbs ! j))" "buffered tb1 = buffered (tbs ! j)" "0 < n"
      "n \<le> length (unsent (tbs ! j))" by blast
    have "unsent_total (tbs[j := tb1]) \<le> fuel"
      using unsent_total_update [OF j(2), of tb1] Suc.prems st(2,4,5) by simp
    from Suc.IH [OF this] obtain out tbs1 where IH: "emit_rounds fuel ty (tbs[j := tb1]) = Some (out, tbs1)"
      "map buffered tbs1 = map buffered (tbs[j := tb1])"
      "mset out = mset (map (retag ty) (concat (map unsent (tbs[j := tb1]))))" by blast
    have buf: "map buffered (tbs[j := tb1]) = map buffered tbs"
      using st(3) j(2) by (simp add: map_update list_update_same_conv)
    have split: "tbs = take j tbs @ tbs ! j # drop (Suc j) tbs" using j(2) by (rule id_take_nth_drop)
    have "mset (concat (map unsent (tbs[j := tb1]))) + mset (take n (unsent (tbs ! j))) =
        mset (concat (map unsent (take j tbs))) + mset (take n (unsent (tbs ! j)) @ unsent tb1) +
        mset (concat (map unsent (drop (Suc j) tbs)))"
      using j(2) by (simp add: upd_conv_take_nth_drop)
    also have "\<dots> = mset (concat (map unsent (take j tbs @ tbs ! j # drop (Suc j) tbs)))"
      by (simp only: st(2) append_take_drop_id) simp
    finally have "mset (concat (map unsent (tbs[j := tb1]))) + mset (take n (unsent (tbs ! j))) =
        mset (concat (map unsent tbs))" using split by simp
    then have "mset (map (retag ty) (take n (unsent (tbs ! j)))) + mset out =
        mset (map (retag ty) (concat (map unsent tbs)))"
      unfolding IH(3) mset_map by (metis add.commute image_mset_union)
    then show ?thesis using st(1) IH(1,2) buf by simp
  qed
qed

section \<open>The merge is ordered\<close>

text \<open>All buffered times are after time zero, which the code takes for no value.\<close>

definition positive_times :: "tuples_buffer list \<Rightarrow> bool" where
  "positive_times tbs \<longleftrightarrow> (\<forall>tb \<in> set tbs. \<forall>t \<in> set (buffered tb). Timestamp_zero < tuple_stime t)"

definition ordered_buffers :: "tuples_buffer list \<Rightarrow> bool" where
  "ordered_buffers tbs \<longleftrightarrow> (\<forall>tb \<in> set tbs. sorted (map tuple_stime (buffered tb)))"

abbreviation head_time :: "tuples_buffer \<Rightarrow> timestamp" where
  "head_time tb \<equiv> tuple_stime (hd (unsent tb))"

lemma positive_head:
  assumes "\<forall>t \<in> set (buffered tb). Timestamp_zero < tuple_stime t" "unsent tb \<noteq> []"
  shows "Timestamp_zero < head_time tb"
proof -
  have "hd (unsent tb) \<in> set (buffered tb)"
    using assms(2) unfolding unsent_def by (meson hd_in_set in_set_dropD)
  then show ?thesis using assms(1) by blast
qed

lemma find_lowest_from_min:
  assumes "positive_times tbs"
  shows "find_lowest_from i li lv tbs = li \<and>
      (\<forall>k < length tbs. unsent (tbs ! k) \<noteq> [] \<longrightarrow> lv \<noteq> Timestamp_zero \<and> lv \<le> head_time (tbs ! k)) \<or>
    (\<exists>j < length tbs. find_lowest_from i li lv tbs = i + int j \<and> unsent (tbs ! j) \<noteq> [] \<and>
      (lv \<noteq> Timestamp_zero \<longrightarrow> head_time (tbs ! j) < lv) \<and>
      (\<forall>k < length tbs. unsent (tbs ! k) \<noteq> [] \<longrightarrow> head_time (tbs ! j) \<le> head_time (tbs ! k)))"
    (is "?none i li lv tbs \<or> ?some i li lv tbs")
  using assms
proof (induction tbs arbitrary: i li lv)
  case Nil
  then show ?case by simp
next
  case (Cons a tbs)
  let ?c = "unsent a \<noteq> [] \<and> (lv = Timestamp_zero \<or> head_time a < lv)"
  have pos: "positive_times tbs" and a0: "unsent a \<noteq> [] \<Longrightarrow> head_time a \<noteq> Timestamp_zero"
    using Cons.prems positive_head [of a] by (auto simp: positive_times_def)
  show ?case
  proof (cases ?c)
    case True
    then have step: "find_lowest_from i li lv (a # tbs) = find_lowest_from (i + 1) i (head_time a) tbs"
      by (auto simp: more_tuples_unsent lowest_unsent)
    from Cons.IH [OF pos, of "i + 1" i "head_time a"] have "?some i li lv (a # tbs)"
    proof
      assume "?none (i + 1) i (head_time a) tbs"
      then show ?thesis unfolding step using True
        by (intro exI [of _ 0]) (auto simp: nth_Cons less_Suc_eq_0_disj)
    next
      assume "?some (i + 1) i (head_time a) tbs"
      then obtain j where j: "j < length tbs" "find_lowest_from (i + 1) i (head_time a) tbs = i + 1 + int j"
        "unsent (tbs ! j) \<noteq> []" "head_time (tbs ! j) < head_time a"
        "\<forall>k < length tbs. unsent (tbs ! k) \<noteq> [] \<longrightarrow> head_time (tbs ! j) \<le> head_time (tbs ! k)"
        using a0 True by blast
      have "lv \<noteq> Timestamp_zero \<longrightarrow> head_time (tbs ! j) < lv" using True j(4) by auto
      then show ?thesis unfolding step using j
        by (intro exI [of _ "Suc j"]) (auto simp: less_Suc_eq_0_disj)
    qed
    then show ?thesis by blast
  next
    case False
    then have step: "find_lowest_from i li lv (a # tbs) = find_lowest_from (i + 1) li lv tbs"
      by (auto simp: more_tuples_unsent lowest_unsent)
    have a: "unsent a \<noteq> [] \<Longrightarrow> lv \<noteq> Timestamp_zero \<and> lv \<le> head_time a" using False by auto
    from Cons.IH [OF pos, of "i + 1" li lv] show ?thesis
    proof
      assume "?none (i + 1) li lv tbs"
      then show ?thesis unfolding step using a by (auto simp: less_Suc_eq_0_disj)
    next
      assume "?some (i + 1) li lv tbs"
      then obtain j where j: "j < length tbs" "find_lowest_from (i + 1) li lv tbs = i + 1 + int j"
        "unsent (tbs ! j) \<noteq> []" "lv \<noteq> Timestamp_zero \<longrightarrow> head_time (tbs ! j) < lv"
        "\<forall>k < length tbs. unsent (tbs ! k) \<noteq> [] \<longrightarrow> head_time (tbs ! j) \<le> head_time (tbs ! k)"
        by blast
      have "unsent a \<noteq> [] \<longrightarrow> head_time (tbs ! j) \<le> head_time a" using a j(4) by force
      then have "?some i li lv (a # tbs)" unfolding step using j
        by (intro exI [of _ "Suc j"]) (auto simp: less_Suc_eq_0_disj)
      then show ?thesis by blast
    qed
  qed
qed

lemma find_lowest_index_min:
  assumes "positive_times tbs" "find_lowest_index tbs = int j" "k < length tbs" "unsent (tbs ! k) \<noteq> []"
  shows "head_time (tbs ! j) \<le> head_time (tbs ! k)"
  using find_lowest_from_min [OF assms(1), of 0 "-1" Timestamp_zero] assms(2-)
  unfolding find_lowest_index_def by auto

text \<open>The second lowest value bounds the other streams from below.\<close>

lemma find_second_from_min:
  fixes sv :: timestamp and li i :: int
  assumes "positive_times tbs" "\<forall>k < length tbs. unsent (tbs ! k) \<noteq> [] \<longrightarrow> lv \<le> head_time (tbs ! k)"
  defines "r \<equiv> find_second_from i li lv sv tbs"
  shows "(sv \<noteq> Timestamp_zero \<longrightarrow> r \<noteq> Timestamp_zero \<and> r \<le> sv) \<and>
    (\<forall>k < length tbs. i + int k \<noteq> li \<longrightarrow> unsent (tbs ! k) \<noteq> [] \<longrightarrow>
       r \<noteq> Timestamp_zero \<and> r \<le> head_time (tbs ! k))"
  using assms(1,2) unfolding r_def
proof (induction tbs arbitrary: i sv)
  case Nil
  then show ?case by simp
next
  case (Cons a tbs)
  let ?c = "li \<noteq> i \<and> unsent a \<noteq> [] \<and> (head_time a < sv \<or> sv = Timestamp_zero)"
  have pos: "positive_times tbs" and a0: "unsent a \<noteq> [] \<Longrightarrow> head_time a \<noteq> Timestamp_zero"
    using Cons.prems positive_head [of a] by (auto simp: positive_times_def)
  have tl: "\<forall>k < length tbs. unsent (tbs ! k) \<noteq> [] \<longrightarrow> lv \<le> head_time (tbs ! k)"
    and hd: "unsent a \<noteq> [] \<Longrightarrow> lv \<le> head_time a"
    using Cons.prems(2) by (auto simp: less_Suc_eq_0_disj)
  show ?case
  proof (cases ?c)
    case True
    then have step: "find_second_from i li lv sv (a # tbs) = find_second_from (i + 1) li lv (head_time a) tbs"
      using hd by (auto simp: more_tuples_unsent lowest_unsent)
    from Cons.IH [OF pos tl, where i = "i + 1" and sv = "head_time a"] True a0 show ?thesis
      unfolding step by (auto simp: less_Suc_eq_0_disj add.assoc)
  next
    case False
    then have step: "find_second_from i li lv sv (a # tbs) = find_second_from (i + 1) li lv sv tbs"
      by (auto simp: more_tuples_unsent lowest_unsent)
    have "i \<noteq> li \<Longrightarrow> unsent a \<noteq> [] \<Longrightarrow> sv \<noteq> Timestamp_zero \<and> sv \<le> head_time a" using False by auto
    with Cons.IH [OF pos tl, where i = "i + 1" and sv = sv] show ?thesis
      unfolding step by (auto simp: less_Suc_eq_0_disj add.assoc)
  qed
qed

lemma unsent_subset: "set (unsent tb) \<subseteq> set (buffered tb)"
  unfolding unsent_def by (rule set_drop_subset)

lemma sorted_unsent: "sorted (map tuple_stime (buffered tb)) \<Longrightarrow> sorted (map tuple_stime (unsent tb))"
  by (simp add: unsent_def drop_map [symmetric] sorted_wrt_drop)

text \<open>What is sent in a round is not above anything that is left.\<close>

lemma emit_round_below:
  assumes "positive_times tbs" "ordered_buffers tbs" "find_lowest_index tbs = int j" "j < length tbs"
    "unsent (tbs ! j) \<noteq> []"
  defines "second \<equiv> find_second_lowest_value (int j) (tb_lowest_value (tbs ! j)) tbs"
  assumes n: "n = run_length second (unsent (tbs ! j))"
    and t: "t \<in> set (take n (unsent (tbs ! j)))"
    and u: "u \<in> set (drop n (unsent (tbs ! j))) \<or> (\<exists>k < length tbs. k \<noteq> j \<and> u \<in> set (unsent (tbs ! k)))"
  shows "tuple_stime t \<le> tuple_stime u"
  using u
proof
  assume "u \<in> set (drop n (unsent (tbs ! j)))"
  moreover have "sorted (map tuple_stime (unsent (tbs ! j)))"
    using assms(2,4) by (intro sorted_unsent) (simp add: ordered_buffers_def)
  then have "sorted (map tuple_stime (take n (unsent (tbs ! j))) @ map tuple_stime (drop n (unsent (tbs ! j))))"
    by (simp flip: map_append)
  ultimately show ?thesis using t unfolding sorted_append by auto
next
  assume "\<exists>k < length tbs. k \<noteq> j \<and> u \<in> set (unsent (tbs ! k))"
  then obtain k where k: "k < length tbs" "k \<noteq> j" "u \<in> set (unsent (tbs ! k))" by blast
  then have ne: "unsent (tbs ! k) \<noteq> []" by auto
  have low: "\<forall>k < length tbs. unsent (tbs ! k) \<noteq> [] \<longrightarrow> tb_lowest_value (tbs ! j) \<le> head_time (tbs ! k)"
    using find_lowest_index_min [OF assms(1,3)] lowest_unsent(2) [OF assms(5)] by simp
  have second: "second \<noteq> Timestamp_zero" "second \<le> head_time (tbs ! k)"
    using find_second_from_min [OF assms(1) low, where i = 0 and li = "int j" and sv = Timestamp_zero] k ne
    unfolding second_def find_second_lowest_value_def by auto
  have "tuple_stime t \<le> second"
  proof -
    have "take n (unsent (tbs ! j)) =
        takeWhile (\<lambda>t. tuple_stime t \<le> second \<or> second = Timestamp_zero) (unsent (tbs ! j))"
      unfolding n run_length_def by (metis takeWhile_eq_take)
    then show ?thesis using t second(1) by (auto dest: set_takeWhileD)
  qed
  also note second(2)
  also have "head_time (tbs ! k) \<le> tuple_stime u"
  proof -
    have "sorted (map tuple_stime (unsent (tbs ! k)))"
      using assms(2) k(1) by (intro sorted_unsent) (simp add: ordered_buffers_def)
    then show ?thesis using k(3) by (cases "unsent (tbs ! k)") auto
  qed
  finally show ?thesis .
qed

lemma emit_rounds_sorted:
  assumes "positive_times tbs" "ordered_buffers tbs" "emit_rounds fuel ty tbs = Some (out, tbs1)"
    "unsent_total tbs \<le> fuel"
  shows "sorted (map tuple_stime out)"
  using assms
proof (induction fuel arbitrary: tbs out)
  case 0
  then have "\<forall>tb \<in> set tbs. unsent tb = []" by (auto simp: unsent_total_def)
  with 0 show ?case by (simp add: emit_rounds.simps find_lowest_index_none [THEN iffD2])
next
  case (Suc fuel)
  show ?case
  proof (cases "find_lowest_index tbs = -1")
    case True
    then show ?thesis using Suc.prems(3) by (simp add: emit_rounds.simps)
  next
    case False
    then obtain j where j: "find_lowest_index tbs = int j" "j < length tbs" "unsent (tbs ! j) \<noteq> []"
      by (rule find_lowest_index_some)
    define n where "n = run_length (find_second_lowest_value (int j) (tb_lowest_value (tbs ! j)) tbs) (unsent (tbs ! j))"
    from emit_rounds_step [OF j, of fuel ty] obtain tb1 where st:
      "emit_rounds (Suc fuel) ty tbs =
        map_option (\<lambda>(rest, tbs1). (map (retag ty) (take n (unsent (tbs ! j))) @ rest, tbs1))
          (emit_rounds fuel ty (tbs[j := tb1]))"
      "unsent tb1 = drop n (unsent (tbs ! j))" "buffered tb1 = buffered (tbs ! j)" "0 < n"
      "n \<le> length (unsent (tbs ! j))" unfolding n_def [symmetric] by blast
    let ?tbs = "tbs[j := tb1]"
    obtain rest where rest: "emit_rounds fuel ty ?tbs = Some (rest, tbs1)"
      "out = map (retag ty) (take n (unsent (tbs ! j))) @ rest"
      using Suc.prems(3) st(1) by auto
    have buf: "buffered x \<in> buffered ` set tbs" if "x \<in> set ?tbs" for x
      using that set_update_subset_insert [of tbs j tb1] j(2) st(3) by (metis image_eqI insertE nth_mem subsetD)
    have "positive_times ?tbs" "ordered_buffers ?tbs"
      using Suc.prems(1,2) buf unfolding positive_times_def ordered_buffers_def by (metis imageE)+
    moreover have total: "unsent_total ?tbs \<le> fuel"
      using unsent_total_update [OF j(2), of tb1] Suc.prems(4) st(2,4,5) by simp
    ultimately have sr: "sorted (map tuple_stime rest)" using Suc.IH rest(1) by blast
    have "sorted (map tuple_stime (unsent (tbs ! j)))"
      using Suc.prems(2) j(2) by (intro sorted_unsent) (simp add: ordered_buffers_def)
    then have st1: "sorted (map tuple_stime (take n (unsent (tbs ! j))))"
      by (simp add: take_map [symmetric] sorted_wrt_take)
    have "tuple_stime t \<le> tuple_stime r" if t: "t \<in> set (take n (unsent (tbs ! j)))" and r: "r \<in> set rest" for t r
    proof -
      obtain tbs2 where "mset rest = mset (map (retag ty) (concat (map unsent ?tbs)))"
        using emit_rounds_total [OF total, of ty] rest(1) by auto
      then obtain u where u: "r = retag ty u" "u \<in> set (concat (map unsent ?tbs))"
        using r by (metis (no_types, lifting) image_iff list.set_map mset_eq_setD)
      then obtain k where "k < length tbs" "u \<in> set (unsent (?tbs ! k))"
        by (auto simp: in_set_conv_nth [of _ ?tbs])
      then have "u \<in> set (drop n (unsent (tbs ! j))) \<or> (\<exists>k < length tbs. k \<noteq> j \<and> u \<in> set (unsent (tbs ! k)))"
        using st(2) by (cases "k = j") auto
      from emit_round_below [OF Suc.prems(1,2) j n_def t this] u(1) show ?thesis by simp
    qed
    then show ?thesis using sr st1 unfolding rest(2) by (auto simp: sorted_append comp_def)
  qed
qed

text \<open>Each stream's tuples keep their order in the output.\<close>

lemma emit_rounds_subseq:
  assumes "emit_rounds fuel ty tbs = Some (out, tbs1)" "k < length tbs" "unsent_total tbs \<le> fuel"
  shows "subseq (map (retag ty) (unsent (tbs ! k))) out"
  using assms
proof (induction fuel arbitrary: tbs out)
  case 0
  then have "unsent (tbs ! k) = []" by (auto simp: unsent_total_def)
  then show ?case by simp
next
  case (Suc fuel)
  show ?case
  proof (cases "find_lowest_index tbs = -1")
    case True
    then have "unsent (tbs ! k) = []" using Suc.prems(2) find_lowest_index_none by auto
    then show ?thesis by simp
  next
    case False
    then obtain j where j: "find_lowest_index tbs = int j" "j < length tbs" "unsent (tbs ! j) \<noteq> []"
      by (rule find_lowest_index_some)
    from emit_rounds_step [OF j, of fuel ty] obtain tb1 n where st:
      "emit_rounds (Suc fuel) ty tbs =
        map_option (\<lambda>(rest, tbs1). (map (retag ty) (take n (unsent (tbs ! j))) @ rest, tbs1))
          (emit_rounds fuel ty (tbs[j := tb1]))"
      "unsent tb1 = drop n (unsent (tbs ! j))" "0 < n" "n \<le> length (unsent (tbs ! j))" by blast
    obtain rest where rest: "emit_rounds fuel ty (tbs[j := tb1]) = Some (rest, tbs1)"
      "out = map (retag ty) (take n (unsent (tbs ! j))) @ rest"
      using Suc.prems(1) st(1) by auto
    have "unsent_total (tbs[j := tb1]) \<le> fuel"
      using unsent_total_update [OF j(2), of tb1] Suc.prems(3) st(2-4) by simp
    from Suc.IH [OF rest(1) _ this] Suc.prems(2)
    have IH: "subseq (map (retag ty) (unsent (tbs[j := tb1] ! k))) rest" by simp
    show ?thesis
    proof (cases "k = j")
      case True
      then have "map (retag ty) (unsent (tbs ! k)) =
          map (retag ty) (take n (unsent (tbs ! j))) @ map (retag ty) (unsent (tbs[j := tb1] ! k))"
        using st(2) j(2) by (simp flip: map_append)
      then show ?thesis unfolding rest(2) using list_emb_append_mono [OF subseq_order.refl IH] by simp
    next
      case False
      then show ?thesis using IH unfolding rest(2) by (simp add: list_emb_append2)
    qed
  qed
qed

lemma emit_lowest_run_reset:
  "tb_reset_lowest (snd (emit_lowest_run ty second lowest tb)) = tb_reset_lowest tb"
proof (induction ty second lowest tb rule: emit_lowest_run.induct)
  case (1 ty second lowest tb)
  have "tb_reset_lowest (tb_advance_lowest tb) = tb_reset_lowest tb"
    by (simp add: tb_reset_lowest_def tb_advance_lowest_def)
  with "1.IH" show ?case
    by (subst emit_lowest_run.simps) (simp add: Let_def case_prod_unfold)
qed

lemma emit_rounds_reset:
  "emit_rounds fuel ty tbs = Some (out, tbs1) \<Longrightarrow> map tb_reset_lowest tbs1 = map tb_reset_lowest tbs"
proof (induction fuel arbitrary: tbs out tbs1)
  case 0
  then show ?case by (simp add: emit_rounds.simps Let_def split: if_splits)
next
  case (Suc fuel)
  show ?case
  proof (cases "find_lowest_index tbs = -1")
    case True
    then show ?thesis using Suc.prems by (simp add: emit_rounds.simps)
  next
    case False
    then obtain j where j: "find_lowest_index tbs = int j" "j < length tbs" by (rule find_lowest_index_some)
    let ?tb = "tbs ! j"
    let ?run = "emit_lowest_run ty (find_second_lowest_value (int j) (tb_lowest_value ?tb) tbs)
        (tb_lowest_value ?tb) ?tb"
    obtain rest where "emit_rounds fuel ty (tbs[j := snd ?run]) = Some (rest, tbs1)"
      using Suc.prems j(1) by (subst (asm) emit_rounds.simps) (auto simp: Let_def case_prod_unfold)
    from Suc.IH [OF this] j(2) show ?thesis
      by (simp add: map_update emit_lowest_run_reset list_update_same_conv)
  qed
qed

end
