(* ===== verification/Bucket_Invariants.thy ===== *)
theory Bucket_Invariants
  imports Bucket_Merge
begin

text \<open>
  The invariant of a bucket, its preservation by every operation that SUnion uses, and what
  the operations do to the buffered tuples.
\<close>

section \<open>Buckets: invariant and operations\<close>

text \<open>
  What holds of every bucket between two operations: all tuples fit in the memory of their
  buffer, nothing counts as sent, and the two flags err on the safe side only.
\<close>

definition buffer_ok :: "tuples_buffer \<Rightarrow> bool" where
  "buffer_ok tb \<longleftrightarrow> lowest_index tb = 0 \<and> length (buffered tb) \<le> max_nb_tuples tb \<and> 0 < max_nb_tuples tb"

definition bucket_ok :: "nat \<Rightarrow> bucket \<Rightarrow> bool" where
  "bucket_ok n b \<longleftrightarrow> length (buffers b) = n \<and> length (boundaries b) = n \<and>
     (\<forall>tb \<in> set (buffers b). buffer_ok tb) \<and>
     ((\<exists>tb \<in> set (buffers b). buffered tb \<noteq> []) \<longrightarrow> contains_tuples b) \<and>
     ((\<exists>tb \<in> set (buffers b). \<not> tb_is_stable_buffer tb) \<longrightarrow> contains_tentative_tuples b)"

abbreviation contents :: "bucket \<Rightarrow> tuple list list" where
  "contents b \<equiv> map buffered (buffers b)"

lemma insert_buffer_ok: "buffer_ok tb \<Longrightarrow> buffer_ok (tb_insert_tuple now t tb)"
  by (auto simp: buffer_ok_def tb_insert_tuple_def Let_def)

lemma length_before_tentative: "length (before_tentative ts) \<le> length ts"
  by (induction ts) auto

lemma set_before_tentative: "t \<in> set (before_tentative ts) \<Longrightarrow> tuple_type t \<noteq> TENTATIVE \<and> t \<in> set ts"
  by (induction ts) (auto split: if_splits)

lemma buffer_ok_shrink: "buffer_ok tb \<Longrightarrow> length ts \<le> length (buffered tb) \<Longrightarrow> buffer_ok (tb\<lparr>buffered := ts\<rparr>)"
  by (simp add: buffer_ok_def)

lemma clear_buffer_ok:
  "buffer_ok tb \<Longrightarrow> buffer_ok (tb_clear tb)"
  "buffer_ok tb \<Longrightarrow> buffer_ok (tb_clear_after uid tb)"
  "buffer_ok tb \<Longrightarrow> buffer_ok (tb_clear_tentative tb)"
  "buffer_ok tb \<Longrightarrow> buffer_ok (tb_set_timer now tb)"
  by (auto simp: tb_clear_def tb_clear_after_def tb_clear_tentative_def tb_set_timer_def length_before_tentative
      intro!: buffer_ok_shrink split: option.split) (simp add: buffer_ok_def)

lemma new_buffer_ok: "buffer_ok TuplesBuffer_new"
  by (simp add: buffer_ok_def TuplesBuffer_new_def DEFAULT_SIZE_def)

lemma Bucket_new_ok: "bucket_ok n (Bucket_new n)"
  by (auto simp: bucket_ok_def Bucket_new_def new_buffer_ok) (simp_all add: TuplesBuffer_new_def tb_is_stable_buffer_def)

lemma insert_buffered [simp]: "buffered (tb_insert_tuple now t tb) = buffered tb @ [t]"
  by (simp add: tb_insert_tuple_def Let_def)

lemma clear_tentative_stable: "tb_is_stable_buffer (tb_clear_tentative tb)"
proof (cases "before_tentative (buffered tb) = []")
  case False
  then have "tuple_type (last (before_tentative (buffered tb))) \<noteq> TENTATIVE"
    using set_before_tentative last_in_set by blast
  then show ?thesis by (simp add: tb_is_stable_buffer_def tb_clear_tentative_def)
qed (simp add: tb_is_stable_buffer_def tb_clear_tentative_def)

lemma map_update_same: "i < length xs \<Longrightarrow> (map f xs)[i := f (xs ! i)] = map f xs"
  by (metis list_update_id map_update)

lemma set_list_update_cases: "x \<in> set (xs[i := y]) \<Longrightarrow> x = y \<or> x \<in> set xs"
  using set_update_subset_insert [of xs i y] by blast

lemma Bucket_insert_tuple_ok:
  assumes "bucket_ok n b"
  shows "bucket_ok n (Bucket_insert_tuple now stream t b)"
    "contents (Bucket_insert_tuple now stream t b) =
       (if stream < n then (contents b)[stream := contents b ! stream @ [t]] else contents b)"
    "boundaries (Bucket_insert_tuple now stream t b) = boundaries b"
proof -
  let ?tb = "tb_insert_tuple now t (buffers b ! stream)"
  have ok: "buffer_ok x" if "x \<in> set ((buffers b)[stream := ?tb])" "stream < length (buffers b)" for x
    using set_list_update_cases [OF that(1)] that(2) assms by (auto simp: bucket_ok_def intro: insert_buffer_ok)
  have st: "tuple_type t = TENTATIVE \<or> contains_tentative_tuples b"
    if "x \<in> set ((buffers b)[stream := ?tb])" "\<not> tb_is_stable_buffer x" for x
    using set_list_update_cases [OF that(1)] that(2) assms
    by (auto simp: bucket_ok_def tb_is_stable_buffer_def)
  show "bucket_ok n (Bucket_insert_tuple now stream t b)"
    using assms ok st by (auto simp: bucket_ok_def Bucket_insert_tuple_def on_buffer_def Let_def)
  show "contents (Bucket_insert_tuple now stream t b) =
       (if stream < n then (contents b)[stream := contents b ! stream @ [t]] else contents b)"
    using assms by (auto simp: bucket_ok_def Bucket_insert_tuple_def on_buffer_def Let_def map_update)
  show "boundaries (Bucket_insert_tuple now stream t b) = boundaries b"
    by (simp add: Bucket_insert_tuple_def on_buffer_def Let_def)
qed

text \<open>What overwriting makes of the tuples of a stream.\<close>

definition overwrite :: "tuple \<Rightarrow> tuple list \<Rightarrow> tuple list" where
  "overwrite t ts =
     (if tuple_type t = INSERTION
      then (if ts = [] \<or> tuple_type (last ts) \<noteq> TENTATIVE then ts else before_tentative ts) @ [t]
      else if ts = [] \<or> tuple_type (last ts) = TENTATIVE then ts @ [t] else ts)"

lemma Bucket_insert_tuple_overwriting_ok:
  assumes "bucket_ok n b"
  shows "bucket_ok n (Bucket_insert_tuple_overwriting now stream t b)"
    "contents (Bucket_insert_tuple_overwriting now stream t b) =
       (if stream < n then (contents b)[stream := overwrite t (contents b ! stream)] else contents b)"
    "boundaries (Bucket_insert_tuple_overwriting now stream t b) = boundaries b"
proof -
  let ?tb = "buffers b ! stream"
  let ?i = "tb_insert_tuple now t ?tb" and ?c = "tb_insert_tuple now t (tb_clear_tentative ?tb)"
  have len: "length (buffers b) = n" using assms by (simp add: bucket_ok_def)
  have ok: "buffer_ok x" if "x \<in> set ((buffers b)[stream := y])" "stream < n" "y = ?i \<or> y = ?c" for x y
    using set_list_update_cases [OF that(1)] that(2,3) assms
    by (auto simp: bucket_ok_def intro!: insert_buffer_ok clear_buffer_ok)
  have st: "tuple_type t \<noteq> INSERTION \<or> contains_tentative_tuples b"
    if "x \<in> set ((buffers b)[stream := ?i])" "\<not> tb_is_stable_buffer x" for x
    using set_list_update_cases [OF that(1)] that(2) assms
    by (auto simp: bucket_ok_def tb_is_stable_buffer_def)
  have stc: "\<exists>y \<in> set ((buffers b)[stream := tb_clear_tentative ?tb]). \<not> tb_is_stable_buffer y"
    if "x \<in> set ((buffers b)[stream := ?c])" "\<not> tb_is_stable_buffer x" "tuple_type t = INSERTION" "stream < n" for x
  proof -
    note x = that(1,2)
    have "tb_is_stable_buffer ?c" using that(3) by (simp add: tb_is_stable_buffer_def)
    then obtain i where "i < n" "i \<noteq> stream" "x = buffers b ! i"
      using x len by (metis in_set_conv_nth length_list_update nth_list_update_eq nth_list_update_neq)
    then show ?thesis using x(2) len by (metis in_set_conv_nth length_list_update nth_list_update_neq)
  qed
  show "bucket_ok n (Bucket_insert_tuple_overwriting now stream t b)"
  proof (cases "stream < n")
    case True
    consider "tuple_type t = INSERTION" "tb_is_stable_buffer ?tb"
      | "tuple_type t \<noteq> INSERTION" "\<not> tb_is_stable_buffer ?tb \<or> tb_is_empty ?tb"
      | "tuple_type t = INSERTION" "\<not> tb_is_stable_buffer ?tb"
      | "tuple_type t \<noteq> INSERTION" "tb_is_stable_buffer ?tb" "\<not> tb_is_empty ?tb" by blast
    then show ?thesis
    proof cases
      case 3
      then have "Bucket_insert_tuple_overwriting now stream t b =
          b\<lparr>buffers := (buffers b)[stream := ?c], contains_tuples := True,
            contains_tentative_tuples :=
              list_ex (\<lambda>tb. \<not> tb_is_stable_buffer tb) ((buffers b)[stream := tb_clear_tentative ?tb])\<rparr>"
        using True len
        by (simp add: Bucket_insert_tuple_overwriting_def on_buffer_def Bucket_reset_stability_def Let_def)
      then show ?thesis
        using assms ok [of _ ?c] stc 3 True len by (auto simp: bucket_ok_def list_ex_iff)
    qed (use assms ok [of _ ?i] st True len in
        \<open>auto simp: Bucket_insert_tuple_overwriting_def on_buffer_def Let_def bucket_ok_def\<close>)
  qed (use assms len in \<open>simp add: Bucket_insert_tuple_overwriting_def\<close>)
  show "contents (Bucket_insert_tuple_overwriting now stream t b) =
       (if stream < n then (contents b)[stream := overwrite t (contents b ! stream)] else contents b)"
    using len
    by (auto simp: Bucket_insert_tuple_overwriting_def on_buffer_def Bucket_reset_stability_def Let_def
        overwrite_def map_update map_update_same tb_is_stable_buffer_def tb_is_empty_def tb_clear_tentative_def)
  show "boundaries (Bucket_insert_tuple_overwriting now stream t b) = boundaries b"
    by (simp add: Bucket_insert_tuple_overwriting_def on_buffer_def Bucket_reset_stability_def Let_def)
qed

lemma Bucket_clear_all_tentative_tuples_ok:
  assumes "bucket_ok n b"
  shows "bucket_ok n (Bucket_clear_all_tentative_tuples b)"
    "contents (Bucket_clear_all_tentative_tuples b) = map before_tentative (contents b)"
    "\<not> contains_tentative_tuples (Bucket_clear_all_tentative_tuples b)"
    "boundaries (Bucket_clear_all_tentative_tuples b) = boundaries b"
proof -
  have no: "\<not> list_ex (\<lambda>tb. \<not> tb_is_stable_buffer tb) (map tb_clear_tentative (buffers b))"
    by (auto simp: list_ex_iff clear_tentative_stable)
  have "buffered tb \<noteq> []" if "buffered (tb_clear_tentative tb) \<noteq> []" for tb
    using that by (auto simp: tb_clear_tentative_def)
  then have "(\<exists>tb \<in> set (buffers b). buffered (tb_clear_tentative tb) \<noteq> []) \<longrightarrow>
      (\<exists>tb \<in> set (buffers b). buffered tb \<noteq> [])" by blast
  then show "bucket_ok n (Bucket_clear_all_tentative_tuples b)"
    using assms no
    by (simp add: bucket_ok_def Bucket_clear_all_tentative_tuples_def Bucket_reset_stability_def
        clear_buffer_ok clear_tentative_stable)
  show "contents (Bucket_clear_all_tentative_tuples b) = map before_tentative (contents b)"
    by (simp add: Bucket_clear_all_tentative_tuples_def Bucket_reset_stability_def tb_clear_tentative_def comp_def)
  show "\<not> contains_tentative_tuples (Bucket_clear_all_tentative_tuples b)"
    using no by (simp add: Bucket_clear_all_tentative_tuples_def Bucket_reset_stability_def)
  show "boundaries (Bucket_clear_all_tentative_tuples b) = boundaries b"
    by (simp add: Bucket_clear_all_tentative_tuples_def Bucket_reset_stability_def)
qed

text \<open>
  Tuples that come through the overwriting mode and are stable or tentative: on every stream the
  stable ones come first, and overwriting keeps all the stable ones there are.
\<close>

definition staged :: "tuple list \<Rightarrow> bool" where
  "staged ts \<longleftrightarrow> (\<exists>ss us. ts = ss @ us \<and> (\<forall>t \<in> set ss. tuple_type t = INSERTION) \<and>
     (\<forall>t \<in> set us. tuple_type t = TENTATIVE))"

lemma stagedI: "\<forall>t \<in> set ss. tuple_type t = INSERTION \<Longrightarrow> \<forall>t \<in> set us. tuple_type t = TENTATIVE \<Longrightarrow> staged (ss @ us)"
  unfolding staged_def by blast

lemma before_tentative_staged:
  "\<forall>t \<in> set ss. tuple_type t = INSERTION \<Longrightarrow> \<forall>t \<in> set us. tuple_type t = TENTATIVE \<Longrightarrow>
   before_tentative (ss @ us) = ss"
proof (induction ss)
  case Nil
  then show ?case by (cases us) auto
next
  case (Cons s ss)
  then show ?case by simp
qed

lemma overwrite_staged:
  assumes "staged ts" "tuple_type t = INSERTION \<or> tuple_type t = TENTATIVE"
  shows "staged (overwrite t ts)"
    "filter (is_type INSERTION) (overwrite t ts) =
       filter (is_type INSERTION) ts @ (if tuple_type t = INSERTION then [t] else [])"
proof -
  obtain ss us where ts: "ts = ss @ us" "\<forall>t \<in> set ss. tuple_type t = INSERTION"
    "\<forall>t \<in> set us. tuple_type t = TENTATIVE" using assms(1) by (auto simp: staged_def)
  have f: "filter (is_type INSERTION) ss = ss" "filter (is_type INSERTION) us = []"
    using ts(2,3) by (auto simp: is_type_def intro!: filter_True filter_False)
  have last: "ts = [] \<or> (tuple_type (last ts) = TENTATIVE \<longleftrightarrow> us \<noteq> [])"
    using ts by (cases "us = []") auto
  have bt: "before_tentative ts = ss" using before_tentative_staged ts by simp
  consider (s) "tuple_type t = INSERTION" | (u) "tuple_type t = TENTATIVE" using assms(2) by blast
  then have "overwrite t ts = ss @ [t] \<and> tuple_type t = INSERTION \<or>
      overwrite t ts = ss @ us @ [t] \<and> tuple_type t = TENTATIVE \<or>
      overwrite t ts = ts \<and> tuple_type t = TENTATIVE"
    using last ts(1) bt by cases (auto simp: overwrite_def)
  then show "staged (overwrite t ts)" and "filter (is_type INSERTION) (overwrite t ts) =
      filter (is_type INSERTION) ts @ (if tuple_type t = INSERTION then [t] else [])"
    using ts f stagedI [of "ss @ [t]" "[]"] stagedI [of ss "us @ [t]"] stagedI [of ss us]
    by (auto simp: is_type_def)
qed

text \<open>Sending a bucket does not change it, and it sends every tuple once, in order.\<close>

lemma reset_lowest_ok: "buffer_ok tb \<Longrightarrow> tb_reset_lowest tb = tb"
  by (simp add: buffer_ok_def tb_reset_lowest_def)

lemma unsent_ok: "buffer_ok tb \<Longrightarrow> unsent tb = buffered tb"
  by (simp add: buffer_ok_def unsent_def)

lemma Bucket_emit_tuples_ok:
  assumes "bucket_ok n b"
  shows "\<exists>out. Bucket_emit_tuples ty b = Some (out, b) \<and>
    mset out = mset (map (retag ty) (concat (contents b))) \<and>
    (\<forall>k < n. subseq (map (retag ty) (contents b ! k)) out) \<and>
    (positive_times (buffers b) \<longrightarrow> ordered_buffers (buffers b) \<longrightarrow> sorted (map tuple_stime out))"
proof -
  have ok: "\<forall>tb \<in> set (buffers b). buffer_ok tb" "length (buffers b) = n"
    using assms by (simp_all add: bucket_ok_def)
  obtain out tbs1 where run: "emit_rounds (unsent_total (buffers b)) ty (buffers b) = Some (out, tbs1)"
    "mset out = mset (map (retag ty) (concat (map unsent (buffers b))))"
    using emit_rounds_total [OF order_refl] by blast
  have "map tb_reset_lowest tbs1 = buffers b"
    using emit_rounds_reset [OF run(1)] ok(1) by (simp add: reset_lowest_ok map_idI)
  then have "Bucket_emit_tuples ty b = Some (out, b)" by (simp add: Bucket_emit_tuples_def run(1))
  moreover have "map unsent (buffers b) = contents b" using ok(1) by (simp add: unsent_ok)
  then have "mset out = mset (map (retag ty) (concat (contents b)))" using run(2) by (simp only:)
  moreover have "subseq (map (retag ty) (contents b ! k)) out" if "k < n" for k
    using emit_rounds_subseq [OF run(1) _ order_refl, of k] that ok by (simp add: unsent_ok)
  moreover have "positive_times (buffers b) \<longrightarrow> ordered_buffers (buffers b) \<longrightarrow> sorted (map tuple_stime out)"
    using emit_rounds_sorted [OF _ _ run(1) order_refl] by blast
  ultimately show ?thesis by blast
qed

text \<open>
  A copy has the tuples, but it forgets which streams were bounded.
\<close>

lemma fold_insert_copy:
  "bucket_ok n c \<Longrightarrow> i < n \<Longrightarrow>
   bucket_ok n (fold (Bucket_insert_tuple now i) ts c) \<and>
   contents (fold (Bucket_insert_tuple now i) ts c) = (contents c)[i := contents c ! i @ ts] \<and>
   boundaries (fold (Bucket_insert_tuple now i) ts c) = boundaries c"
proof (induction ts arbitrary: c)
  case Nil
  then show ?case by (simp add: bucket_ok_def map_update_same)
next
  case (Cons t ts)
  note ins = Bucket_insert_tuple_ok [OF Cons.prems(1), of now i t]
  from Cons.IH [OF ins(1) Cons.prems(2)] show ?case
    using ins Cons.prems by (simp add: bucket_ok_def)
qed

lemma Bucket_deep_copy_ok:
  assumes "bucket_ok n b"
  shows "bucket_ok n (Bucket_deep_copy now b)" "contents (Bucket_deep_copy now b) = contents b"
    "boundaries (Bucket_deep_copy now b) = replicate n False"
proof -
  have len: "length (buffers b) = n" using assms by (simp add: bucket_ok_def)
  let ?copy = "\<lambda>k. fold (\<lambda>i c. fold (Bucket_insert_tuple now i) (buffered (buffers b ! i)) c) [0..<k] (Bucket_new n)"
  have "bucket_ok n (?copy k) \<and> contents (?copy k) = take k (contents b) @ replicate (n - k) [] \<and>
      boundaries (?copy k) = replicate n False" if "k \<le> n" for k
    using that
  proof (induction k)
    case 0
    show ?case using Bucket_new_ok [of n] by (simp add: Bucket_new_def TuplesBuffer_new_def)
  next
    case (Suc k)
    then have IH: "bucket_ok n (?copy k)" "contents (?copy k) = take k (contents b) @ replicate (n - k) []"
      "boundaries (?copy k) = replicate n False" by simp_all
    have nk: "replicate (n - k) [] = [] # replicate (n - Suc k) ([] :: tuple list)"
      using Suc.prems by (simp add: Suc_diff_Suc flip: replicate_Suc)
    note f = fold_insert_copy [OF IH(1), of k now "buffered (buffers b ! k)"]
    have "contents (?copy k) ! k = []" using IH(2) nk len Suc.prems by (simp add: nth_append)
    then have "contents (?copy (Suc k)) = (contents (?copy k))[k := buffered (buffers b ! k)]"
      using f Suc.prems by simp
    also have "\<dots> = take (Suc k) (contents b) @ replicate (n - Suc k) []"
      unfolding IH(2) nk using len Suc.prems by (simp add: take_Suc_conv_app_nth list_update_append)
    finally show ?case using f IH(3) Suc.prems by simp
  qed
  from this [of n] len show "bucket_ok n (Bucket_deep_copy now b)"
    "contents (Bucket_deep_copy now b) = contents b"
    "boundaries (Bucket_deep_copy now b) = replicate n False"
    by (simp_all add: Bucket_deep_copy_def)
qed

text \<open>
  \<open>clear_after\<close> should keep the tuples up to the one with the given id; it takes off the end as
  many as it should keep.
\<close>

lemma tuples_up_to_append:
  assumes "\<forall>t \<in> set us. tuple_id t \<noteq> uid" "tuple_id t = uid"
  shows "tuples_up_to uid n (us @ t # vs) = Some (n + length us + 1)"
  using assms by (induction us arbitrary: n) simp_all

lemma clear_after_keeps:
  assumes "\<forall>t \<in> set us. tuple_id t \<noteq> uid" "tuple_id t = uid" "buffered tb = us @ t # vs"
  shows "buffered (tb_clear_after uid tb) = take (length vs) (us @ t # vs)"
  using assms by (simp add: tb_clear_after_def tuples_up_to_append)

text \<open>A bucket whose tuples were all tentative still counts as not empty after their removal.\<close>

lemma find_highest_none: "\<forall>tb \<in> set tbs. buffered tb = [] \<Longrightarrow> find_highest_from i hi hv tbs = hi"
  by (induction tbs arbitrary: i) (simp_all add: tb_is_empty_def)

lemma get_last_tuple_after_clear:
  assumes "contains_tuples b" "\<forall>tb \<in> set (buffers b). before_tentative (buffered tb) = []"
  shows "Bucket_get_last_tuple (Bucket_clear_all_tentative_tuples b) = Inl Undefined"
proof -
  have "\<forall>tb \<in> set (map tb_clear_tentative (buffers b)). buffered tb = []"
    using assms(2) by (simp add: tb_clear_tentative_def)
  then show ?thesis
    using assms(1)
    by (simp add: Bucket_get_last_tuple_def Bucket_clear_all_tentative_tuples_def Bucket_reset_stability_def
        Bucket_find_highest_index_def find_highest_none Let_def)
qed

end
