(* ===== verification/SUnion_Box.thy ===== *)
theory SUnion_Box
  imports Bucket_Invariants "HOL-Library.AList"
begin

text \<open>
  The serialising union (boxes/SUnionQBox.cc, SUnionQBox.h): it sorts the tuples of its inputs
  into buckets of fixed time intervals, sends a bucket when all inputs are bounded beyond it (or,
  tentatively, when it has waited too long), and takes part in the recovery protocol as a state
  machine.
\<close>

section \<open>The state machine\<close>

datatype sunion_state_value =
    STABLE_STATE | TENTATIVE_STATE | UNDONE_STATE | CONVERGED_STATE
  | RECONCILING_STATE_ROLLBACK | RECONCILING_STATE_ROLLFORWARD | RECONCILING_STATE_INTERRUPTED

record sunion_state =
  state_value :: sunion_state_value
  tentative_start :: timestamp
  tentative_interval_nb :: int
  overwrite_tentatives :: bool

definition State_new :: "timestamp \<Rightarrow> sunion_state" where
  "State_new now =
     \<lparr>state_value = STABLE_STATE, tentative_start = now, tentative_interval_nb = 0,
      overwrite_tentatives = False\<rparr>"

definition State_reset :: "sunion_state \<Rightarrow> sunion_state" where
  "State_reset s = s\<lparr>state_value := STABLE_STATE\<rparr>"

definition is_stable :: "sunion_state \<Rightarrow> bool" where
  "is_stable s \<longleftrightarrow> state_value s = STABLE_STATE"

definition is_tentative :: "sunion_state \<Rightarrow> bool" where
  "is_tentative s \<longleftrightarrow> state_value s = TENTATIVE_STATE"

definition can_process_tentative :: "sunion_state \<Rightarrow> bool" where
  "can_process_tentative s \<longleftrightarrow> state_value s = STABLE_STATE \<or> state_value s = TENTATIVE_STATE \<or>
     state_value s = CONVERGED_STATE"

definition processing_tentative_bucket :: "timestamp \<Rightarrow> int \<Rightarrow> sunion_state \<Rightarrow> sunion_state" where
  "processing_tentative_bucket start interval_nb s =
     (if state_value s = STABLE_STATE
      then s\<lparr>tentative_start := start, tentative_interval_nb := interval_nb, state_value := TENTATIVE_STATE\<rparr>
      else s)"

definition undoing :: "sunion_state \<Rightarrow> sunion_state" where
  "undoing s = (if state_value s = TENTATIVE_STATE then s\<lparr>state_value := UNDONE_STATE\<rparr> else s)"

definition new_stable_bucket :: "sunion_state \<Rightarrow> sunion_state" where
  "new_stable_bucket s =
     (if state_value s = TENTATIVE_STATE \<or> state_value s = UNDONE_STATE
      then s\<lparr>state_value := CONVERGED_STATE\<rparr> else s)"

definition something_to_correct :: "sunion_state \<Rightarrow> bool" where
  "something_to_correct s \<longleftrightarrow> state_value s = CONVERGED_STATE"

definition reconciling_rollforward :: "sunion_state \<Rightarrow> sunion_state" where
  "reconciling_rollforward s = s\<lparr>state_value := RECONCILING_STATE_ROLLFORWARD\<rparr>"

definition is_reconciling_forward :: "sunion_state \<Rightarrow> bool" where
  "is_reconciling_forward s \<longleftrightarrow> state_value s = RECONCILING_STATE_ROLLFORWARD"

definition reconciling_interrupted :: "sunion_state \<Rightarrow> sunion_state" where
  "reconciling_interrupted s = s\<lparr>state_value := RECONCILING_STATE_INTERRUPTED\<rparr>"

definition is_reconciling_interrupted :: "sunion_state \<Rightarrow> bool" where
  "is_reconciling_interrupted s \<longleftrightarrow> state_value s = RECONCILING_STATE_INTERRUPTED"

definition reconciled :: "sunion_state \<Rightarrow> sunion_state" where
  "reconciled s =
     (if state_value s = RECONCILING_STATE_ROLLFORWARD then s\<lparr>state_value := STABLE_STATE\<rparr> else s)"

definition no_reconciliation :: "sunion_state \<Rightarrow> sunion_state" where
  "no_reconciliation s = (if state_value s \<noteq> STABLE_STATE then s\<lparr>state_value := TENTATIVE_STATE\<rparr> else s)"

definition start_overwrite_tentatives :: "sunion_state \<Rightarrow> sunion_state" where
  "start_overwrite_tentatives s = s\<lparr>overwrite_tentatives := True\<rparr>"

definition stop_overwrite_tentatives :: "sunion_state \<Rightarrow> sunion_state" where
  "stop_overwrite_tentatives s = s\<lparr>overwrite_tentatives := False\<rparr>"

section \<open>Configurations of the experiments\<close>

datatype MicroBenchmarkType =
    NONE | TUPLE_TYPES | UNDO_LOG | CHECKPOINT | SUNION | SUNION_BOUNDARY | SOUTPUT | BLOCK
  | ALL_TOGETHER_UNDO_REDO_NO_MOVE | ALL_TOGETHER_CHECKPOINT_REDO_NO_MOVE

definition do_serialize :: "MicroBenchmarkType \<Rightarrow> bool" where
  "do_serialize b \<longleftrightarrow> b = SUNION \<or> b = SUNION_BOUNDARY \<or> b = BLOCK \<or>
     b = ALL_TOGETHER_UNDO_REDO_NO_MOVE \<or> b = ALL_TOGETHER_CHECKPOINT_REDO_NO_MOVE"

definition do_boundary :: "MicroBenchmarkType \<Rightarrow> bool" where
  "do_boundary b \<longleftrightarrow> b = SUNION_BOUNDARY \<or> b = BLOCK \<or>
     b = ALL_TOGETHER_UNDO_REDO_NO_MOVE \<or> b = ALL_TOGETHER_CHECKPOINT_REDO_NO_MOVE"

definition do_checkpoint :: "MicroBenchmarkType \<Rightarrow> bool" where
  "do_checkpoint b \<longleftrightarrow> b = CHECKPOINT \<or> b = ALL_TOGETHER_CHECKPOINT_REDO_NO_MOVE"

definition do_block :: "MicroBenchmarkType \<Rightarrow> bool" where
  "do_block b \<longleftrightarrow> b = BLOCK"

section \<open>The box\<close>

text \<open>
  The maps keyed by interval or by input port are association lists with distinct keys;
  \<open>more_processing\<close> is the box's request to be scheduled again. Delays are rational numbers: the
  rounding of \<open>double\<close> is not modelled.
\<close>

type_synonym bucket_map = "(int \<times> bucket) list"

record sunion_box = scontrol_box +
  number_of_inputs :: nat
  number_of_data_outputs :: nat
  interval :: int
  max_msec_delays :: "int list"
  actual_msec_delays :: "rat list"
  stagger :: bool
  is_input_sunion :: bool
  input_rec_done :: "(nat \<times> timestamp) list"
  max_input_rec_done_timestamp :: timestamp
  expect_rec_done :: "nat list"
  buckets :: bucket_map
  current_interval_nb :: int
  checkpointed_interval_nb :: int
  benchmark :: MicroBenchmarkType
  should_reconcile :: bool
  su_state :: sunion_state
  more_processing :: bool

definition INIT :: int where "INIT = -1"

definition MAX_ALPHA :: rat where "MAX_ALPHA = 9 / 10"

definition MIN_ALPHA :: rat where "MIN_ALPHA = 350"

definition SMALL_DELAY :: int where "SMALL_DELAY = 200"

definition SUnion_init :: "sunion_box \<Rightarrow> sunion_box" where
  "SUnion_init s = s\<lparr>output_flags := \<lambda>_. False, current_interval_nb := INIT, checkpointed_interval_nb := INIT\<rparr>"

text \<open>\<open>setup_parameters\<close>: the parameters after their conversion from text.\<close>

definition SUnion_setup_parameters ::
  "int \<Rightarrow> bool \<Rightarrow> int list \<Rightarrow> int \<Rightarrow> int \<Rightarrow> MicroBenchmarkType \<Rightarrow> sunion_box \<Rightarrow> sunion_box" where
  "SUnion_setup_parameters ivl middle delays stagger_value reconcile_value bench s =
     s\<lparr>interval := ivl, is_input_sunion := \<not> middle, max_msec_delays := delays,
       actual_msec_delays := map (\<lambda>d. of_int d * MAX_ALPHA) delays,
       stagger := (stagger_value = 1), should_reconcile := (reconcile_value \<noteq> 0), benchmark := bench\<rparr>"

definition reset_delays :: "sunion_box \<Rightarrow> sunion_box" where
  "reset_delays s = s\<lparr>actual_msec_delays := map (\<lambda>d. of_int d * MAX_ALPHA) (max_msec_delays s)\<rparr>"

definition timestamp_to_interval_nb :: "sunion_box \<Rightarrow> timestamp \<Rightarrow> int" where
  "timestamp_to_interval_nb s t = cdiv (Timestamp_to_msecs t) (interval s)"

definition interval_nb_to_timestamp :: "sunion_box \<Rightarrow> int \<Rightarrow> timestamp" where
  "interval_nb_to_timestamp s n =
     (let usecs = n * interval s * 1000; sec = cdiv usecs 1000000
      in Timestamp sec (usecs - sec * 1000000))"

text \<open>The buckets from the current interval to that of the tuple are created.\<close>

definition create_bucket :: "timestamp \<Rightarrow> nat \<Rightarrow> nat \<Rightarrow> int \<Rightarrow> bucket_map \<Rightarrow> bucket_map" where
  "create_bucket now num_inputs stream i bs =
     (case map_of bs i of
        Some _ \<Rightarrow> bs
      | None \<Rightarrow> AList.update i (Bucket_set_timer now stream (Bucket_new num_inputs)) bs)"

text \<open>The loops that go down the intervals as long as there are buckets.\<close>

definition keys_below :: "int \<Rightarrow> (int \<times> 'a) list \<Rightarrow> nat" where
  "keys_below i bs = card {k \<in> fst ` set bs. k \<le> i}"

lemma keys_below_less:
  assumes "map_of bs i = Some b" "fst ` set bs' = fst ` set bs"
  shows "keys_below (i - 1) bs' < keys_below i bs"
proof -
  have "i \<in> fst ` set bs" using assms(1) by (metis domI dom_map_of_conv_image_fst)
  then have "{k \<in> fst ` set bs. k \<le> i - 1} \<subset> {k \<in> fst ` set bs. k \<le> i}" by force
  then show ?thesis unfolding keys_below_def assms(2) by (intro psubset_card_mono) auto
qed

function bound_buckets :: "nat \<Rightarrow> int \<Rightarrow> bucket_map \<Rightarrow> bucket_map" where
  "bound_buckets stream i bs =
     (case map_of bs i of
        None \<Rightarrow> bs
      | Some b \<Rightarrow>
          if Bucket_is_bounded_on stream b then bs
          else bound_buckets stream (i - 1) (AList.update i (Bucket_bound stream b) bs))"
  by auto
termination
proof (relation "measure (\<lambda>(stream, i, bs). keys_below i bs)")
  fix stream :: nat and i :: int and bs :: bucket_map and b
  assume "map_of bs i = Some b"
  moreover from this have "i \<in> fst ` set bs" by (metis domI dom_map_of_conv_image_fst)
  then have "fst ` set (AList.update i (Bucket_bound stream b) bs) = fst ` set bs"
    by (simp add: AList.dom_update insert_absorb)
  ultimately show "((stream, i - 1, AList.update i (Bucket_bound stream b) bs), (stream, i, bs))
      \<in> measure (\<lambda>(stream, i, bs). keys_below i bs)"
    using keys_below_less by simp
qed simp

declare bound_buckets.simps [simp del]

text \<open>\<open>insert_tuple_into_bucket\<close>.\<close>

definition insert_tuple_into_bucket :: "timestamp \<Rightarrow> tuple \<Rightarrow> nat \<Rightarrow> int \<Rightarrow> sunion_box \<Rightarrow> sunion_box" where
  "insert_tuple_into_bucket now t stream interval_nb s =
     (let s1 = (if current_interval_nb s = INIT then s\<lparr>current_interval_nb := interval_nb\<rparr> else s);
          bs1 = fold (create_bucket now (number_of_inputs s1) stream)
                  [current_interval_nb s1..interval_nb] (buckets s1)
      in if tuple_type t = BOUNDARY
         then s1\<lparr>buckets := bound_buckets stream (interval_nb - 1) bs1\<rparr>
         else
           let bs2 = create_bucket now (number_of_inputs s1) stream interval_nb bs1;
               b = the (map_of bs2 interval_nb);
               b1 = (if overwrite_tentatives (su_state s1)
                     then Bucket_insert_tuple_overwriting now stream t b
                     else Bucket_insert_tuple now stream t b)
           in s1\<lparr>buckets := AList.update interval_nb b1 bs2\<rparr>)"

text \<open>\<open>undo_redo\<close>: the last non-empty bucket before the interval.\<close>

function find_non_empty :: "int \<Rightarrow> bucket_map \<Rightarrow> int \<times> bucket option" where
  "find_non_empty i bs =
     (case map_of bs i of
        None \<Rightarrow> (i, None)
      | Some b \<Rightarrow> if Bucket_is_empty b then find_non_empty (i - 1) bs else (i, Some b))"
  by auto
termination
  by (relation "measure (\<lambda>(i, bs). keys_below i bs)") (simp_all add: keys_below_less)

declare find_non_empty.simps [simp del]

definition undo_redo :: "int \<Rightarrow> sunion_box \<Rightarrow> sunion_box result" where
  "undo_redo interval_nb s =
     (let (i, found) = find_non_empty (interval_nb - 1) (buckets s)
      in rbind (case found of
                  None \<Rightarrow> Inr s
                | Some b \<Rightarrow> rbind (Bucket_get_last_tuple b) (\<lambda>t. Inr (emit_undo_tuple t s)))
           (\<lambda>s1. Inr (s1\<lparr>su_state := reconciling_rollforward (su_state s1), current_interval_nb := i + 1\<rparr>)))"

definition SUnion_clear_all_tentative_tuples :: "sunion_box \<Rightarrow> sunion_box" where
  "SUnion_clear_all_tentative_tuples s =
     s\<lparr>buckets := map (map_prod id Bucket_clear_all_tentative_tuples) (buckets s)\<rparr>"

definition process_rec_done :: "tuple \<Rightarrow> nat \<Rightarrow> sunion_box \<Rightarrow> sunion_box" where
  "process_rec_done t stream s =
     (let ts = tuple_stime t;
          s1 = (if input_rec_done s = [] then s\<lparr>max_input_rec_done_timestamp := ts\<rparr>
                else if Timestamp_gt ts (max_input_rec_done_timestamp s)
                then s\<lparr>max_input_rec_done_timestamp := ts\<rparr> else s);
          s2 = s1\<lparr>input_rec_done := AList.update stream ts (input_rec_done s1)\<rparr>
      in if \<not> is_input_sunion s2 \<and> length (input_rec_done s2) = number_of_inputs s2
         then let s3 = emit_tuple t s2
              in s3\<lparr>input_rec_done := [], su_state := reconciled (su_state s3)\<rparr>
         else s2)"

definition handle_input_tuple :: "timestamp \<Rightarrow> tuple \<Rightarrow> nat \<Rightarrow> sunion_box \<Rightarrow> sunion_box result" where
  "handle_input_tuple now t stream s =
     (let interval_nb = timestamp_to_interval_nb s (tuple_stime t); ty = tuple_type t
      in if ty = UNDO_REDO_START then undo_redo interval_nb (reset_delays s)
         else if ty = UNDO
         then Inr (s\<lparr>su_state := start_overwrite_tentatives (su_state s),
                     expect_rec_done := List.insert stream (expect_rec_done s)\<rparr>)
         else if ty = RECONCILIATION_DONE
         then Inr (process_rec_done t stream (SUnion_clear_all_tentative_tuples
                (s\<lparr>su_state := stop_overwrite_tentatives (su_state s)\<rparr>)))
         else Inr (insert_tuple_into_bucket now t stream interval_nb s))"

section \<open>Producing output\<close>

text \<open>\<open>emit_tuples\<close>: on the one data output, or stream by stream on several.\<close>

definition SUnion_emit_tuples :: "TupleType \<Rightarrow> int \<Rightarrow> sunion_box \<Rightarrow> sunion_box result" where
  "SUnion_emit_tuples ty i s =
     (case map_of (buckets s) i of
        None \<Rightarrow> Inl Undefined
      | Some b \<Rightarrow>
          if number_of_data_outputs s = 1
          then (case Bucket_emit_tuples ty b of
                  None \<Rightarrow> Inl Undefined
                | Some (out, b1) \<Rightarrow>
                    Inr (s\<lparr>box_emitted := box_emitted s @ map (Pair DATA_STREAM) out,
                           buckets := AList.update i b1 (buckets s)\<rparr>))
          else Inr (s\<lparr>box_emitted := box_emitted s @
                 concat (map (\<lambda>(k, ts). map (Pair (DATA_STREAM + k)) ts)
                   (enumerate 0 (Bucket_emit_tuples_on_separate_outputs ty b)))\<rparr>))"

definition produce_boundary :: "timestamp \<Rightarrow> sunion_box \<Rightarrow> sunion_box" where
  "produce_boundary time s =
     (let s1 = emit_control_tuple DATA_STREAM BOUNDARY time s
      in if is_input_sunion s1 then emit_control_tuple CONTROL_STREAM BOUNDARY time s1 else s1)"

text \<open>\<open>garbage_collect\<close>: first to a non-empty stable bucket, then everything below it is erased.\<close>

function find_stable_bucket :: "int \<Rightarrow> bucket_map \<Rightarrow> int" where
  "find_stable_bucket i bs =
     (case map_of bs i of
        None \<Rightarrow> i
      | Some b \<Rightarrow> if Bucket_is_empty b \<or> Bucket_is_tentative b then find_stable_bucket (i - 1) bs else i)"
  by auto
termination
  by (relation "measure (\<lambda>(i, bs). keys_below i bs)") (simp_all add: keys_below_less)

declare find_stable_bucket.simps [simp del]

function erase_down :: "int \<Rightarrow> bucket_map \<Rightarrow> bucket_map" where
  "erase_down i bs =
     (case map_of bs i of None \<Rightarrow> bs | Some b \<Rightarrow> erase_down (i - 1) (AList.delete i bs))"
  by auto
termination
proof (relation "measure (\<lambda>(i, bs). length bs)")
  fix i :: int and bs :: bucket_map and b
  assume "map_of bs i = Some b"
  then have "(i, b) \<in> set bs" by (rule map_of_SomeD)
  then have "length (filter (\<lambda>p. fst p \<noteq> i) bs) < length bs" by (rule length_filter_less) simp
  then show "((i - 1, AList.delete i bs), (i, bs)) \<in> measure (\<lambda>(i, bs). length bs)"
    by (simp add: AList.delete_eq case_prod_unfold eq_commute)
qed simp

declare erase_down.simps [simp del]

definition garbage_collect :: "int \<Rightarrow> sunion_box \<Rightarrow> sunion_box" where
  "garbage_collect i s = s\<lparr>buckets := erase_down (find_stable_bucket i (buckets s) - 1) (buckets s)\<rparr>"

definition process_output_un_stable_bucket :: "timestamp \<Rightarrow> int \<Rightarrow> sunion_box \<Rightarrow> (bool \<times> sunion_box) result" where
  "process_output_un_stable_bucket now i s =
     (case map_of (buckets s) i of
        None \<Rightarrow> Inl Undefined
      | Some b \<Rightarrow>
          if Bucket_is_expired now (actual_msec_delays s) b
          then rbind (SUnion_emit_tuples TENTATIVE i s) (\<lambda>s1.
            let s2 = s1\<lparr>output_flags := (output_flags s1)(DATA_STREAM := True),
                        su_state := processing_tentative_bucket (interval_nb_to_timestamp s i) i (su_state s1)\<rparr>;
                s3 = (if \<not> something_to_correct (su_state s2)
                      then emit_control_tuple CONTROL_STREAM UP_FAILURE (tentative_start (su_state s2)) s2
                      else s2);
                s4 = (if \<not> stagger s3
                      then s3\<lparr>actual_msec_delays := map (\<lambda>_. MIN_ALPHA) (actual_msec_delays s3)\<rparr> else s3)
            in Inr (True, s4))
          else Inr (False, s))"

definition process_output_stable_bucket :: "timestamp \<Rightarrow> int \<Rightarrow> sunion_box \<Rightarrow> (bool \<times> sunion_box) result" where
  "process_output_stable_bucket now i s =
     (let s0 = s\<lparr>su_state := new_stable_bucket (su_state s)\<rparr>; st = su_state s0
      in if is_stable st \<or> is_reconciling_forward st
         then rbind (SUnion_emit_tuples INSERTION i s0) (\<lambda>s1.
           let s2 = s1\<lparr>output_flags := (output_flags s1)(DATA_STREAM := True)\<rparr>;
               s3 = (if do_boundary (benchmark s2)
                     then produce_boundary (interval_nb_to_timestamp s2 (i + 1)) s2 else s2);
               s4 = (if \<not> do_checkpoint (benchmark s3) \<or> \<not> is_input_sunion s3
                     then garbage_collect i s3 else s3)
           in Inr (True, s4))
         else if something_to_correct st \<and> should_reconcile s0
         then let s1 = emit_control_tuple CONTROL_STREAM RECONCILIATION_REQUEST (tentative_start st) s0
              in if i = current_interval_nb s1 then process_output_un_stable_bucket now i s1
                 else Inr (False, s1)
         else if \<not> should_reconcile s0 then process_output_un_stable_bucket now i s0
         else Inr (False, s0))"

text \<open>The request to be scheduled again when the next bucket is ready.\<close>

definition next_bucket_ready :: "timestamp \<Rightarrow> sunion_box \<Rightarrow> bool" where
  "next_bucket_ready now s \<longleftrightarrow>
     (case map_of (buckets s) (current_interval_nb s) of
        None \<Rightarrow> False
      | Some b \<Rightarrow> (\<not> Bucket_is_tentative b \<and> Bucket_is_bounded b) \<or>
          (can_process_tentative (su_state s) \<and> Bucket_is_expired now (actual_msec_delays s) b))"

text \<open>The two parts of \<open>produce_output\<close>: the first tentative bucket, then the current one.\<close>

definition produce_first_tentative :: "timestamp \<Rightarrow> sunion_box \<Rightarrow> sunion_box result" where
  "produce_first_tentative now s =
     (if is_tentative (su_state s) \<and> should_reconcile s
      then let i = tentative_interval_nb (su_state s)
           in case map_of (buckets s) i of
                None \<Rightarrow> Inr s
              | Some b \<Rightarrow> if \<not> Bucket_is_tentative b \<and> Bucket_is_bounded b
                  then rbind (process_output_stable_bucket now i s) (\<lambda>(p, s1). Inr s1) else Inr s
      else Inr s)"

definition advance_if :: "bool \<times> sunion_box \<Rightarrow> sunion_box" where
  "advance_if = (\<lambda>(p, s). if p then s\<lparr>current_interval_nb := current_interval_nb s + 1\<rparr> else s)"

definition produce_current :: "timestamp \<Rightarrow> sunion_box \<Rightarrow> sunion_box result" where
  "produce_current now s =
     (let i = current_interval_nb s
      in case map_of (buckets s) i of
           None \<Rightarrow> Inr s
         | Some b \<Rightarrow>
             if \<not> Bucket_is_tentative b \<and> Bucket_is_bounded b
             then rbind (process_output_stable_bucket now i s) (\<lambda>r. Inr (advance_if r))
             else if (can_process_tentative (su_state s) \<or> \<not> should_reconcile s) \<and> \<not> do_block (benchmark s)
             then rbind (process_output_un_stable_bucket now i s) (\<lambda>r. Inr (advance_if r))
             else if is_reconciling_forward (su_state s) \<and> Bucket_is_expired now (actual_msec_delays s) b \<and>
                     expect_rec_done s = []
             then let time = interval_nb_to_timestamp s i
                  in Inr (emit_control_tuple CONTROL_STREAM RECONCILIATION_DONE time
                       (emit_control_tuple DATA_STREAM RECONCILIATION_DONE time
                         (s\<lparr>su_state := reconciling_interrupted (su_state s)\<rparr>)))
             else Inr s)"

definition produce_output :: "timestamp \<Rightarrow> sunion_box \<Rightarrow> sunion_box result" where
  "produce_output now s =
     rbind (produce_first_tentative now s) (\<lambda>s1.
     rbind (produce_current now s1) (\<lambda>s2.
       Inr (if current_interval_nb s1 \<noteq> current_interval_nb s2 \<and> next_bucket_ready now s2
            then s2\<lparr>more_processing := True\<rparr> else s2)))"

definition check_for_end_of_reconciliation :: "timestamp \<Rightarrow> sunion_box \<Rightarrow> sunion_box" where
  "check_for_end_of_reconciliation now s =
     (case map_of (buckets s) (current_interval_nb s) of
        None \<Rightarrow> s
      | Some b \<Rightarrow>
          let first = Bucket_get_first_tuple_time now b;
              time = interval_nb_to_timestamp s (current_interval_nb s)
          in if length (input_rec_done s) = length (expect_rec_done s) \<and>
                Timestamp_to_msecs (Timestamp_minus now first) < SMALL_DELAY \<and>
                (input_rec_done s = [] \<or> Timestamp_gt time (max_input_rec_done_timestamp s))
             then emit_control_tuple CONTROL_STREAM RECONCILIATION_DONE time
                    (emit_control_tuple DATA_STREAM RECONCILIATION_DONE time
                      (s\<lparr>input_rec_done := [], expect_rec_done := [], su_state := reconciled (su_state s)\<rparr>))
             else s)"

section \<open>A run\<close>

text \<open>
  The inputs are the tuples queued per port. The clock is read once per run: \<open>now\<close>. One bucket is
  produced per run, whatever the state (\<open>MAX_ITERATIONS_DURING_RECONCILIATION\<close> is 1).
\<close>

fun pure_union_ports ::
  "nat \<Rightarrow> qbox_invocation \<Rightarrow> tuple list list \<Rightarrow> sunion_box \<Rightarrow> qbox_invocation \<times> tuple list list \<times> sunion_box" where
  "pure_union_ports i qi [] s = (qi, [], s)"
| "pure_union_ports i qi (xs # inputs) s =
     (let (qi1, rest, s1) = run_port i emit_tuple qi xs s;
          (qi2, rests, s2) = pure_union_ports (Suc i) qi1 inputs s1
      in (qi2, rest # rests, s2))"

fun sunion_ports ::
  "timestamp \<Rightarrow> nat \<Rightarrow> qbox_invocation \<Rightarrow> tuple list list \<Rightarrow> sunion_box result
   \<Rightarrow> qbox_invocation \<times> tuple list list \<times> sunion_box result" where
  "sunion_ports now i qi [] r = (qi, [], r)"
| "sunion_ports now i qi (xs # inputs) r =
     (let (qi1, rest, r1) = run_port i (\<lambda>t r. rbind r (handle_input_tuple now t i)) qi xs r;
          (qi2, rests, r2) = sunion_ports now (Suc i) qi1 inputs r1
      in (qi2, rest # rests, r2))"

definition SUnionQBox_run ::
  "timestamp \<Rightarrow> qbox_invocation \<Rightarrow> tuple list list \<Rightarrow> sunion_box
   \<Rightarrow> qbox_invocation \<times> tuple list list \<times> (nat list \<times> sunion_box) result" where
  "SUnionQBox_run now qi inputs s =
     (if \<not> do_serialize (benchmark s)
      then let (qi1, rests, s1) = pure_union_ports 0 qi inputs s in (qi1, rests, Inr (notify_outputs s1))
      else let (qi1, rests, r) = sunion_ports now 0 qi inputs (Inr s)
           in (qi1, rests,
               rbind r (\<lambda>s1. rbind (produce_output now s1) (\<lambda>s2.
                 let s3 = (if is_reconciling_forward (su_state s2) \<and> is_input_sunion s2
                           then check_for_end_of_reconciliation now s2 else s2)
                 in Inr (notify_outputs (s3\<lparr>output_flags := (output_flags s3)(DATA_STREAM := True)\<rparr>))))))"

section \<open>Checkpoints\<close>

definition is_stable_for_checkpoint :: "sunion_box \<Rightarrow> bool" where
  "is_stable_for_checkpoint s \<longleftrightarrow> is_stable (su_state s) \<or> is_reconciling_interrupted (su_state s)"

definition do_unpack_queues :: "sunion_box \<Rightarrow> bool" where
  "do_unpack_queues s \<longleftrightarrow> \<not> is_input_sunion s"

text \<open>The two kinds of packed state.\<close>

datatype sunion_box_state =
    SUnionBoxNoBucketState int
  | SUnionBoxState int bucket_map

definition SUnion_pack_state :: "timestamp \<Rightarrow> sunion_box \<Rightarrow> sunion_box_state \<times> sunion_box" where
  "SUnion_pack_state now s =
     (let s1 = (if is_reconciling_interrupted (su_state s) then s\<lparr>su_state := State_reset (su_state s)\<rparr> else s);
          s2 = s1\<lparr>checkpointed_interval_nb := current_interval_nb s1\<rparr>;
          s3 = garbage_collect (checkpointed_interval_nb s2 - 1) s2
      in (if is_input_sunion s3 then SUnionBoxNoBucketState (checkpointed_interval_nb s3)
          else SUnionBoxState (checkpointed_interval_nb s3)
                 (map (map_prod id (Bucket_deep_copy now)) (buckets s3)), s3))"

text \<open>A packed state of the wrong kind makes a null pointer.\<close>

definition SUnion_unpack_state :: "timestamp \<Rightarrow> sunion_box_state \<Rightarrow> sunion_box \<Rightarrow> sunion_box result" where
  "SUnion_unpack_state now ps s =
     rbind
       (if is_input_sunion s
        then (case ps of SUnionBoxNoBucketState i \<Rightarrow>
                Inr (s\<lparr>current_interval_nb := i, su_state := reconciling_rollforward (su_state s)\<rparr>)
              | _ \<Rightarrow> Inl Undefined)
        else (case ps of SUnionBoxState i bs \<Rightarrow>
                Inr (s\<lparr>current_interval_nb := i, buckets := map (map_prod id (Bucket_deep_copy now)) bs,
                       su_state := reconciling_rollforward (su_state s)\<rparr>)
              | _ \<Rightarrow> Inl Undefined))
       (\<lambda>s1. Inr (reset_delays s1))"

end
