(* ===== verification/SUnion_Contents.thy ===== *)
theory SUnion_Contents
  imports SUnion_Box
begin

text \<open>
  What SUnion's buckets hold: the invariant of the bucket map, and the contents of every bucket
  as a function of what arrived on each input alone, so that replicas that see the same inputs
  in different interleavings send the same sequence.
\<close>

section \<open>The bucket map\<close>

definition bmap_ok :: "nat \<Rightarrow> bucket_map \<Rightarrow> bool" where
  "bmap_ok n bs \<longleftrightarrow> (\<forall>i b. map_of bs i = Some b \<longrightarrow> bucket_ok n b)"

text \<open>The tuples of stream \<open>k\<close> in the bucket of interval \<open>i\<close>.\<close>

definition bcontents :: "bucket_map \<Rightarrow> int \<Rightarrow> nat \<Rightarrow> tuple list" where
  "bcontents bs i k =
     (case map_of bs i of Some b \<Rightarrow> if k < length (buffers b) then contents b ! k else [] | None \<Rightarrow> [])"

lemma bmap_okD: "bmap_ok n bs \<Longrightarrow> map_of bs i = Some b \<Longrightarrow> bucket_ok n b"
  by (simp add: bmap_ok_def)

lemma bmap_ok_update: "bmap_ok n bs \<Longrightarrow> bucket_ok n b \<Longrightarrow> bmap_ok n (AList.update i b bs)"
  by (simp add: bmap_ok_def AList.update_conv')

lemma bcontents_update:
  "bcontents (AList.update i b bs) j k =
     (if j = i then if k < length (buffers b) then contents b ! k else [] else bcontents bs j k)"
  by (simp add: bcontents_def AList.update_conv')

lemma set_timer_ok:
  assumes "bucket_ok n b"
  shows "bucket_ok n (Bucket_set_timer now k b)" "contents (Bucket_set_timer now k b) = contents b"
    "boundaries (Bucket_set_timer now k b) = boundaries b"
proof -
  have buf: "buffered (tb_set_timer now tb) = buffered tb" for tb by (simp add: tb_set_timer_def)
  show c: "contents (Bucket_set_timer now k b) = contents b"
    using assms by (auto simp: Bucket_set_timer_def on_buffer_def map_update buf map_update_same bucket_ok_def)
  show "boundaries (Bucket_set_timer now k b) = boundaries b"
    by (simp add: Bucket_set_timer_def on_buffer_def)
  have st: "tb_is_stable_buffer (tb_set_timer now tb) = tb_is_stable_buffer tb" for tb
    by (simp add: tb_is_stable_buffer_def buf)
  have ok: "buffer_ok x" if "x \<in> set ((buffers b)[k := tb_set_timer now (buffers b ! k)])" "k < length (buffers b)" for x
    using set_list_update_cases [OF that(1)] that(2) assms by (auto simp: bucket_ok_def clear_buffer_ok)
  have "\<exists>y \<in> set (buffers b). buffered y = buffered x"
    if "x \<in> set ((buffers b)[k := tb_set_timer now (buffers b ! k)])" "k < length (buffers b)" for x
    using set_list_update_cases [OF that(1)] that(2) buf by auto
  then show "bucket_ok n (Bucket_set_timer now k b)"
    using assms ok by (fastforce simp: bucket_ok_def Bucket_set_timer_def on_buffer_def tb_is_stable_buffer_def)
qed

lemma create_bucket_ok:
  assumes "bmap_ok n bs"
  shows "bmap_ok n (create_bucket now n k i bs)" "bcontents (create_bucket now n k i bs) = bcontents bs"
    "map_of (create_bucket now n k i bs) i \<noteq> None"
proof -
  note new = set_timer_ok [OF Bucket_new_ok [of n], of now k]
  have empty: "j < n \<Longrightarrow> contents (Bucket_set_timer now k (Bucket_new n)) ! j = []" for j
    unfolding new(2) by (simp add: Bucket_new_def TuplesBuffer_new_def)
  show "bmap_ok n (create_bucket now n k i bs)"
    using assms new(1) by (simp add: create_bucket_def bmap_ok_update split: option.split)
  show "bcontents (create_bucket now n k i bs) = bcontents bs"
    using empty new(1)
    by (auto simp: create_bucket_def bcontents_update fun_eq_iff bucket_ok_def split: option.split)
      (auto simp: bcontents_def)
  show "map_of (create_bucket now n k i bs) i \<noteq> None"
    by (simp add: create_bucket_def AList.update_conv' split: option.split)
qed

lemma create_buckets_ok:
  "bmap_ok n bs \<Longrightarrow> bmap_ok n (fold (create_bucket now n k) is bs) \<and>
   bcontents (fold (create_bucket now n k) is bs) = bcontents bs"
  by (induction "is" arbitrary: bs) (simp_all add: create_bucket_ok)

lemma Bucket_bound_ok:
  "bucket_ok n b \<Longrightarrow> bucket_ok n (Bucket_bound k b)" "buffers (Bucket_bound k b) = buffers b"
  by (simp_all add: bucket_ok_def Bucket_bound_def)

lemma bound_buckets_ok:
  "bmap_ok n bs \<Longrightarrow> bmap_ok n (bound_buckets k i bs) \<and> bcontents (bound_buckets k i bs) = bcontents bs"
proof (induction k i bs rule: bound_buckets.induct)
  case (1 k i bs)
  show ?case
  proof (cases "map_of bs i")
    case None
    then show ?thesis using "1.prems" by (simp add: bound_buckets.simps [of k i bs])
  next
    case (Some b)
    let ?bs = "AList.update i (Bucket_bound k b) bs"
    have "bmap_ok n ?bs" using "1.prems" Some by (simp add: bmap_ok_update Bucket_bound_ok bmap_okD)
    moreover have "bcontents ?bs = bcontents bs"
      using Some by (auto simp: bcontents_update fun_eq_iff Bucket_bound_ok) (auto simp: bcontents_def)
    ultimately show ?thesis
      using "1.IH" [OF Some] Some "1.prems" by (simp add: bound_buckets.simps [of k i bs])
  qed
qed

section \<open>Insertion\<close>

text \<open>
  The invariant of the box: a positive interval, well-formed buckets, and in a failure the first
  tentative bucket lies in the past.
\<close>

definition sunion_ok :: "sunion_box \<Rightarrow> bool" where
  "sunion_ok s \<longleftrightarrow> 0 < interval s \<and> bmap_ok (number_of_inputs s) (buckets s) \<and>
     (state_value (su_state s) = TENTATIVE_STATE \<longrightarrow> tentative_interval_nb (su_state s) < current_interval_nb s)"

abbreviation held :: "sunion_box \<Rightarrow> int \<Rightarrow> nat \<Rightarrow> tuple list" where
  "held s \<equiv> bcontents (buckets s)"

text \<open>Everything but the buckets and the first interval stays the same.\<close>

definition same_control :: "sunion_box \<Rightarrow> sunion_box \<Rightarrow> bool" where
  "same_control s s' \<longleftrightarrow>
     s' = s\<lparr>buckets := buckets s', current_interval_nb := current_interval_nb s'\<rparr>"

lemma insert_tuple_into_bucket_ok:
  fixes i :: int and t :: tuple and now :: timestamp
  assumes "bmap_ok (number_of_inputs s) (buckets s)" "k < number_of_inputs s"
  defines "s' \<equiv> insert_tuple_into_bucket now t k i s"
  shows "bmap_ok (number_of_inputs s') (buckets s')" "same_control s s'"
    "current_interval_nb s' = (if current_interval_nb s = INIT then i else current_interval_nb s)"
    "held s' j l =
      (if j = i \<and> l = k \<and> tuple_type t \<noteq> BOUNDARY
       then if overwrite_tentatives (su_state s) then overwrite t (held s j l) else held s j l @ [t]
       else held s j l)"
proof -
  let ?n = "number_of_inputs s"
  define c where "c = (if current_interval_nb s = INIT then i else current_interval_nb s)"
  define bs1 where "bs1 = fold (create_bucket now ?n k) [c..i] (buckets s)"
  define bs2 where "bs2 = create_bucket now ?n k i bs1"
  have bs1: "bmap_ok ?n bs1" "bcontents bs1 = bcontents (buckets s)"
    using create_buckets_ok [OF assms(1)] by (simp_all add: bs1_def)
  have bs2: "bmap_ok ?n bs2" "bcontents bs2 = bcontents (buckets s)" "map_of bs2 i \<noteq> None"
    using create_bucket_ok [OF bs1(1)] bs1(2) by (simp_all add: bs2_def)
  then obtain b where b: "map_of bs2 i = Some b" by blast
  have bok: "bucket_ok ?n b" using bmap_okD [OF bs2(1) b] .
  then have len: "length (buffers b) = ?n" by (simp add: bucket_ok_def)
  let ?b = "if overwrite_tentatives (su_state s) then Bucket_insert_tuple_overwriting now k t b
      else Bucket_insert_tuple now k t b"
  have s1: "(if current_interval_nb s = INIT then s\<lparr>current_interval_nb := i\<rparr> else s) = s\<lparr>current_interval_nb := c\<rparr>"
    by (simp add: c_def)
  have s': "s' = (s\<lparr>current_interval_nb := c\<rparr>)\<lparr>buckets :=
      if tuple_type t = BOUNDARY then bound_buckets k (i - 1) bs1 else AList.update i ?b bs2\<rparr>"
    unfolding s'_def insert_tuple_into_bucket_def Let_def s1
    using b by (simp add: bs1_def [symmetric] bs2_def [symmetric])
  have cb: "held s i l = contents b ! l" if "l < ?n" for l
    unfolding bs2(2) [symmetric] using b len that by (simp add: bcontents_def)
  have bok': "bucket_ok ?n ?b" using Bucket_insert_tuple_overwriting_ok [OF bok] Bucket_insert_tuple_ok [OF bok] by simp
  have cont: "contents ?b = (contents b)[k := if overwrite_tentatives (su_state s)
      then overwrite t (contents b ! k) else contents b ! k @ [t]]"
    using Bucket_insert_tuple_overwriting_ok(2) [OF bok] Bucket_insert_tuple_ok(2) [OF bok] assms(2) by simp
  show "same_control s s'" by (simp add: s' same_control_def)
  show "current_interval_nb s' = (if current_interval_nb s = INIT then i else current_interval_nb s)"
    by (simp add: s' c_def)
  show "bmap_ok (number_of_inputs s') (buckets s')"
    using bound_buckets_ok [OF bs1(1)] bmap_ok_update [OF bs2(1) bok'] by (simp add: s')
  show "held s' j l =
      (if j = i \<and> l = k \<and> tuple_type t \<noteq> BOUNDARY
       then if overwrite_tentatives (su_state s) then overwrite t (held s j l) else held s j l @ [t]
       else held s j l)"
  proof (cases "tuple_type t = BOUNDARY")
    case True
    then show ?thesis using bound_buckets_ok [OF bs1(1)] bs1(2) by (simp add: s')
  next
    case False
    then have "held s' j l = bcontents (AList.update i ?b bs2) j l" by (simp add: s')
    also have "\<dots> = (if j = i then if l < ?n then contents ?b ! l else [] else held s j l)"
      using bok' bs2(2) by (simp add: bcontents_update bucket_ok_def)
    finally have eq: "held s' j l = (if j = i then if l < ?n then contents ?b ! l else [] else held s j l)" .
    have out: "held s i l = []" if "\<not> l < ?n"
      unfolding bs2(2) [symmetric] using b len that by (simp add: bcontents_def)
    show ?thesis unfolding eq cont using False cb out assms(2) len by (auto simp: nth_list_update)
  qed
qed

section \<open>Arrivals\<close>

text \<open>Tuples that are put into buckets or bound them, and what comes in on one port.\<close>

definition is_data :: "tuple \<Rightarrow> bool" where
  "is_data t \<longleftrightarrow> tuple_type t \<notin> {UNDO_REDO_START, UNDO, RECONCILIATION_DONE}"

definition on_port :: "nat \<Rightarrow> (nat \<times> tuple) list \<Rightarrow> tuple list" where
  "on_port k arr = map snd (filter (\<lambda>a. fst a = k) arr)"

definition feed :: "timestamp \<Rightarrow> (nat \<times> tuple) list \<Rightarrow> sunion_box \<Rightarrow> sunion_box result" where
  "feed now arr s = fold_result (\<lambda>(k, t). handle_input_tuple now t k) arr s"

definition arrivals_ok :: "nat \<Rightarrow> (nat \<times> tuple) list \<Rightarrow> bool" where
  "arrivals_ok n arr \<longleftrightarrow> (\<forall>a \<in> set arr. fst a < n \<and> is_data (snd a))"

text \<open>The data tuples for an interval.\<close>

definition for_interval :: "sunion_box \<Rightarrow> int \<Rightarrow> tuple list \<Rightarrow> tuple list" where
  "for_interval s i ts =
     filter (\<lambda>t. tuple_type t \<noteq> BOUNDARY \<and> timestamp_to_interval_nb s (tuple_stime t) = i) ts"

lemma same_control_simps:
  assumes "same_control s s'"
  shows "su_state s' = su_state s" "number_of_inputs s' = number_of_inputs s" "interval s' = interval s"
    "timestamp_to_interval_nb s' = timestamp_to_interval_nb s" "box_emitted s' = box_emitted s"
    "for_interval s' = for_interval s" "benchmark s' = benchmark s" "should_reconcile s' = should_reconcile s"
    "is_input_sunion s' = is_input_sunion s" "number_of_data_outputs s' = number_of_data_outputs s"
  by (subst assms [unfolded same_control_def], simp add: fun_eq_iff timestamp_to_interval_nb_def for_interval_def)+

lemma same_control_trans: "same_control s s' \<Longrightarrow> same_control s' s'' \<Longrightarrow> same_control s s''"
  by (cases s; cases s'; cases s'') (simp add: same_control_def)

text \<open>Every bucket holds, per port, what arrived for its interval, in the order of arrival.\<close>

lemma feed_held:
  assumes "bmap_ok (number_of_inputs s) (buckets s)" "arrivals_ok (number_of_inputs s) arr"
    and "\<not> overwrite_tentatives (su_state s)"
  shows "\<exists>s'. feed now arr s = Inr s' \<and> same_control s s' \<and> bmap_ok (number_of_inputs s') (buckets s') \<and>
    (\<forall>i k. held s' i k = held s i k @ for_interval s i (on_port k arr))"
  using assms
proof (induction arr arbitrary: s)
  case Nil
  then show ?case by (simp add: feed_def same_control_def on_port_def for_interval_def)
next
  case (Cons a arr)
  obtain k t where a: "a = (k, t)" by (cases a)
  let ?i = "timestamp_to_interval_nb s (tuple_stime t)"
  let ?s = "insert_tuple_into_bucket now t k ?i s"
  have k: "k < number_of_inputs s" and d: "is_data t" using Cons.prems(2) by (simp_all add: arrivals_ok_def a)
  note ins = insert_tuple_into_bucket_ok [OF Cons.prems(1) k, where t = t and now = now and i = ?i]
  note c = same_control_simps [OF ins(2)]
  have "handle_input_tuple now t k s = Inr ?s"
    using d by (simp add: handle_input_tuple_def is_data_def Let_def)
  then have step: "feed now (a # arr) s = feed now arr ?s" by (simp add: feed_def a)
  have "arrivals_ok (number_of_inputs ?s) arr" "\<not> overwrite_tentatives (su_state ?s)"
    using Cons.prems(2,3) c by (simp_all add: arrivals_ok_def)
  from Cons.IH [OF ins(1) this] obtain s' where s': "feed now arr ?s = Inr s'" "same_control ?s s'"
    "bmap_ok (number_of_inputs s') (buckets s')"
    "\<forall>i k. held s' i k = held ?s i k @ for_interval s i (on_port k arr)"
    by (auto simp: c)
  have "held s' i l = held s i l @ for_interval s i (on_port l (a # arr))" for i l
    using s'(4) ins(4) [of i l] Cons.prems(3) by (simp add: a on_port_def for_interval_def)
  then show ?case using step s' same_control_trans [OF ins(2) s'(2)] by auto
qed

section \<open>Sending depends on the contents only\<close>

lemma find_lowest_from_cong:
  "map unsent tbs = map unsent tbs' \<Longrightarrow> find_lowest_from i li lv tbs = find_lowest_from i li lv tbs'"
proof (induction tbs arbitrary: tbs' i li lv)
  case Nil
  then show ?case by simp
next
  case (Cons a tbs)
  then obtain a' tbs1 where t: "tbs' = a' # tbs1" "unsent a' = unsent a" "map unsent tbs = map unsent tbs1"
    by (cases tbs') auto
  show ?case
    using Cons.IH [OF t(3)] t(2) by (cases "unsent a = []") (simp_all add: t(1) more_tuples_unsent lowest_unsent)
qed

lemma find_second_from_cong:
  "map unsent tbs = map unsent tbs' \<Longrightarrow> find_second_from i li lv sv tbs = find_second_from i li lv sv tbs'"
proof (induction tbs arbitrary: tbs' i sv)
  case Nil
  then show ?case by simp
next
  case (Cons a tbs)
  then obtain a' tbs1 where t: "tbs' = a' # tbs1" "unsent a' = unsent a" "map unsent tbs = map unsent tbs1"
    by (cases tbs') auto
  show ?case
    using Cons.IH [OF t(3)] t(2) by (cases "unsent a = []") (auto simp: t(1) more_tuples_unsent lowest_unsent)
qed

lemma emit_rounds_cong:
  assumes "map unsent tbs = map unsent tbs'"
  shows "map_option fst (emit_rounds fuel ty tbs) = map_option fst (emit_rounds fuel ty tbs')"
  using assms
proof (induction fuel arbitrary: tbs tbs')
  case 0
  have "find_lowest_index tbs = find_lowest_index tbs'"
    unfolding find_lowest_index_def by (rule find_lowest_from_cong [OF 0])
  then show ?case by (simp add: emit_rounds.simps Let_def)
next
  case (Suc fuel)
  have li: "find_lowest_index tbs = find_lowest_index tbs'"
    unfolding find_lowest_index_def by (rule find_lowest_from_cong [OF Suc.prems])
  show ?case
  proof (cases "find_lowest_index tbs = -1")
    case True
    then show ?thesis using li by (simp add: emit_rounds.simps)
  next
    case False
    then obtain j where j: "find_lowest_index tbs = int j" "j < length tbs" "unsent (tbs ! j) \<noteq> []"
      by (rule find_lowest_index_some)
    have len: "length tbs' = length tbs" using Suc.prems map_eq_imp_length_eq by metis
    then have un: "unsent (tbs' ! j) = unsent (tbs ! j)" using Suc.prems j(2) by (metis nth_map)
    have j': "find_lowest_index tbs' = int j" "j < length tbs'" "unsent (tbs' ! j) \<noteq> []"
      using j li len un by simp_all
    have lv: "tb_lowest_value (tbs' ! j) = tb_lowest_value (tbs ! j)"
      using un j(3) by (simp add: lowest_unsent)
    have second: "find_second_lowest_value (int j) (tb_lowest_value (tbs' ! j)) tbs' =
        find_second_lowest_value (int j) (tb_lowest_value (tbs ! j)) tbs"
      unfolding lv find_second_lowest_value_def by (rule find_second_from_cong [OF Suc.prems, symmetric])
    let ?n = "run_length (find_second_lowest_value (int j) (tb_lowest_value (tbs ! j)) tbs) (unsent (tbs ! j))"
    obtain tb1 where st: "emit_rounds (Suc fuel) ty tbs =
        map_option (\<lambda>(rest, tbs1). (map (retag ty) (take ?n (unsent (tbs ! j))) @ rest, tbs1))
          (emit_rounds fuel ty (tbs[j := tb1]))" "unsent tb1 = drop ?n (unsent (tbs ! j))"
      using emit_rounds_step [OF j, of fuel ty] by blast
    obtain tb2 where st': "emit_rounds (Suc fuel) ty tbs' =
        map_option (\<lambda>(rest, tbs1). (map (retag ty) (take ?n (unsent (tbs ! j))) @ rest, tbs1))
          (emit_rounds fuel ty (tbs'[j := tb2]))" "unsent tb2 = drop ?n (unsent (tbs ! j))"
      using emit_rounds_step [OF j', of fuel ty] unfolding second un by blast
    have "map unsent (tbs[j := tb1]) = map unsent (tbs'[j := tb2])"
      using Suc.prems st(2) st'(2) by (simp add: map_update)
    from Suc.IH [OF this] show ?thesis unfolding st(1) st'(1)
      by (cases "emit_rounds fuel ty (tbs[j := tb1])"; cases "emit_rounds fuel ty (tbs'[j := tb2])") auto
  qed
qed

lemma Bucket_emit_tuples_cong:
  assumes "bucket_ok n b" "bucket_ok n b'" "contents b = contents b'"
  shows "map_option fst (Bucket_emit_tuples ty b) = map_option fst (Bucket_emit_tuples ty b')"
proof -
  have "map unsent (buffers b) = map unsent (buffers b')"
    using assms by (simp add: bucket_ok_def unsent_ok cong: map_cong)
  then have "map_option fst (emit_rounds (unsent_total (buffers b)) ty (buffers b)) =
      map_option fst (emit_rounds (unsent_total (buffers b')) ty (buffers b'))"
    using emit_rounds_cong unfolding unsent_total_def by (metis map_map)
  then show ?thesis
    unfolding Bucket_emit_tuples_def by (simp add: option.map_comp comp_def case_prod_unfold)
qed

text \<open>
  Replicas: two boxes that receive the same tuples on every port, in different interleavings,
  send the same sequence for every interval.
\<close>

lemma replicas_agree:
  assumes "bmap_ok (number_of_inputs s) (buckets s)" "\<not> overwrite_tentatives (su_state s)"
    and "arrivals_ok (number_of_inputs s) arr" "arrivals_ok (number_of_inputs s) arr'"
    and "\<forall>k. on_port k arr = on_port k arr'"
  shows "\<exists>s1 s2. feed now arr s = Inr s1 \<and> feed now' arr' s = Inr s2 \<and>
    (\<forall>i b1 b2. map_of (buckets s1) i = Some b1 \<longrightarrow> map_of (buckets s2) i = Some b2 \<longrightarrow>
       contents b1 = contents b2 \<and>
       map_option fst (Bucket_emit_tuples ty b1) = map_option fst (Bucket_emit_tuples ty b2))"
proof -
  obtain s1 where s1: "feed now arr s = Inr s1" "bmap_ok (number_of_inputs s1) (buckets s1)" "same_control s s1"
    "\<forall>i k. held s1 i k = held s i k @ for_interval s i (on_port k arr)"
    using feed_held [OF assms(1,3,2)] by blast
  obtain s2 where s2: "feed now' arr' s = Inr s2" "bmap_ok (number_of_inputs s2) (buckets s2)" "same_control s s2"
    "\<forall>i k. held s2 i k = held s i k @ for_interval s i (on_port k arr')"
    using feed_held [OF assms(1,4,2)] by blast
  have "contents b1 = contents b2 \<and>
       map_option fst (Bucket_emit_tuples ty b1) = map_option fst (Bucket_emit_tuples ty b2)"
    if b: "map_of (buckets s1) i = Some b1" "map_of (buckets s2) i = Some b2" for i b1 b2
  proof -
    have ok: "bucket_ok (number_of_inputs s) b1" "bucket_ok (number_of_inputs s) b2"
      using bmap_okD [OF s1(2) b(1)] bmap_okD [OF s2(2) b(2)]
        same_control_simps(2) [OF s1(3)] same_control_simps(2) [OF s2(3)] by simp_all
    then have len: "length (buffers b1) = number_of_inputs s" "length (buffers b2) = number_of_inputs s"
      by (simp_all add: bucket_ok_def)
    have "contents b1 ! k = contents b2 ! k" if "k < number_of_inputs s" for k
    proof -
      have "held s1 i k = held s2 i k" using s1(4) s2(4) assms(5) by simp
      then show ?thesis using b len that by (simp add: bcontents_def)
    qed
    then have "contents b1 = contents b2" using len by (intro nth_equalityI) auto
    then show ?thesis using Bucket_emit_tuples_cong [OF ok] by blast
  qed
  then show ?thesis using s1(1) s2(1) by blast
qed

end
