(* ===== verification/SUnion_Output.thy ===== *)
theory SUnion_Output
  imports SUnion_Contents
begin

text \<open>
  What SUnion sends: one run sends at most the bucket of the current interval, stable tuples only
  while it rolls forward after a failure, and every boundary it sends separates the tuples
  before it from those after it.
\<close>

section \<open>Intervals and times\<close>

text \<open>Times of tuples: normalised and not negative.\<close>

definition good_time :: "timestamp \<Rightarrow> bool" where
  "good_time t \<longleftrightarrow> ts_normal t \<and> 0 \<le> tv_sec t"

lemma good_time_usecs: "good_time t \<Longrightarrow> 0 \<le> Timestamp_to_usecs t"
  by (simp add: good_time_def ts_normal_def Timestamp_to_usecs_def)

lemma interval_to_usecs:
  assumes "0 < interval s" "0 \<le> n"
  shows "Timestamp_to_usecs (interval_nb_to_timestamp s n) = n * interval s * 1000"
    "ts_normal (interval_nb_to_timestamp s n)" "0 \<le> tv_sec (interval_nb_to_timestamp s n)"
proof -
  let ?u = "n * interval s * 1000"
  have u: "0 \<le> ?u" using assms by simp
  then have sec: "cdiv ?u 1000000 = ?u div 1000000" by simp
  have rest: "?u - ?u div 1000000 * 1000000 = ?u mod 1000000" by (rule minus_div_mult_eq_mod)
  have ts: "interval_nb_to_timestamp s n = Timestamp (?u div 1000000) (?u mod 1000000)"
    unfolding interval_nb_to_timestamp_def Let_def sec rest ..
  show "Timestamp_to_usecs (interval_nb_to_timestamp s n) = ?u"
    unfolding ts Timestamp_to_usecs_def timestamp.sel by (rule div_mult_mod_eq)
  show "ts_normal (interval_nb_to_timestamp s n)" unfolding ts by (simp add: ts_normal_def MILLION_def)
  show "0 \<le> tv_sec (interval_nb_to_timestamp s n)" unfolding ts using u by (simp add: pos_imp_zdiv_nonneg_iff)
qed

lemma interval_nb_nonneg: "0 < interval s \<Longrightarrow> good_time t \<Longrightarrow> 0 \<le> timestamp_to_interval_nb s t"
  using good_time_usecs [of t]
  by (simp add: timestamp_to_interval_nb_def Timestamp_to_msecs_def pos_imp_zdiv_nonneg_iff)

text \<open>A time lies in its interval; the start of an interval is in it.\<close>

lemma interval_contains:
  assumes "0 < interval s" "good_time t"
  defines "n \<equiv> timestamp_to_interval_nb s t"
  shows "interval_nb_to_timestamp s n \<le> t" "t < interval_nb_to_timestamp s (n + 1)"
proof -
  let ?u = "Timestamp_to_usecs t" and ?I = "interval s"
  have u: "0 \<le> ?u" using good_time_usecs [OF assms(2)] .
  have n: "n = ?u div 1000 div ?I"
    using u assms(1) by (simp add: n_def timestamp_to_interval_nb_def Timestamp_to_msecs_def pos_imp_zdiv_nonneg_iff)
  then have n': "n = ?u div (1000 * ?I)" using zdiv_zmult2_eq [of ?I ?u 1000] assms(1) by simp
  have n0: "0 \<le> n" using n u assms(1) by (simp add: pos_imp_zdiv_nonneg_iff)
  have pos: "0 < 1000 * ?I" using assms(1) by simp
  have lo: "n * ?I * 1000 \<le> ?u"
    using mult_div_mod_eq [of "1000 * ?I" ?u] pos_mod_sign [OF pos, of ?u] n' by (simp add: algebra_simps)
  have hi: "?u < (n + 1) * ?I * 1000"
    using mult_div_mod_eq [of "1000 * ?I" ?u] pos_mod_bound [OF pos, of ?u] n' by (simp add: algebra_simps)
  have nt: "ts_normal t" using assms(2) by (simp add: good_time_def)
  have "\<not> t < interval_nb_to_timestamp s n"
    using normal_less_usecs [OF nt interval_to_usecs(2) [OF assms(1) n0]] interval_to_usecs(1) [OF assms(1) n0] lo by simp
  then show "interval_nb_to_timestamp s n \<le> t" by simp
  show "t < interval_nb_to_timestamp s (n + 1)"
    using normal_less_usecs [OF nt interval_to_usecs(2) [OF assms(1), of "n + 1"]]
      interval_to_usecs(1) [OF assms(1), of "n + 1"] hi n0 by simp
qed

lemma interval_mono:
  assumes "0 < interval s" "0 \<le> m" "m \<le> n"
  shows "interval_nb_to_timestamp s m \<le> interval_nb_to_timestamp s n"
proof -
  have n: "0 \<le> n" using assms(2,3) by simp
  have "m * interval s * 1000 \<le> n * interval s * 1000" using assms by (intro mult_right_mono) auto
  then have "\<not> interval_nb_to_timestamp s n < interval_nb_to_timestamp s m"
    using normal_less_usecs [OF interval_to_usecs(2) [OF assms(1) n] interval_to_usecs(2) [OF assms(1,2)]]
      interval_to_usecs(1) [OF assms(1) n] interval_to_usecs(1) [OF assms(1,2)] by simp
  then show ?thesis by simp
qed

lemma interval_less:
  assumes "0 < interval s" "0 \<le> n"
  shows "interval_nb_to_timestamp s n < interval_nb_to_timestamp s (n + 1)"
proof -
  have n: "0 \<le> n + 1" using assms(2) by simp
  have "n * interval s * 1000 < (n + 1) * interval s * 1000" using assms(1) by (simp add: algebra_simps)
  then show ?thesis
    using normal_less_usecs [OF interval_to_usecs(2) [OF assms(1,2)] interval_to_usecs(2) [OF assms(1) n]]
      interval_to_usecs(1) [OF assms(1) n] interval_to_usecs(1) [OF assms(1,2)] by simp
qed

text \<open>Converting an interval to its start and back gives the interval.\<close>

lemma interval_round_trip:
  assumes "0 < interval s" "0 \<le> n"
  shows "timestamp_to_interval_nb s (interval_nb_to_timestamp s n) = n"
proof -
  have "Timestamp_to_usecs (interval_nb_to_timestamp s n) = n * interval s * 1000"
    by (rule interval_to_usecs(1) [OF assms])
  moreover have "0 \<le> n * interval s" using assms by simp
  ultimately show ?thesis
    using assms by (simp add: timestamp_to_interval_nb_def Timestamp_to_msecs_def)
qed

section \<open>The parts of a run\<close>

lemma emit_control_sel [simp]:
  fixes s :: sunion_box
  shows "buckets (emit_control_tuple st ty d s) = buckets s"
    "current_interval_nb (emit_control_tuple st ty d s) = current_interval_nb s"
    "su_state (emit_control_tuple st ty d s) = su_state s"
    "interval (emit_control_tuple st ty d s) = interval s"
    "number_of_inputs (emit_control_tuple st ty d s) = number_of_inputs s"
    "number_of_data_outputs (emit_control_tuple st ty d s) = number_of_data_outputs s"
    "is_input_sunion (emit_control_tuple st ty d s) = is_input_sunion s"
    "should_reconcile (emit_control_tuple st ty d s) = should_reconcile s"
    "benchmark (emit_control_tuple st ty d s) = benchmark s"
    "stagger (emit_control_tuple st ty d s) = stagger s"
    "actual_msec_delays (emit_control_tuple st ty d s) = actual_msec_delays s"
  by (simp_all add: emit_control_tuple_def write_output_def Let_def split: prod.splits)

lemma emit_control_interval [simp]:
  fixes s :: sunion_box
  shows "interval_nb_to_timestamp (emit_control_tuple st ty d s) = interval_nb_to_timestamp s"
  by (simp add: interval_nb_to_timestamp_def fun_eq_iff)

lemma emit_control_data:
  fixes s :: sunion_box
  shows "\<exists>t. tuple_type t = ty \<and> tuple_stime t = d \<and>
      data_out (emit_control_tuple DATA_STREAM ty d s) = data_out s @ [t]"
    "data_out (emit_control_tuple CONTROL_STREAM ty d s) = data_out s"
  by (auto simp: emit_control_tuple_def write_output_def Let_def split: prod.splits)

lemma port_out_pairs: "port_out p (map (Pair q) ts) = (if p = q then ts else [])"
  by (induction ts) auto

text \<open>On one output, sending a bucket only adds its tuples to the output.\<close>

lemma SUnion_emit_tuples_ok:
  assumes "bmap_ok (number_of_inputs s) (buckets s)" "number_of_data_outputs s = 1"
    and "map_of (buckets s) i = Some b"
  shows "\<exists>out. Bucket_emit_tuples ty b = Some (out, b) \<and>
    SUnion_emit_tuples ty i s = Inr (s\<lparr>box_emitted := box_emitted s @ map (Pair DATA_STREAM) out\<rparr>)"
proof -
  obtain out where out: "Bucket_emit_tuples ty b = Some (out, b)"
    using Bucket_emit_tuples_ok [OF bmap_okD [OF assms(1,3)]] by blast
  then have "SUnion_emit_tuples ty i s =
      Inr (s\<lparr>box_emitted := box_emitted s @ map (Pair DATA_STREAM) out, buckets := AList.update i b (buckets s)\<rparr>)"
    by (simp add: SUnion_emit_tuples_def assms(2,3))
  also have "AList.update i b (buckets s) = buckets s" using assms(3) by (rule AList.update_triv)
  finally show ?thesis using out by simp
qed

text \<open>What no operation of a run changes.\<close>

definition same_config :: "sunion_box \<Rightarrow> sunion_box \<Rightarrow> bool" where
  "same_config s s' \<longleftrightarrow> interval s' = interval s \<and> number_of_inputs s' = number_of_inputs s \<and>
     number_of_data_outputs s' = number_of_data_outputs s \<and> should_reconcile s' = should_reconcile s \<and>
     is_input_sunion s' = is_input_sunion s \<and> benchmark s' = benchmark s"

lemma same_config_trans: "same_config s s' \<Longrightarrow> same_config s' s'' \<Longrightarrow> same_config s s''"
  by (simp add: same_config_def)

lemma same_config_refl [simp]: "same_config s s"
  by (simp add: same_config_def)

lemma same_config_interval:
  assumes "same_config s s'"
  shows "interval_nb_to_timestamp s' = interval_nb_to_timestamp s"
    "timestamp_to_interval_nb s' = timestamp_to_interval_nb s"
  using assms
  by (simp_all add: same_config_def interval_nb_to_timestamp_def timestamp_to_interval_nb_def fun_eq_iff)

lemma process_output_un_stable_bucket_ok:
  assumes "bmap_ok (number_of_inputs s) (buckets s)" "number_of_data_outputs s = 1"
    and "map_of (buckets s) i = Some b"
  shows "\<exists>p s'. process_output_un_stable_bucket now i s = Inr (p, s') \<and> same_config s s' \<and>
    p = Bucket_is_expired now (actual_msec_delays s) b \<and>
    buckets s' = buckets s \<and> current_interval_nb s' = current_interval_nb s \<and>
    (if p then (\<exists>out. Bucket_emit_tuples TENTATIVE b = Some (out, b) \<and> data_out s' = data_out s @ out) \<and>
               su_state s' = processing_tentative_bucket (interval_nb_to_timestamp s i) i (su_state s)
     else s' = s)"
proof (cases "Bucket_is_expired now (actual_msec_delays s) b")
  case False
  then show ?thesis
    by (intro exI [of _ False] exI [of _ s]) (simp add: process_output_un_stable_bucket_def assms(3))
next
  case True
  obtain out where out: "Bucket_emit_tuples TENTATIVE b = Some (out, b)"
    "SUnion_emit_tuples TENTATIVE i s = Inr (s\<lparr>box_emitted := box_emitted s @ map (Pair DATA_STREAM) out\<rparr>)"
    using SUnion_emit_tuples_ok [OF assms] by blast
  let ?s1 = "s\<lparr>box_emitted := box_emitted s @ map (Pair DATA_STREAM) out\<rparr>"
  let ?st = "processing_tentative_bucket (interval_nb_to_timestamp s i) i (su_state s)"
  let ?s2 = "?s1\<lparr>output_flags := (output_flags s)(DATA_STREAM := True), su_state := ?st\<rparr>"
  let ?s3 = "if \<not> something_to_correct ?st
      then emit_control_tuple CONTROL_STREAM UP_FAILURE (tentative_start ?st) ?s2 else ?s2"
  define s4 where "s4 = (if \<not> stagger s
      then ?s3\<lparr>actual_msec_delays := map (\<lambda>_. MIN_ALPHA) (actual_msec_delays s)\<rparr> else ?s3)"
  have iv: "interval_nb_to_timestamp ?s1 i = interval_nb_to_timestamp s i"
    by (simp add: interval_nb_to_timestamp_def)
  have run: "process_output_un_stable_bucket now i s = Inr (True, s4)"
    using True by (simp add: process_output_un_stable_bucket_def assms(3) out(2) Let_def iv s4_def)
  have "same_config s s4" "buckets s4 = buckets s" "current_interval_nb s4 = current_interval_nb s"
    "su_state s4 = ?st" by (simp_all add: same_config_def s4_def)
  moreover have "data_out s4 = data_out s @ out"
    by (simp add: emit_control_data port_out_pairs s4_def)
  ultimately show ?thesis using run True out(1) by (intro exI [of _ True] exI [of _ s4]) simp
qed

text \<open>Garbage collection only removes buckets.\<close>

definition held_le :: "sunion_box \<Rightarrow> sunion_box \<Rightarrow> bool" where
  "held_le s' s \<longleftrightarrow> (\<forall>i b. map_of (buckets s') i = Some b \<longrightarrow> map_of (buckets s) i = Some b)"

lemma erase_down_le: "map_of (erase_down i bs) j = Some b \<Longrightarrow> map_of bs j = Some b"
proof (induction i bs rule: erase_down.induct)
  case (1 i bs)
  show ?case
  proof (cases "map_of bs i")
    case None
    then show ?thesis using "1.prems" by (simp add: erase_down.simps [of i bs])
  next
    case (Some c)
    then have "map_of (AList.delete i bs) j = Some b"
      using "1.prems" "1.IH" by (simp add: erase_down.simps [of i bs])
    then show ?thesis by (simp add: AList.delete_conv' split: if_splits)
  qed
qed

text \<open>The buckets above the one that is kept, and that one, stay.\<close>

lemma erase_down_above: "i < j \<Longrightarrow> map_of (erase_down i bs) j = map_of bs j"
proof (induction i bs rule: erase_down.induct)
  case (1 i bs)
  show ?case
  proof (cases "map_of bs i")
    case None
    then show ?thesis by (simp add: erase_down.simps [of i bs])
  next
    case (Some c)
    then show ?thesis using "1.prems" "1.IH" by (simp add: erase_down.simps [of i bs] AList.delete_conv')
  qed
qed

lemma find_stable_bucket_le: "find_stable_bucket i bs \<le> i"
proof (induction i bs rule: find_stable_bucket.induct)
  case (1 i bs)
  show ?case
  proof (cases "map_of bs i")
    case None
    then show ?thesis by (simp add: find_stable_bucket.simps [of i bs])
  next
    case (Some c)
    then show ?thesis using "1.IH" [of c] by (auto simp: find_stable_bucket.simps [of i bs])
  qed
qed

lemma find_stable_bucket_found:
  "map_of bs (find_stable_bucket i bs) = Some b \<Longrightarrow> contains_tuples b \<and> \<not> contains_tentative_tuples b"
proof (induction i bs rule: find_stable_bucket.induct)
  case (1 i bs)
  show ?case
  proof (cases "map_of bs i")
    case None
    then show ?thesis using "1.prems" by (simp add: find_stable_bucket.simps [of i bs])
  next
    case (Some c)
    then show ?thesis
      using "1.IH" [of c] "1.prems"
      by (cases "Bucket_is_empty c \<or> Bucket_is_tentative c")
        (auto simp: find_stable_bucket.simps [of i bs] Bucket_is_empty_def Bucket_is_tentative_def)
  qed
qed

lemma garbage_collect_keeps:
  "find_stable_bucket i (buckets s) \<le> j \<Longrightarrow> map_of (buckets (garbage_collect i s)) j = map_of (buckets s) j"
  by (simp add: garbage_collect_def erase_down_above)

lemma held_le_ok: "held_le s' s \<Longrightarrow> bmap_ok n (buckets s) \<Longrightarrow> bmap_ok n (buckets s')"
  by (auto simp: held_le_def bmap_ok_def)

lemma garbage_collect_ok:
  "held_le (garbage_collect i s) s" "same_config s (garbage_collect i s)"
  "current_interval_nb (garbage_collect i s) = current_interval_nb s"
  "su_state (garbage_collect i s) = su_state s" "data_out (garbage_collect i s) = data_out s"
  by (auto simp: garbage_collect_def held_le_def same_config_def dest: erase_down_le)

lemma produce_boundary_ok:
  "same_config s (produce_boundary d s)" "buckets (produce_boundary d s) = buckets s"
  "current_interval_nb (produce_boundary d s) = current_interval_nb s"
  "su_state (produce_boundary d s) = su_state s"
  "\<exists>t. tuple_type t = BOUNDARY \<and> tuple_stime t = d \<and> data_out (produce_boundary d s) = data_out s @ [t]"
  using emit_control_data(1) [of BOUNDARY d s]
  by (auto simp: produce_boundary_def same_config_def Let_def emit_control_data(2))

section \<open>Producing output\<close>

text \<open>The tuples of a bucket, followed by at most one boundary at the end of its interval.\<close>

definition sends_bucket :: "sunion_box \<Rightarrow> int \<Rightarrow> bucket \<Rightarrow> TupleType \<Rightarrow> tuple list \<Rightarrow> bool" where
  "sends_bucket s i b ty os \<longleftrightarrow> (\<exists>out bd. Bucket_emit_tuples ty b = Some (out, b) \<and> os = out @ bd \<and>
     (bd = [] \<or> (\<exists>t. bd = [t] \<and> tuple_type t = BOUNDARY \<and> tuple_stime t = interval_nb_to_timestamp s (i + 1))))"

lemma process_output_stable_bucket_sends:
  assumes "bmap_ok (number_of_inputs s) (buckets s)" "number_of_data_outputs s = 1"
    and "map_of (buckets s) i = Some b"
    and "is_stable (su_state s) \<or> is_reconciling_forward (su_state s)"
  shows "\<exists>s' os. process_output_stable_bucket now i s = Inr (True, s') \<and> same_config s s' \<and> held_le s' s \<and>
    current_interval_nb s' = current_interval_nb s \<and> su_state s' = su_state s \<and>
    data_out s' = data_out s @ os \<and> sends_bucket s i b INSERTION os"
proof -
  have st: "new_stable_bucket (su_state s) = su_state s"
    using assms(4) by (auto simp: new_stable_bucket_def is_stable_def is_reconciling_forward_def)
  have s: "s\<lparr>su_state := su_state s\<rparr> = s" by simp
  obtain out where out: "Bucket_emit_tuples INSERTION b = Some (out, b)"
    "SUnion_emit_tuples INSERTION i s = Inr (s\<lparr>box_emitted := box_emitted s @ map (Pair DATA_STREAM) out\<rparr>)"
    using SUnion_emit_tuples_ok [OF assms(1-3)] by blast
  define s2 where "s2 = s\<lparr>box_emitted := box_emitted s @ map (Pair DATA_STREAM) out,
      output_flags := (output_flags s)(DATA_STREAM := True)\<rparr>"
  define s3 where "s3 = (if do_boundary (benchmark s2) then produce_boundary (interval_nb_to_timestamp s2 (i + 1)) s2 else s2)"
  define s4 where "s4 = (if \<not> do_checkpoint (benchmark s3) \<or> \<not> is_input_sunion s3 then garbage_collect i s3 else s3)"
  have s2: "same_config s s2" "buckets s2 = buckets s" "current_interval_nb s2 = current_interval_nb s"
    "su_state s2 = su_state s" "data_out s2 = data_out s @ out"
    by (simp_all add: s2_def same_config_def port_out_pairs)
  obtain bd where bd: "data_out s3 = data_out s2 @ bd"
    "bd = [] \<or> (\<exists>t. bd = [t] \<and> tuple_type t = BOUNDARY \<and> tuple_stime t = interval_nb_to_timestamp s (i + 1))"
  proof (cases "do_boundary (benchmark s2)")
    case True
    obtain t where "tuple_type t = BOUNDARY" "tuple_stime t = interval_nb_to_timestamp s2 (i + 1)"
      "data_out s3 = data_out s2 @ [t]"
      using produce_boundary_ok(5) [where s = s2 and d = "interval_nb_to_timestamp s2 (i + 1)"] True by (auto simp: s3_def)
    then show ?thesis using that [of "[t]"] same_config_interval(1) [OF s2(1)] by simp
  next
    case False
    then show ?thesis using that [of "[]"] by (simp add: s3_def)
  qed
  have s3: "same_config s2 s3" "buckets s3 = buckets s" "current_interval_nb s3 = current_interval_nb s"
    "su_state s3 = su_state s"
    using produce_boundary_ok [where s = s2] s2 by (simp_all add: s3_def)
  have s4: "same_config s3 s4" "held_le s4 s" "current_interval_nb s4 = current_interval_nb s"
    "su_state s4 = su_state s" "data_out s4 = data_out s3"
    using garbage_collect_ok [where i = i and s = s3] s3 by (simp_all add: s4_def held_le_def)
  have "process_output_stable_bucket now i s = Inr (True, s4)"
    unfolding process_output_stable_bucket_def Let_def st s
    using assms(4) by (simp add: out(2) s4_def s3_def s2_def)
  moreover have "sends_bucket s i b INSERTION (out @ bd)" unfolding sends_bucket_def using out(1) bd(2) by blast
  ultimately show ?thesis
    using s4 bd(1) s2(5) same_config_trans [OF same_config_trans [OF s2(1) s3(1)] s4(1)] by auto
qed

lemma process_output_stable_bucket_waits:
  assumes "bmap_ok (number_of_inputs s) (buckets s)" "number_of_data_outputs s = 1"
    and "map_of (buckets s) i = Some b"
    and "\<not> is_stable (su_state s)" "\<not> is_reconciling_forward (su_state s)"
  shows "\<exists>p s'. process_output_stable_bucket now i s = Inr (p, s') \<and> same_config s s' \<and>
    buckets s' = buckets s \<and> current_interval_nb s' = current_interval_nb s \<and>
    su_state s' = new_stable_bucket (su_state s) \<and>
    (if p then \<exists>out. Bucket_emit_tuples TENTATIVE b = Some (out, b) \<and> data_out s' = data_out s @ out
     else data_out s' = data_out s) \<and>
    (p \<longrightarrow> (i = current_interval_nb s \<or> \<not> should_reconcile s) \<and>
       (something_to_correct (new_stable_bucket (su_state s)) \<or> \<not> should_reconcile s))"
proof -
  let ?st = "new_stable_bucket (su_state s)"
  let ?s0 = "s\<lparr>su_state := ?st\<rparr>"
  let ?s1 = "emit_control_tuple CONTROL_STREAM RECONCILIATION_REQUEST (tentative_start ?st) ?s0"
  have not: "\<not> is_stable ?st" "\<not> is_reconciling_forward ?st" "state_value ?st \<noteq> STABLE_STATE"
    using assms(4,5) by (auto simp: new_stable_bucket_def is_stable_def is_reconciling_forward_def split: if_splits)
  then have keep: "processing_tentative_bucket d j ?st = ?st" for d j by (simp add: processing_tentative_bucket_def)
  have c0: "same_config s ?s0" by (simp add: same_config_def)
  have c1: "same_config s ?s1" by (simp add: same_config_def)
  consider (req) "something_to_correct ?st" "should_reconcile s" "i = current_interval_nb s"
    | (req_only) "something_to_correct ?st" "should_reconcile s" "i \<noteq> current_interval_nb s"
    | (never) "\<not> should_reconcile s"
    | (none) "\<not> something_to_correct ?st" "should_reconcile s" by blast
  then show ?thesis
  proof cases
    case req
    have pre: "bmap_ok (number_of_inputs ?s1) (buckets ?s1)" "number_of_data_outputs ?s1 = 1" "map_of (buckets ?s1) i = Some b"
      using assms(1-3) by simp_all
    obtain p s' where u: "process_output_un_stable_bucket now i ?s1 = Inr (p, s')" "same_config ?s1 s'"
      "buckets s' = buckets ?s1" "current_interval_nb s' = current_interval_nb ?s1"
      "if p then (\<exists>out. Bucket_emit_tuples TENTATIVE b = Some (out, b) \<and> data_out s' = data_out ?s1 @ out) \<and>
               su_state s' = processing_tentative_bucket (interval_nb_to_timestamp ?s1 i) i (su_state ?s1) else s' = ?s1"
      using process_output_un_stable_bucket_ok [of ?s1 i b now] pre by blast
    then have "process_output_stable_bucket now i s = Inr (p, s')"
      using req not by (simp add: process_output_stable_bucket_def Let_def)
    then show ?thesis
      using u req keep same_config_trans [OF c1 u(2)] by (auto simp: emit_control_data(2) split: if_splits)
  next
    case req_only
    then have "process_output_stable_bucket now i s = Inr (False, ?s1)"
      using not by (simp add: process_output_stable_bucket_def Let_def)
    then show ?thesis using c1
      by (intro exI [of _ False] exI [of _ ?s1]) (simp add: emit_control_data(2))
  next
    case never
    have pre: "bmap_ok (number_of_inputs ?s0) (buckets ?s0)" "number_of_data_outputs ?s0 = 1" "map_of (buckets ?s0) i = Some b"
      using assms(1-3) by simp_all
    obtain p s' where u: "process_output_un_stable_bucket now i ?s0 = Inr (p, s')" "same_config ?s0 s'"
      "buckets s' = buckets ?s0" "current_interval_nb s' = current_interval_nb ?s0"
      "if p then (\<exists>out. Bucket_emit_tuples TENTATIVE b = Some (out, b) \<and> data_out s' = data_out ?s0 @ out) \<and>
               su_state s' = processing_tentative_bucket (interval_nb_to_timestamp ?s0 i) i (su_state ?s0) else s' = ?s0"
      using process_output_un_stable_bucket_ok [of ?s0 i b now] pre by blast
    then have "process_output_stable_bucket now i s = Inr (p, s')"
      using never not by (simp add: process_output_stable_bucket_def Let_def)
    then show ?thesis
      using u never keep same_config_trans [OF c0 u(2)] by (auto split: if_splits)
  next
    case none
    then have "process_output_stable_bucket now i s = Inr (False, ?s0)"
      using not by (simp add: process_output_stable_bucket_def Let_def)
    then show ?thesis using c0 by (intro exI [of _ False] exI [of _ ?s0]) simp
  qed
qed

text \<open>
  What a call may do to the output: nothing, a RECONCILIATION_DONE at the start of the current
  interval, or the current bucket, after which the next one is current.
\<close>

definition may_send_tentative :: "sunion_box \<Rightarrow> bool" where
  "may_send_tentative s \<longleftrightarrow> can_process_tentative (new_stable_bucket (su_state s)) \<or> \<not> should_reconcile s"

definition idle_outcome :: "sunion_box \<Rightarrow> sunion_box \<Rightarrow> bool" where
  "idle_outcome s s' \<longleftrightarrow> current_interval_nb s' = current_interval_nb s \<and>
     (data_out s' = data_out s \<or>
      (\<exists>t. data_out s' = data_out s @ [t] \<and> tuple_type t = RECONCILIATION_DONE \<and>
           tuple_stime t = interval_nb_to_timestamp s (current_interval_nb s)))"

definition sent_outcome :: "sunion_box \<Rightarrow> sunion_box \<Rightarrow> bool" where
  "sent_outcome s s' \<longleftrightarrow> current_interval_nb s' = current_interval_nb s + 1 \<and>
     (\<exists>b ty os. map_of (buckets s) (current_interval_nb s) = Some b \<and> data_out s' = data_out s @ os \<and>
        sends_bucket s (current_interval_nb s) b ty os \<and>
        (ty = INSERTION \<or> ty = TENTATIVE \<and> may_send_tentative s))"

definition produces :: "sunion_box \<Rightarrow> sunion_box \<Rightarrow> bool" where
  "produces s s' \<longleftrightarrow> same_config s s' \<and> held_le s' s \<and> sunion_ok s' \<and> (idle_outcome s s' \<or> sent_outcome s s')"

lemma sends_bucket_only: "Bucket_emit_tuples ty b = Some (out, b) \<Longrightarrow> sends_bucket s i b ty out"
  unfolding sends_bucket_def by auto

lemma sunion_ok_held_le:
  assumes "sunion_ok s" "same_config s s'" "held_le s' s"
    and "state_value (su_state s') = TENTATIVE_STATE \<longrightarrow> tentative_interval_nb (su_state s') < current_interval_nb s'"
  shows "sunion_ok s'"
  using assms held_le_ok [OF assms(3)] by (simp add: sunion_ok_def same_config_def)

lemma produce_current_ok:
  assumes "sunion_ok s" "number_of_data_outputs s = 1"
  shows "\<exists>s'. produce_current now s = Inr s' \<and> produces s s'"
proof (cases "map_of (buckets s) (current_interval_nb s)")
  case None
  then show ?thesis
    using assms(1) by (intro exI [of _ s]) (simp add: produce_current_def produces_def held_le_def idle_outcome_def)
next
  case (Some b)
  let ?i = "current_interval_nb s" and ?st = "su_state s"
  have bm: "bmap_ok (number_of_inputs s) (buckets s)" using assms(1) by (simp add: sunion_ok_def)
  have ti: "state_value ?st = TENTATIVE_STATE \<Longrightarrow> tentative_interval_nb ?st < ?i"
    using assms(1) by (simp add: sunion_ok_def)
  let ?ready = "\<not> Bucket_is_tentative b \<and> Bucket_is_bounded b"
  let ?may = "(can_process_tentative ?st \<or> \<not> should_reconcile s) \<and> \<not> do_block (benchmark s)"
  let ?fail = "is_reconciling_forward ?st \<and> Bucket_is_expired now (actual_msec_delays s) b \<and> expect_rec_done s = []"
  consider (send) ?ready "is_stable ?st \<or> is_reconciling_forward ?st"
    | (wait) ?ready "\<not> is_stable ?st" "\<not> is_reconciling_forward ?st"
    | (tent) "\<not> ?ready" ?may | (fail) "\<not> ?ready" "\<not> ?may" ?fail | (idle) "\<not> ?ready" "\<not> ?may" "\<not> ?fail"
    by blast
  then show ?thesis
  proof cases
    case send
    obtain s' os where r: "process_output_stable_bucket now ?i s = Inr (True, s')" "same_config s s'"
      "held_le s' s" "current_interval_nb s' = ?i" "su_state s' = ?st" "data_out s' = data_out s @ os"
      "sends_bucket s ?i b INSERTION os"
      using process_output_stable_bucket_sends [OF bm assms(2) Some send(2)] by blast
    let ?s = "s'\<lparr>current_interval_nb := ?i + 1\<rparr>"
    have run: "produce_current now s = Inr ?s" using send(1) Some r(1,4) by (simp add: produce_current_def Let_def advance_if_def)
    have "state_value ?st \<noteq> TENTATIVE_STATE" using send(2) by (auto simp: is_stable_def is_reconciling_forward_def)
    moreover have c: "same_config s ?s" "held_le ?s s" using r(2,3) by (simp_all add: same_config_def held_le_def)
    ultimately have "sunion_ok ?s" using sunion_ok_held_le [OF assms(1) c] r(5) by simp
    moreover have "sent_outcome s ?s" using Some r(6,7) by (auto simp: sent_outcome_def)
    ultimately show ?thesis using run c by (auto simp: produces_def)
  next
    case wait
    obtain p s' where r: "process_output_stable_bucket now ?i s = Inr (p, s')" "same_config s s'"
      "buckets s' = buckets s" "current_interval_nb s' = ?i" "su_state s' = new_stable_bucket ?st"
      "if p then \<exists>out. Bucket_emit_tuples TENTATIVE b = Some (out, b) \<and> data_out s' = data_out s @ out
       else data_out s' = data_out s"
      "p \<longrightarrow> (?i = current_interval_nb s \<or> \<not> should_reconcile s) \<and>
         (something_to_correct (new_stable_bucket ?st) \<or> \<not> should_reconcile s)"
      using process_output_stable_bucket_waits [OF bm assms(2) Some wait(2,3)] by blast
    let ?s = "advance_if (p, s')"
    have run: "produce_current now s = Inr ?s" using wait(1) Some r(1) by (simp add: produce_current_def Let_def)
    have c: "same_config s ?s" "held_le ?s s" "su_state ?s = new_stable_bucket ?st" "data_out ?s = data_out s'"
      using r(2,3,5) by (simp_all add: advance_if_def same_config_def held_le_def)
    have "state_value (new_stable_bucket ?st) \<noteq> TENTATIVE_STATE"
      by (simp add: new_stable_bucket_def)
    then have ok: "sunion_ok ?s" using sunion_ok_held_le [OF assms(1) c(1,2)] c(3) by simp
    show ?thesis
    proof (cases p)
      case True
      then obtain out where out: "Bucket_emit_tuples TENTATIVE b = Some (out, b)" "data_out s' = data_out s @ out"
        using r(6) by auto
      have "may_send_tentative s"
        using r(7) True by (auto simp: may_send_tentative_def something_to_correct_def can_process_tentative_def)
      then have "sent_outcome s ?s"
        using Some out sends_bucket_only [OF out(1)] r(4) True by (auto simp: sent_outcome_def advance_if_def)
      then show ?thesis using run c ok by (auto simp: produces_def)
    next
      case False
      then have "idle_outcome s ?s" using r(4,6) by (simp add: idle_outcome_def advance_if_def)
      then show ?thesis using run c ok by (auto simp: produces_def)
    qed
  next
    case tent
    obtain p s' where r: "process_output_un_stable_bucket now ?i s = Inr (p, s')" "same_config s s'"
      "buckets s' = buckets s" "current_interval_nb s' = ?i"
      "if p then (\<exists>out. Bucket_emit_tuples TENTATIVE b = Some (out, b) \<and> data_out s' = data_out s @ out) \<and>
               su_state s' = processing_tentative_bucket (interval_nb_to_timestamp s ?i) ?i ?st
       else s' = s"
      using process_output_un_stable_bucket_ok [OF bm assms(2) Some] by blast
    let ?s = "advance_if (p, s')"
    have run: "produce_current now s = Inr ?s" using tent Some r(1) by (auto simp: produce_current_def Let_def)
    have c: "same_config s ?s" "held_le ?s s" "su_state ?s = su_state s'" "data_out ?s = data_out s'"
      using r(2,3) by (simp_all add: advance_if_def same_config_def held_le_def)
    show ?thesis
    proof (cases p)
      case True
      then obtain out where out: "Bucket_emit_tuples TENTATIVE b = Some (out, b)" "data_out s' = data_out s @ out"
        "su_state s' = processing_tentative_bucket (interval_nb_to_timestamp s ?i) ?i ?st"
        using r(5) by auto
      have "state_value (su_state ?s) = TENTATIVE_STATE \<longrightarrow> tentative_interval_nb (su_state ?s) < current_interval_nb ?s"
        using ti r(4) True c(3) out(3) by (auto simp: processing_tentative_bucket_def advance_if_def)
      then have ok: "sunion_ok ?s" using sunion_ok_held_le [OF assms(1) c(1,2)] by simp
      have "may_send_tentative s"
        using tent(2) by (auto simp: may_send_tentative_def can_process_tentative_def new_stable_bucket_def)
      then have "sent_outcome s ?s"
        using Some out sends_bucket_only [OF out(1)] r(4) True by (auto simp: sent_outcome_def advance_if_def)
      then show ?thesis using run c ok by (auto simp: produces_def)
    next
      case False
      then have "?s = s" using r(5) by (simp add: advance_if_def)
      then show ?thesis using run assms(1) by (simp add: produces_def held_le_def idle_outcome_def)
    qed
  next
    case fail
    let ?t = "interval_nb_to_timestamp s ?i"
    let ?base = "s\<lparr>su_state := reconciling_interrupted ?st\<rparr>"
    let ?s = "emit_control_tuple CONTROL_STREAM RECONCILIATION_DONE ?t (emit_control_tuple DATA_STREAM RECONCILIATION_DONE ?t ?base)"
    have run: "produce_current now s = Inr ?s" using fail Some by (auto simp: produce_current_def Let_def)
    have c: "same_config s ?s" "held_le ?s s" by (simp_all add: same_config_def held_le_def)
    have "sunion_ok ?s" using sunion_ok_held_le [OF assms(1) c] by (simp add: reconciling_interrupted_def)
    moreover obtain t where "tuple_type t = RECONCILIATION_DONE" "tuple_stime t = ?t"
      "data_out (emit_control_tuple DATA_STREAM RECONCILIATION_DONE ?t ?base) = data_out ?base @ [t]"
      using emit_control_data(1) by blast
    then have "idle_outcome s ?s" by (auto simp: idle_outcome_def emit_control_data(2))
    ultimately show ?thesis using run c by (auto simp: produces_def)
  next
    case idle
    then have "produce_current now s = Inr s" using Some by (auto simp: produce_current_def Let_def)
    then show ?thesis using assms(1) by (simp add: produces_def held_le_def idle_outcome_def)
  qed
qed

lemma produce_first_tentative_ok:
  assumes "sunion_ok s" "number_of_data_outputs s = 1"
  shows "\<exists>s1. produce_first_tentative now s = Inr s1 \<and> same_config s s1 \<and> buckets s1 = buckets s \<and>
    current_interval_nb s1 = current_interval_nb s \<and> data_out s1 = data_out s \<and>
    (su_state s1 = su_state s \<or> su_state s1 = new_stable_bucket (su_state s))"
proof (cases "is_tentative (su_state s) \<and> should_reconcile s")
  case False
  then show ?thesis by (intro exI [of _ s]) (auto simp: produce_first_tentative_def)
next
  case True
  let ?i = "tentative_interval_nb (su_state s)"
  have bm: "bmap_ok (number_of_inputs s) (buckets s)" using assms(1) by (simp add: sunion_ok_def)
  have lt: "?i < current_interval_nb s" using True assms(1) by (simp add: sunion_ok_def is_tentative_def)
  show ?thesis
  proof (cases "map_of (buckets s) ?i")
    case None
    then show ?thesis by (intro exI [of _ s]) (simp add: produce_first_tentative_def Let_def)
  next
    case (Some b)
    show ?thesis
    proof (cases "\<not> Bucket_is_tentative b \<and> Bucket_is_bounded b")
      case False
      then show ?thesis using Some by (intro exI [of _ s]) (auto simp: produce_first_tentative_def Let_def)
    next
      case ready: True
      have not: "\<not> is_stable (su_state s)" "\<not> is_reconciling_forward (su_state s)"
        using True by (auto simp: is_tentative_def is_stable_def is_reconciling_forward_def)
      from process_output_stable_bucket_waits [OF bm assms(2) Some not, of now] obtain p s' where
        r: "process_output_stable_bucket now ?i s = Inr (p, s')" "same_config s s'" "buckets s' = buckets s"
          "current_interval_nb s' = current_interval_nb s" "su_state s' = new_stable_bucket (su_state s)"
          "if p then \<exists>out. Bucket_emit_tuples TENTATIVE b = Some (out, b) \<and> data_out s' = data_out s @ out
           else data_out s' = data_out s"
          "p \<longrightarrow> (?i = current_interval_nb s \<or> \<not> should_reconcile s)" by blast
      have "\<not> p" using r(7) lt True by auto
      moreover have "produce_first_tentative now s = Inr s'"
        using True Some ready r(1) by (simp add: produce_first_tentative_def Let_def)
      ultimately show ?thesis using r by auto
    qed
  qed
qed

lemma new_stable_bucket_idem: "new_stable_bucket (new_stable_bucket st) = new_stable_bucket st"
  by (simp add: new_stable_bucket_def)

lemma produce_output_ok:
  assumes "sunion_ok s" "number_of_data_outputs s = 1"
  shows "\<exists>s'. produce_output now s = Inr s' \<and> produces s s'"
proof -
  obtain s1 where s1: "produce_first_tentative now s = Inr s1" "same_config s s1" "buckets s1 = buckets s"
    "current_interval_nb s1 = current_interval_nb s" "data_out s1 = data_out s"
    "su_state s1 = su_state s \<or> su_state s1 = new_stable_bucket (su_state s)"
    using produce_first_tentative_ok [OF assms] by blast
  have le: "held_le s1 s" using s1(3) by (simp add: held_le_def)
  have "state_value (su_state s1) = TENTATIVE_STATE \<longrightarrow> tentative_interval_nb (su_state s1) < current_interval_nb s1"
    using s1(4,6) assms(1) by (auto simp: sunion_ok_def new_stable_bucket_def split: if_splits)
  then have ok1: "sunion_ok s1" using sunion_ok_held_le [OF assms(1) s1(2) le] by simp
  have "number_of_data_outputs s1 = 1" using s1(2) assms(2) by (simp add: same_config_def)
  from produce_current_ok [OF ok1 this, of now] obtain s2 where
    s2: "produce_current now s1 = Inr s2" "produces s1 s2" by blast
  let ?s = "if current_interval_nb s1 \<noteq> current_interval_nb s2 \<and> next_bucket_ready now s2
      then s2\<lparr>more_processing := True\<rparr> else s2"
  have run: "produce_output now s = Inr ?s" by (simp add: produce_output_def s1(1) s2(1))
  have iv: "interval_nb_to_timestamp s1 = interval_nb_to_timestamp s" by (rule same_config_interval [OF s1(2)])
  have may: "may_send_tentative s1 = may_send_tentative s"
    using s1(2,6) by (auto simp: may_send_tentative_def new_stable_bucket_idem same_config_def)
  have sb: "sends_bucket s1 = sends_bucket s" by (simp add: sends_bucket_def fun_eq_iff iv)
  have "produces s s2"
    using s2(2) same_config_trans [OF s1(2)] s1(3-5)
    by (auto simp: produces_def held_le_def idle_outcome_def sent_outcome_def iv may sb)
  moreover have "produces s (s2\<lparr>more_processing := True\<rparr>) = produces s s2"
    unfolding produces_def same_config_def held_le_def sunion_ok_def idle_outcome_def sent_outcome_def by simp
  ultimately show ?thesis using run by simp
qed

lemma check_for_end_ok:
  assumes "sunion_ok s"
  shows "same_config s (check_for_end_of_reconciliation now s)"
    "buckets (check_for_end_of_reconciliation now s) = buckets s"
    "sunion_ok (check_for_end_of_reconciliation now s)"
    "idle_outcome s (check_for_end_of_reconciliation now s)"
proof -
  let ?t = "interval_nb_to_timestamp s (current_interval_nb s)"
  let ?base = "s\<lparr>input_rec_done := [], expect_rec_done := [], su_state := reconciled (su_state s)\<rparr>"
  let ?done = "emit_control_tuple CONTROL_STREAM RECONCILIATION_DONE ?t
      (emit_control_tuple DATA_STREAM RECONCILIATION_DONE ?t ?base)"
  obtain t where "tuple_type t = RECONCILIATION_DONE" "tuple_stime t = ?t"
    "data_out (emit_control_tuple DATA_STREAM RECONCILIATION_DONE ?t ?base) = data_out ?base @ [t]"
    using emit_control_data(1) by blast
  then have idle: "idle_outcome s ?done" by (auto simp: idle_outcome_def emit_control_data(2))
  have "sunion_ok ?done" using assms by (simp add: sunion_ok_def reconciled_def)
  moreover have "same_config s ?done" "buckets ?done = buckets s" by (simp_all add: same_config_def)
  moreover have "check_for_end_of_reconciliation now s = s \<or> check_for_end_of_reconciliation now s = ?done"
    by (auto simp: check_for_end_of_reconciliation_def Let_def split: option.split)
  ultimately show "same_config s (check_for_end_of_reconciliation now s)"
    "buckets (check_for_end_of_reconciliation now s) = buckets s"
    "sunion_ok (check_for_end_of_reconciliation now s)"
    "idle_outcome s (check_for_end_of_reconciliation now s)"
    using assms idle by (auto simp: idle_outcome_def)
qed

text \<open>Reading the ports is feeding a prefix of each port's queue, port by port.\<close>

fun port_arrivals :: "nat \<Rightarrow> tuple list list \<Rightarrow> (nat \<times> tuple) list" where
  "port_arrivals i [] = []"
| "port_arrivals i (xs # inputs) = map (Pair i) xs @ port_arrivals (Suc i) inputs"

lemma feed_append: "feed now (xs @ ys) s = rbind (feed now xs s) (feed now ys)"
  by (simp add: feed_def [abs_def] fold_result_append)

lemma fold_feed:
  "fold (\<lambda>t r. rbind r (handle_input_tuple now t i)) ts r = rbind r (feed now (map (Pair i) ts))"
proof (induction ts arbitrary: r)
  case Nil
  then show ?case by (cases r) (simp_all add: feed_def)
next
  case (Cons t ts)
  then show ?case by (cases r) (simp_all add: feed_def)
qed

lemma sunion_ports_feed:
  "\<exists>qi' ns. sunion_ports now i qi inputs r =
     (qi', map2 drop ns inputs, rbind r (feed now (port_arrivals i (map2 take ns inputs)))) \<and>
     length ns = length inputs"
proof (induction inputs arbitrary: i qi r)
  case Nil
  then show ?case by (cases r) (simp_all add: feed_def)
next
  case (Cons xs inputs)
  let ?n = "run_count i qi xs" and ?f = "\<lambda>t r. rbind r (handle_input_tuple now t i)"
  obtain qi1 where "run_port i ?f qi xs r = (qi1, drop ?n xs, fold ?f (take ?n xs) r)"
    using run_port_ex [of i ?f qi xs r] by blast
  then have run: "run_port i ?f qi xs r = (qi1, drop ?n xs, rbind r (feed now (map (Pair i) (take ?n xs))))"
    by (simp only: fold_feed)
  obtain qi2 ns where "sunion_ports now (Suc i) qi1 inputs (rbind r (feed now (map (Pair i) (take ?n xs)))) =
      (qi2, map2 drop ns inputs, rbind (rbind r (feed now (map (Pair i) (take ?n xs))))
        (feed now (port_arrivals (Suc i) (map2 take ns inputs))))" "length ns = length inputs"
    using Cons.IH by blast
  moreover have "rbind (rbind r (feed now (map (Pair i) (take ?n xs))))
        (feed now (port_arrivals (Suc i) (map2 take ns inputs))) =
      rbind r (feed now (port_arrivals i (map2 take (?n # ns) (xs # inputs))))"
    by (cases r) (simp_all add: feed_append)
  ultimately show ?case by (intro exI [of _ qi2] exI [of _ "?n # ns"]) (simp add: run)
qed

end
