(* ===== verification/SUnion_Boundaries.thy ===== *)
theory SUnion_Boundaries
  imports SUnion_Output
begin

text \<open>
  Sessions of SUnion: any number of runs on data from the inputs. The output is cut by its
  boundary tuples: what comes before a boundary is earlier than its time, what comes after it
  is not.
\<close>

section \<open>The promise of a boundary\<close>

definition boundaries_separate :: "tuple list \<Rightarrow> bool" where
  "boundaries_separate os \<longleftrightarrow>
     (\<forall>i < length os. tuple_type (os ! i) = BOUNDARY \<longrightarrow>
        (\<forall>t \<in> set (take i os). tuple_stime t < tuple_stime (os ! i)) \<and>
        (\<forall>t \<in> set (drop (Suc i) os). tuple_stime (os ! i) \<le> tuple_stime t))"

lemma boundaries_separate_append:
  assumes "boundaries_separate os" "boundaries_separate new"
    and "\<forall>t \<in> set os. tuple_stime t \<le> h" "\<forall>t \<in> set new. h \<le> tuple_stime t"
    and "\<forall>b \<in> set new. tuple_type b = BOUNDARY \<longrightarrow> h < tuple_stime b"
  shows "boundaries_separate (os @ new)"
  unfolding boundaries_separate_def
proof (intro allI impI)
  fix i assume i: "i < length (os @ new)" "tuple_type ((os @ new) ! i) = BOUNDARY"
  show "(\<forall>t \<in> set (take i (os @ new)). tuple_stime t < tuple_stime ((os @ new) ! i)) \<and>
    (\<forall>t \<in> set (drop (Suc i) (os @ new)). tuple_stime ((os @ new) ! i) \<le> tuple_stime t)"
  proof (cases "i < length os")
    case True
    then have b: "(os @ new) ! i = os ! i" by (simp add: nth_append)
    have "\<forall>t \<in> set new. tuple_stime (os ! i) \<le> tuple_stime t"
      using assms(3,4) True nth_mem order_trans by blast
    then show ?thesis
      using assms(1) i(2) True unfolding b boundaries_separate_def by auto
  next
    case False
    then obtain k where k: "i = length os + k" "k < length new" using i(1) by (metis add_diff_inverse_nat length_append nat_add_left_cancel_less)
    then have b: "(os @ new) ! i = new ! k" by (simp add: nth_append)
    have "h < tuple_stime (new ! k)" using assms(5) i(2) k(2) b by simp
    then have "\<forall>t \<in> set os. tuple_stime t < tuple_stime (new ! k)" using assms(3) by force
    then show ?thesis
      using assms(2) i(2) k unfolding b boundaries_separate_def by auto
  qed
qed

lemma boundaries_separate_no_boundary:
  "\<forall>t \<in> set os. tuple_type t \<noteq> BOUNDARY \<Longrightarrow> boundaries_separate os"
  by (simp add: boundaries_separate_def)

lemma boundaries_separate_snoc:
  assumes "\<forall>t \<in> set os. tuple_type t \<noteq> BOUNDARY" "\<forall>t \<in> set os. tuple_stime t < tuple_stime b"
  shows "boundaries_separate (os @ [b])"
  unfolding boundaries_separate_def
proof (intro allI impI)
  fix i assume i: "i < length (os @ [b])" "tuple_type ((os @ [b]) ! i) = BOUNDARY"
  then have "i = length os" using assms(1) by (auto simp: nth_append less_Suc_eq split: if_splits)
  then show "(\<forall>t \<in> set (take i (os @ [b])). tuple_stime t < tuple_stime ((os @ [b]) ! i)) \<and>
    (\<forall>t \<in> set (drop (Suc i) (os @ [b])). tuple_stime ((os @ [b]) ! i) \<le> tuple_stime t)"
    using assms(2) by simp
qed

section \<open>The invariant of a session\<close>

abbreviation horizon :: "sunion_box \<Rightarrow> timestamp" where
  "horizon s \<equiv> interval_nb_to_timestamp s (current_interval_nb s)"

text \<open>Every tuple lies in the bucket of its interval.\<close>

definition placed :: "sunion_box \<Rightarrow> bool" where
  "placed s \<longleftrightarrow> (\<forall>i k. \<forall>t \<in> set (held s i k). good_time (tuple_stime t) \<and> timestamp_to_interval_nb s (tuple_stime t) = i)"

definition session_ok :: "sunion_box \<Rightarrow> bool" where
  "session_ok s \<longleftrightarrow> sunion_ok s \<and> number_of_data_outputs s = 1 \<and> placed s \<and>
     (if current_interval_nb s = INIT then buckets s = [] \<and> data_out s = [] else 0 \<le> current_interval_nb s) \<and>
     (\<forall>t \<in> set (data_out s). tuple_stime t \<le> horizon s) \<and> boundaries_separate (data_out s)"

lemma set_overwrite: "set (overwrite t ts) \<subseteq> insert t (set ts)"
  using set_before_tentative [of _ ts] by (auto simp: overwrite_def)

lemma insert_placed:
  assumes "placed s" "bmap_ok (number_of_inputs s) (buckets s)" "k < number_of_inputs s" "good_time (tuple_stime t)"
  shows "placed (insert_tuple_into_bucket now t k (timestamp_to_interval_nb s (tuple_stime t)) s)"
proof -
  let ?i = "timestamp_to_interval_nb s (tuple_stime t)"
  let ?s = "insert_tuple_into_bucket now t k ?i s"
  note ins = insert_tuple_into_bucket_ok [OF assms(2,3), where t = t and now = now and i = ?i]
  have iv: "timestamp_to_interval_nb ?s = timestamp_to_interval_nb s" by (rule same_control_simps(4) [OF ins(2)])
  have "u \<in> set (held s j l) \<or> (u = t \<and> j = ?i)" if "u \<in> set (held ?s j l)" for u j l
    using that set_overwrite [of t "held s j l"] unfolding ins(4) by (auto split: if_splits)
  then show ?thesis using assms(1,4) unfolding placed_def iv by blast
qed

lemma insert_session_ok:
  assumes "session_ok s" "k < number_of_inputs s" "good_time (tuple_stime t)"
  shows "session_ok (insert_tuple_into_bucket now t k (timestamp_to_interval_nb s (tuple_stime t)) s)"
proof -
  let ?i = "timestamp_to_interval_nb s (tuple_stime t)"
  let ?s = "insert_tuple_into_bucket now t k ?i s"
  have ok: "sunion_ok s" "placed s" "0 < interval s" using assms(1) by (simp_all add: session_ok_def sunion_ok_def)
  then have bm: "bmap_ok (number_of_inputs s) (buckets s)" by (simp add: sunion_ok_def)
  note ins = insert_tuple_into_bucket_ok [OF bm assms(2), where t = t and now = now and i = ?i]
  note c = same_control_simps [OF ins(2)]
  have i: "0 \<le> ?i" using interval_nb_nonneg [OF ok(3) assms(3)] .
  have iv: "interval_nb_to_timestamp ?s = interval_nb_to_timestamp s"
    using c(3) by (simp add: interval_nb_to_timestamp_def fun_eq_iff)
  have "placed ?s" by (rule insert_placed [OF ok(2) bm assms(2,3)])
  moreover have "sunion_ok ?s"
  proof -
    have "state_value (su_state s) = TENTATIVE_STATE \<longrightarrow> tentative_interval_nb (su_state s) < current_interval_nb ?s"
      using ok(1) i ins(3) by (auto simp: sunion_ok_def INIT_def)
    then show ?thesis using ok ins(1) c by (simp add: sunion_ok_def)
  qed
  moreover have "current_interval_nb ?s \<noteq> INIT" "0 \<le> current_interval_nb ?s"
    using assms(1) i unfolding ins(3) session_ok_def by (auto simp: INIT_def split: if_splits)
  moreover have "data_out ?s = data_out s" using c(5) by simp
  moreover have "\<forall>t \<in> set (data_out s). tuple_stime t \<le> horizon ?s"
    using assms(1) unfolding iv ins(3) by (cases "current_interval_nb s = INIT") (auto simp: session_ok_def)
  ultimately show ?thesis using assms(1) c by (simp add: session_ok_def)
qed

text \<open>The tuples sent from a bucket lie in its interval.\<close>

lemma sent_tuples:
  assumes "session_ok s" "map_of (buckets s) i = Some b" "Bucket_emit_tuples ty b = Some (out, b)"
  shows "\<forall>t \<in> set out. tuple_type t = ty \<and> good_time (tuple_stime t) \<and> timestamp_to_interval_nb s (tuple_stime t) = i"
proof
  fix t assume "t \<in> set out"
  have ok: "sunion_ok s" "placed s" using assms(1) by (simp_all add: session_ok_def)
  then have b: "bucket_ok (number_of_inputs s) b" using bmap_okD [OF _ assms(2)] by (simp add: sunion_ok_def)
  from Bucket_emit_tuples_ok [OF b, of ty] assms(3) have "mset out = mset (map (retag ty) (concat (contents b)))" by simp
  then have "set out = retag ty ` set (concat (contents b))" by (metis list.set_map mset_eq_setD)
  then obtain u k where u: "t = retag ty u" "k < length (buffers b)" "u \<in> set (contents b ! k)"
    using \<open>t \<in> set out\<close> by (auto simp: in_set_conv_nth [of _ "buffers b"])
  then have "u \<in> set (held s i k)" using assms(2) by (simp add: bcontents_def)
  then show "tuple_type t = ty \<and> good_time (tuple_stime t) \<and> timestamp_to_interval_nb s (tuple_stime t) = i"
    using ok(2) u(1) unfolding placed_def by simp
qed

lemma held_le_placed:
  assumes "placed s" "same_config s s'" "held_le s' s"
  shows "placed s'"
  unfolding placed_def same_config_interval [OF assms(2)]
proof (intro allI ballI)
  fix i k t assume t: "t \<in> set (held s' i k)"
  then obtain b where b: "map_of (buckets s') i = Some b" by (cases "map_of (buckets s') i") (auto simp: bcontents_def)
  then have "map_of (buckets s) i = Some b" using assms(3) by (simp add: held_le_def)
  then have "held s i k = held s' i k" using b by (simp add: bcontents_def)
  then have "t \<in> set (held s i k)" using t by simp
  then show "good_time (tuple_stime t) \<and> timestamp_to_interval_nb s (tuple_stime t) = i"
    using assms(1) unfolding placed_def by blast
qed

lemma idle_session_ok:
  assumes "session_ok s" "same_config s s'" "held_le s' s" "sunion_ok s'" "idle_outcome s s'"
    "current_interval_nb s = INIT \<longrightarrow> data_out s' = data_out s" "buckets s = [] \<longrightarrow> buckets s' = []"
  shows "session_ok s'"
proof -
  note iv = same_config_interval [OF assms(2)]
  have cur: "current_interval_nb s' = current_interval_nb s" using assms(5) by (simp add: idle_outcome_def)
  have "placed s'" using held_le_placed [OF _ assms(2,3)] assms(1) by (simp add: session_ok_def)
  moreover have "(\<forall>t \<in> set (data_out s'). tuple_stime t \<le> horizon s') \<and> boundaries_separate (data_out s')"
  proof -
    have old: "\<forall>t \<in> set (data_out s). tuple_stime t \<le> horizon s" "boundaries_separate (data_out s)"
      using assms(1) by (simp_all add: session_ok_def)
    from assms(5) consider "data_out s' = data_out s"
      | t where "data_out s' = data_out s @ [t]" "tuple_type t = RECONCILIATION_DONE" "tuple_stime t = horizon s"
      unfolding idle_outcome_def by blast
    then show ?thesis
    proof cases
      case 1
      then show ?thesis using old iv cur by simp
    next
      case 2
      then have "boundaries_separate (data_out s @ [t])"
        using old by (intro boundaries_separate_append [where h = "horizon s"]) (auto intro: boundaries_separate_no_boundary)
      then show ?thesis using 2 old iv cur by auto
    qed
  qed
  ultimately show ?thesis
    using assms cur by (auto simp: session_ok_def same_config_def split: if_splits)
qed


text \<open>A bucket that is sent lies between the old and the new horizon; its boundary is the new one.\<close>

lemma sent_session_ok:
  assumes "session_ok s" "same_config s s'" "held_le s' s" "sunion_ok s'" "sent_outcome s s'"
  shows "session_ok s'"
proof -
  note iv = same_config_interval [OF assms(2)]
  let ?c = "current_interval_nb s"
  have cur: "current_interval_nb s' = ?c + 1" using assms(5) by (simp add: sent_outcome_def)
  obtain b ty os where sent: "map_of (buckets s) ?c = Some b" "data_out s' = data_out s @ os"
    "sends_bucket s ?c b ty os" "ty = INSERTION \<or> ty = TENTATIVE"
    using assms(5) unfolding sent_outcome_def by blast
  obtain out bd where out: "Bucket_emit_tuples ty b = Some (out, b)" "os = out @ bd"
    "bd = [] \<or> (\<exists>t. bd = [t] \<and> tuple_type t = BOUNDARY \<and> tuple_stime t = interval_nb_to_timestamp s (?c + 1))"
    using sent(3) unfolding sends_bucket_def by blast
  have pos: "0 < interval s" using assms(1) by (simp add: session_ok_def sunion_ok_def)
  have nn: "0 \<le> ?c" "?c \<noteq> INIT" using assms(1) sent(1) by (auto simp: session_ok_def split: if_splits)
  have old: "\<forall>t \<in> set (data_out s). tuple_stime t \<le> horizon s" "boundaries_separate (data_out s)"
    using assms(1) by (simp_all add: session_ok_def)
  note lt = interval_less [OF pos nn(1)]
  have data: "tuple_type t \<noteq> BOUNDARY \<and> horizon s \<le> tuple_stime t \<and>
      tuple_stime t < interval_nb_to_timestamp s (?c + 1)" if "t \<in> set out" for t
    using sent_tuples [OF assms(1) sent(1) out(1)] that interval_contains [OF pos, of "tuple_stime t"] sent(4)
    by auto
  have new: "boundaries_separate os"
    using out(3)
  proof
    assume "bd = []"
    then show ?thesis using data unfolding out(2) by (auto intro: boundaries_separate_no_boundary)
  next
    assume "\<exists>t. bd = [t] \<and> tuple_type t = BOUNDARY \<and> tuple_stime t = interval_nb_to_timestamp s (?c + 1)"
    then obtain t where "bd = [t]" "tuple_stime t = interval_nb_to_timestamp s (?c + 1)" by blast
    then show ?thesis using data unfolding out(2) by (auto intro!: boundaries_separate_snoc)
  qed
  have "\<forall>t \<in> set os. horizon s \<le> tuple_stime t" using out data lt by auto
  moreover have "\<forall>t \<in> set os. tuple_type t = BOUNDARY \<longrightarrow> horizon s < tuple_stime t" using out data lt by auto
  ultimately have "boundaries_separate (data_out s')"
    unfolding sent(2) by (rule boundaries_separate_append [OF old(2) new old(1)])
  moreover have "\<forall>t \<in> set (data_out s'). tuple_stime t \<le> horizon s'"
    using old(1) lt data out unfolding sent(2) iv cur by fastforce
  moreover have "placed s'" using held_le_placed [OF _ assms(2,3)] assms(1) by (simp add: session_ok_def)
  ultimately show ?thesis
    using assms(1,2,4) cur nn by (auto simp: session_ok_def same_config_def INIT_def)
qed

text \<open>Reading the inputs.\<close>

definition good_arrivals :: "nat \<Rightarrow> (nat \<times> tuple) list \<Rightarrow> bool" where
  "good_arrivals n arr \<longleftrightarrow> (\<forall>(k, t) \<in> set arr. k < n \<and> is_data t \<and> good_time (tuple_stime t))"

lemma feed_session_ok:
  assumes "session_ok s" "good_arrivals (number_of_inputs s) arr"
  shows "\<exists>s'. feed now arr s = Inr s' \<and> session_ok s' \<and> same_control s s'"
  using assms
proof (induction arr arbitrary: s)
  case Nil
  then show ?case by (auto simp: feed_def same_control_def)
next
  case (Cons a arr)
  obtain k t where a: "a = (k, t)" by fastforce
  let ?s = "insert_tuple_into_bucket now t k (timestamp_to_interval_nb s (tuple_stime t)) s"
  have t: "k < number_of_inputs s" "is_data t" "good_time (tuple_stime t)"
    using Cons.prems(2) by (simp_all add: good_arrivals_def a)
  have handle: "handle_input_tuple now t k s = Inr ?s"
    using t(2) by (simp add: handle_input_tuple_def Let_def is_data_def)
  have bm: "bmap_ok (number_of_inputs s) (buckets s)" using Cons.prems(1) by (simp add: session_ok_def sunion_ok_def)
  have ctl: "same_control s ?s" by (rule insert_tuple_into_bucket_ok(2) [OF bm t(1)])
  have "session_ok ?s" by (rule insert_session_ok [OF Cons.prems(1) t(1,3)])
  moreover have "good_arrivals (number_of_inputs ?s) arr"
    using Cons.prems(2) same_control_simps(2) [OF ctl] by (simp add: good_arrivals_def)
  ultimately obtain s' where "feed now arr ?s = Inr s'" "session_ok s'" "same_control ?s s'"
    using Cons.IH by blast
  then show ?case using handle same_control_trans [OF ctl] by (simp add: feed_def a)
qed


section \<open>Sessions\<close>

lemma port_arrivals_set:
  "(k, t) \<in> set (port_arrivals i inputs) \<Longrightarrow>
     i \<le> k \<and> k < i + length inputs \<and> t \<in> set (inputs ! (k - i))"
proof (induction i inputs rule: port_arrivals.induct)
  case (2 i xs inputs)
  show ?case
  proof (cases "(k, t) \<in> set (port_arrivals (Suc i) inputs)")
    case True
    then have "Suc i \<le> k \<and> k < Suc i + length inputs \<and> t \<in> set (inputs ! (k - Suc i))" by (rule 2)
    moreover from this have "k - i = Suc (k - Suc i)" by linarith
    ultimately show ?thesis by simp
  next
    case False
    then show ?thesis using 2(2) by auto
  qed
qed simp

definition good_inputs :: "nat \<Rightarrow> tuple list list \<Rightarrow> bool" where
  "good_inputs n inputs \<longleftrightarrow>
     length inputs = n \<and> (\<forall>xs \<in> set inputs. \<forall>t \<in> set xs. is_data t \<and> good_time (tuple_stime t))"

lemma good_inputs_arrivals:
  assumes "good_inputs n inputs" "length ns = length inputs"
  shows "good_arrivals n (port_arrivals 0 (map2 take ns inputs))"
  unfolding good_arrivals_def
proof clarify
  fix k t assume "(k, t) \<in> set (port_arrivals 0 (map2 take ns inputs))"
  from port_arrivals_set [OF this] assms(2)
  have k: "k < length inputs" "t \<in> set (take (ns ! k) (inputs ! k))" by auto
  then have "t \<in> set (inputs ! k)" by (auto dest: in_set_takeD)
  moreover have "inputs ! k \<in> set inputs" using k(1) by simp
  ultimately have "is_data t \<and> good_time (tuple_stime t)" using assms(1) unfolding good_inputs_def by blast
  then show "k < n \<and> is_data t \<and> good_time (tuple_stime t)" using k(1) assms(1) by (simp add: good_inputs_def)
qed

text \<open>The flags of the outputs do not matter.\<close>

lemma session_ok_flags:
  "session_ok (s\<lparr>output_flags := f\<rparr>) = session_ok s"
  by (simp add: session_ok_def sunion_ok_def placed_def timestamp_to_interval_nb_def interval_nb_to_timestamp_def)

lemma notify_outputs_flags: "\<exists>f. snd (notify_outputs s) = s\<lparr>output_flags := f\<rparr>"
  for s :: sunion_box
proof -
  have "\<exists>f. s = s\<lparr>output_flags := f\<rparr>" by (rule exI [of _ "output_flags s"]) simp
  then show ?thesis by (auto simp: notify_outputs_def Let_def)
qed

lemma produces_session_ok:
  assumes "session_ok s" "produces s s'" "buckets s = [] \<longrightarrow> data_out s' = data_out s"
  shows "session_ok s'"
proof -
  have p: "same_config s s'" "held_le s' s" "sunion_ok s'" "idle_outcome s s' \<or> sent_outcome s s'"
    using assms(2) by (simp_all add: produces_def)
  from p(4) show ?thesis
  proof
    assume "idle_outcome s s'"
    moreover have "current_interval_nb s = INIT \<longrightarrow> data_out s' = data_out s"
      using assms(1,3) by (simp add: session_ok_def)
    moreover have "buckets s = [] \<longrightarrow> buckets s' = []"
    proof
      assume "buckets s = []"
      then have "map_of (buckets s') i = None" for i using p(2) by (cases "map_of (buckets s') i") (auto simp: held_le_def)
      then have "map_of (buckets s') = Map.empty" by blast
      then show "buckets s' = []" by simp
    qed
    ultimately show ?thesis using idle_session_ok [OF assms(1) p(1-3)] by blast
  next
    assume "sent_outcome s s'"
    then show ?thesis by (rule sent_session_ok [OF assms(1) p(1-3)])
  qed
qed


lemma produce_output_empty: "buckets s = [] \<Longrightarrow> produce_output now s = Inr s"
  by (simp add: produce_output_def produce_first_tentative_def produce_current_def Let_def)

text \<open>What a run does on data: it never fails and keeps the session in order.\<close>

lemma SUnionQBox_run_session:
  assumes "session_ok s" "do_serialize (benchmark s)" "good_inputs (number_of_inputs s) inputs"
  shows "\<exists>qi' rest ns s'. SUnionQBox_run now qi inputs s = (qi', rest, Inr (ns, s')) \<and>
    session_ok s' \<and> same_config s s'"
proof -
  obtain qi1 ns where ports: "sunion_ports now 0 qi inputs (Inr s) =
      (qi1, map2 drop ns inputs, feed now (port_arrivals 0 (map2 take ns inputs)) s)" "length ns = length inputs"
    using sunion_ports_feed [of now 0 qi inputs "Inr s"] by auto
  obtain s1 where s1: "feed now (port_arrivals 0 (map2 take ns inputs)) s = Inr s1" "session_ok s1" "same_control s s1"
    using feed_session_ok [OF assms(1) good_inputs_arrivals [OF assms(3) ports(2)]] by blast
  have cfg1: "same_config s s1" using same_control_simps [OF s1(3)] by (simp add: same_config_def)
  have "sunion_ok s1" "number_of_data_outputs s1 = 1" using s1(2) by (simp_all add: session_ok_def)
  from produce_output_ok [OF this, of now] obtain s2 where s2: "produce_output now s1 = Inr s2" "produces s1 s2" by blast
  have "buckets s1 = [] \<longrightarrow> data_out s2 = data_out s1" using produce_output_empty [of s1 now] s2(1) by auto
  then have ok2: "session_ok s2" using produces_session_ok [OF s1(2) s2(2)] by blast
  then have so2: "sunion_ok s2" by (simp add: session_ok_def)
  have cfg2: "same_config s1 s2" using s2(2) by (simp add: produces_def)
  define s3 where "s3 = (if is_reconciling_forward (su_state s2) \<and> is_input_sunion s2
      then check_for_end_of_reconciliation now s2 else s2)"
  note c = check_for_end_ok [OF so2, of now]
  have "held_le (check_for_end_of_reconciliation now s2) s2" using c(2) by (simp add: held_le_def)
  moreover have "current_interval_nb s2 = INIT \<longrightarrow>
      data_out (check_for_end_of_reconciliation now s2) = data_out s2"
    using ok2 by (auto simp: session_ok_def check_for_end_of_reconciliation_def)
  ultimately have "session_ok (check_for_end_of_reconciliation now s2)"
    using idle_session_ok [OF ok2 c(1) _ c(3,4)] c(2) by simp
  then have ok3: "session_ok s3" "same_config s2 s3" using ok2 c(1) by (simp_all add: s3_def)
  define s4 where "s4 = s3\<lparr>output_flags := (output_flags s3)(DATA_STREAM := True)\<rparr>"
  have run: "SUnionQBox_run now qi inputs s = (qi1, map2 drop ns inputs, Inr (notify_outputs s4))"
    using assms(2) by (simp add: SUnionQBox_run_def ports(1) s1(1) s2(1) s3_def s4_def Let_def)
  obtain f where "snd (notify_outputs s4) = s4\<lparr>output_flags := f\<rparr>" using notify_outputs_flags by blast
  then have f: "snd (notify_outputs s4) = s3\<lparr>output_flags := f\<rparr>" by (simp add: s4_def)
  have "same_config s s3" using same_config_trans [OF same_config_trans [OF cfg1 cfg2] ok3(2)] .
  then have "session_ok (snd (notify_outputs s4))" "same_config s (snd (notify_outputs s4))"
    unfolding f using ok3(1) by (simp_all add: session_ok_flags same_config_def)
  moreover have "SUnionQBox_run now qi inputs s =
      (qi1, map2 drop ns inputs, Inr (fst (notify_outputs s4), snd (notify_outputs s4)))"
    using run by simp
  ultimately show ?thesis by blast
qed

text \<open>A session: runs at given times, each on the queued tuples given for its ports.\<close>

fun sunion_session :: "(timestamp \<times> qbox_invocation \<times> tuple list list) list \<Rightarrow> sunion_box \<Rightarrow> sunion_box result" where
  "sunion_session [] s = Inr s"
| "sunion_session ((now, qi, inputs) # runs) s =
     rbind (snd (snd (SUnionQBox_run now qi inputs s))) (\<lambda>(_, s'). sunion_session runs s')"

lemma sunion_session_ok:
  assumes "session_ok s" "do_serialize (benchmark s)"
    and "\<forall>(now, qi, inputs) \<in> set runs. good_inputs (number_of_inputs s) inputs"
  shows "\<exists>s'. sunion_session runs s = Inr s' \<and> session_ok s'"
  using assms
proof (induction runs arbitrary: s)
  case Nil
  then show ?case by simp
next
  case (Cons r runs)
  obtain now qi inputs where r: "r = (now, qi, inputs)" using prod_cases3 by blast
  have "good_inputs (number_of_inputs s) inputs" using Cons.prems(3) by (simp add: r)
  from SUnionQBox_run_session [OF Cons.prems(1,2) this, of now qi] obtain qi' rest ns s1 where
    s1: "SUnionQBox_run now qi inputs s = (qi', rest, Inr (ns, s1))" "session_ok s1" "same_config s s1" by blast
  have "do_serialize (benchmark s1)" "number_of_inputs s1 = number_of_inputs s"
    using s1(3) Cons.prems(2) by (simp_all add: same_config_def)
  then obtain s' where "sunion_session runs s1 = Inr s'" "session_ok s'"
    using Cons.IH [OF s1(2)] Cons.prems(3) by auto
  then show ?case by (simp add: r s1(1))
qed

lemma fresh_session_ok:
  assumes "0 < interval s" "number_of_data_outputs s = 1" "buckets s = []" "current_interval_nb s = INIT"
    "data_out s = []" "is_stable (su_state s)"
  shows "session_ok s"
  using assms
  by (simp add: session_ok_def sunion_ok_def bmap_ok_def placed_def bcontents_def boundaries_separate_def is_stable_def)


section \<open>Checkpoints\<close>

text \<open>
  A restored box rolls forward from the checkpointed interval and holds the tuples of every
  bucket that was not garbage; only the boundaries are lost.
\<close>

lemma map_of_deep_copies:
  "map_of (map (map_prod id f) bs) i = map_option f (map_of bs i)"
  by (induction bs) auto

lemma deep_copies_ok:
  assumes "bmap_ok n bs"
  shows "bmap_ok n (map (map_prod id (Bucket_deep_copy now)) bs)"
    "bcontents (map (map_prod id (Bucket_deep_copy now)) bs) i k = bcontents bs i k"
proof -
  show "bmap_ok n (map (map_prod id (Bucket_deep_copy now)) bs)"
    unfolding bmap_ok_def map_of_deep_copies
    using assms Bucket_deep_copy_ok(1) by (auto simp: bmap_ok_def)
  show "bcontents (map (map_prod id (Bucket_deep_copy now)) bs) i k = bcontents bs i k"
  proof (cases "map_of bs i")
    case None
    then show ?thesis by (simp add: bcontents_def map_of_deep_copies)
  next
    case (Some b)
    then have ok: "bucket_ok n b" using assms by (simp add: bmap_ok_def)
    note c = Bucket_deep_copy_ok [OF ok, of now]
    have "length (buffers (Bucket_deep_copy now b)) = length (buffers b)"
      using c(1) ok by (simp add: bucket_ok_def)
    then have "k < length (buffers b) \<Longrightarrow> contents (Bucket_deep_copy now b) ! k = contents b ! k"
      using c(2) by simp
    then show ?thesis using Some \<open>length (buffers (Bucket_deep_copy now b)) = length (buffers b)\<close>
      by (simp add: bcontents_def map_of_deep_copies del: nth_map)
  qed
qed

lemma checkpoint_restores:
  assumes "bmap_ok (number_of_inputs s) (buckets s)" "SUnion_pack_state now s = (ps, s1)"
    and "is_input_sunion r = is_input_sunion s"
  shows "\<exists>r'. SUnion_unpack_state now' ps r = Inr r' \<and>
    current_interval_nb r' = current_interval_nb s \<and> is_reconciling_forward (su_state r') \<and>
    (is_input_sunion s \<longrightarrow> buckets r' = buckets r) \<and>
    (\<not> is_input_sunion s \<longrightarrow>
      (\<forall>i k. find_stable_bucket (current_interval_nb s - 1) (buckets s) \<le> i \<longrightarrow> held r' i k = held s i k))"
proof -
  let ?i = "current_interval_nb s - 1"
  have s1: "number_of_inputs s1 = number_of_inputs s" "is_input_sunion s1 = is_input_sunion s"
    "buckets s1 = buckets (garbage_collect ?i s)" "checkpointed_interval_nb s1 = current_interval_nb s"
    using assms(2) by (auto simp: SUnion_pack_state_def Let_def garbage_collect_def split: if_splits)
  have ps: "ps = (if is_input_sunion s then SUnionBoxNoBucketState (current_interval_nb s)
      else SUnionBoxState (current_interval_nb s) (map (map_prod id (Bucket_deep_copy now)) (buckets s1)))"
    using assms(2) s1 by (auto simp: SUnion_pack_state_def Let_def garbage_collect_def split: if_splits)
  have ok1: "bmap_ok (number_of_inputs s) (buckets s1)"
    unfolding s1(3) by (rule held_le_ok [OF garbage_collect_ok(1) assms(1)])
  show ?thesis
  proof (cases "is_input_sunion s")
    case True
    then show ?thesis using assms(3)
      by (simp add: ps SUnion_unpack_state_def reset_delays_def is_reconciling_forward_def reconciling_rollforward_def)
  next
    case False
    note d1 = deep_copies_ok [OF ok1, of now] and d2 = deep_copies_ok [OF deep_copies_ok(1) [OF ok1, of now], of now']
    have "held s1 i k = held s i k" if "find_stable_bucket ?i (buckets s) \<le> i" for i k
      using garbage_collect_keeps [OF that] by (simp add: s1(3) bcontents_def)
    then show ?thesis using False assms(3) d1(2) d2(2)
      by (simp add: ps SUnion_unpack_state_def reset_delays_def is_reconciling_forward_def
          reconciling_rollforward_def)
  qed
qed

end
