(* ===== verification/Recovery_Properties.thy ===== *)
theory Recovery_Properties
  imports Box_Properties SUnion_Boundaries
begin

text \<open>
  What the serialising union promises to a node that recovers from failures, stated over the
  code's definitions: its buckets, the agreement of replicas, the output of a session and its
  checkpoints.
\<close>

section \<open>Concrete boxes\<close>

definition data_tuple :: "TupleType \<Rightarrow> int \<Rightarrow> int \<Rightarrow> tuple" where
  "data_tuple ty sec n =
     (example_tuple n)\<lparr>tuple_type := ty, tuple_stime := Timestamp sec 0\<rparr>"

definition example_bucket :: "tuple list list \<Rightarrow> bucket" where
  "example_bucket tss =
     fold (\<lambda>(k, ts). fold (Bucket_insert_tuple Timestamp_zero k) ts) (enumerate 0 tss) (Bucket_new (length tss))"

text \<open>Two inputs, intervals of one second.\<close>

definition example_sunion :: sunion_box where
  "example_sunion =
     \<lparr>output_flags = \<lambda>_. False, box_emitted = [], id_counter = 0, header_size = 32, body_size = \<lambda>_. 4,
      number_of_inputs = 2, number_of_data_outputs = 1, interval = 1000, max_msec_delays = [3000, 3000],
      actual_msec_delays = [2700, 2700], stagger = False, is_input_sunion = True, input_rec_done = [],
      max_input_rec_done_timestamp = Timestamp_zero, expect_rec_done = [], buckets = [],
      current_interval_nb = INIT, checkpointed_interval_nb = INIT, benchmark = SUNION_BOUNDARY,
      should_reconcile = True, su_state = State_new (Timestamp 1 0), more_processing = False\<rparr>"

definition example_runs :: "(timestamp \<times> qbox_invocation \<times> tuple list list) list" where
  "example_runs =
     [(Timestamp 5 0, example_invocation,
       [[data_tuple INSERTION 1 1, data_tuple BOUNDARY 3 2], [data_tuple INSERTION 1 3, data_tuple BOUNDARY 3 4]]),
      (Timestamp 6 0, example_invocation, [[], []])]"


lemma example_bucket_ok: "bucket_ok (length tss) (example_bucket tss)"
proof -
  have one: "bucket_ok n (fold (Bucket_insert_tuple now k) ts b)" if "bucket_ok n b" for n now k ts b
    using that by (induction ts arbitrary: b) (simp_all add: Bucket_insert_tuple_ok(1))
  have "bucket_ok n (fold (\<lambda>(k, ts). fold (Bucket_insert_tuple now k) ts) ps b)" if "bucket_ok n b" for n now ps b
    using that by (induction ps arbitrary: b) (auto simp: one)
  then show ?thesis unfolding example_bucket_def using Bucket_new_ok by blast
qed

lemma data_tuple_sel [simp]:
  "tuple_type (data_tuple ty k m) = ty" "tuple_stime (data_tuple ty k m) = Timestamp k 0"
  "tuple_id (data_tuple ty k m) = m"
  by (simp_all add: data_tuple_def example_tuple_def)

lemmas bucket_eval = Let_def DEFAULT_SIZE_def tb_is_empty_def example_bucket_def Bucket_new_def TuplesBuffer_new_def Bucket_insert_tuple_def
  on_buffer_def tb_insert_tuple_def tb_set_timer_def

section \<open>Buckets\<close>

text \<open>
  C23. Emitting a bucket terminates, is repeatable, and serialises: the output is the tuples of all
  streams, relabelled, each stream's in its own order; and it is sorted by time when every stream is and
  all times are positive. (The code marks a stream without tuples by the time zero, so a tuple of that time is passed over, lemma
  zero_time_emitted_late.)
\<close>

theorem bucket_emission_serialises:
  assumes "bucket_ok n b"
  shows "\<exists>out. Bucket_emit_tuples ty b = Some (out, b) \<and>
    mset out = mset (map (retag ty) (concat (contents b))) \<and>
    (\<forall>k < n. subseq (map (retag ty) (contents b ! k)) out) \<and>
    (positive_times (buffers b) \<longrightarrow> ordered_buffers (buffers b) \<longrightarrow> sorted (map tuple_stime out))"
  using Bucket_emit_tuples_ok [OF assms] .

theorem bucket_emission_serialises_witness:
  "\<exists>out. Bucket_emit_tuples INSERTION (example_bucket [[data_tuple INSERTION 1 1, data_tuple INSERTION 3 2],
       [data_tuple INSERTION 2 3]]) =
     Some (out, example_bucket [[data_tuple INSERTION 1 1, data_tuple INSERTION 3 2], [data_tuple INSERTION 2 3]]) \<and>
     length out = 3 \<and> sorted (map tuple_stime out)"
proof -
  let ?tss = "[[data_tuple INSERTION 1 1, data_tuple INSERTION 3 2], [data_tuple INSERTION 2 3]]"
  let ?b = "example_bucket ?tss"
  have c: "length (concat (contents ?b)) = 3" by (simp add: bucket_eval)
  from bucket_emission_serialises [OF example_bucket_ok, of INSERTION ?tss] obtain out where
    "Bucket_emit_tuples INSERTION ?b = Some (out, ?b)" "mset out = mset (map (retag INSERTION) (concat (contents ?b)))"
    "positive_times (buffers ?b) \<longrightarrow> ordered_buffers (buffers ?b) \<longrightarrow> sorted (map tuple_stime out)"
    by blast
  moreover have "positive_times (buffers ?b)" "ordered_buffers (buffers ?b)"
    by code_simp+
  moreover have "length out = 3" using calculation(2) c by (metis length_map size_mset)
  ultimately show ?thesis by blast
qed

text \<open>A tuple of time zero is taken for a stream without tuples, and leaves after a later one.\<close>

lemma zero_time_emitted_late:
  "map_option (map tuple_stime \<circ> fst) (Bucket_emit_tuples INSERTION (example_bucket [[data_tuple INSERTION 0 1], [data_tuple INSERTION 5 2]])) =
     Some [Timestamp 5 0, Timestamp 0 0]"
  by code_simp

text \<open>
  C26. Correcting tentative data: an arriving tuple changes only its own stream's buffer; if that
  held stable tuples followed by tentative ones it still does, no stable tuple is ever lost or
  reordered, and an arriving stable tuple becomes the last of them.
\<close>

theorem overwriting_keeps_stable:
  assumes "bucket_ok n b" "k < n" "staged (contents b ! k)" "tuple_type t = INSERTION \<or> tuple_type t = TENTATIVE"
  shows "contents (Bucket_insert_tuple_overwriting now k t b) =
      (contents b)[k := contents (Bucket_insert_tuple_overwriting now k t b) ! k] \<and>
    staged (contents (Bucket_insert_tuple_overwriting now k t b) ! k) \<and>
    filter (is_type INSERTION) (contents (Bucket_insert_tuple_overwriting now k t b) ! k) =
      filter (is_type INSERTION) (contents b ! k) @ (if tuple_type t = INSERTION then [t] else [])"
proof -
  have len: "k < length (contents b)" using assms(1,2) by (simp add: bucket_ok_def)
  have c: "contents (Bucket_insert_tuple_overwriting now k t b) = (contents b)[k := overwrite t (contents b ! k)]"
    using Bucket_insert_tuple_overwriting_ok(2) [OF assms(1), of now k t] assms(2) by simp
  show ?thesis unfolding c using overwrite_staged [OF assms(3,4)] len by simp
qed

theorem overwriting_keeps_stable_witness:
  "filter (is_type INSERTION) (contents (Bucket_insert_tuple_overwriting Timestamp_zero 0 (data_tuple INSERTION 3 3)
       (example_bucket [[data_tuple INSERTION 1 1, data_tuple TENTATIVE 2 2]])) ! 0) =
   [data_tuple INSERTION 1 1, data_tuple INSERTION 3 3]"
proof -
  let ?ts = "[data_tuple INSERTION 1 1, data_tuple TENTATIVE 2 2]"
  have c: "contents (example_bucket [?ts]) ! 0 = ?ts" by (simp add: bucket_eval)
  have "staged ?ts" unfolding staged_def
    by (intro exI [of _ "[data_tuple INSERTION 1 1]"] exI [of _ "[data_tuple TENTATIVE 2 2]"]) simp
  then have "staged (contents (example_bucket [?ts]) ! 0)" unfolding c .
  moreover have "bucket_ok 1 (example_bucket [?ts])" using example_bucket_ok [of "[?ts]"] by simp
  moreover have "tuple_type (data_tuple INSERTION 3 3) = INSERTION \<or> tuple_type (data_tuple INSERTION 3 3) = TENTATIVE"
    by simp
  ultimately show ?thesis
    using overwriting_keeps_stable [of 1 "example_bucket [?ts]" 0 "data_tuple INSERTION 3 3" Timestamp_zero]
    unfolding c by (simp add: is_type_def)
qed

text \<open>
  Clearing a buffer after a given tuple does not keep the tuples up to it: it keeps as many
  as follow it.
\<close>

lemma clear_after_keeps_wrong_count:
  assumes "\<forall>t \<in> set us. tuple_id t \<noteq> uid" "tuple_id t = uid" "buffered tb = us @ t # vs"
  shows "buffered (tb_clear_after uid tb) = take (length vs) (us @ t # vs)"
  using clear_after_keeps [OF assms] .

text \<open>
  A bucket that held only tentative tuples still counts as non-empty after they have been
  cleared, and asking it for its last tuple, as the undo of a failure does, dereferences null.
\<close>

lemma last_tuple_of_cleared_bucket:
  assumes "contains_tuples b" "\<forall>tb \<in> set (buffers b). before_tentative (buffered tb) = []"
  shows "\<not> Bucket_is_empty (Bucket_clear_all_tentative_tuples b) \<and>
    Bucket_get_last_tuple (Bucket_clear_all_tentative_tuples b) = Inl Undefined"
  using get_last_tuple_after_clear [OF assms] assms(1)
  by (simp add: Bucket_is_empty_def Bucket_clear_all_tentative_tuples_def Bucket_reset_stability_def)

section \<open>The serialising union\<close>

text \<open>
  Intervals partition time: a time lies at or after the start of its interval and before the
  start of the next, and the start of an interval is in it.
\<close>

lemma intervals_partition_time:
  assumes "0 < interval s" "good_time t" "0 \<le> n"
  shows "interval_nb_to_timestamp s (timestamp_to_interval_nb s t) \<le> t \<and>
    t < interval_nb_to_timestamp s (timestamp_to_interval_nb s t + 1) \<and>
    timestamp_to_interval_nb s (interval_nb_to_timestamp s n) = n"
  using interval_contains [OF assms(1,2)] interval_round_trip [OF assms(1,3)] by blast

lemma example_sunion_fields:
  "interval example_sunion = 1000" "number_of_inputs example_sunion = 2" "buckets example_sunion = []"
  "number_of_data_outputs example_sunion = 1" "current_interval_nb example_sunion = INIT"
  "data_out example_sunion = []" "is_stable (su_state example_sunion)"
  "\<not> overwrite_tentatives (su_state example_sunion)" "do_serialize (benchmark example_sunion)"
  "is_input_sunion example_sunion"
  by (simp_all add: example_sunion_def State_new_def is_stable_def do_serialize_def)

lemma example_times: "good_time (tuple_stime (data_tuple ty (int n) m))" "is_data (data_tuple INSERTION k m)"
  "is_data (data_tuple BOUNDARY k m)"
  by (simp_all add: good_time_def ts_normal_def MILLION_def is_data_def)

text \<open>
  C25. Nothing is lost on the way into the buckets: after any interleaving of data arrivals the
  bucket of each interval holds, per input port, what it held before followed by exactly the tuples
  that arrived on that port for that interval, in order of arrival.
\<close>

theorem arrivals_are_held:
  assumes "bmap_ok (number_of_inputs s) (buckets s)" "arrivals_ok (number_of_inputs s) arr"
    and "\<not> overwrite_tentatives (su_state s)"
  shows "\<exists>s'. feed now arr s = Inr s' \<and>
    (\<forall>i k. held s' i k = held s i k @ for_interval s i (on_port k arr))"
  using feed_held [OF assms] by blast

definition example_arrivals :: "(nat \<times> tuple) list" where
  "example_arrivals = [(1, data_tuple INSERTION 1 3), (0, data_tuple INSERTION 1 1), (0, data_tuple BOUNDARY 3 2)]"

lemma example_arrivals_ok:
  "bmap_ok (number_of_inputs example_sunion) (buckets example_sunion)"
  "arrivals_ok (number_of_inputs example_sunion) example_arrivals"
  by (simp_all add: example_sunion_fields bmap_ok_def arrivals_ok_def example_arrivals_def example_times)

theorem arrivals_are_held_witness:
  "\<exists>s'. feed (Timestamp 5 0) example_arrivals example_sunion = Inr s' \<and> held s' 1 0 = [data_tuple INSERTION 1 1]"
proof -
  have i: "held example_sunion 1 0 = []" by (simp add: example_sunion_fields bcontents_def)
  have f: "for_interval example_sunion 1 (on_port 0 example_arrivals) = [data_tuple INSERTION 1 1]"
    by (simp add: for_interval_def on_port_def example_arrivals_def timestamp_to_interval_nb_def
        example_sunion_fields example_times Timestamp_to_msecs_def Timestamp_to_usecs_def MILLION_def)
  from arrivals_are_held [OF example_arrivals_ok example_sunion_fields(8), of "Timestamp 5 0"] obtain s' where
    "feed (Timestamp 5 0) example_arrivals example_sunion = Inr s'"
    "held s' 1 0 = held example_sunion 1 0 @ for_interval example_sunion 1 (on_port 0 example_arrivals)" by blast
  then show ?thesis unfolding i f by auto
qed

text \<open>
  C5. Replicas agree: two boxes that start alike and receive the same tuples on each input port,
  interleaved differently and at different times, hold the same buckets, and emit the same
  sequence from every bucket.
\<close>

theorem replicas_emit_the_same:
  assumes "bmap_ok (number_of_inputs s) (buckets s)" "\<not> overwrite_tentatives (su_state s)"
    and "arrivals_ok (number_of_inputs s) arr" "arrivals_ok (number_of_inputs s) arr'"
    and "\<forall>k. on_port k arr = on_port k arr'"
  shows "\<exists>s1 s2. feed now arr s = Inr s1 \<and> feed now' arr' s = Inr s2 \<and>
    (\<forall>i b1 b2. map_of (buckets s1) i = Some b1 \<longrightarrow> map_of (buckets s2) i = Some b2 \<longrightarrow>
       contents b1 = contents b2 \<and>
       map_option fst (Bucket_emit_tuples ty b1) = map_option fst (Bucket_emit_tuples ty b2))"
  using replicas_agree [OF assms] .

theorem replicas_emit_the_same_witness:
  "\<exists>s1 s2. feed (Timestamp 5 0) example_arrivals example_sunion = Inr s1 \<and>
     feed (Timestamp 6 0) (tl example_arrivals @ [hd example_arrivals]) example_sunion = Inr s2"
proof -
  let ?arr = "tl example_arrivals @ [hd example_arrivals]"
  have "arrivals_ok (number_of_inputs example_sunion) ?arr"
    using example_arrivals_ok(2) by (simp add: arrivals_ok_def example_arrivals_def)
  moreover have "\<forall>k. on_port k example_arrivals = on_port k ?arr"
    by (simp add: on_port_def example_arrivals_def)
  ultimately show ?thesis
    using replicas_emit_the_same [OF example_arrivals_ok(1) example_sunion_fields(8) example_arrivals_ok(2),
        of ?arr "Timestamp 5 0" "Timestamp 6 0" INSERTION] by blast
qed

text \<open>
  C4. A boundary is a promise that is kept: over any number of runs of a new box, on any data
  and boundary tuples and at any times, no run fails, and in the whole output every tuple
  before a boundary is earlier than the boundary's time and no tuple after it is.
\<close>

theorem session_keeps_boundaries:
  assumes "0 < interval s" "number_of_data_outputs s = 1" "buckets s = []" "current_interval_nb s = INIT"
    "data_out s = []" "is_stable (su_state s)" "do_serialize (benchmark s)"
    and "\<forall>(now, qi, inputs) \<in> set runs. good_inputs (number_of_inputs s) inputs"
  shows "\<exists>s'. sunion_session runs s = Inr s' \<and> boundaries_separate (data_out s')"
  using sunion_session_ok [OF fresh_session_ok [OF assms(1-6)] assms(7,8)] by (auto simp: session_ok_def)

theorem session_keeps_boundaries_witness:
  "\<exists>s'. sunion_session example_runs example_sunion = Inr s' \<and> boundaries_separate (data_out s')"
proof -
  have "\<forall>(now, qi, inputs) \<in> set example_runs. good_inputs (number_of_inputs example_sunion) inputs"
    using example_times(1) [of _ 1] example_times(1) [of _ 3]
    by (simp add: example_runs_def good_inputs_def example_sunion_fields example_times)
  then show ?thesis
    using session_keeps_boundaries [of example_sunion example_runs] by (simp add: example_sunion_fields)
qed




text \<open>
  C28. A checkpoint restores: a box brought back from a packed state continues at the interval of
  the checkpoint, rolling forward, and, unless it sits on an input, holds the same tuples in every
  bucket from the last stable non-empty one on.
\<close>

theorem checkpoint_roundtrip:
  assumes "bmap_ok (number_of_inputs s) (buckets s)" "SUnion_pack_state now s = (ps, s1)"
    and "is_input_sunion r = is_input_sunion s"
  shows "\<exists>r'. SUnion_unpack_state now' ps r = Inr r' \<and>
    current_interval_nb r' = current_interval_nb s \<and> is_reconciling_forward (su_state r') \<and>
    (is_input_sunion s \<longrightarrow> buckets r' = buckets r) \<and>
    (\<not> is_input_sunion s \<longrightarrow>
      (\<forall>i k. find_stable_bucket (current_interval_nb s - 1) (buckets s) \<le> i \<longrightarrow> held r' i k = held s i k))"
  using checkpoint_restores [OF assms] .

theorem checkpoint_roundtrip_witness:
  "\<exists>ps s1 r'. SUnion_pack_state (Timestamp 5 0) (example_sunion\<lparr>is_input_sunion := False, current_interval_nb := 4\<rparr>) = (ps, s1) \<and>
     SUnion_unpack_state (Timestamp 6 0) ps (example_sunion\<lparr>is_input_sunion := False\<rparr>) = Inr r' \<and>
     current_interval_nb r' = 4"
proof -
  let ?s = "example_sunion\<lparr>is_input_sunion := False, current_interval_nb := 4\<rparr>"
  obtain ps s1 where p: "SUnion_pack_state (Timestamp 5 0) ?s = (ps, s1)" by fastforce
  have "bmap_ok (number_of_inputs ?s) (buckets ?s)"
    "is_input_sunion (example_sunion\<lparr>is_input_sunion := False\<rparr>) = is_input_sunion ?s"
    by (simp_all add: example_sunion_fields bmap_ok_def)
  from checkpoint_roundtrip [OF this(1) p this(2), of "Timestamp 6 0"] p show ?thesis by fastforce
qed

text \<open>
  Garbage collection is safe: it keeps every bucket from the last non-empty stable one at or
  below the given interval on, and that one, if there is one, has only stable tuples.
\<close>

lemma garbage_collection_safe:
  assumes "find_stable_bucket i (buckets s) = f"
  shows "f \<le> i \<and> (\<forall>j \<ge> f. map_of (buckets (garbage_collect i s)) j = map_of (buckets s) j) \<and>
    (\<forall>b. map_of (buckets s) f = Some b \<longrightarrow> contains_tuples b \<and> \<not> contains_tentative_tuples b)"
  using assms find_stable_bucket_le [of i "buckets s"] find_stable_bucket_found [of "buckets s" i]
    garbage_collect_keeps [of i s] by auto

end
