(* ===== verification/Stream_Buffer.thy ===== *)
theory Stream_Buffer
  imports Tuples
begin

text \<open>
  The circular buffer that keeps the recent tuples of a stream for downstream subscribers
  (queryProcessor/StreamBuffer.cc, StreamBuffer.h). The byte buffer holds whole tuples of one size, so
  its pointers are slot numbers from the start of the buffer, and the arithmetic on them is in
  slots; \<open>n\<close> is the number of slots and \<open>sb_end\<close> may be \<open>n\<close>. Every method holds the buffer's lock.
\<close>

section \<open>State\<close>

record stream_buffer =
  sb_init :: bool
  bin_tuples :: "tuple list"
  sb_tuple_size :: nat
  sb_begin :: nat
  sb_end :: nat
  sb_next :: nat
  next_equals_begin :: bool
  sb_empty :: bool

definition StreamBuffer_new :: stream_buffer where
  "StreamBuffer_new =
     \<lparr>sb_init = False, bin_tuples = [], sb_tuple_size = 0, sb_begin = 0, sb_end = 0, sb_next = 0,
      next_equals_begin = True, sb_empty = True\<rparr>"

definition HUGE_BUF :: nat where "HUGE_BUF = 520000"

text \<open>A tuple of zero bytes.\<close>

definition zero_tuple :: "nat \<Rightarrow> tuple" where
  "zero_tuple data_size =
     \<lparr>tv = Timestamp_zero, local_tv = Timestamp_zero, tuple_flag = 0, tuple_type = INSERTION,
      win_spec = 0, quality = 0, rev_id = 0, tuple_id = 0, rev_field = 0, tuple_stime = Timestamp_zero,
      body = replicate data_size 0\<rparr>"

section \<open>Operations\<close>

definition StreamBuffer_init_buffer :: "nat \<Rightarrow> nat \<Rightarrow> stream_buffer \<Rightarrow> stream_buffer" where
  "StreamBuffer_init_buffer hsize tsize s =
     s\<lparr>sb_init := True, sb_tuple_size := tsize,
       bin_tuples := replicate (3 * HUGE_BUF div tsize) (zero_tuple (tsize - hsize)),
       sb_begin := 0, sb_next := 0, next_equals_begin := True, sb_end := 0\<rparr>"

definition StreamBuffer_reset_next :: "stream_buffer \<Rightarrow> stream_buffer" where
  "StreamBuffer_reset_next s = s\<lparr>next_equals_begin := True, sb_next := sb_begin s\<rparr>"

text \<open>\<open>memcpy\<close> of whole tuples to a slot.\<close>

definition copy_to :: "nat \<Rightarrow> tuple list \<Rightarrow> tuple list \<Rightarrow> tuple list" where
  "copy_to k xs cells = take k cells @ xs @ drop (k + length xs) cells"

text \<open>The loop that pushes the begin in front of the end.\<close>

function push_begin :: "nat \<Rightarrow> nat \<Rightarrow> nat" where
  "push_begin b e = (if b < e then push_begin (b + 1) e else b)"
  by auto
termination by (relation "measure (\<lambda>(b, e). e - b)") auto

declare push_begin.simps [simp del]

lemma push_begin_max [simp]: "push_begin b e = max b e"
proof (induction b e rule: push_begin.induct)
  case (1 b e)
  then show ?case by (simp add: push_begin.simps [of b e])
qed

text \<open>The cursor follows the begin while \<open>next_equals_begin\<close> is set.\<close>

definition move_begin :: "stream_buffer \<Rightarrow> stream_buffer" where
  "move_begin s =
     (let n = length (bin_tuples s); b = push_begin (sb_begin s) (sb_end s);
          b1 = (if b \<ge> n then b - n else b)
      in s\<lparr>sb_begin := b1, sb_next := (if next_equals_begin s then b1 else sb_next s)\<rparr>)"

definition StreamBuffer_buffer :: "nat \<Rightarrow> tuple list \<Rightarrow> nat \<Rightarrow> stream_buffer \<Rightarrow> stream_buffer" where
  "StreamBuffer_buffer hsize new_tuples tsize s0 =
     (if new_tuples = [] then s0
      else
        let fresh = \<not> sb_init s0;
            s = (if fresh then StreamBuffer_init_buffer hsize tsize s0 else s0);
            n = length (bin_tuples s); len = length new_tuples
        in if len > n
           then s\<lparr>bin_tuples := drop (len - n) new_tuples, sb_begin := 0, sb_next := 0,
                  next_equals_begin := True, sb_end := n, sb_empty := False\<rparr>
           else
             let capacity_end = n - sb_end s;
                 crossed = (sb_end s \<le> sb_begin s \<and> \<not> fresh \<and> \<not> sb_empty s)
             in if capacity_end \<ge> len
                then let s1 = s\<lparr>bin_tuples := copy_to (sb_end s) new_tuples (bin_tuples s),
                                sb_end := sb_end s + len, sb_empty := False\<rparr>
                     in if crossed then move_begin s1 else s1
                else let cells = copy_to 0 (drop capacity_end new_tuples)
                                   (copy_to (sb_end s) (take capacity_end new_tuples) (bin_tuples s));
                         s1 = s\<lparr>bin_tuples := cells, sb_begin := (if crossed then 0 else sb_begin s),
                                sb_end := len - capacity_end, sb_empty := False\<rparr>
                     in if \<not> sb_empty s then move_begin s1 else s1)"

text \<open>\<open>buffer_as_event\<close>: the tuples of the event.\<close>

definition buffer_as_event :: "nat \<Rightarrow> nat \<Rightarrow> tuple list \<Rightarrow> tuple list" where
  "buffer_as_event start e cells =
     (if start < e then take (e - start) (drop start cells) else drop start cells @ take e cells)"

text \<open>
  \<open>find\<close>: the search loop compares the bytes after the header. It need not end: \<open>None\<close> means
  that it runs for ever; otherwise the slot it stopped at.
\<close>

partial_function (option) find_loop :: "tuple \<Rightarrow> stream_buffer \<Rightarrow> bool \<Rightarrow> nat \<Rightarrow> nat option" where
  "find_loop ref s at_least_one pos =
     (if body (bin_tuples s ! pos) = body ref then Some pos
      else let c = pos + 1; n = length (bin_tuples s)
           in if c = sb_end s \<and> at_least_one then Some c
              else find_loop ref s True (if c \<ge> n then c - n else c))"

text \<open>The argument is the empty string (\<open>None\<close>) or a tuple; the result is a slot or \<open>NULL\<close>.\<close>

definition StreamBuffer_find :: "tuple option \<Rightarrow> stream_buffer \<Rightarrow> nat option option" where
  "StreamBuffer_find t s =
     (if \<not> sb_init s then Some None
      else case t of
        None \<Rightarrow> Some None
      | Some ref \<Rightarrow>
          if body ref = [] then Some None
          else let n = length (bin_tuples s); pos = (if sb_begin s \<ge> n then sb_begin s - n else sb_begin s)
               in case find_loop ref s False pos of
                 None \<Rightarrow> None
               | Some c \<Rightarrow> Some (if c \<noteq> sb_end s then Some c else None))"

definition StreamBuffer_is_duplicate :: "tuple option \<Rightarrow> stream_buffer \<Rightarrow> bool option" where
  "StreamBuffer_is_duplicate t s = map_option (\<lambda>l. l \<noteq> None) (StreamBuffer_find t s)"

definition StreamBuffer_all_tuples_since :: "tuple option \<Rightarrow> stream_buffer \<Rightarrow> tuple list option" where
  "StreamBuffer_all_tuples_since first_tuple s =
     (if \<not> sb_init s then Some []
      else case (if first_tuple = None then Some (Some (sb_begin s))
                 else map_option (\<lambda>l. if sb_empty s then None else l) (StreamBuffer_find first_tuple s)) of
        None \<Rightarrow> None
      | Some None \<Rightarrow> Some []
      | Some (Some start) \<Rightarrow>
          if start + 1 = sb_end s then Some []
          else let n = length (bin_tuples s); start1 = start + 1
               in Some (buffer_as_event (if start1 \<ge> n then start1 - n else start1) (sb_end s) (bin_tuples s)))"

definition StreamBuffer_all_tuples_before :: "tuple option \<Rightarrow> stream_buffer \<Rightarrow> tuple list option" where
  "StreamBuffer_all_tuples_before last_tuple s =
     (if \<not> sb_init s then Some []
      else case (if last_tuple = None then Some (Some (sb_end s)) else StreamBuffer_find last_tuple s) of
        None \<Rightarrow> None
      | Some None \<Rightarrow> Some []
      | Some (Some e) \<Rightarrow>
          Some (if e = sb_begin s then [] else buffer_as_event (sb_begin s) e (bin_tuples s)))"

definition StreamBuffer_next_tuples :: "stream_buffer \<Rightarrow> tuple list \<times> stream_buffer" where
  "StreamBuffer_next_tuples s =
     (if \<not> sb_init s \<or> sb_empty s then ([], s)
      else
        let n = length (bin_tuples s)
        in if sb_next s = sb_end s \<and> \<not> next_equals_begin s then ([], s)
           else if sb_next s = 0 \<and> sb_begin s = 0 \<and> sb_end s = n \<and> \<not> next_equals_begin s then ([], s)
           else (buffer_as_event (sb_next s) (sb_end s) (bin_tuples s),
                 s\<lparr>next_equals_begin := False, sb_next := (if sb_end s \<ge> n then sb_end s - n else sb_end s)\<rparr>))"

definition StreamBuffer_last_tuple :: "stream_buffer \<Rightarrow> tuple option" where
  "StreamBuffer_last_tuple s =
     (if sb_init s \<and> sb_end s \<ge> 1 then Some (bin_tuples s ! (sb_end s - 1)) else None)"

text \<open>Whether the cursor has to move with the begin.\<close>

definition cursor_behind :: "nat \<Rightarrow> stream_buffer \<Rightarrow> bool" where
  "cursor_behind b s =
     (if sb_begin s < sb_end s then sb_next s < b
      else (sb_begin s < b \<and> sb_begin s \<le> sb_next s \<and> sb_next s < b) \<or>
        (b \<le> sb_end s \<and> (sb_begin s \<le> sb_next s \<or> sb_next s < b)))"

definition StreamBuffer_trim :: "tuple option \<Rightarrow> stream_buffer \<Rightarrow> stream_buffer option" where
  "StreamBuffer_trim t s =
     map_option (\<lambda>l. case l of None \<Rightarrow> s | Some b \<Rightarrow>
       let s1 = (if cursor_behind b s then s\<lparr>sb_next := b, next_equals_begin := True\<rparr> else s)
       in s1\<lparr>sb_begin := b, sb_empty := (if b = sb_end s then True else sb_empty s)\<rparr>)
       (StreamBuffer_find t s)"

definition StreamBuffer_clear :: "stream_buffer \<Rightarrow> stream_buffer" where
  "StreamBuffer_clear s =
     (if sb_init s
      then s\<lparr>sb_begin := 0, sb_next := 0, next_equals_begin := True, sb_end := 0, sb_empty := True\<rparr> else s)"

text \<open>\<open>first_new\<close>: the position of the first new tuple in a buffer of received tuples.\<close>

definition StreamBuffer_first_new :: "tuple list \<Rightarrow> stream_buffer \<Rightarrow> nat" where
  "StreamBuffer_first_new buf s =
     (case StreamBuffer_last_tuple s of
        None \<Rightarrow> 0
      | Some l \<Rightarrow>
          (case List.find (\<lambda>i. tuple_id (buf ! i) = tuple_id l) [0..<length buf - 1] of
             Some i \<Rightarrow> i + 1
           | None \<Rightarrow> 0))"

end
