(* ===== verification/Stream_Buffer_Spec.thy ===== *)
theory Stream_Buffer_Spec
  imports Stream_Buffer
begin

text \<open>
  The stream buffer as a log of the most recent tuples: what it holds after any writes, what
  searching, replaying and trimming return, and what the cursor of the reader delivers.
\<close>

section \<open>A bounded log\<close>

definition last_n :: "nat \<Rightarrow> 'a list \<Rightarrow> 'a list" where
  "last_n n xs = drop (length xs - n) xs"

lemma last_n_all [simp]: "length xs \<le> n \<Longrightarrow> last_n n xs = xs"
  by (simp add: last_n_def)

lemma last_n_0 [simp]: "last_n 0 xs = []"
  by (simp add: last_n_def)

lemma length_last_n [simp]: "length (last_n n xs) = min n (length xs)"
  by (simp add: last_n_def)

lemma last_n_append: "last_n n (xs @ ys) = last_n (n - length ys) xs @ last_n n ys"
proof (cases "n \<le> length ys")
  case False
  then have "length xs + length ys - n = length xs - (n - length ys)" by linarith
  then show ?thesis using False by (simp add: last_n_def)
qed (simp add: last_n_def)

lemma last_n_last_n: "k \<le> n \<Longrightarrow> last_n k (last_n n xs) = last_n k xs"
proof (cases "n \<le> length xs")
  case True
  assume "k \<le> n"
  then have "n - k + (length xs - n) = length xs - k" using True by linarith
  then show ?thesis using True by (simp add: last_n_def)
qed simp

lemma last_n_absorb: "last_n n (last_n n xs @ ys) = last_n n (xs @ ys)"
  unfolding last_n_append by (simp add: last_n_last_n)

locale bounded_log =
  fixes inv :: "'s \<Rightarrow> bool"
    and content :: "'s \<Rightarrow> 'a list"
    and size_limit :: "'s \<Rightarrow> nat"
    and push :: "'a list \<Rightarrow> 's \<Rightarrow> 's"
  assumes limit: "inv s \<Longrightarrow> length (content s) \<le> size_limit s"
    and push_law: "inv s \<Longrightarrow> inv (push xs s) \<and> size_limit (push xs s) = size_limit s \<and>
      content (push xs s) = last_n (size_limit s) (content s @ xs)"
begin

lemma push_all:
  "inv s \<Longrightarrow> inv (fold push xss s) \<and> content (fold push xss s) = last_n (size_limit s) (content s @ concat xss)"
proof (induction xss arbitrary: s)
  case Nil
  then show ?case using limit [of s] by simp
next
  case (Cons xs xss)
  note law = push_law [OF Cons.prems, of xs]
  then have "inv (push xs s)" by blast
  from Cons.IH [OF this] law show ?case by (simp add: last_n_absorb)
qed

end

section \<open>The circular buffer\<close>

abbreviation sb_slots :: "stream_buffer \<Rightarrow> nat" where
  "sb_slots s \<equiv> length (bin_tuples s)"

definition sb_ok :: "stream_buffer \<Rightarrow> bool" where
  "sb_ok s \<longleftrightarrow> sb_init s \<and> sb_begin s < sb_slots s \<and> sb_end s \<le> sb_slots s \<and> sb_next s < sb_slots s \<and>
     (if sb_empty s then sb_begin s = 0 \<and> sb_end s = 0 \<and> next_equals_begin s else 0 < sb_end s) \<and>
     (next_equals_begin s \<longrightarrow> sb_next s = sb_begin s)"

definition sb_contents :: "stream_buffer \<Rightarrow> tuple list" where
  "sb_contents s = (if sb_empty s then [] else buffer_as_event (sb_begin s) (sb_end s) (bin_tuples s))"

lemma length_buffer_as_event:
  "b < length cells \<Longrightarrow> e \<le> length cells \<Longrightarrow>
   length (buffer_as_event b e cells) = (if b < e then e - b else length cells - b + e)"
  by (simp add: buffer_as_event_def)

lemma length_sb_contents:
  "sb_ok s \<Longrightarrow> length (sb_contents s) =
     (if sb_empty s then 0 else if sb_begin s < sb_end s then sb_end s - sb_begin s
      else sb_slots s - sb_begin s + sb_end s)"
  by (simp add: sb_contents_def sb_ok_def length_buffer_as_event)

lemma copy_to_simps:
  assumes "k + length xs \<le> length cells"
  shows "length (copy_to k xs cells) = length cells"
    "j \<le> k \<Longrightarrow> take j (copy_to k xs cells) = take j cells"
    "take (k + length xs) (copy_to k xs cells) = take k cells @ xs"
    "k + length xs \<le> j \<Longrightarrow> drop j (copy_to k xs cells) = drop j cells"
proof -
  have k: "min (length cells) k = k" "min k (length cells) = k" using assms by simp_all
  show "length (copy_to k xs cells) = length cells"
    "j \<le> k \<Longrightarrow> take j (copy_to k xs cells) = take j cells"
    "take (k + length xs) (copy_to k xs cells) = take k cells @ xs"
    "k + length xs \<le> j \<Longrightarrow> drop j (copy_to k xs cells) = drop j cells"
    using assms k by (simp_all add: copy_to_def min_absorb1)
qed

lemma drop_take_slice: "b \<le> e \<Longrightarrow> drop b (take e xs) = take (e - b) (drop b xs)"
  by (simp add: drop_take)

text \<open>A write that fits behind the end.\<close>

lemma buffer_fits:
  assumes "sb_ok s" "xs \<noteq> []" "sb_end s + length xs \<le> sb_slots s" "s' = StreamBuffer_buffer hsize xs tsize s"
  shows "bin_tuples s' = copy_to (sb_end s) xs (bin_tuples s)" "sb_end s' = sb_end s + length xs" "\<not> sb_empty s'"
    "sb_begin s' = (if sb_empty s \<or> sb_begin s < sb_end s then sb_begin s
       else if sb_slots s \<le> max (sb_begin s) (sb_end s + length xs) then 0
       else max (sb_begin s) (sb_end s + length xs))"
    "next_equals_begin s' = next_equals_begin s" "sb_init s'"
    "sb_next s' = (if next_equals_begin s then sb_begin s' else sb_next s)"
proof -
  have len: "length (copy_to (sb_end s) xs (bin_tuples s)) = sb_slots s" using copy_to_simps(1) assms(3) by blast
  show "bin_tuples s' = copy_to (sb_end s) xs (bin_tuples s)" "sb_end s' = sb_end s + length xs" "\<not> sb_empty s'"
    "sb_begin s' = (if sb_empty s \<or> sb_begin s < sb_end s then sb_begin s
       else if sb_slots s \<le> max (sb_begin s) (sb_end s + length xs) then 0
       else max (sb_begin s) (sb_end s + length xs))"
    "next_equals_begin s' = next_equals_begin s" "sb_init s'"
    "sb_next s' = (if next_equals_begin s then sb_begin s' else sb_next s)"
    using assms len
    by (auto simp: StreamBuffer_buffer_def Let_def sb_ok_def move_begin_def split: if_splits)
qed

text \<open>A write that wraps around.\<close>

lemma buffer_wraps:
  assumes "sb_ok s" "length xs \<le> sb_slots s" "sb_slots s < sb_end s + length xs"
    and "s' = StreamBuffer_buffer hsize xs tsize s"
  defines "room \<equiv> sb_slots s - sb_end s"
  shows "bin_tuples s' = copy_to 0 (drop room xs) (copy_to (sb_end s) (take room xs) (bin_tuples s))"
    "sb_end s' = length xs - room" "\<not> sb_empty s'" "\<not> sb_empty s"
    "sb_begin s' = (let b = max (if sb_end s \<le> sb_begin s then 0 else sb_begin s) (length xs - room)
       in if sb_slots s \<le> b then b - sb_slots s else b)"
    "next_equals_begin s' = next_equals_begin s" "sb_init s'" "sb_slots s' = sb_slots s"
    "sb_next s' = (if next_equals_begin s then sb_begin s' else sb_next s)"
proof -
  have ne: "\<not> sb_empty s" using assms(1-3) by (auto simp: sb_ok_def)
  have xs: "xs \<noteq> []" "\<not> room \<ge> length xs" "\<not> length xs > sb_slots s" using assms(1-3) by (auto simp: sb_ok_def room_def)
  have e: "sb_end s + length (take room xs) \<le> sb_slots s" using assms(1,3) by (auto simp: room_def sb_ok_def)
  have l1: "length (copy_to (sb_end s) (take room xs) (bin_tuples s)) = sb_slots s" using copy_to_simps(1) [OF e] .
  have "0 + length (drop room xs) \<le> length (copy_to (sb_end s) (take room xs) (bin_tuples s))"
    unfolding l1 using assms(2) by simp
  from copy_to_simps(1) [OF this] l1
  have len: "length (copy_to 0 (drop room xs) (copy_to (sb_end s) (take room xs) (bin_tuples s))) = sb_slots s" by simp
  have s': "s' = move_begin (s\<lparr>bin_tuples := copy_to 0 (drop room xs) (copy_to (sb_end s) (take room xs) (bin_tuples s)),
      sb_begin := (if sb_end s \<le> sb_begin s then 0 else sb_begin s), sb_end := length xs - room, sb_empty := False\<rparr>)"
    using assms(1,4) ne xs by (simp add: StreamBuffer_buffer_def Let_def sb_ok_def room_def)
  show "bin_tuples s' = copy_to 0 (drop room xs) (copy_to (sb_end s) (take room xs) (bin_tuples s))"
    "sb_end s' = length xs - room" "\<not> sb_empty s'" "\<not> sb_empty s"
    "sb_begin s' = (let b = max (if sb_end s \<le> sb_begin s then 0 else sb_begin s) (length xs - room)
       in if sb_slots s \<le> b then b - sb_slots s else b)"
    "next_equals_begin s' = next_equals_begin s" "sb_init s'" "sb_slots s' = sb_slots s"
    "sb_next s' = (if next_equals_begin s then sb_begin s' else sb_next s)"
    using len ne assms(1) unfolding s' by (simp_all add: move_begin_def Let_def sb_ok_def)
qed


lemma sb_contents_bound: "sb_ok s \<Longrightarrow> length (sb_contents s) \<le> sb_slots s"
  by (auto simp: length_sb_contents) (auto simp: sb_ok_def)

lemma content_fits:
  assumes "sb_ok s" "xs \<noteq> []" "sb_end s + length xs \<le> sb_slots s" "s' = StreamBuffer_buffer hsize xs tsize s"
  shows "sb_ok s' \<and> sb_slots s' = sb_slots s \<and> sb_contents s' = last_n (sb_slots s) (sb_contents s @ xs)"
proof -
  let ?n = "sb_slots s" and ?b = "sb_begin s" and ?e = "sb_end s" and ?e' = "sb_end s + length xs"
  let ?cells = "bin_tuples s" and ?new = "copy_to (sb_end s) xs (bin_tuples s)"
  note f = buffer_fits [OF assms]
  note c = copy_to_simps [OF assms(3)]
  have ok: "?b < ?n" "?e \<le> ?n" "sb_next s < ?n" "0 < length xs" using assms(1,2) by (auto simp: sb_ok_def)
  have slots: "sb_slots s' = ?n" using f(1) c(1) by simp
  have "sb_ok s'"
    using assms(1) f slots ok assms(3) unfolding sb_ok_def by (auto simp: max_def split: if_splits)
  moreover have "sb_contents s' = last_n ?n (sb_contents s @ xs)"
  proof (cases "sb_empty s")
    case True
    then have "?b = 0" "?e = 0" using assms(1) by (simp_all add: sb_ok_def)
    then show ?thesis using f c(3) True ok assms(3) by (simp add: sb_contents_def buffer_as_event_def)
  next
    case ne: False
    consider (straight) "?b < ?e" | (behind) "?e \<le> ?b" "?e' \<le> ?b" | (pushed) "?e \<le> ?b" "?b < ?e'" "?e' < ?n"
      | (full) "?e \<le> ?b" "?b < ?e'" "?e' = ?n" using assms(3) by linarith
    then show ?thesis
    proof cases
      case straight
      have "take (?e' - ?b) (drop ?b ?new) = drop ?b (take ?e' ?new)" by (simp add: drop_take)
      also have "\<dots> = drop ?b (take ?e ?cells) @ xs" using c(3) straight ok(2) by simp
      finally show ?thesis
        using straight ne f assms(3) ok by (simp add: sb_contents_def buffer_as_event_def drop_take)
    next
      case behind
      then have "sb_begin s' = ?b" using f(4) ok ne by simp
      moreover have "drop ?b ?new = drop ?b ?cells" using c(4) behind(2) .
      ultimately show ?thesis
        using behind ne f(1-3) c(3) ok by (simp add: sb_contents_def buffer_as_event_def)
    next
      case pushed
      then have b: "sb_begin s' = ?e'" using f(4) ne by simp
      have "sb_contents s' = drop ?e' ?cells @ take ?e ?cells @ xs"
        using b f(1-3) c(3) c(4) [of ?e'] by (simp add: sb_contents_def buffer_as_event_def)
      moreover have "sb_contents s @ xs = drop ?b ?cells @ take ?e ?cells @ xs"
        using pushed ne by (simp add: sb_contents_def buffer_as_event_def)
      moreover have "last_n ?n (drop ?b ?cells @ take ?e ?cells @ xs) = drop ?e' ?cells @ take ?e ?cells @ xs"
        using pushed ok by (simp add: last_n_def)
      ultimately show ?thesis by simp
    next
      case full
      then have b: "sb_begin s' = 0" using f(4) ne by simp
      have "?cells \<noteq> []" using ok(1) by auto
      then have "sb_contents s' = take ?e ?cells @ xs"
        using b f(1-3) c(3) full by (simp add: sb_contents_def buffer_as_event_def)
      moreover have "sb_contents s @ xs = drop ?b ?cells @ take ?e ?cells @ xs"
        using full ne by (simp add: sb_contents_def buffer_as_event_def)
      moreover have "last_n ?n (drop ?b ?cells @ take ?e ?cells @ xs) = take ?e ?cells @ xs"
        using full ok by (simp add: last_n_def)
      ultimately show ?thesis by simp
    qed
  qed
  ultimately show ?thesis using slots by blast
qed

lemma content_wraps:
  assumes "sb_ok s" "length xs \<le> sb_slots s" "sb_slots s < sb_end s + length xs"
    and "s' = StreamBuffer_buffer hsize xs tsize s"
  shows "sb_ok s' \<and> sb_slots s' = sb_slots s \<and> sb_contents s' = last_n (sb_slots s) (sb_contents s @ xs)"
proof -
  let ?n = "sb_slots s" and ?b = "sb_begin s" and ?e = "sb_end s" and ?cells = "bin_tuples s"
  define room where "room = ?n - ?e"
  define e' where "e' = length xs - room"
  let ?mid = "copy_to ?e (take room xs) ?cells" and ?new = "copy_to 0 (drop room xs) (copy_to ?e (take room xs) ?cells)"
  note f = buffer_wraps [OF assms, folded room_def, folded e'_def]
  have ok: "?b < ?n" "?e \<le> ?n" "sb_next s < ?n" using assms(1) by (simp_all add: sb_ok_def)
  have r: "length (take room xs) = room" "?e + room = ?n" "length (drop room xs) = e'" "0 < e'" "e' \<le> ?e"
    "length xs = room + e'"
    using assms(2,3) ok(2) by (auto simp: room_def e'_def)
  have e: "?e + length (take room xs) \<le> ?n" using r by simp
  note m = copy_to_simps [OF e]
  have "0 + length (drop room xs) \<le> length ?mid" using m(1) r ok by simp
  note c = copy_to_simps [OF this]
  have mid: "?mid = take ?e ?cells @ take room xs" using m(3) m(1) r(1,2) by simp
  have new: "take e' ?new = drop room xs" "\<And>j. e' \<le> j \<Longrightarrow> drop j ?new = drop j (take ?e ?cells @ take room xs)"
    using c(3) c(4) r(3) mid by simp_all
  define b0 where "b0 = (if ?e \<le> ?b then 0 else ?b)"
  have b: "sb_begin s' = (if ?n \<le> max b0 e' then max b0 e' - ?n else max b0 e')"
    using f(5) unfolding b0_def [symmetric] Let_def .
  have max: "max b0 e' \<le> ?n" using ok r by (auto simp: b0_def)
  have "sb_ok s'"
    using assms(1) f b max r ok unfolding sb_ok_def by (auto simp: max_def split: if_splits)
  moreover have "sb_contents s' = last_n ?n (sb_contents s @ xs)"
  proof (cases "?n \<le> max b0 e'")
    case True
    then have "e' = ?n" "?e = ?n" using max r ok by (auto simp: b0_def max_def split: if_splits)
    then have "room = 0" "length xs = ?n" using r by auto
    moreover have "sb_begin s' = 0" using b True max by simp
    ultimately show ?thesis
      using f(1-3) new(1) \<open>e' = ?n\<close> r(4) by (simp add: sb_contents_def buffer_as_event_def last_n_append)
  next
    case False
    then have b': "sb_begin s' = max b0 e'" using b by simp
    have "sb_contents s' = drop (max b0 e') (take ?e ?cells @ take room xs) @ drop room xs"
      using f(1-3) b' new(1) new(2) [of "max b0 e'"] by (simp add: sb_contents_def buffer_as_event_def)
    also have "\<dots> = drop (max b0 e') (take ?e ?cells) @ xs"
      using ok r by (auto simp: b0_def max_def)
    finally have s': "sb_contents s' = drop (max b0 e') (take ?e ?cells) @ xs" .
    show ?thesis
    proof (cases "?b < ?e")
      case True
      then have s: "sb_contents s = drop ?b (take ?e ?cells)" using f(4) by (simp add: sb_contents_def buffer_as_event_def drop_take)
      have "length (sb_contents s @ xs) - ?n = (if ?b < e' then e' - ?b else 0)" using True ok r by (auto simp: s)
      then show ?thesis using True r ok unfolding s' last_n_def by (auto simp: s b0_def max_def)
    next
      case False
      then have s: "sb_contents s = drop ?b ?cells @ take ?e ?cells" using f(4) by (simp add: sb_contents_def buffer_as_event_def)
      have "length (sb_contents s @ xs) - ?n = ?n - ?b + e'" using False ok r by (simp add: s)
      then show ?thesis using False r ok unfolding s' last_n_def by (simp add: s b0_def)
    qed
  qed
  ultimately show ?thesis using f(8) by blast
qed

lemma content_overflows:
  assumes "sb_ok s" "sb_slots s < length xs" "s' = StreamBuffer_buffer hsize xs tsize s"
  shows "sb_ok s' \<and> sb_slots s' = sb_slots s \<and> sb_contents s' = last_n (sb_slots s) (sb_contents s @ xs)"
proof -
  have n: "0 < sb_slots s" "xs \<noteq> []" using assms(1,2) by (auto simp: sb_ok_def)
  have "s' = s\<lparr>bin_tuples := drop (length xs - sb_slots s) xs, sb_begin := 0, sb_next := 0,
      next_equals_begin := True, sb_end := sb_slots s, sb_empty := False\<rparr>"
    using assms n by (simp add: StreamBuffer_buffer_def Let_def sb_ok_def)
  then show ?thesis using assms(1,2) n
    by (simp add: sb_ok_def sb_contents_def buffer_as_event_def last_n_append) (simp add: last_n_def)
qed

text \<open>A write on an initialised buffer keeps the newest tuples, as many as there are slots.\<close>

lemma buffer_content:
  assumes "sb_ok s" and s'_def: "s' = StreamBuffer_buffer hsize xs tsize s"
  shows "sb_ok s' \<and> sb_slots s' = sb_slots s \<and> sb_contents s' = last_n (sb_slots s) (sb_contents s @ xs)"
proof (cases "xs = []")
  case True
  then show ?thesis using assms(1) sb_contents_bound [OF assms(1)] by (simp add: s'_def StreamBuffer_buffer_def)
next
  case False
  then consider "sb_slots s < length xs" | "sb_end s + length xs \<le> sb_slots s"
    | "length xs \<le> sb_slots s" "sb_slots s < sb_end s + length xs" by linarith
  then show ?thesis
    using content_overflows [OF assms(1)] content_fits [OF assms(1) False] content_wraps [OF assms(1)]
    s'_def by cases blast+
qed

interpretation sb_log: bounded_log sb_ok sb_contents sb_slots "\<lambda>xs. StreamBuffer_buffer hsize xs tsize" for hsize tsize
  by unfold_locales (use sb_contents_bound buffer_content in blast)+

end
