(* ===== verification/Stream_Buffer_Search.thy ===== *)
theory Stream_Buffer_Search
  imports Stream_Buffer_Spec
begin

text \<open>
  Searching the stream buffer: what \<open>find\<close> returns, and with it the replay, duplicate and
  trimming operations; the states in which the search misses a tuple or does not return.
\<close>

section \<open>Slots\<close>

text \<open>The slot of the \<open>j\<close>-th oldest tuple.\<close>

definition slot :: "stream_buffer \<Rightarrow> nat \<Rightarrow> nat" where
  "slot s j = (if sb_begin s + j < sb_slots s then sb_begin s + j else sb_begin s + j - sb_slots s)"

abbreviation nb_tuples :: "stream_buffer \<Rightarrow> nat" where
  "nb_tuples s \<equiv> length (sb_contents s)"

lemma nonempty_okD:
  assumes "sb_ok s" "\<not> sb_empty s"
  shows "sb_init s" "sb_begin s < sb_slots s" "0 < sb_end s" "sb_end s \<le> sb_slots s" "0 < nb_tuples s"
    "nb_tuples s = (if sb_begin s < sb_end s then sb_end s - sb_begin s else sb_slots s - sb_begin s + sb_end s)"
    "sb_contents s = buffer_as_event (sb_begin s) (sb_end s) (bin_tuples s)"
  using assms length_sb_contents [OF assms(1)] by (auto simp: sb_ok_def sb_contents_def)

lemma slot_0: "sb_begin s < sb_slots s \<Longrightarrow> slot s 0 = sb_begin s"
  by (simp add: slot_def)

lemma slot_bound: "sb_begin s < sb_slots s \<Longrightarrow> j \<le> sb_slots s \<Longrightarrow> slot s j < sb_slots s"
  by (auto simp: slot_def)

lemma slot_next:
  "sb_begin s < sb_slots s \<Longrightarrow> j < sb_slots s \<Longrightarrow>
   slot s (Suc j) = (if sb_slots s \<le> slot s j + 1 then slot s j + 1 - sb_slots s else slot s j + 1)"
  by (auto simp: slot_def)

lemma nth_contents:
  assumes "sb_ok s" "\<not> sb_empty s" "j < nb_tuples s"
  shows "sb_contents s ! j = bin_tuples s ! slot s j"
  using nonempty_okD [OF assms(1,2)] assms(3)
  by (auto simp: buffer_as_event_def slot_def nth_append add.commute split: if_splits)

lemma slot_end:
  assumes "sb_ok s" "\<not> sb_empty s" "j < nb_tuples s"
  shows "slot s j + 1 = sb_end s \<longleftrightarrow> Suc j = nb_tuples s"
  using nonempty_okD(2-4,6) [OF assms(1,2)] assms(3) by (auto simp: slot_def split: if_splits)

lemma nb_tuples_le: "sb_ok s \<Longrightarrow> nb_tuples s \<le> sb_slots s"
  using sb_contents_bound .

text \<open>The tuples from a slot on, and those before it.\<close>

lemma event_from:
  assumes "sb_ok s" "\<not> sb_empty s" "j < nb_tuples s"
  shows "buffer_as_event (slot s j) (sb_end s) (bin_tuples s) = drop j (sb_contents s)"
proof -
  note f = nonempty_okD [OF assms(1,2)]
  consider "sb_begin s < sb_end s" | "\<not> sb_begin s < sb_end s" "sb_begin s + j < sb_slots s"
    | "\<not> sb_begin s < sb_end s" "sb_slots s \<le> sb_begin s + j" by linarith
  then show ?thesis
  proof cases
    case 1
    then have "sb_begin s + j < sb_end s" using f(6) assms(3) by simp
    then show ?thesis using 1 f(4)
      by (simp add: f(7) slot_def buffer_as_event_def drop_take add.commute)
  next
    case 2
    then show ?thesis by (simp add: f(7) slot_def buffer_as_event_def add.commute)
  next
    case 3
    then have "sb_begin s + j - sb_slots s < sb_end s" using f(2,3,6) assms(3) by auto
    moreover have "j - (sb_slots s - sb_begin s) = sb_begin s + j - sb_slots s" using 3 f(2) by simp
    ultimately show ?thesis using 3 f(2) by (simp add: f(7) slot_def buffer_as_event_def drop_take)
  qed
qed

lemma event_before:
  assumes "sb_ok s" "\<not> sb_empty s" "0 < j" "j < nb_tuples s"
  shows "buffer_as_event (sb_begin s) (slot s j) (bin_tuples s) = take j (sb_contents s)"
proof -
  note f = nonempty_okD [OF assms(1,2)]
  have n: "j < sb_slots s" using assms(4) nb_tuples_le [OF assms(1)] by simp
  show ?thesis
  proof (cases "sb_begin s + j < sb_slots s")
    case True
    then show ?thesis using assms(3,4) f(6) by (auto simp: f(7) slot_def buffer_as_event_def min_def)
  next
    case False
    then have "\<not> sb_begin s < sb_end s" using assms(4) f(4,6) by (auto split: if_splits)
    moreover have "j - (sb_slots s - sb_begin s) = sb_begin s + j - sb_slots s" using False f(2) by simp
    ultimately show ?thesis using False f n assms(4) by (auto simp: slot_def buffer_as_event_def min_def)
  qed
qed

section \<open>The search loop\<close>

text \<open>The position of the first tuple with the data of \<open>ref\<close>.\<close>

definition first_pos :: "tuple \<Rightarrow> tuple list \<Rightarrow> nat" where
  "first_pos ref cs = length (takeWhile (\<lambda>c. body c \<noteq> body ref) cs)"

lemma first_pos_simps [simp]:
  "first_pos ref [] = 0"
  "first_pos ref (c # cs) = (if body c = body ref then 0 else Suc (first_pos ref cs))"
  by (simp_all add: first_pos_def)

lemma first_pos_le: "first_pos ref cs \<le> length cs"
  by (simp add: first_pos_def length_takeWhile_le)

lemma find_loop_finds:
  assumes "sb_ok s" "\<not> sb_empty s" "j < nb_tuples s" "one \<or> Suc j < nb_tuples s"
  shows "find_loop ref s one (slot s j) =
    Some (let k = j + first_pos ref (drop j (sb_contents s)) in if k < nb_tuples s then slot s k else sb_end s)"
  using assms(3,4)
proof (induction "nb_tuples s - j" arbitrary: j one)
  case 0
  then show ?case by simp
next
  case (Suc d)
  note f = nonempty_okD [OF assms(1,2)] and nth = nth_contents [OF assms(1,2) Suc.prems(1)]
  have n: "j < sb_slots s" using Suc.prems(1) nb_tuples_le [OF assms(1)] by simp
  have split: "drop j (sb_contents s) = sb_contents s ! j # drop (Suc j) (sb_contents s)"
    using Suc.prems(1) by (simp add: Cons_nth_drop_Suc)
  show ?case
  proof (cases "body (sb_contents s ! j) = body ref")
    case True
    then have "find_loop ref s one (slot s j) = Some (slot s j)" by (simp add: find_loop.simps nth [symmetric])
    then show ?thesis using True Suc.prems(1) by (simp add: split)
  next
    case False
    show ?thesis
    proof (cases "Suc j = nb_tuples s")
      case True
      then have "slot s j + 1 = sb_end s" one using slot_end [OF assms(1,2) Suc.prems(1)] Suc.prems(2) by auto
      then have "find_loop ref s one (slot s j) = Some (sb_end s)"
        using False by (subst find_loop.simps) (simp add: nth [symmetric])
      then show ?thesis using False True by (simp add: split)
    next
      case more: False
      then have "slot s j + 1 \<noteq> sb_end s" using slot_end [OF assms(1,2) Suc.prems(1)] by simp
      then have "find_loop ref s one (slot s j) = find_loop ref s True (slot s (Suc j))"
        using False slot_next [OF f(2) n] by (subst find_loop.simps) (simp add: nth [symmetric] Let_def)
      also have "\<dots> = Some (let k = Suc j + first_pos ref (drop (Suc j) (sb_contents s))
          in if k < nb_tuples s then slot s k else sb_end s)"
        by (rule Suc.hyps(1)) (use Suc.hyps(2) Suc.prems(1) more in auto)
      finally show ?thesis using False by (simp add: split)
    qed
  qed
qed

lemma slot_neq_end:
  assumes "sb_ok s" "\<not> sb_empty s" "j < nb_tuples s" "j = 0 \<longrightarrow> sb_begin s \<noteq> sb_end s"
  shows "slot s j \<noteq> sb_end s"
  using nonempty_okD(2-4,6) [OF assms(1,2)] assms(3,4) by (auto simp: slot_def split: if_splits)

text \<open>
  With at least two tuples, and none at the end pointer, the search returns the first match. When
  the buffer is full and has wrapped, so that the oldest tuple is at the end pointer, that tuple is not found.
\<close>

lemma find_returns:
  assumes "sb_ok s" "\<not> sb_empty s" "2 \<le> nb_tuples s" "body ref \<noteq> []"
  shows "StreamBuffer_find (Some ref) s =
    Some (let j = first_pos ref (sb_contents s)
      in if j < nb_tuples s \<and> \<not> (j = 0 \<and> sb_begin s = sb_end s) then Some (slot s j) else None)"
proof -
  note f = nonempty_okD [OF assms(1,2)]
  let ?j = "first_pos ref (sb_contents s)"
  have b: "(if sb_slots s \<le> sb_begin s then sb_begin s - sb_slots s else sb_begin s) = slot s 0"
    using f(2) by (simp add: slot_0)
  have loop: "find_loop ref s False (slot s 0) = Some (if ?j < nb_tuples s then slot s ?j else sb_end s)"
    using find_loop_finds [OF assms(1,2), of 0 False ref] assms(3) f(5) by simp
  have "?j = 0 \<and> sb_begin s = sb_end s \<longrightarrow> slot s ?j = sb_end s" using slot_0 [OF f(2)] by simp
  then show ?thesis
    using slot_neq_end [OF assms(1,2), of ?j] assms(4) f(1)
    by (auto simp: StreamBuffer_find_def Let_def b loop)
qed


section \<open>Replay, duplicates and trimming\<close>

text \<open>What the operations return when the search can find every tuple.\<close>

definition searchable :: "stream_buffer \<Rightarrow> bool" where
  "searchable s \<longleftrightarrow> sb_ok s \<and> \<not> sb_empty s \<and> 2 \<le> nb_tuples s \<and> sb_begin s \<noteq> sb_end s"

lemma searchableD:
  assumes "searchable s"
  shows "sb_ok s" "\<not> sb_empty s" "2 \<le> nb_tuples s" "sb_begin s \<noteq> sb_end s"
  using assms by (simp_all add: searchable_def)

lemma find_searchable:
  assumes "searchable s" "body ref \<noteq> []"
  shows "StreamBuffer_find (Some ref) s =
    Some (let j = first_pos ref (sb_contents s) in if j < nb_tuples s then Some (slot s j) else None)"
  using find_returns [OF searchableD(1-3) [OF assms(1)] assms(2)] searchableD(4) [OF assms(1)] by simp

text \<open>
  What the search can see: everything, unless the buffer is full and has wrapped; then everything but the data of
  the oldest tuple, which is at the end pointer.
\<close>

definition visible :: "tuple \<Rightarrow> stream_buffer \<Rightarrow> bool" where
  "visible ref s \<longleftrightarrow> sb_ok s \<and> \<not> sb_empty s \<and> 2 \<le> nb_tuples s \<and> body ref \<noteq> [] \<and>
     (sb_begin s = sb_end s \<longrightarrow> first_pos ref (sb_contents s) \<noteq> 0)"

lemma visibleD:
  assumes "visible ref s"
  shows "sb_ok s" "\<not> sb_empty s" "2 \<le> nb_tuples s" "body ref \<noteq> []" "sb_begin s = sb_end s \<longrightarrow> first_pos ref (sb_contents s) \<noteq> 0"
  using assms by (simp_all add: visible_def)

lemma find_visible:
  assumes "visible ref s"
  shows "StreamBuffer_find (Some ref) s =
    Some (let j = first_pos ref (sb_contents s) in if j < nb_tuples s then Some (slot s j) else None)"
  using find_returns [OF visibleD(1-4) [OF assms]] visibleD(5) [OF assms] by (auto simp: Let_def)

lemma all_tuples_since_finds:
  assumes "visible ref s"
  shows "StreamBuffer_all_tuples_since (Some ref) s = Some (drop (Suc (first_pos ref (sb_contents s))) (sb_contents s))"
proof -
  note d = visibleD [OF assms(1)] and f = nonempty_okD [OF visibleD(1,2) [OF assms(1)]]
  let ?j = "first_pos ref (sb_contents s)"
  note find = find_visible [OF assms]
  consider "\<not> ?j < nb_tuples s" | "Suc ?j = nb_tuples s" | "Suc ?j < nb_tuples s" by linarith
  then show ?thesis
  proof cases
    case 1
    then show ?thesis using f(1) d(2) by (simp add: StreamBuffer_all_tuples_since_def find)
  next
    case 2
    then have "slot s ?j + 1 = sb_end s" using slot_end [OF d(1,2), of ?j] by simp
    then show ?thesis using f(1) d(2) 2 by (simp add: StreamBuffer_all_tuples_since_def find)
  next
    case 3
    then have "slot s ?j + 1 \<noteq> sb_end s" using slot_end [OF d(1,2), of ?j] by simp
    moreover have "?j < sb_slots s" using 3 nb_tuples_le [OF d(1)] by simp
    ultimately show ?thesis
      using f(1) d(2) 3 slot_next [OF f(2), of ?j] event_from [OF d(1,2) 3]
      by (auto simp: StreamBuffer_all_tuples_since_def find Let_def)
  qed
qed

text \<open>Without an argument the oldest tuple is skipped.\<close>

lemma all_tuples_since_begin:
  assumes "sb_ok s" "\<not> sb_empty s"
  shows "StreamBuffer_all_tuples_since None s = Some (tl (sb_contents s))"
proof -
  note f = nonempty_okD [OF assms]
  show ?thesis
  proof (cases "nb_tuples s = 1")
    case True
    then have "sb_begin s + 1 = sb_end s" using slot_end [OF assms f(5)] slot_0 [OF f(2)] by simp
    moreover have "tl (sb_contents s) = []" using True by (cases "sb_contents s") auto
    ultimately show ?thesis using f(1) by (simp add: StreamBuffer_all_tuples_since_def)
  next
    case False
    then have m: "1 < nb_tuples s" using f(5) by linarith
    then have "sb_begin s + 1 \<noteq> sb_end s" using slot_end [OF assms f(5)] slot_0 [OF f(2)] by simp
    moreover have "0 < sb_slots s" using f(2) by linarith
    ultimately show ?thesis
      using f(1) slot_next [OF f(2), of 0] slot_0 [OF f(2)] event_from [OF assms m]
      by (auto simp: StreamBuffer_all_tuples_since_def Let_def drop_Suc)
  qed
qed

lemma all_tuples_before_finds:
  assumes "visible ref s"
  shows "StreamBuffer_all_tuples_before (Some ref) s =
    Some (let j = first_pos ref (sb_contents s) in if j < nb_tuples s then take j (sb_contents s) else [])"
proof -
  note d = visibleD [OF assms(1)] and f = nonempty_okD [OF visibleD(1,2) [OF assms(1)]]
  let ?j = "first_pos ref (sb_contents s)"
  note find = find_visible [OF assms]
  consider "\<not> ?j < nb_tuples s" | "?j = 0" | "0 < ?j" "?j < nb_tuples s" by linarith
  then show ?thesis
  proof cases
    case 3
    then have "slot s ?j \<noteq> sb_begin s" using nb_tuples_le [OF d(1)] by (auto simp: slot_def split: if_splits)
    then show ?thesis using f(1) 3 event_before [OF d(1,2) 3] by (simp add: StreamBuffer_all_tuples_before_def find)
  qed (use f(1,2) slot_0 [OF f(2)] in \<open>simp_all add: StreamBuffer_all_tuples_before_def find\<close>)
qed

lemma all_tuples_before_end:
  assumes "sb_ok s" "\<not> sb_empty s"
  shows "StreamBuffer_all_tuples_before None s = Some (if sb_end s = sb_begin s then [] else sb_contents s)"
  using nonempty_okD [OF assms] by (simp add: StreamBuffer_all_tuples_before_def)

lemma is_duplicate_finds:
  assumes "sb_ok s" "\<not> sb_empty s" "2 \<le> nb_tuples s" "body ref \<noteq> []"
  shows "StreamBuffer_is_duplicate (Some ref) s =
    Some ((\<exists>c \<in> set (sb_contents s). body c = body ref) \<and> \<not> (sb_begin s = sb_end s \<and> body (hd (sb_contents s)) = body ref))"
proof -
  have "first_pos ref cs < length cs \<longleftrightarrow> (\<exists>c \<in> set cs. body c = body ref)" for cs
    by (induction cs) auto
  moreover have "first_pos ref (sb_contents s) = 0 \<longleftrightarrow> body (hd (sb_contents s)) = body ref"
    using nonempty_okD(5) [OF assms(1,2)] by (cases "sb_contents s") (auto simp: first_pos_def)
  ultimately show ?thesis
    using find_returns [OF assms] by (auto simp: StreamBuffer_is_duplicate_def Let_def)
qed

lemma is_duplicate_none:
  "StreamBuffer_is_duplicate None s = Some False"
  "body r = [] \<Longrightarrow> StreamBuffer_is_duplicate (Some r) s = Some False"
  by (simp_all add: StreamBuffer_is_duplicate_def StreamBuffer_find_def)

text \<open>Trimming drops what is older than the tuple; the tuple stays.\<close>

lemma trim_drops:
  assumes "visible ref s"
  defines "j \<equiv> first_pos ref (sb_contents s)"
  shows "\<exists>s'. StreamBuffer_trim (Some ref) s = Some s' \<and> sb_ok s' \<and> sb_slots s' = sb_slots s \<and>
    sb_contents s' = (if j < nb_tuples s then drop j (sb_contents s) else sb_contents s)"
proof -
  note d = visibleD [OF assms(1)] and f = nonempty_okD [OF visibleD(1,2) [OF assms(1)]]
  note find = find_visible [OF assms(1), folded j_def]
  show ?thesis
  proof (cases "j < nb_tuples s")
    case False
    then show ?thesis using d(1) by (simp add: StreamBuffer_trim_def find)
  next
    case True
    have b: "slot s j < sb_slots s" using slot_bound [OF f(2)] True nb_tuples_le [OF d(1)] by simp
    have e: "slot s j \<noteq> sb_end s" using slot_neq_end [OF d(1,2) True] d(5) by (auto simp: j_def)
    let ?b = "slot s j"
    define s' where "s' = (if cursor_behind ?b s then s\<lparr>sb_next := ?b, next_equals_begin := True\<rparr> else s)\<lparr>sb_begin := ?b\<rparr>"
    have trim: "StreamBuffer_trim (Some ref) s = Some s'"
      using True e by (simp add: StreamBuffer_trim_def find s'_def)
    have "?b = sb_begin s" if "\<not> cursor_behind ?b s" "sb_next s = sb_begin s"
      using that f(2,3,4,6) True by (auto simp: cursor_behind_def slot_def split: if_splits)
    then have "sb_ok s'" using d(1,2) b by (auto simp: sb_ok_def s'_def)
    moreover have "sb_contents s' = drop j (sb_contents s)"
      using d(2) event_from [OF d(1,2) True] by (simp add: sb_contents_def s'_def)
    moreover have "sb_slots s' = sb_slots s" by (simp add: s'_def)
    ultimately show ?thesis using trim True by auto
  qed
qed

text \<open>
  The tuple trimmed to is then at the begin, where the search finds it at once, whatever else the
  buffer holds.
\<close>

lemma trim_keeps_replay:
  assumes "visible ref s"
  defines "j \<equiv> first_pos ref (sb_contents s)"
  assumes "j < nb_tuples s"
  shows "\<exists>s'. StreamBuffer_trim (Some ref) s = Some s' \<and> sb_contents s' = drop j (sb_contents s) \<and>
    StreamBuffer_all_tuples_since (Some ref) s' = Some (drop (Suc j) (sb_contents s))"
proof -
  note d = visibleD [OF assms(1)]
  obtain s' where s': "StreamBuffer_trim (Some ref) s = Some s'" "sb_ok s'"
    "sb_contents s' = drop j (sb_contents s)"
    using trim_drops [OF assms(1)] assms(3) by (auto simp: j_def)
  have "slot s j \<noteq> sb_end s" using slot_neq_end [OF d(1,2) assms(3)] d(5) by (auto simp: j_def)
  then have e: "sb_begin s' \<noteq> sb_end s'" "\<not> sb_empty s'"
    using s'(1) d(2) assms(3) find_visible [OF assms(1), folded j_def]
    by (auto simp: StreamBuffer_trim_def Let_def split: if_splits)
  note f = nonempty_okD [OF s'(2) e(2)]
  have "body (sb_contents s ! j) = body ref"
    using assms(3) nth_length_takeWhile [of "\<lambda>c. body c \<noteq> body ref" "sb_contents s"] by (simp add: j_def first_pos_def)
  then have "body (bin_tuples s' ! sb_begin s') = body ref"
    using nth_contents [OF s'(2) e(2) f(5)] s'(3) assms(3) slot_0 [OF f(2)] by simp
  then have "StreamBuffer_find (Some ref) s' = Some (Some (sb_begin s'))"
    using f(1,2) e(1) d(4) by (simp add: StreamBuffer_find_def find_loop.simps)
  then have "StreamBuffer_all_tuples_since (Some ref) s' = StreamBuffer_all_tuples_since None s'"
    using e(2) by (simp add: StreamBuffer_all_tuples_since_def)
  then have "StreamBuffer_all_tuples_since (Some ref) s' = Some (drop (Suc j) (sb_contents s))"
    using all_tuples_since_begin [OF s'(2) e(2)] s'(3) by (simp add: drop_Suc tl_drop)
  then show ?thesis using s' by blast
qed

section \<open>Where the search goes wrong\<close>

text \<open>In a full buffer that has wrapped the oldest tuple is not found, and nothing is replayed after it.\<close>

lemma find_misses_oldest:
  assumes "sb_ok s" "\<not> sb_empty s" "2 \<le> nb_tuples s" "sb_begin s = sb_end s"
    and "body ref \<noteq> []" "body (hd (sb_contents s)) = body ref"
  shows "StreamBuffer_find (Some ref) s = Some None" "StreamBuffer_all_tuples_since (Some ref) s = Some []"
    "StreamBuffer_is_duplicate (Some ref) s = Some False"
proof -
  have "first_pos ref (sb_contents s) = 0" using assms(6) nonempty_okD(5) [OF assms(1,2)] by (cases "sb_contents s") auto
  then show find: "StreamBuffer_find (Some ref) s = Some None"
    using find_returns [OF assms(1-3,5)] assms(4) by simp
  show "StreamBuffer_all_tuples_since (Some ref) s = Some []" "StreamBuffer_is_duplicate (Some ref) s = Some False"
    using nonempty_okD(1) [OF assms(1,2)]
    by (simp_all add: StreamBuffer_all_tuples_since_def StreamBuffer_is_duplicate_def find)
qed

text \<open>
  In a cleared buffer the end pointer is the first slot, which the loop reaches only after its test:
  a search for data that is not in the old cells never returns.
\<close>

lemma find_loop_diverges:
  assumes "sb_end s = 0" "\<forall>c \<in> set (bin_tuples s). body c \<noteq> body ref" "b < sb_slots s"
  shows "find_loop ref s one b = None"
proof (rule ccontr)
  assume "find_loop ref s one b \<noteq> None"
  then obtain r where ret: "find_loop ref s one b = Some r" by auto
  have "sb_end s = 0 \<longrightarrow> (\<forall>c \<in> set (bin_tuples s). body c \<noteq> body ref) \<longrightarrow> b < sb_slots s \<longrightarrow> False"
  proof (rule find_loop.raw_induct [where P = "\<lambda>ref s one b r.
      sb_end s = 0 \<longrightarrow> (\<forall>c \<in> set (bin_tuples s). body c \<noteq> body ref) \<longrightarrow> b < sb_slots s \<longrightarrow> False", OF _ ret])
    fix f :: "tuple \<Rightarrow> stream_buffer \<Rightarrow> bool \<Rightarrow> nat \<Rightarrow> nat option" and ref s one b r
    assume IH: "\<And>ref s one b r. f ref s one b = Some r \<Longrightarrow>
        sb_end s = 0 \<longrightarrow> (\<forall>c \<in> set (bin_tuples s). body c \<noteq> body ref) \<longrightarrow> b < sb_slots s \<longrightarrow> False"
      and step: "(if body (bin_tuples s ! b) = body ref then Some b
        else let c = b + 1; n = sb_slots s
             in if c = sb_end s \<and> one then Some c else f ref s True (if n \<le> c then c - n else c)) = Some r"
    show "sb_end s = 0 \<longrightarrow> (\<forall>c \<in> set (bin_tuples s). body c \<noteq> body ref) \<longrightarrow> b < sb_slots s \<longrightarrow> False"
    proof (intro impI)
      assume a: "sb_end s = 0" "\<forall>c \<in> set (bin_tuples s). body c \<noteq> body ref" "b < sb_slots s"
      then have "f ref s True (if sb_slots s \<le> b + 1 then b + 1 - sb_slots s else b + 1) = Some r"
        using step by (auto simp: Let_def split: if_splits)
      from IH [OF this] a(1,2) have "\<not> (if sb_slots s \<le> b + 1 then b + 1 - sb_slots s else b + 1) < sb_slots s" by blast
      then show False using a(3) by (auto split: if_splits)
    qed
  qed
  with assms show False by blast
qed

lemma cleared_search_diverges:
  assumes "sb_init s" "0 < sb_slots s" "body ref \<noteq> []" "\<forall>c \<in> set (bin_tuples s). body c \<noteq> body ref"
  shows "StreamBuffer_is_duplicate (Some ref) (StreamBuffer_clear s) = None"
    "StreamBuffer_trim (Some ref) (StreamBuffer_clear s) = None"
  using find_loop_diverges [of "StreamBuffer_clear s" ref 0 False] assms
  by (simp_all add: StreamBuffer_is_duplicate_def StreamBuffer_trim_def StreamBuffer_find_def StreamBuffer_clear_def)

end
