(* ===== verification/Stream_Buffer_Reader.thy ===== *)
theory Stream_Buffer_Reader
  imports Stream_Buffer_Search
begin

text \<open>
  The cursor of the stream buffer: \<open>next_tuples\<close> delivers what was buffered since the last call,
  as long as the reader is less than the whole buffer behind and nothing is trimmed; after a trim
  it may deliver tuples again.
\<close>

section \<open>The cursor\<close>

definition unread :: "stream_buffer \<Rightarrow> tuple list" where
  "unread s = fst (StreamBuffer_next_tuples s)"

text \<open>Without trimming the begin moves only when the buffer is full.\<close>

definition untrimmed :: "stream_buffer \<Rightarrow> bool" where
  "untrimmed s \<longleftrightarrow> sb_begin s = 0 \<or> sb_begin s = sb_end s"

text \<open>The cursor stands \<open>u\<close> tuples before the end.\<close>

definition cursor_at :: "nat \<Rightarrow> stream_buffer \<Rightarrow> bool" where
  "cursor_at u s \<longleftrightarrow> \<not> sb_empty s \<and> \<not> next_equals_begin s \<and> u < sb_slots s \<and> u \<le> nb_tuples s \<and>
     sb_next s = (if u \<le> sb_end s then (if sb_end s - u = sb_slots s then 0 else sb_end s - u)
                  else sb_end s + sb_slots s - u)"

definition reader_ok :: "stream_buffer \<Rightarrow> bool" where
  "reader_ok s \<longleftrightarrow> sb_ok s \<and> untrimmed s \<and> (next_equals_begin s \<or> (\<exists>u. cursor_at u s))"

lemma unread_begin:
  "sb_ok s \<Longrightarrow> next_equals_begin s \<Longrightarrow> unread s = sb_contents s"
  by (simp add: unread_def StreamBuffer_next_tuples_def sb_contents_def sb_ok_def Let_def)

lemma untrimmed_nb:
  assumes "sb_ok s" "\<not> sb_empty s" "untrimmed s"
  shows "sb_begin s = 0 \<and> nb_tuples s = sb_end s \<or> sb_begin s = sb_end s \<and> sb_end s < sb_slots s \<and> nb_tuples s = sb_slots s"
  using nonempty_okD [OF assms(1,2)] assms(3) by (auto simp: untrimmed_def)

lemma unread_at:
  assumes "sb_ok s" "untrimmed s" "cursor_at u s"
  shows "unread s = last_n u (sb_contents s)"
proof -
  have ne: "\<not> sb_empty s" "\<not> next_equals_begin s" and u: "u < sb_slots s" "u \<le> nb_tuples s"
    and nx: "sb_next s = (if u \<le> sb_end s then (if sb_end s - u = sb_slots s then 0 else sb_end s - u)
                  else sb_end s + sb_slots s - u)"
    using assms(3) by (simp_all add: cursor_at_def)
  note f = nonempty_okD [OF assms(1) ne(1)]
  from untrimmed_nb [OF assms(1) ne(1) assms(2)] have b: "sb_end s = sb_slots s \<longrightarrow> sb_begin s = 0" by auto
  show ?thesis
  proof (cases "u = 0")
    case True
    then have "unread s = []"
      using nx b f(1,4) ne by (auto simp: unread_def StreamBuffer_next_tuples_def Let_def)
    then show ?thesis using True by simp
  next
    case False
    let ?j = "nb_tuples s - u"
    have j: "?j < nb_tuples s" using False u(2) by simp
    have "sb_next s = slot s ?j"
      using nx u False f(2-4) untrimmed_nb [OF assms(1) ne(1) assms(2)] by (auto simp: slot_def)
    moreover have "sb_next s \<noteq> sb_end s" using nx False f(3,4) u(1) by auto
    moreover have "\<not> (sb_next s = 0 \<and> sb_begin s = 0 \<and> sb_end s = sb_slots s)"
      using nx False u(1) by auto
    ultimately have "unread s = buffer_as_event (slot s ?j) (sb_end s) (bin_tuples s)"
      using f(1) ne by (auto simp: unread_def StreamBuffer_next_tuples_def Let_def)
    then show ?thesis using event_from [OF assms(1) ne(1) j] by (simp add: last_n_def)
  qed
qed

lemma length_unread:
  "sb_ok s \<Longrightarrow> untrimmed s \<Longrightarrow> cursor_at u s \<Longrightarrow> length (unread s) = u"
  by (simp add: unread_at) (simp add: cursor_at_def)

text \<open>A call delivers the unread tuples; afterwards none are unread.\<close>

lemma next_tuples_step:
  assumes "reader_ok s" "StreamBuffer_next_tuples s = (out, s')"
  shows "out = unread s" "reader_ok s'" "unread s' = []" "sb_slots s' = sb_slots s"
proof -
  have ok: "sb_ok s" "untrimmed s" using assms(1) by (simp_all add: reader_ok_def)
  show out: "out = unread s" by (simp add: unread_def assms(2))
  have same: "s' = s \<and> out = [] \<or> \<not> sb_empty s \<and>
      s' = s\<lparr>next_equals_begin := False, sb_next := (if sb_slots s \<le> sb_end s then sb_end s - sb_slots s else sb_end s)\<rparr>"
    using assms(2) by (auto simp: StreamBuffer_next_tuples_def Let_def split: if_splits)
  then show "sb_slots s' = sb_slots s" by auto
  from same have "reader_ok s' \<and> unread s' = []"
  proof
    assume "s' = s \<and> out = []"
    then show ?thesis using assms(1) out by simp
  next
    assume upd: "\<not> sb_empty s \<and>
      s' = s\<lparr>next_equals_begin := False, sb_next := (if sb_slots s \<le> sb_end s then sb_end s - sb_slots s else sb_end s)\<rparr>"
    note f = nonempty_okD [OF ok(1)]
    have "sb_ok s'" "untrimmed s'" "cursor_at 0 s'"
      using upd ok f(2-4) by (auto simp: sb_ok_def untrimmed_def cursor_at_def)
    then show ?thesis using unread_at [of s' 0] by (auto simp: reader_ok_def)
  qed
  then show "reader_ok s'" "unread s' = []" by blast+
qed

text \<open>A write adds to the unread tuples, as long as they stay fewer than the slots.\<close>

lemma buffer_untrimmed:
  assumes "sb_ok s" "untrimmed s" "s' = StreamBuffer_buffer hsize xs tsize s"
  shows "untrimmed s'"
proof (cases "xs = []")
  case True
  then show ?thesis using assms(2,3) by (simp add: StreamBuffer_buffer_def)
next
  case False
  then consider "sb_slots s < length xs" | "sb_end s + length xs \<le> sb_slots s"
    | "length xs \<le> sb_slots s" "sb_slots s < sb_end s + length xs" by linarith
  then show ?thesis
  proof cases
    case 1
    then show ?thesis using assms False by (auto simp: StreamBuffer_buffer_def Let_def sb_ok_def untrimmed_def)
  next
    case 2
    note f = buffer_fits [OF assms(1) False 2 assms(3)]
    show ?thesis using f(2,4) assms(1,2) by (auto simp: untrimmed_def sb_ok_def max_def split: if_splits)
  next
    case 3
    note f = buffer_wraps [OF assms(1) 3 assms(3)]
    have "sb_end s \<le> sb_slots s" using assms(1) by (simp add: sb_ok_def)
    then show ?thesis using f(2,5) 3 assms(2) by (auto simp: untrimmed_def max_def Let_def split: if_splits)
  qed
qed

lemma buffer_step:
  assumes "reader_ok s" "length (unread s) + length xs < sb_slots s" "s' = StreamBuffer_buffer hsize xs tsize s"
  shows "reader_ok s'" "unread s' = unread s @ xs" "sb_slots s' = sb_slots s"
proof -
  have ok: "sb_ok s" "untrimmed s" using assms(1) by (simp_all add: reader_ok_def)
  note c = buffer_content [OF ok(1) assms(3)] and un = buffer_untrimmed [OF ok assms(3)]
  show "sb_slots s' = sb_slots s" using c by blast
  have "reader_ok s' \<and> unread s' = unread s @ xs"
  proof (cases "xs = []")
    case True
    then show ?thesis using assms(1,3) by (simp add: StreamBuffer_buffer_def)
  next
    case xs: False
    have len: "length xs < sb_slots s" using assms(2) by simp
    have flag: "next_equals_begin s' = next_equals_begin s"
      and nx: "\<not> next_equals_begin s \<Longrightarrow> sb_next s' = sb_next s" and ne': "\<not> sb_empty s'"
      using buffer_fits(3,5,7) [OF ok(1) xs _ assms(3)] buffer_wraps(3,6,9) [OF ok(1) _ _ assms(3)] len
      by (metis less_imp_le not_le)+
    show ?thesis
    proof (cases "next_equals_begin s")
      case True
      then have "unread s = sb_contents s" "unread s' = sb_contents s'"
        using unread_begin ok(1) c flag by blast+
      moreover have "sb_contents s' = sb_contents s @ xs"
        using c assms(2) \<open>unread s = sb_contents s\<close> by simp
      ultimately show ?thesis using c un True flag by (simp add: reader_ok_def)
    next
      case nf: False
      then obtain u where u: "cursor_at u s" using assms(1) by (auto simp: reader_ok_def)
      have lu: "length (unread s) = u" using length_unread [OF ok u] .
      have ne: "\<not> sb_empty s" using u by (simp add: cursor_at_def)
      have e: "sb_end s' = (if sb_end s + length xs \<le> sb_slots s then sb_end s + length xs
          else sb_end s + length xs - sb_slots s)"
        using buffer_fits(2) [OF ok(1) xs _ assms(3)] buffer_wraps(2) [OF ok(1) _ _ assms(3)] len
          nonempty_okD(4) [OF ok(1) ne] by auto
      have "nb_tuples s' = min (sb_slots s) (nb_tuples s + length xs)" using c by simp
      then have "cursor_at (u + length xs) s'"
        using u e c nf flag nx ne' assms(2) lu nonempty_okD(3,4) [OF ok(1) ne]
        unfolding cursor_at_def by (auto split: if_splits)
      moreover have "last_n (u + length xs) (sb_contents s') = last_n u (sb_contents s) @ xs"
        using c assms(2) lu by (simp add: last_n_last_n) (simp add: last_n_append)
      ultimately show ?thesis
        using unread_at [OF _ un] unread_at [OF ok u] c un by (auto simp: reader_ok_def)
    qed
  qed
  then show "reader_ok s'" "unread s' = unread s @ xs" by blast+
qed

section \<open>Sessions of one reader\<close>

datatype sb_op = Buffer "tuple list" | Next

fun sb_run :: "nat \<Rightarrow> nat \<Rightarrow> sb_op list \<Rightarrow> stream_buffer \<Rightarrow> tuple list \<times> stream_buffer" where
  "sb_run hsize tsize [] s = ([], s)"
| "sb_run hsize tsize (Buffer xs # ops) s = sb_run hsize tsize ops (StreamBuffer_buffer hsize xs tsize s)"
| "sb_run hsize tsize (Next # ops) s =
     (let (out, s1) = StreamBuffer_next_tuples s; (outs, s2) = sb_run hsize tsize ops s1 in (out @ outs, s2))"

fun sb_buffered :: "sb_op list \<Rightarrow> tuple list" where
  "sb_buffered [] = []"
| "sb_buffered (Buffer xs # ops) = xs @ sb_buffered ops"
| "sb_buffered (Next # ops) = sb_buffered ops"

text \<open>Fewer than \<open>n\<close> tuples are ever unread, with \<open>u\<close> of them at the start.\<close>

fun keeps_up :: "nat \<Rightarrow> nat \<Rightarrow> sb_op list \<Rightarrow> bool" where
  "keeps_up n u [] = True"
| "keeps_up n u (Buffer xs # ops) = (u + length xs < n \<and> keeps_up n (u + length xs) ops)"
| "keeps_up n u (Next # ops) = keeps_up n 0 ops"

lemma sb_run_delivers:
  assumes "reader_ok s" "keeps_up (sb_slots s) (length (unread s)) ops" "sb_run hsize tsize ops s = (outs, s')"
  shows "reader_ok s' \<and> outs @ unread s' = unread s @ sb_buffered ops"
  using assms
proof (induction ops arbitrary: s outs)
  case Nil
  then show ?case by simp
next
  case (Cons op ops)
  show ?case
  proof (cases op)
    case (Buffer xs)
    note b = buffer_step [OF Cons.prems(1) _ refl, of xs hsize tsize]
    show ?thesis
      using Cons.IH [of "StreamBuffer_buffer hsize xs tsize s"] Cons.prems b Buffer by simp
  next
    case Next
    obtain out s1 where n: "StreamBuffer_next_tuples s = (out, s1)" by fastforce
    obtain outs1 where r: "sb_run hsize tsize ops s1 = (outs1, s')" "outs = out @ outs1"
      using Cons.prems(3) by (auto simp: Next n split: prod.splits)
    note st = next_tuples_step [OF Cons.prems(1) n]
    show ?thesis
      using Cons.IH [OF st(2) _ r(1)] Cons.prems(2) st r(2) by (simp add: Next)
  qed
qed

lemma fresh_reader:
  assumes "\<not> sb_init s" "sb_empty s" "0 < tsize" "tsize \<le> 3 * HUGE_BUF" "xs \<noteq> []"
  shows "StreamBuffer_buffer hsize xs tsize s = StreamBuffer_buffer hsize xs tsize (StreamBuffer_init_buffer hsize tsize s)"
    "reader_ok (StreamBuffer_init_buffer hsize tsize s)" "unread (StreamBuffer_init_buffer hsize tsize s) = []"
    "sb_slots (StreamBuffer_init_buffer hsize tsize s) = 3 * HUGE_BUF div tsize"
proof -
  let ?s = "StreamBuffer_init_buffer hsize tsize s"
  have n: "0 < 3 * HUGE_BUF div tsize" using assms(3,4) by (simp add: div_greater_zero_iff)
  show "StreamBuffer_buffer hsize xs tsize s = StreamBuffer_buffer hsize xs tsize ?s"
    using assms by (simp add: StreamBuffer_buffer_def StreamBuffer_init_buffer_def Let_def)
  show "reader_ok ?s" "unread ?s = []" "sb_slots ?s = 3 * HUGE_BUF div tsize"
    using assms(2) n
    by (simp_all add: reader_ok_def sb_ok_def untrimmed_def StreamBuffer_init_buffer_def unread_def
        StreamBuffer_next_tuples_def)
qed

text \<open>
  After everything has been read up to the last slot the cursor is at the first slot; a trim takes it
  for unread data behind the new begin, and all the tuples kept are delivered again.
\<close>

lemma trim_repeats:
  assumes "reader_ok s" "unread s = []" "sb_begin s = 0" "sb_end s = sb_slots s" "\<not> sb_empty s"
    "\<not> next_equals_begin s" "2 \<le> sb_slots s"
    and "body ref \<noteq> []" "first_pos ref (sb_contents s) = j" "0 < j" "j < nb_tuples s"
  shows "\<exists>s'. StreamBuffer_trim (Some ref) s = Some s' \<and> unread s' = drop j (sb_contents s)"
proof -
  have ok: "sb_ok s" "untrimmed s" using assms(1) by (simp_all add: reader_ok_def)
  obtain u where u: "cursor_at u s" using assms(1,6) by (auto simp: reader_ok_def)
  then have "u = 0" using length_unread [OF ok u] assms(2) by simp
  then have nx: "sb_next s = 0" using u assms(4) by (simp add: cursor_at_def)
  note f = nonempty_okD [OF ok(1) assms(5)]
  have ne: "bin_tuples s \<noteq> []" using assms(7) by auto
  then have j: "j < sb_slots s" using assms(3,4,11) f by simp
  have "searchable s" using ok(1) ne assms(3-5,7) f by (simp add: searchable_def)
  from find_searchable [OF this assms(8)] have "StreamBuffer_find (Some ref) s = Some (Some j)"
    using assms(3,9,11) j by (simp add: slot_def)
  then have "StreamBuffer_trim (Some ref) s = Some (s\<lparr>sb_next := j, next_equals_begin := True, sb_begin := j\<rparr>)"
    using assms(3,4,10,11) f(2,6) nx by (simp add: StreamBuffer_trim_def cursor_behind_def)
  moreover have "unread (s\<lparr>sb_next := j, next_equals_begin := True, sb_begin := j\<rparr>) = drop j (sb_contents s)"
    using event_from [OF ok(1) assms(5,11)] assms(3-5) f(1) j
    by (simp add: unread_def StreamBuffer_next_tuples_def slot_def Let_def)
  ultimately show ?thesis by blast
qed

end
