(* ===== verification/Stream_Buffer_Properties.thy ===== *)
theory Stream_Buffer_Properties
  imports Stream_Buffer_Reader
begin

text \<open>The properties of the stream buffer, from its construction on, and where they end.\<close>

section \<open>Writes and reads from a new buffer\<close>

lemma new_buffer:
  "\<not> sb_init StreamBuffer_new" "sb_empty StreamBuffer_new" "sb_contents StreamBuffer_new = []"
  "unread StreamBuffer_new = []" "StreamBuffer_next_tuples StreamBuffer_new = ([], StreamBuffer_new)"
  by (simp_all add: StreamBuffer_new_def sb_contents_def unread_def StreamBuffer_next_tuples_def)

lemma buffer_nothing [simp]: "StreamBuffer_buffer hsize [] tsize s = s"
  by (simp add: StreamBuffer_buffer_def)

lemma new_buffer_log:
  assumes "0 < tsize" "tsize \<le> 3 * HUGE_BUF" "concat xss \<noteq> []"
  shows "sb_ok (fold (\<lambda>xs. StreamBuffer_buffer hsize xs tsize) xss StreamBuffer_new) \<and>
    sb_contents (fold (\<lambda>xs. StreamBuffer_buffer hsize xs tsize) xss StreamBuffer_new) =
      last_n (3 * HUGE_BUF div tsize) (concat xss)"
  using assms(3)
proof (induction xss)
  case (Cons xs xss)
  show ?case
  proof (cases "xs = []")
    case False
    let ?i = "StreamBuffer_init_buffer hsize tsize StreamBuffer_new"
    note fr = fresh_reader [OF new_buffer(1,2) assms(1,2) False, of hsize]
    have i: "sb_ok ?i" "sb_contents ?i = []"
      using fr(2) by (simp_all add: reader_ok_def sb_contents_def StreamBuffer_init_buffer_def StreamBuffer_new_def)
    from sb_log.push_all [OF i(1), of hsize tsize "xs # xss"]
    show ?thesis by (simp add: fr(1,4) i(2))
  qed (use Cons in simp)
qed simp

lemma new_buffer_session:
  assumes "0 < tsize" "tsize \<le> 3 * HUGE_BUF" "keeps_up (3 * HUGE_BUF div tsize) 0 ops"
    and "sb_run hsize tsize ops StreamBuffer_new = (outs, s')"
  shows "outs @ unread s' = sb_buffered ops"
  using assms(3,4)
proof (induction ops)
  case Nil
  then show ?case by (auto simp: new_buffer)
next
  case (Cons op ops)
  show ?case
  proof (cases op)
    case Next
    then show ?thesis using Cons by (auto simp: new_buffer split: prod.splits)
  next
    case (Buffer xs)
    show ?thesis
    proof (cases "xs = []")
      case True
      then show ?thesis using Cons Buffer by simp
    next
      case False
      let ?i = "StreamBuffer_init_buffer hsize tsize StreamBuffer_new"
      note fr = fresh_reader [OF new_buffer(1,2) assms(1,2) False, of hsize]
      have "sb_run hsize tsize (op # ops) ?i = (outs, s')" using Cons.prems(2) fr(1) by (simp add: Buffer)
      from sb_run_delivers [OF fr(2) _ this] Cons.prems(1) fr(3,4) show ?thesis by simp
    qed
  qed
qed

text \<open>A buffer of three slots, full, whose begin is the first slot, and tuples of one byte of data.\<close>

definition example_data :: "byte \<Rightarrow> tuple" where
  "example_data c = (zero_tuple 1)\<lparr>body := [c]\<rparr>"

definition example_buffer :: stream_buffer where
  "example_buffer =
     \<lparr>sb_init = True, bin_tuples = [example_data 1, example_data 2, example_data 3], sb_tuple_size = 1,
      sb_begin = 0, sb_end = 3, sb_next = 0, next_equals_begin = True, sb_empty = False\<rparr>"

lemma example_buffer_simps [simp]:
  "body (example_data c) = [c]" "sb_init example_buffer" "sb_begin example_buffer = 0"
  "sb_end example_buffer = 3" "\<not> sb_empty example_buffer" "next_equals_begin example_buffer"
  "bin_tuples example_buffer = [example_data 1, example_data 2, example_data 3]"
  by (simp_all add: example_data_def example_buffer_def)

lemma example_contents [simp]:
  "sb_contents example_buffer = [example_data 1, example_data 2, example_data 3]"
  by (simp add: sb_contents_def buffer_as_event_def)

text \<open>
  C20. The stream buffer is a bounded log: after any writes to a new buffer it holds exactly the
  newest tuples written, in order, as many as fit in its memory, across any number of wraps.
\<close>

theorem stream_buffer_is_bounded_log:
  assumes "0 < tsize" "tsize \<le> 3 * HUGE_BUF"
  shows "sb_contents (fold (\<lambda>xs. StreamBuffer_buffer hsize xs tsize) xss StreamBuffer_new) =
      last_n (3 * HUGE_BUF div tsize) (concat xss)"
proof (cases "concat xss = []")
  case True
  then have "\<forall>xs \<in> set xss. xs = []" by simp
  then have "fold (\<lambda>xs. StreamBuffer_buffer hsize xs tsize) xss s = s" for s by (induction xss) simp_all
  then show ?thesis unfolding True by (simp add: new_buffer(3))
qed (use new_buffer_log [OF assms] in blast)

theorem stream_buffer_is_bounded_log_witness:
  "sb_contents (fold (\<lambda>xs. StreamBuffer_buffer 0 xs 520000) [[example_data 1, example_data 2], [], [example_data 3, example_data 4]]
     StreamBuffer_new) = [example_data 2, example_data 3, example_data 4]"
  by (subst stream_buffer_is_bounded_log) (simp_all add: HUGE_BUF_def last_n_def)

text \<open>
  C21. A subscriber gets every tuple exactly once: over any interleaving of writes and reads on a
  new buffer in which fewer tuples than the buffer has slots are ever unread, what the reads delivered
  followed by what the next read would deliver is exactly what was written, in order.
\<close>

theorem subscriber_reads_exactly_once:
  assumes "0 < tsize" "tsize \<le> 3 * HUGE_BUF" "keeps_up (3 * HUGE_BUF div tsize) 0 ops"
    and "sb_run hsize tsize ops StreamBuffer_new = (outs, s')"
  shows "outs @ fst (StreamBuffer_next_tuples s') = sb_buffered ops"
  using new_buffer_session [OF assms] by (simp add: unread_def)

theorem subscriber_reads_exactly_once_witness:
  "\<exists>outs s'. sb_run 0 520000
      [Next, Buffer [example_data 1, example_data 2], Next, Buffer [example_data 3, example_data 4], Next] StreamBuffer_new =
      (outs, s') \<and>
    outs @ fst (StreamBuffer_next_tuples s') = [example_data 1, example_data 2, example_data 3, example_data 4]"
proof -
  let ?ops = "[Next, Buffer [example_data 1, example_data 2], Next, Buffer [example_data 3, example_data 4], Next]"
  obtain outs s' where run: "sb_run 0 520000 ?ops StreamBuffer_new = (outs, s')" by fastforce
  have "outs @ fst (StreamBuffer_next_tuples s') = sb_buffered ?ops"
    by (rule subscriber_reads_exactly_once [OF _ _ _ run]) (simp_all add: HUGE_BUF_def)
  then show ?thesis using run by auto
qed

section \<open>Replay and trimming\<close>


text \<open>A full buffer that has wrapped: the oldest tuple is in the second slot.\<close>

definition wrapped_buffer :: stream_buffer where
  "wrapped_buffer = example_buffer\<lparr>bin_tuples := [example_data 3, example_data 1, example_data 2], sb_begin := 1, sb_end := 1, sb_next := 1\<rparr>"

lemma wrapped_contents [simp]: "sb_contents wrapped_buffer = [example_data 1, example_data 2, example_data 3]"
  by (simp add: sb_contents_def buffer_as_event_def wrapped_buffer_def)



section \<open>Where it goes wrong\<close>

text \<open>
  After a clear the duplicate check and the trim of any tuple that was never stored do not
  return, and they hold the lock of the buffer.
\<close>

lemma search_in_cleared_buffer_hangs:
  assumes "sb_init s" "0 < length (bin_tuples s)" "body ref \<noteq> []" "\<forall>c \<in> set (bin_tuples s). body c \<noteq> body ref"
  shows "StreamBuffer_is_duplicate (Some ref) (StreamBuffer_clear s) = None \<and>
    StreamBuffer_trim (Some ref) (StreamBuffer_clear s) = None"
  using cleared_search_diverges [OF assms] by blast

text \<open>
  Once a buffer is full and has wrapped, its oldest tuple is not found: the replay after it is
  empty although everything that follows it is in the buffer, and it does not count as a duplicate.
\<close>

lemma full_buffer_replays_nothing:
  assumes "sb_ok s" "\<not> sb_empty s" "2 \<le> length (sb_contents s)" "sb_begin s = sb_end s"
    and "body ref \<noteq> []" "body (hd (sb_contents s)) = body ref"
  shows "StreamBuffer_all_tuples_since (Some ref) s = Some [] \<and> StreamBuffer_is_duplicate (Some ref) s = Some False"
  using find_misses_oldest [OF assms] by blast

text \<open>
  A subscriber that has read everything up to the last slot gets tuples again after a trim: its
  cursor stands on the first slot, and the trim takes it for one that is behind the new begin.
\<close>

lemma trim_redelivers:
  assumes "reader_ok s" "fst (StreamBuffer_next_tuples s) = []" "sb_begin s = 0" "sb_end s = length (bin_tuples s)"
    and "\<not> sb_empty s" "\<not> next_equals_begin s" "2 \<le> length (bin_tuples s)"
    and "body ref \<noteq> []" "first_pos ref (sb_contents s) = j" "0 < j" "j < length (sb_contents s)"
  shows "\<exists>s'. StreamBuffer_trim (Some ref) s = Some s' \<and> fst (StreamBuffer_next_tuples s') = drop j (sb_contents s)"
  using trim_repeats [OF assms(1) _ assms(3-11)] assms(2) by (simp add: unread_def)

end
