(* ===== verification/Window_Drop.thy ===== *)
theory Window_Drop
  imports Box_Runs "HOL-Library.While_Combinator"
begin

text \<open>
  The load shedder that drops whole windows (boxes/WindowDropQBox.cc, WindowDropQBox.h). Per
  group it decides at every window start whether a window may open there, in batches of a size
  proportional to the drop rate; the tuples outside the windows that open are dropped.

  The parsed expressions of the box are functions on the tuple. A comparison of \<open>rand_r\<close> with the
  drop rate is an element of \<open>draws\<close>; the two places that draw have a static seed each, hence a
  position each in the same sequence. \<open>int\<close> values are integers: in a run over values below
  \<open>2 ^ 31 - _window_size - _window_slide\<close> no sum leaves the range.
\<close>

section \<open>State\<close>

record window_info =
  initialized :: bool
  next_win_start :: int
  keep_until :: int
  batch_counter :: int
  batch_drop :: bool
  extra_needed :: bool
  drop_extra :: bool
  extra_counter :: int
  drop_counter :: int
  zero_batch :: bool
  positive_batch :: bool
  force_open :: bool

definition WindowInfo_new :: window_info where
  "WindowInfo_new =
     \<lparr>initialized = False, next_win_start = -1, keep_until = 0, batch_counter = 0, batch_drop = True,
      extra_needed = False, drop_extra = False, extra_counter = 0, drop_counter = 0,
      zero_batch = False, positive_batch = False, force_open = False\<rparr>"

record window_drop_box =
  wd_method :: window_method
  window_field :: "tuple \<Rightarrow> int"
  window_field_offset :: nat
  group_by_fields :: "tuple \<Rightarrow> byte list"
  max_batch_size :: int
  window_size :: int
  window_slide :: int
  across_union :: bool
  window_infos :: "byte list \<rightharpoonup> window_info"
  draws :: "nat \<Rightarrow> bool"
  start_draws :: nat
  gap_draws :: nat

section \<open>Setup\<close>

text \<open>
  \<open>setup_impl\<close> with \<open>setup_parameters\<close> and \<open>parse_group_by\<close>. The parameters are converted by the
  library; the last arguments are the type test of the window field and the lengths of the group-by
  expressions (negative if not fixed). The result is the method and the window's overlap.
\<close>

definition WindowDrop_setup ::
  "nat \<Rightarrow> int \<Rightarrow> int \<Rightarrow> string \<Rightarrow> string \<Rightarrow> bool \<Rightarrow> int list \<Rightarrow> (window_method \<times> order_by_method \<times> int \<times> int) result" where
  "WindowDrop_setup num_inputs win_size slide size_by order_by is_int32 lengths =
     (if num_inputs \<noteq> 1 then Inl AuroraException
      else if slide > win_size then Inl AuroraException
      else rbind (if size_by = ''VALUES'' then Inr WINDOW_BY_VALUES
                  else if size_by = ''TUPLES'' then Inr WINDOW_BY_TUPLES else Inl AuroraException)
        (\<lambda>wm. rbind (if order_by = ''FIELD'' then Inr ORDER_BY_FIELD
                     else if order_by = ''TUPLENUM'' then Inr ORDER_BY_TUPLENUM else Inl AuroraException)
        (\<lambda>om. if (wm = WINDOW_BY_VALUES \<or> om = ORDER_BY_FIELD) \<and> \<not> is_int32 then Inl AuroraException
              else if \<exists>l \<in> set lengths. l < 0 then Inl AuroraException
              else Inr (wm, om, win_size - slide, sum_list lengths))))"

section \<open>Decisions\<close>

text \<open>
  What happens to the batch at a window start. The code has this twice, for a start that is the current
  tuple and for one in a gap (\<open>gap\<close>); the copies differ in two assertions.
\<close>

definition batch_decision :: "bool \<Rightarrow> window_drop_box \<Rightarrow> window_info \<Rightarrow> (window_drop_box \<times> window_info) result" where
  "batch_decision gap box ws =
     (if extra_needed ws
      then rbind (passert (batch_drop ws)) (\<lambda>_. Inr (box, ws\<lparr>extra_needed := False\<rparr>))
      else if drop_extra ws
      then if extra_counter ws = 0 \<or> drop_counter ws = max_batch_size box
           then rbind (passert (if gap then batch_drop ws else \<not> batch_drop ws))
                  (\<lambda>_. Inr (box, ws\<lparr>drop_extra := False, drop_counter := 0\<rparr>))
           else rbind (passert (\<not> batch_drop ws)) (\<lambda>_. Inr (box, ws))
      else if batch_counter ws = 0 \<or> batch_counter ws \<ge> max_batch_size box
      then rbind (passert (gap \<longrightarrow> \<not> positive_batch ws)) (\<lambda>_.
             let (drop_it, box1) = (if gap then (draws box (gap_draws box), box\<lparr>gap_draws := Suc (gap_draws box)\<rparr>)
                                 else (draws box (start_draws box), box\<lparr>start_draws := Suc (start_draws box)\<rparr>));
                 ws1 = (if drop_it
                        then if batch_drop ws then ws\<lparr>extra_needed := True, extra_counter := extra_counter ws + 1\<rparr>
                             else ws\<lparr>batch_drop := True\<rparr>
                        else if \<not> batch_drop ws then ws\<lparr>drop_extra := True\<rparr>
                             else ws\<lparr>batch_drop := False\<rparr>)
             in Inr (box1, ws1\<lparr>batch_counter := 0\<rparr>))
      else Inr (box, ws))"

text \<open>The decision on the window itself: \<open>win_drop\<close>.\<close>

definition window_decision :: "int \<Rightarrow> window_info \<Rightarrow> bool \<times> window_info" where
  "window_decision max_batch ws =
     (let (win_drop, ws1) =
        (if \<not> extra_needed ws \<and> batch_drop ws
         then if force_open ws \<or> (batch_counter ws = max_batch - 1 \<and> positive_batch ws)
              then (False, ws\<lparr>force_open := False\<rparr>) else (True, ws)
         else if drop_extra ws \<and> \<not> extra_needed ws \<and> extra_counter ws > 0
              then (True, ws\<lparr>extra_counter := extra_counter ws - 1, drop_counter := drop_counter ws + 1\<rparr>)
              else (False, ws))
      in (win_drop, if \<not> extra_needed ws1 \<and> \<not> drop_extra ws1
                    then ws1\<lparr>batch_counter := batch_counter ws1 + 1\<rparr> else ws1))"

section \<open>The three cases of a tuple\<close>

definition release :: "window_drop_box \<Rightarrow> bool \<Rightarrow> tuple \<Rightarrow> tuple list" where
  "release box tuple_drop t = (if tuple_drop \<and> \<not> across_union box then [] else [t])"

text \<open>The tuple is at the window start: the window opens (the tuple says when it closes) or not.\<close>

definition open_or_not ::
  "window_drop_box \<Rightarrow> bool \<Rightarrow> int \<Rightarrow> tuple \<Rightarrow> window_info \<Rightarrow> tuple list \<times> window_info" where
  "open_or_not box win_drop v t ws =
     (if \<not> win_drop
      then ([t\<lparr>win_spec := v + window_size box\<rparr>],
            ws\<lparr>keep_until := v + window_size box, next_win_start := next_win_start ws + window_slide box\<rparr>)
      else (release box False (t\<lparr>win_spec := 0\<rparr>),
            ws\<lparr>next_win_start := next_win_start ws + window_slide box\<rparr>))"

definition start_case ::
  "window_drop_box \<Rightarrow> int \<Rightarrow> tuple \<Rightarrow> window_info \<Rightarrow> (window_drop_box \<times> window_info \<times> tuple list) result" where
  "start_case box v t ws =
     rbind (batch_decision False box ws) (\<lambda>(box1, ws1).
       let (win_drop, ws2) = window_decision (max_batch_size box) ws1;
           (out, ws3) = open_or_not box win_drop v t ws2
       in Inr (box1, ws3, out))"

definition no_attraction_case :: "window_drop_box \<Rightarrow> int \<Rightarrow> tuple \<Rightarrow> window_info \<Rightarrow> tuple list" where
  "no_attraction_case box v t ws = release box (\<not> v < keep_until ws) t"

text \<open>Writing an \<open>int32\<close> to a field.\<close>

definition store_int32 :: "nat \<Rightarrow> int \<Rightarrow> tuple \<Rightarrow> tuple" where
  "store_int32 off v t =
     t\<lparr>body := take off (body t) @ int32_bytes v @ drop (off + 4) (body t)\<rparr>"

text \<open>
  A gap: the window starts before the tuple are skipped by a loop that never ends (\<open>None\<close>) if the
  slide is not positive; a start that is not the tuple itself is sent as a fake tuple, made of the tuple.
\<close>

definition skip_gaps :: "int \<Rightarrow> int \<Rightarrow> window_info \<Rightarrow> window_info option" where
  "skip_gaps slide v =
     while_option (\<lambda>ws. v \<ge> next_win_start ws + slide)
       (\<lambda>ws. ws\<lparr>next_win_start := next_win_start ws + slide, batch_counter := batch_counter ws + 1\<rparr>)"

definition fake_tuple :: "window_drop_box \<Rightarrow> int \<Rightarrow> int \<Rightarrow> tuple \<Rightarrow> tuple" where
  "fake_tuple box start spec t =
     store_int32 (window_field_offset box) start (set_fake_flag True (t\<lparr>win_spec := spec\<rparr>))"

definition fake_or_not ::
  "window_drop_box \<Rightarrow> bool \<Rightarrow> tuple \<Rightarrow> window_info \<Rightarrow> tuple list \<times> window_info" where
  "fake_or_not box win_drop t ws =
     (let n = next_win_start ws
      in if \<not> win_drop
         then ([fake_tuple box n (n + window_size box) t],
               ws\<lparr>keep_until := n + window_size box, next_win_start := n + window_slide box\<rparr>)
         else (release box False (fake_tuple box n 0 t), ws\<lparr>next_win_start := n + window_slide box\<rparr>))"

definition gap_case ::
  "window_drop_box \<Rightarrow> int \<Rightarrow> tuple \<Rightarrow> window_info \<Rightarrow> (window_drop_box \<times> window_info \<times> tuple list) result option" where
  "gap_case box v t ws0 =
     (case skip_gaps (window_slide box) v ws0 of
        None \<Rightarrow> None
      | Some ws \<Rightarrow> Some
          (rbind (passert (\<not> zero_batch ws)) (\<lambda>_.
           rbind (batch_decision True box ws) (\<lambda>(box1, ws1).
             let (win_drop, ws2) = window_decision (max_batch_size box) ws1
             in if v = next_win_start ws2
                then let (out, ws3) = open_or_not box win_drop v t ws2 in Inr (box1, ws3, out)
                else rbind (passert (v > next_win_start ws2)) (\<lambda>_.
                       let (out, ws3) = fake_or_not box win_drop t ws2 in Inr (box1, ws3, out))))))"

section \<open>A run\<close>

text \<open>One iteration of the main loop.\<close>

definition WindowDrop_step :: "tuple \<Rightarrow> window_drop_box \<Rightarrow> (window_drop_box \<times> tuple list) result option" where
  "WindowDrop_step t box =
     (let g = group_by_fields box t;
          ws0 = (case window_infos box g of None \<Rightarrow> WindowInfo_new | Some ws \<Rightarrow> ws);
          put = map_option (\<lambda>r. rbind r (\<lambda>(box1, ws, out). Inr (box1\<lparr>window_infos := (window_infos box1)(g \<mapsto> ws)\<rparr>, out)))
      in if wd_method box = WINDOW_BY_TUPLES then Some (Inl AuroraException)
         else
           let v = window_field box t;
               ws = (if initialized ws0 then ws0 else ws0\<lparr>initialized := True, next_win_start := v\<rparr>)
           in put (if v = next_win_start ws then Some (start_case box v t ws)
                   else if v < next_win_start ws then Some (Inr (box, ws, no_attraction_case box v t ws))
                   else gap_case box v t ws))"

text \<open>The whole input queue is read; the output is written to port 0.\<close>

fun WindowDropQBox_run :: "tuple list \<Rightarrow> window_drop_box \<Rightarrow> (window_drop_box \<times> tuple list) result option" where
  "WindowDropQBox_run [] box = Some (Inr (box, []))"
| "WindowDropQBox_run (t # ts) box =
     (case WindowDrop_step t box of
        None \<Rightarrow> None
      | Some (Inl e) \<Rightarrow> Some (Inl e)
      | Some (Inr (box1, out)) \<Rightarrow>
          map_option (\<lambda>r. rbind r (\<lambda>(box2, outs). Inr (box2, out @ outs))) (WindowDropQBox_run ts box1))"

lemma WindowDropQBox_run_then:
  assumes "WindowDropQBox_run ts box = Some (Inr (box1, outs))"
  shows "WindowDropQBox_run (ts @ [t]) box =
    map_option (\<lambda>r. rbind r (\<lambda>(b, out). Inr (b, outs @ out))) (WindowDrop_step t box1)"
  using assms
proof (induction ts arbitrary: box outs)
  case Nil
  then show ?case by (auto simp: rbind_def split: option.splits sum.splits)
next
  case (Cons u us)
  then obtain box0 out0 outs0 where u: "WindowDrop_step u box = Some (Inr (box0, out0))"
    "WindowDropQBox_run us box0 = Some (Inr (box1, outs0))" "outs = out0 @ outs0"
    by (fastforce split: option.splits sum.splits prod.splits)
  then show ?case using Cons.IH [OF u(2)]
    by (cases "WindowDrop_step t box1") (auto simp: rbind_def split: sum.splits)
qed

lemma WindowDropQBox_run_snoc:
  assumes "WindowDropQBox_run ts box = Some (Inr (box1, outs))" "WindowDrop_step t box1 = Some (Inr (box2, out))"
  shows "WindowDropQBox_run (ts @ [t]) box = Some (Inr (box2, outs @ out))"
  using WindowDropQBox_run_then [OF assms(1)] assms(2) by simp

end
