(* ===== verification/Window_Drop_Spec.thy ===== *)
theory Window_Drop_Spec
  imports Window_Drop
begin

text \<open>
  What the window dropper lets through: on inputs whose values grow by at most one, exactly the
  tuples at window starts and the tuples of the windows it opened. A gap in the values turns the tuple
  into a fake one, and in some states fails an assertion.
\<close>

section \<open>The flags of a group\<close>

definition ws_flags :: "window_info \<Rightarrow> bool" where
  "ws_flags ws \<longleftrightarrow> initialized ws \<and> (extra_needed ws \<longrightarrow> batch_drop ws) \<and> (drop_extra ws \<longrightarrow> \<not> batch_drop ws) \<and>
     \<not> zero_batch ws \<and> \<not> positive_batch ws \<and> \<not> force_open ws"

definition wd_same_config :: "window_drop_box \<Rightarrow> window_drop_box \<Rightarrow> bool" where
  "wd_same_config box b \<longleftrightarrow>
     box = b\<lparr>window_infos := window_infos box, start_draws := start_draws box, gap_draws := gap_draws box\<rparr>"

lemma wd_same_configD:
  assumes "wd_same_config box b"
  shows "wd_method b = wd_method box" "window_field b = window_field box" "group_by_fields b = group_by_fields box"
    "max_batch_size b = max_batch_size box" "window_size b = window_size box" "window_slide b = window_slide box"
    "across_union b = across_union box" "draws b = draws box" "window_field_offset b = window_field_offset box"
  by (subst assms [unfolded wd_same_config_def], simp)+

lemma wd_same_config_refl [simp]: "wd_same_config box box"
  by (simp add: wd_same_config_def)

lemma wd_same_config_put: "wd_same_config box b \<Longrightarrow> wd_same_config box (b\<lparr>window_infos := m\<rparr>)"
  by (simp add: wd_same_config_def)

text \<open>A decision about a batch in a window start that is the current tuple passes its assertions.\<close>

lemma batch_decision_ok:
  assumes "ws_flags ws"
  shows "\<exists>box1 ws1. batch_decision False box ws = Inr (box1, ws1) \<and> ws_flags ws1 \<and>
    next_win_start ws1 = next_win_start ws \<and> keep_until ws1 = keep_until ws \<and>
    wd_same_config b box = wd_same_config b box1 \<and> window_infos box1 = window_infos box"
  using assms by (auto simp: batch_decision_def ws_flags_def Let_def wd_same_config_def)

lemma window_decision_ok:
  assumes "ws_flags ws" "window_decision m ws = (win_drop, ws1)"
  shows "ws_flags ws1" "next_win_start ws1 = next_win_start ws" "keep_until ws1 = keep_until ws"
  using assms by (auto simp: window_decision_def ws_flags_def Let_def split: if_splits)

lemma start_case_ok:
  assumes "ws_flags ws"
  shows "\<exists>box1 ws1 opens. start_case box v t ws =
      Inr (box1, ws1, [t\<lparr>win_spec := (if opens then v + window_size box else 0)\<rparr>]) \<and> ws_flags ws1 \<and>
    next_win_start ws1 = next_win_start ws + window_slide box \<and>
    keep_until ws1 = (if opens then v + window_size box else keep_until ws) \<and>
    wd_same_config b box = wd_same_config b box1 \<and> window_infos box1 = window_infos box"
proof -
  obtain box1 ws1 where d: "batch_decision False box ws = Inr (box1, ws1)" "ws_flags ws1"
    "next_win_start ws1 = next_win_start ws" "keep_until ws1 = keep_until ws"
    "wd_same_config b box = wd_same_config b box1" "window_infos box1 = window_infos box"
    using batch_decision_ok [OF assms] by blast
  obtain win_drop ws2 where w: "window_decision (max_batch_size box) ws1 = (win_drop, ws2)" by fastforce
  note ok = window_decision_ok [OF d(2) w]
  let ?ws3 = "if win_drop then ws2\<lparr>next_win_start := next_win_start ws2 + window_slide box\<rparr>
    else ws2\<lparr>keep_until := v + window_size box, next_win_start := next_win_start ws2 + window_slide box\<rparr>"
  have "start_case box v t ws = Inr (box1, ?ws3, [t\<lparr>win_spec := (if \<not> win_drop then v + window_size box else 0)\<rparr>])"
    by (simp add: start_case_def d(1) w open_or_not_def release_def Let_def)
  moreover have "ws_flags ?ws3" using ok(1) by (simp add: ws_flags_def)
  ultimately show ?thesis using ok(2,3) d(3-6)
    by (intro exI [of _ box1] exI [of _ ?ws3] exI [of _ "\<not> win_drop"]) simp
qed

section \<open>The reference\<close>

abbreviation wd_group :: "window_drop_box \<Rightarrow> byte list \<Rightarrow> tuple list \<Rightarrow> tuple list" where
  "wd_group box g \<equiv> filter (\<lambda>t. group_by_fields box t = g)"

text \<open>
  A window start: the first tuple of its group, or the first one with a value that is a multiple
  of the slide away from that of the first.
\<close>

definition is_start :: "window_drop_box \<Rightarrow> tuple list \<Rightarrow> nat \<Rightarrow> bool" where
  "is_start box ts i \<longleftrightarrow>
     (let t = ts ! i; earlier = wd_group box (group_by_fields box t) (take i ts)
      in earlier = [] \<or> (window_slide box dvd window_field box t - window_field box (hd earlier) \<and>
           (\<forall>u \<in> set earlier. window_field box u < window_field box t)))"

text \<open>\<open>opens\<close> says at which starts a window opens; a tuple is covered if it belongs to one of them.\<close>

definition covered :: "window_drop_box \<Rightarrow> (nat \<Rightarrow> bool) \<Rightarrow> tuple list \<Rightarrow> byte list \<Rightarrow> int \<Rightarrow> bool" where
  "covered box opens ts g v \<longleftrightarrow>
     (\<exists>j < length ts. group_by_fields box (ts ! j) = g \<and> is_start box ts j \<and> opens j \<and>
        v < window_field box (ts ! j) + window_size box)"

definition shed :: "window_drop_box \<Rightarrow> (nat \<Rightarrow> bool) \<Rightarrow> tuple list \<Rightarrow> nat \<Rightarrow> tuple list" where
  "shed box opens ts i =
     (let t = ts ! i; v = window_field box t
      in if is_start box ts i then [t\<lparr>win_spec := (if opens i then v + window_size box else 0)\<rparr>]
         else if covered box opens (take i ts) (group_by_fields box t) v then [t] else [])"

definition shed_all :: "window_drop_box \<Rightarrow> (nat \<Rightarrow> bool) \<Rightarrow> tuple list \<Rightarrow> tuple list" where
  "shed_all box opens ts = concat (map (shed box opens ts) [0..<length ts])"

text \<open>Per group the values do not decrease and leave none out.\<close>

definition gapless :: "window_drop_box \<Rightarrow> tuple list \<Rightarrow> bool" where
  "gapless box ts \<longleftrightarrow>
     (\<forall>g. successively (\<lambda>a b. window_field box a \<le> window_field box b \<and> window_field box b \<le> window_field box a + 1)
        (wd_group box g ts))"

lemma is_start_append: "i < length ts \<Longrightarrow> is_start box (ts @ us) i = is_start box ts i"
  by (simp add: is_start_def nth_append)

lemma covered_snoc:
  "covered box opens (ts @ [t]) g v \<longleftrightarrow> covered box opens ts g v \<or>
     group_by_fields box t = g \<and> is_start box (ts @ [t]) (length ts) \<and> opens (length ts) \<and>
     v < window_field box t + window_size box"
  unfolding covered_def
  by (simp add: less_Suc_eq conj_disj_distribR ex_disj_distrib nth_append is_start_append cong: conj_cong)

lemma covered_cong: "(\<And>j. j < length ts \<Longrightarrow> opens j = opens' j) \<Longrightarrow> covered box opens ts g v = covered box opens' ts g v"
  unfolding covered_def by auto

lemma shed_all_snoc:
  "shed_all box opens (ts @ [t]) = shed_all box opens ts @ shed box opens (ts @ [t]) (length ts)"
proof -
  have "map (shed box opens (ts @ [t])) [0..<length ts] = map (shed box opens ts) [0..<length ts]"
    by (simp add: shed_def nth_append is_start_append Let_def less_imp_le)
  then show ?thesis by (simp add: shed_all_def del: map_eq_conv)
qed

lemma shed_all_cong:
  assumes "\<And>j. j < length ts \<Longrightarrow> opens j = opens' j"
  shows "shed_all box opens ts = shed_all box opens' ts"
proof -
  have "covered box opens (take i ts) g v = covered box opens' (take i ts) g v" for i g v
    using assms by (intro covered_cong) simp
  then have "map (shed box opens ts) [0..<length ts] = map (shed box opens' ts) [0..<length ts]"
    using assms by (simp add: shed_def Let_def)
  then show ?thesis unfolding shed_all_def by (rule arg_cong)
qed

lemma gapless_snoc:
  assumes "gapless box (ts @ [t])"
  defines "earlier \<equiv> wd_group box (group_by_fields box t) ts"
  shows "gapless box ts"
    "earlier \<noteq> [] \<Longrightarrow> window_field box (last earlier) \<le> window_field box t"
    "earlier \<noteq> [] \<Longrightarrow> window_field box t \<le> window_field box (last earlier) + 1"
    "u \<in> set earlier \<Longrightarrow> window_field box u \<le> window_field box (last earlier)"
    "u \<in> set earlier \<Longrightarrow> window_field box (hd earlier) \<le> window_field box u"
proof -
  show g: "gapless box ts"
    using assms(1) unfolding gapless_def by (auto simp: successively_append_iff split: if_splits)
  show "earlier \<noteq> [] \<Longrightarrow> window_field box (last earlier) \<le> window_field box t"
    "earlier \<noteq> [] \<Longrightarrow> window_field box t \<le> window_field box (last earlier) + 1"
    using assms(1) unfolding gapless_def earlier_def
    by (auto simp: successively_append_iff dest!: spec [of _ "group_by_fields box t"])
  have "successively (\<lambda>a b. window_field box a \<le> window_field box b) earlier"
    using g unfolding gapless_def earlier_def by (blast intro: successively_mono)
  then have s: "sorted_wrt (\<lambda>a b. window_field box a \<le> window_field box b) earlier"
    by (subst (asm) successively_conv_sorted_wrt) (auto intro: transpI)
  have "u \<in> set xs \<Longrightarrow> sorted_wrt (\<lambda>a b. window_field box a \<le> window_field box b) xs \<Longrightarrow>
      window_field box u \<le> window_field box (last xs) \<and> window_field box (hd xs) \<le> window_field box u" for xs
    by (induction xs) auto
  from this [OF _ s] show "u \<in> set earlier \<Longrightarrow> window_field box u \<le> window_field box (last earlier)"
    "u \<in> set earlier \<Longrightarrow> window_field box (hd earlier) \<le> window_field box u" by blast+
qed

section \<open>Runs without gaps\<close>

definition covers :: "window_drop_box \<Rightarrow> (nat \<Rightarrow> bool) \<Rightarrow> tuple list \<Rightarrow> byte list \<Rightarrow> window_info option \<Rightarrow> bool" where
  "covers box opens ts g wi \<longleftrightarrow>
     (let xs = wd_group box g ts
      in if xs = [] then wi = None
         else \<exists>ws. wi = Some ws \<and> ws_flags ws \<and>
           next_win_start ws = window_field box (hd xs) + window_slide box *
             ((window_field box (last xs) - window_field box (hd xs)) div window_slide box + 1) \<and>
           (\<forall>v \<ge> window_field box (last xs). v < keep_until ws \<longleftrightarrow> covered box opens ts g v))"

text \<open>The next window start is the least multiple of the slide above the last value.\<close>

lemma next_start:
  fixes d :: int
  assumes "0 < d" "n = h + d * ((l - h) div d + 1)"
  shows "l < n" "h \<le> l \<Longrightarrow> l \<le> v \<Longrightarrow> v < n \<Longrightarrow> d dvd v - h \<Longrightarrow> v = l"
    "v = n \<Longrightarrow> d dvd v - h" "v = n \<Longrightarrow> (v - h) div d = (l - h) div d + 1"
    "l \<le> v \<Longrightarrow> v < n \<Longrightarrow> (v - h) div d = (l - h) div d"
proof -
  have lt: "l - h < d * ((l - h) div d) + d" using assms(1) mult_div_mod_eq [of d "l - h"] pos_mod_bound [of d "l - h"]
    by linarith
  then show less: "l < n" using assms(2) by (simp add: algebra_simps)
  show "v = n \<Longrightarrow> d dvd v - h" using assms(2) by simp
  show "v = n \<Longrightarrow> (v - h) div d = (l - h) div d + 1" using assms by simp
  show div: "l \<le> v \<Longrightarrow> v < n \<Longrightarrow> (v - h) div d = (l - h) div d"
  proof -
    assume v: "l \<le> v" "v < n"
    have "d * ((l - h) div d) \<le> v - h" using v(1) mult_div_mod_eq [of d "l - h"] pos_mod_sign [OF assms(1), of "l - h"]
      by linarith
    moreover have "v - h < d * ((l - h) div d) + d" using v(2) assms(2) by (simp add: algebra_simps)
    ultimately show ?thesis using assms(1) by (intro int_div_pos_eq [of _ _ _ "v - h - d * ((l - h) div d)"]) auto
  qed
  show "h \<le> l \<Longrightarrow> l \<le> v \<Longrightarrow> v < n \<Longrightarrow> d dvd v - h \<Longrightarrow> v = l"
  proof -
    assume a: "h \<le> l" "l \<le> v" "v < n" "d dvd v - h"
    have "v - h = d * ((l - h) div d)" using div [OF a(2,3)] a(4) dvd_mult_div_cancel [of d "v - h"] by simp
    also have "\<dots> \<le> l - h" using mult_div_mod_eq [of d "l - h"] pos_mod_sign [OF assms(1), of "l - h"] by linarith
    finally show ?thesis using a(2) by simp
  qed
qed

lemma covers_other:
  assumes "covers box opens ts g wi" "group_by_fields box t \<noteq> g"
  shows "covers box (opens(length ts := k)) (ts @ [t]) g wi"
proof -
  have "covered box (opens(length ts := k)) (ts @ [t]) g v = covered box opens ts g v" for v
    using assms(2) covered_cong [of ts "opens(length ts := k)" opens box g v] by (simp add: covered_snoc)
  then show ?thesis using assms by (simp add: covers_def Let_def)
qed

lemma shed_snoc:
  "shed box (opens(length ts := k)) (ts @ [t]) (length ts) =
    (if is_start box (ts @ [t]) (length ts)
     then [t\<lparr>win_spec := (if k then window_field box t + window_size box else 0)\<rparr>]
     else if covered box opens ts (group_by_fields box t) (window_field box t) then [t] else [])"
  using covered_cong [of ts "opens(length ts := k)" opens box] by (simp add: shed_def Let_def)

text \<open>What the state of the group of the next tuple says about it, before the tuple is handled.\<close>

definition group_at :: "window_drop_box \<Rightarrow> (nat \<Rightarrow> bool) \<Rightarrow> tuple list \<Rightarrow> tuple \<Rightarrow> window_info \<Rightarrow> bool" where
  "group_at box opens ts t ws \<longleftrightarrow>
     (let g = group_by_fields box t; earlier = wd_group box g ts; h = window_field box (hd earlier);
          l = window_field box (last earlier)
      in ws_flags ws \<and> (earlier = [] \<longrightarrow> next_win_start ws = window_field box t) \<and>
         (earlier \<noteq> [] \<longrightarrow> next_win_start ws = h + window_slide box * ((l - h) div window_slide box + 1)) \<and>
         (\<forall>u \<ge> 0. (earlier \<noteq> [] \<longrightarrow> l \<le> u) \<longrightarrow> (u < keep_until ws \<longleftrightarrow> covered box opens ts g u)))"

lemma group_atI:
  assumes "covers box opens ts (group_by_fields box t) wi"
  defines "ws \<equiv> (case wi of None \<Rightarrow> WindowInfo_new\<lparr>initialized := True, next_win_start := window_field box t\<rparr> | Some ws \<Rightarrow> ws)"
  shows "group_at box opens ts t ws"
proof (cases "wd_group box (group_by_fields box t) ts = []")
  case True
  then have "wi = None" using assms(1) by (simp add: covers_def)
  moreover have "\<not> covered box opens ts (group_by_fields box t) u" for u
    using True set_conv_nth [of ts] by (auto simp: covered_def filter_empty_conv)
  ultimately show ?thesis
    by (simp add: group_at_def Let_def True ws_def ws_flags_def WindowInfo_new_def)
next
  case False
  then show ?thesis using assms(1) by (auto simp: covers_def Let_def group_at_def ws_def)
qed

lemma group_atD:
  assumes "group_at box opens ts t ws"
  defines "earlier \<equiv> wd_group box (group_by_fields box t) ts"
  shows "ws_flags ws" "earlier = [] \<Longrightarrow> next_win_start ws = window_field box t"
    "earlier \<noteq> [] \<Longrightarrow> next_win_start ws = window_field box (hd earlier) +
       window_slide box * ((window_field box (last earlier) - window_field box (hd earlier)) div window_slide box + 1)"
    "0 \<le> u \<Longrightarrow> earlier \<noteq> [] \<longrightarrow> window_field box (last earlier) \<le> u \<Longrightarrow>
       u < keep_until ws \<longleftrightarrow> covered box opens ts (group_by_fields box t) u"
  using assms(1) by (auto simp: group_at_def earlier_def Let_def)

lemma is_start_snoc:
  "is_start box (ts @ [t]) (length ts) \<longleftrightarrow>
    (let earlier = wd_group box (group_by_fields box t) ts
     in earlier = [] \<or> window_slide box dvd window_field box t - window_field box (hd earlier) \<and>
        (\<forall>u \<in> set earlier. window_field box u < window_field box t))"
  by (simp add: is_start_def)

lemma coversI:
  assumes "ws_flags ws" "\<And>v. window_field box t \<le> v \<Longrightarrow> v < keep_until ws \<longleftrightarrow>
      covered box opens (ts @ [t]) (group_by_fields box t) v"
    and "next_win_start ws = window_field box (hd (wd_group box (group_by_fields box t) ts @ [t])) + window_slide box *
      ((window_field box t - window_field box (hd (wd_group box (group_by_fields box t) ts @ [t]))) div window_slide box + 1)"
  shows "covers box opens (ts @ [t]) (group_by_fields box t) (Some ws)"
  using assms by (simp add: covers_def Let_def)

text \<open>The tuple is a window start.\<close>

lemma start_covers:
  assumes "group_at box opens ts t ws" "0 < window_slide box" "gapless box (ts @ [t])" "0 \<le> window_field box t"
    and "window_field box t = next_win_start ws" "ws_flags ws1"
    and "next_win_start ws1 = next_win_start ws + window_slide box"
    and "keep_until ws1 = (if k then window_field box t + window_size box else keep_until ws)"
  shows "is_start box (ts @ [t]) (length ts)"
    "covers box (opens(length ts := k)) (ts @ [t]) (group_by_fields box t) (Some ws1)"
proof -
  define g where "g = group_by_fields box t"
  define v where "v = window_field box t"
  define earlier where "earlier = wd_group box g ts"
  note gp = gapless_snoc [OF assms(3), folded g_def v_def, folded earlier_def]
    and at = group_atD [OF assms(1), folded g_def v_def, folded earlier_def]
  have n: "v = window_field box (hd earlier) +
      window_slide box * ((window_field box (last earlier) - window_field box (hd earlier)) div window_slide box + 1)"
    if "earlier \<noteq> []"
    using at(3) [OF that] assms(5) by (simp add: v_def)
  have less: "window_field box u < v" if "u \<in> set earlier" for u
    using gp(4) [OF that] next_start(1) [OF assms(2) n] that by fastforce
  show st: "is_start box (ts @ [t]) (length ts)"
    using less next_start(3) [OF assms(2) n] by (auto simp: is_start_snoc Let_def g_def [symmetric] v_def [symmetric] earlier_def [symmetric])
  show "covers box (opens(length ts := k)) (ts @ [t]) (group_by_fields box t) (Some ws1)"
  proof (rule coversI [OF assms(6)], unfold g_def [symmetric] v_def [symmetric] earlier_def [symmetric])
    fix u assume u: "v \<le> u"
    have c: "covered box (opens(length ts := k)) ts g u = covered box opens ts g u" by (intro covered_cong) simp
    have "earlier \<noteq> [] \<longrightarrow> window_field box (last earlier) \<le> u" using gp(2) u by fastforce
    with at(4) [of u] assms(4) u have old: "u < keep_until ws \<longleftrightarrow> covered box opens ts g u" by (simp add: v_def)
    have "u < v + window_size box" if cov: "covered box opens ts g u"
    proof -
      obtain j where j: "j < length ts" "group_by_fields box (ts ! j) = g" "u < window_field box (ts ! j) + window_size box"
        using cov by (auto simp: covered_def)
      then show ?thesis using less [of "ts ! j"] by (simp add: earlier_def)
    qed
    then show "u < keep_until ws1 \<longleftrightarrow> covered box (opens(length ts := k)) (ts @ [t]) g u"
      using old assms(8) st by (auto simp: covered_snoc c g_def [symmetric] v_def [symmetric])
  next
    show "next_win_start ws1 = window_field box (hd (earlier @ [t])) +
        window_slide box * ((v - window_field box (hd (earlier @ [t]))) div window_slide box + 1)"
    proof (cases "earlier = []")
      case False
      then show ?thesis
        using assms(5,7) next_start(4) [OF assms(2) at(3) [OF False]] at(3) [OF False] by (simp add: v_def algebra_simps)
    qed (use assms(5,7) in \<open>simp add: v_def\<close>)
  qed
qed

text \<open>The tuple is between two window starts.\<close>

lemma between_covers:
  assumes "group_at box opens ts t ws" "0 < window_slide box" "gapless box (ts @ [t])" "0 \<le> window_field box t"
    and "window_field box t \<noteq> next_win_start ws"
  shows "window_field box t < next_win_start ws" "\<not> is_start box (ts @ [t]) (length ts)"
    "window_field box t < keep_until ws \<longleftrightarrow> covered box opens ts (group_by_fields box t) (window_field box t)"
    "covers box (opens(length ts := False)) (ts @ [t]) (group_by_fields box t) (Some ws)"
proof -
  define g where "g = group_by_fields box t"
  define v where "v = window_field box t"
  define earlier where "earlier = wd_group box g ts"
  note gp = gapless_snoc [OF assms(3), folded g_def v_def, folded earlier_def]
    and at = group_atD [OF assms(1), folded g_def v_def, folded earlier_def]
  have e: "earlier \<noteq> []" using at(2) assms(5) by (auto simp: v_def)
  let ?l = "window_field box (last earlier)" and ?h = "window_field box (hd earlier)"
  note nx = next_start [OF assms(2) at(3) [OF e]]
  have hl: "?h \<le> ?l" using gp(5) [of "last earlier"] e by simp
  show lt: "window_field box t < next_win_start ws" using gp(3) [OF e] nx(1) assms(5) by (simp add: v_def)
  have nd: "\<not> (window_slide box dvd v - ?h \<and> ?l < v)"
    using nx(2) [OF hl gp(2) [OF e]] lt by (auto simp: v_def)
  then show nst: "\<not> is_start box (ts @ [t]) (length ts)"
    using e last_in_set [OF e] by (auto simp: is_start_snoc Let_def g_def [symmetric] v_def [symmetric] earlier_def [symmetric])
  show "window_field box t < keep_until ws \<longleftrightarrow> covered box opens ts (group_by_fields box t) (window_field box t)"
    using at(4) gp(2) assms(4) by (simp add: v_def g_def)
  show "covers box (opens(length ts := False)) (ts @ [t]) (group_by_fields box t) (Some ws)"
  proof (rule coversI [OF at(1)], unfold g_def [symmetric] v_def [symmetric] earlier_def [symmetric])
    fix u assume "v \<le> u"
    then show "u < keep_until ws \<longleftrightarrow> covered box (opens(length ts := False)) (ts @ [t]) g u"
      using at(4) [of u] gp(2) [OF e] assms(4) nst covered_cong [of ts "opens(length ts := False)" opens box g u]
      by (simp add: covered_snoc v_def)
  next
    show "next_win_start ws = window_field box (hd (earlier @ [t])) +
        window_slide box * ((v - window_field box (hd (earlier @ [t]))) div window_slide box + 1)"
      using at(3) [OF e] nx(5) [OF gp(2) [OF e]] lt e by (simp add: v_def)
  qed
qed

lemma step_covers:
  assumes "wd_method box = WINDOW_BY_VALUES" "0 < window_slide box" "\<not> across_union box"
    and "wd_same_config box b" "\<forall>g. covers box opens ts g (window_infos b g)"
    and "gapless box (ts @ [t])" "\<forall>u \<in> set (ts @ [t]). 0 \<le> window_field box u"
  shows "\<exists>b' k. WindowDrop_step t b = Some (Inr (b', shed box (opens(length ts := k)) (ts @ [t]) (length ts))) \<and>
    wd_same_config box b' \<and> (\<forall>g. covers box (opens(length ts := k)) (ts @ [t]) g (window_infos b' g))"
proof -
  note conf = wd_same_configD [OF assms(4)]
  define g where "g = group_by_fields box t"
  define v where "v = window_field box t"
  define ws where "ws = (case window_infos b g of
      None \<Rightarrow> WindowInfo_new\<lparr>initialized := True, next_win_start := v\<rparr> | Some ws \<Rightarrow> ws)"
  have at: "group_at box opens ts t ws"
    unfolding ws_def v_def by (rule group_atI) (use assms(5) in \<open>simp add: g_def\<close>)
  note flags = group_atD(1) [OF at] and v0 = assms(7) [rule_format, of t, simplified]
  have step: "WindowDrop_step t b = map_option (\<lambda>r. rbind r (\<lambda>(box1, ws, out).
      Inr (box1\<lparr>window_infos := (window_infos box1)(g \<mapsto> ws)\<rparr>, out)))
      (if v = next_win_start ws then Some (start_case b v t ws)
       else if v < next_win_start ws then Some (Inr (b, ws, no_attraction_case b v t ws)) else gap_case b v t ws)"
    using flags by (auto simp: WindowDrop_step_def Let_def conf assms(1) g_def [symmetric] v_def [symmetric] ws_def
        ws_flags_def WindowInfo_new_def split: option.splits)
  have others: "covers box (opens(length ts := k)) (ts @ [t]) g' (((window_infos b)(g \<mapsto> ws')) g')"
    if "covers box (opens(length ts := k)) (ts @ [t]) g (Some ws')" for k ws' g'
    using that covers_other [of box opens ts g' _ t k] assms(5) by (cases "g' = g") (auto simp: g_def)
  show ?thesis
  proof (cases "v = next_win_start ws")
    case True
    obtain box1 ws1 k where s: "start_case b v t ws = Inr (box1, ws1, [t\<lparr>win_spec := (if k then v + window_size b else 0)\<rparr>])"
      "ws_flags ws1" "next_win_start ws1 = next_win_start ws + window_slide b"
      "keep_until ws1 = (if k then v + window_size b else keep_until ws)" "wd_same_config box b = wd_same_config box box1"
      "window_infos box1 = window_infos b"
      using start_case_ok [OF flags] by blast
    note c = start_covers [OF at assms(2,6) v0 True [unfolded v_def] s(2) s(3,4) [unfolded conf v_def]]
    let ?b = "box1\<lparr>window_infos := (window_infos box1)(g \<mapsto> ws1)\<rparr>"
    have "WindowDrop_step t b = Some (Inr (?b, shed box (opens(length ts := k)) (ts @ [t]) (length ts)))"
      using True s(1) c(1) by (simp add: step shed_snoc conf v_def)
    moreover have "wd_same_config box ?b" using assms(4) s(5) wd_same_config_put by blast
    moreover have "covers box (opens(length ts := k)) (ts @ [t]) g' (window_infos ?b g')" for g'
      using others [OF c(2) [folded g_def]] s(6) by simp
    ultimately show ?thesis by blast
  next
    case False
    note c = between_covers [OF at assms(2,6) v0 False [unfolded v_def]]
    let ?b = "b\<lparr>window_infos := (window_infos b)(g \<mapsto> ws)\<rparr>"
    have "WindowDrop_step t b = Some (Inr (?b, shed box (opens(length ts := False)) (ts @ [t]) (length ts)))"
      using False c(1-3) assms(3) by (simp add: step shed_snoc no_attraction_case_def release_def conf g_def v_def)
    moreover have "covers box (opens(length ts := False)) (ts @ [t]) g' (window_infos ?b g')" for g'
      using others [OF c(4) [folded g_def]] by simp
    ultimately show ?thesis using wd_same_config_put [OF assms(4)] by blast
  qed
qed

text \<open>A new box sheds exactly what the reference sheds, for some choice of the windows that open.\<close>

lemma run_sheds:
  assumes "wd_method box = WINDOW_BY_VALUES" "0 < window_slide box" "\<not> across_union box" "window_infos box = Map.empty"
    and "gapless box ts" "\<forall>u \<in> set ts. 0 \<le> window_field box u"
  shows "\<exists>b opens. WindowDropQBox_run ts box = Some (Inr (b, shed_all box opens ts)) \<and> wd_same_config box b \<and>
    (\<forall>g. covers box opens ts g (window_infos b g))"
  using assms(5,6)
proof (induction ts rule: rev_induct)
  case Nil
  then show ?case using assms(4) by (simp add: shed_all_def covers_def)
next
  case (snoc t ts)
  obtain b opens where IH: "WindowDropQBox_run ts box = Some (Inr (b, shed_all box opens ts))" "wd_same_config box b"
    "\<forall>g. covers box opens ts g (window_infos b g)"
    using snoc.IH gapless_snoc(1) [OF snoc.prems(1)] snoc.prems(2) by auto
  obtain b' k where st: "WindowDrop_step t b = Some (Inr (b', shed box (opens(length ts := k)) (ts @ [t]) (length ts)))"
    "wd_same_config box b'" "\<forall>g. covers box (opens(length ts := k)) (ts @ [t]) g (window_infos b' g)"
    using step_covers [OF assms(1-3) IH(2,3) snoc.prems] by blast
  have "shed_all box (opens(length ts := k)) (ts @ [t]) =
      shed_all box opens ts @ shed box (opens(length ts := k)) (ts @ [t]) (length ts)"
    using shed_all_cong [of ts "opens(length ts := k)" opens box] by (simp add: shed_all_snoc)
  then show ?case using WindowDropQBox_run_snoc [OF IH(1) st(1)] st(2,3) by metis
qed

end
