(* ===== verification/Aggregate_Box.thy ===== *)
theory Aggregate_Box
  imports Complex_Main Box_Runs "HOL-Library.While_Combinator"
begin

text \<open>
  The Aggregate box (boxes/AggregateQBox.cc, AggregateQBox.h): per group a list of open windows,
  over tuple counts or over the values of a field, each with the state of the aggregate
  functions, closed and emitted as tuples arrive or time out.

  The values of fields (\<open>double\<close>) are rationals. The aggregate functions are loaded by name; a
  function is a record of the operations of its windows, on a state \<open>'w\<close>. The window field and
  the group-by expressions are functions on the tuple.
\<close>

section \<open>State\<close>

record 'w aggregate =
  agg_init :: 'w
  agg_incr :: "tuple \<Rightarrow> 'w \<Rightarrow> 'w"
  agg_final :: "'w \<Rightarrow> byte list"

text \<open>
  A window of either kind: by values from \<open>first_val\<close> up to but without \<open>last_val\<close>, or by tuples.
  \<open>window_no\<close> is its identity, which the two lists that share it refer to; \<open>in_timeouts\<close> says
  whether its iterator into the timeout list is valid.
\<close>

datatype window_kind =
  ValueWindow (first_val: rat) (last_val: rat) (slack_remaining: int)
| TupleWindow (tuple_window_size: int) (tuple_count: int) (start_value: int)

record 'w window =
  window_no :: nat
  window_kind :: window_kind
  agg_windows :: "'w list"
  group_by_value :: "byte list"
  window_initialized :: bool
  w_t0 :: timestamp
  w_lt0 :: timestamp
  w_t_last :: timestamp
  w_lt_last :: timestamp
  w_tid :: int
  w_max_stime :: timestamp
  w_empty :: bool
  w_win_spec :: int
  w_fake_flag :: bool
  w_checkpointed :: bool
  in_timeouts :: bool

record window_start =
  ws_initialized :: bool
  ws_next :: rat
  ws_keep_until :: rat
  ws_checkpointed :: bool

text \<open>
  \<open>out_memory k\<close> is what the memory of the \<open>k\<close>-th output tuple held before, \<open>stale_tid k\<close> what the
  uninitialised member \<open>_tid\<close> of window \<open>k\<close> holds, \<open>double_bytes\<close> the representation of a \<open>double\<close>.
\<close>

record 'w aggregate_box =
  agg_functions :: "'w aggregate list"
  agg_drop_mode :: bool
  last_agg :: bool
  box_tentative :: bool
  drop_empty_outputs :: bool
  independent_alignment :: bool
  agg_method :: window_method
  agg_window_size :: rat
  advance_size :: rat
  agg_order_by :: order_by_method
  agg_window_field :: "tuple \<Rightarrow> rat"
  agg_field_is_int32 :: bool
  agg_field_length :: nat
  agg_group_by :: "tuple \<Rightarrow> byte list"
  window_starts :: "byte list \<rightharpoonup> window_start"
  box_slack :: int
  timing_out :: bool
  agg_timeout :: timestamp
  timeout_list :: "(byte list \<times> nat) list"
  open_windows :: "byte list \<rightharpoonup> 'w window list"
  dirty_windows :: "byte list \<Rightarrow> bool"
  count_new_windows :: int
  count_updated_windows :: int
  next_window_no :: nat
  emitted_count :: nat
  out_memory :: "nat \<Rightarrow> tuple"
  stale_tid :: "nat \<Rightarrow> int"
  double_bytes :: "rat \<Rightarrow> byte list"
  agg_header_size :: nat

definition windows_of :: "byte list \<Rightarrow> 'w aggregate_box \<Rightarrow> 'w window list" where
  "windows_of g box = (case open_windows box g of None \<Rightarrow> [] | Some ws \<Rightarrow> ws)"

definition set_windows :: "byte list \<Rightarrow> 'w window list \<Rightarrow> 'w aggregate_box \<Rightarrow> 'w aggregate_box" where
  "set_windows g ws box = box\<lparr>open_windows := (open_windows box)(g \<mapsto> ws)\<rparr>"

definition WindowStart_new :: "rat \<Rightarrow> rat \<Rightarrow> window_start" where
  "WindowStart_new n k = \<lparr>ws_initialized = False, ws_next = n, ws_keep_until = k, ws_checkpointed = False\<rparr>"

section \<open>Windows\<close>

definition Window_new :: "'w aggregate_box \<Rightarrow> byte list \<Rightarrow> window_kind \<Rightarrow> int \<Rightarrow> bool \<Rightarrow> 'w window" where
  "Window_new box g kind spec fake =
     \<lparr>window_no = next_window_no box, window_kind = kind, agg_windows = map agg_init (agg_functions box),
      group_by_value = g, window_initialized = False, w_t0 = Timestamp_zero, w_lt0 = Timestamp_zero,
      w_t_last = Timestamp_zero, w_lt_last = Timestamp_zero, w_tid = stale_tid box (next_window_no box),
      w_max_stime = Timestamp_zero, w_empty = True, w_win_spec = spec, w_fake_flag = fake,
      w_checkpointed = False, in_timeouts = False\<rparr>"

definition insert_new_window :: "byte list \<Rightarrow> 'w window \<Rightarrow> 'w aggregate_box \<Rightarrow> 'w aggregate_box" where
  "insert_new_window g w box =
     (let box1 = box\<lparr>next_window_no := Suc (next_window_no box)\<rparr>
      in if timing_out box
         then (set_windows g (windows_of g box @ [w\<lparr>in_timeouts := True\<rparr>]) box1)
                \<lparr>timeout_list := timeout_list box @ [(g, window_no w)]\<rparr>
         else set_windows g (windows_of g box @ [w]) box1)"

definition ts_max :: "timestamp \<Rightarrow> timestamp \<Rightarrow> timestamp" where
  "ts_max a b = (if Timestamp_gt a b then a else b)"

text \<open>
  The integer at byte 16 of the header, which the code takes for the tuple's id: the flag and the
  low bytes of the type.
\<close>

definition header_int4 :: "tuple \<Rightarrow> int" where
  "header_int4 t = uint (tuple_flag t) + 256 * int (TupleType_as_int (tuple_type t))"

definition Window_insert_tuple :: "'w aggregate list \<Rightarrow> tuple \<Rightarrow> 'w window \<Rightarrow> 'w window" where
  "Window_insert_tuple afs t w0 =
     (let w = (if window_initialized w0 then w0
               else w0\<lparr>w_t0 := tv t, w_lt0 := local_tv t, w_t_last := tv t, w_lt_last := local_tv t,
                       w_tid := header_int4 t, window_initialized := True\<rparr>);
          w1 = w\<lparr>w_empty := False\<rparr>
      in if get_fake_flag t \<or> w_fake_flag w1 then w1
         else w1\<lparr>w_max_stime := ts_max (tuple_stime t) (w_max_stime w1), w_t_last := ts_max (tv t) (w_t_last w1),
                 w_lt_last := ts_max (local_tv t) (w_lt_last w1),
                 agg_windows := map2 (\<lambda>af. agg_incr af t) afs (agg_windows w1)\<rparr>)"

text \<open>The result says whether the window closes; the tuple that closes a window by values is not part of it.\<close>

definition insert_tuple :: "'w aggregate list \<Rightarrow> rat \<Rightarrow> tuple \<Rightarrow> 'w window \<Rightarrow> bool \<times> 'w window" where
  "insert_tuple afs v t w =
     (case window_kind w of
        ValueWindow lo hi slack_left \<Rightarrow>
          if v < lo then (False, w)
          else if v \<ge> hi
          then if slack_left > 0 then (False, w\<lparr>window_kind := ValueWindow lo hi (slack_left - 1)\<rparr>)
               else (True, w\<lparr>w_max_stime := ts_max (tuple_stime t) (w_max_stime w), w_t_last := ts_max (tv t) (w_t_last w),
                             w_lt_last := ts_max (local_tv t) (w_lt_last w)\<rparr>)
          else (False, Window_insert_tuple afs t w)
      | TupleWindow sz n st \<Rightarrow>
          (n + 1 \<ge> sz, Window_insert_tuple afs t (w\<lparr>window_kind := TupleWindow sz (n + 1) st\<rparr>)))"

definition get_start_value :: "window_kind \<Rightarrow> rat" where
  "get_start_value k = (case k of ValueWindow lo _ _ \<Rightarrow> lo | TupleWindow _ _ st \<Rightarrow> of_int st)"

definition final_value :: "'w aggregate list \<Rightarrow> 'w window \<Rightarrow> byte list" where
  "final_value afs w = concat (map2 agg_final afs (agg_windows w))"

text \<open>
  The output tuple, written over the memory at the enqueue position. A start value that is not an
  \<open>int32\<close> is copied from the bytes of the \<open>double\<close>, as many as the field has.
\<close>

definition emit_for_window :: "'w window \<Rightarrow> 'w aggregate_box \<Rightarrow> tuple \<times> 'w aggregate_box" where
  "emit_for_window w box =
     (let old = out_memory box (emitted_count box);
          start = get_start_value (window_kind w);
          bytes = group_by_value w
            @ (if agg_order_by box = ORDER_BY_FIELD
               then take (agg_field_length box)
                      (if agg_field_is_int32 box then int32_bytes (if start \<ge> 0 then \<lfloor>start\<rfloor> else \<lceil>start\<rceil>)
                       else double_bytes box start)
               else [])
            @ (if w_fake_flag w then [] else final_value (agg_functions box) w);
          out = set_fake_flag (w_fake_flag w)
            (old\<lparr>tv := w_t_last w, local_tv := w_lt_last w, tuple_id := w_tid w, tuple_type := INSERTION,
                 rev_id := -1, quality := 0x3FF0000000000000, win_spec := w_win_spec w\<rparr>)
      in (out\<lparr>tuple_stime := w_max_stime w, tuple_type := (if box_tentative box then TENTATIVE else INSERTION),
              body := overlay bytes (body old)\<rparr>,
          box\<lparr>emitted_count := Suc (emitted_count box)\<rparr>))"

text \<open>Emission unless the window is empty and empty outputs are dropped.\<close>

definition emit_unless_empty :: "'w window \<Rightarrow> 'w aggregate_box \<Rightarrow> tuple list \<times> 'w aggregate_box" where
  "emit_unless_empty w box =
     (if \<not> w_empty w \<or> \<not> drop_empty_outputs box
      then (let (t, box1) = emit_for_window w box in ([t], box1)) else ([], box))"

end
