(* ===== verification/Aggregate_Run.thy ===== *)
theory Aggregate_Run
  imports Aggregate_Box
begin

text \<open>
  The main loop of the Aggregate box. A step may never end (\<open>None\<close>), when an advance that is not
  positive keeps opening windows.
\<close>

section \<open>Timeouts\<close>

text \<open>
  Windows whose first tuple is older than the threshold, oldest first. A window that is in the
  timeout list but not open would be a dangling reference.
\<close>

fun expire_windows :: "timestamp \<Rightarrow> (byte list \<times> nat) list \<Rightarrow> 'w aggregate_box \<Rightarrow> ('w aggregate_box \<times> tuple list) result" where
  "expire_windows threshold [] box = Inr (box\<lparr>timeout_list := []\<rparr>, [])"
| "expire_windows threshold ((g, i) # rest) box =
     (case find (\<lambda>w. window_no w = i) (windows_of g box) of
        None \<Rightarrow> Inl Undefined
      | Some w \<Rightarrow>
          if Timestamp_gt threshold (w_t0 w)
          then let (out, box1) = emit_unless_empty w box;
                   box2 = (set_windows g (filter (\<lambda>u. window_no u \<noteq> i) (windows_of g box1)) box1)
                            \<lparr>dirty_windows := (dirty_windows box1)(g := True)\<rparr>
               in rbind (expire_windows threshold rest box2) (\<lambda>(b, outs). Inr (b, out @ outs))
          else Inr (box\<lparr>timeout_list := (g, i) # rest\<rparr>, []))"

definition expire_timeouts :: "tuple \<Rightarrow> 'w aggregate_box \<Rightarrow> ('w aggregate_box \<times> tuple list) result" where
  "expire_timeouts t box =
     (if timing_out box
      then expire_windows (Timestamp_minus_assign (tv t) (agg_timeout box)) (timeout_list box) box
      else Inr (box, []))"

section \<open>Opening windows\<close>

definition open_tuple_window :: "byte list \<Rightarrow> tuple \<Rightarrow> 'w aggregate_box \<Rightarrow> 'w aggregate_box" where
  "open_tuple_window g t box =
     (let wl = windows_of g box
      in if wl = [] \<or> of_int (tuple_count (window_kind (last wl))) \<ge> advance_size box
         then let st = (if agg_order_by box = ORDER_BY_FIELD then \<lfloor>agg_window_field box t\<rfloor> else 0)
              in insert_new_window g (Window_new box g (TupleWindow \<lfloor>agg_window_size box\<rfloor> 0 st) (-1) False) box
         else box)"

definition open_value_window ::
  "byte list \<Rightarrow> rat \<Rightarrow> int \<Rightarrow> bool \<Rightarrow> 'w aggregate_box \<Rightarrow> 'w aggregate_box" where
  "open_value_window g start spec fake box =
     insert_new_window g
       (Window_new box g (ValueWindow start (start + agg_window_size box) (box_slack box)) spec fake) box"

text \<open>Normal operation: a window for every start up to the value.\<close>

definition open_regular ::
  "byte list \<Rightarrow> rat \<Rightarrow> int \<Rightarrow> window_start \<Rightarrow> 'w aggregate_box \<Rightarrow> (window_start \<times> 'w aggregate_box) option" where
  "open_regular g v spec ws box =
     while_option (\<lambda>(ws, b). v \<ge> ws_next ws)
       (\<lambda>(ws, b). (ws\<lparr>ws_next := ws_next ws + advance_size b\<rparr>, open_value_window g (ws_next ws) spec False b))
       (ws, box)"

text \<open>C's conversion of a \<open>double\<close> to an \<open>int\<close>, and \<open>fmod\<close> for a modulus that is not 0.\<close>

definition c_trunc :: "rat \<Rightarrow> int" where
  "c_trunc x = (if x \<ge> 0 then \<lfloor>x\<rfloor> else \<lceil>x\<rceil>)"

definition c_fmod :: "rat \<Rightarrow> rat \<Rightarrow> rat" where
  "c_fmod a b = a - b * of_int (c_trunc (a / b))"

text \<open>Behind a load shedder: the window specification of the tuple says which windows were kept.\<close>

definition open_shed ::
  "byte list \<Rightarrow> rat \<Rightarrow> int \<Rightarrow> window_start \<Rightarrow> 'w aggregate_box \<Rightarrow> window_start \<times> 'w aggregate_box" where
  "open_shed g v spec ws box =
     (let adv = advance_size box; size1 = agg_window_size box - 1;
          new_spec = spec - c_trunc size1
      in if v = ws_next ws
         then if spec > 0
              then (ws\<lparr>ws_next := ws_next ws + adv, ws_keep_until := of_int spec - size1\<rparr>,
                    open_value_window g (ws_next ws) new_spec False box)
              else if v \<ge> ws_keep_until ws
              then if spec = 0 \<and> \<not> last_agg box
                   then (ws\<lparr>ws_next := ws_next ws + adv\<rparr>, open_value_window g v 0 True box)
                   else (ws\<lparr>ws_next := ws_next ws + adv\<rparr>,
                         if spec = -1 \<and> last_agg box then box\<lparr>agg_drop_mode := False\<rparr> else box)
              else (ws\<lparr>ws_next := ws_next ws + adv,
                       ws_keep_until := (if ws_keep_until ws < v + agg_window_size box
                                         then v + agg_window_size box else ws_keep_until ws)\<rparr>,
                    open_value_window g (ws_next ws) spec False box)
         else if spec > 0
              then (ws\<lparr>ws_keep_until := of_int spec - size1\<rparr>, open_value_window g v new_spec True box)
              else if spec = 0 then (ws, open_value_window g v 0 True box)
              else (ws, box))"

definition open_value_windows ::
  "byte list \<Rightarrow> tuple \<Rightarrow> 'w aggregate_box \<Rightarrow> 'w aggregate_box option" where
  "open_value_windows g t box =
     (let v0 = agg_window_field box t;
          ws0 = (case window_starts box g of None \<Rightarrow> WindowStart_new 0 0 | Some ws \<Rightarrow> ws);
          v = (if \<not> ws_initialized ws0 \<and> independent_alignment box then v0 - c_fmod v0 (advance_size box) else v0);
          ws1 = (if ws_initialized ws0 then ws0
                 else ws0\<lparr>ws_initialized := True, ws_next := v, ws_keep_until := 0\<rparr>);
          put = (\<lambda>(ws, b). b\<lparr>window_starts := (window_starts b)(g \<mapsto> ws)\<rparr>)
      in if agg_drop_mode box
         then case while_option (\<lambda>n. v > n) (\<lambda>n. n + advance_size box) (ws_next ws1) of
                None \<Rightarrow> None
              | Some n \<Rightarrow> Some (put (open_shed g v (win_spec t) (ws1\<lparr>ws_next := n\<rparr>) box))
         else map_option put (open_regular g v (win_spec t) ws1 box))"

section \<open>A step\<close>

text \<open>
  The tuple is offered to every open window of its group; the windows that close are emitted and
  leave both lists. The result is the list of the windows that stay.
\<close>

fun insert_all ::
  "byte list \<Rightarrow> tuple \<Rightarrow> 'w window list \<Rightarrow> 'w aggregate_box \<Rightarrow> ('w window list \<times> 'w aggregate_box \<times> tuple list) result" where
  "insert_all g t [] box = Inr ([], box, [])"
| "insert_all g t (w # ws) box =
     (let (emitp, w1) = insert_tuple (agg_functions box) (agg_window_field box t) t w
      in if emitp
         then let (out, box1) = emit_unless_empty w1 box
              in rbind (if \<not> timing_out box1 then Inr box1
                        else if in_timeouts w1
                        then Inr (box1\<lparr>timeout_list := filter (\<lambda>p. p \<noteq> (g, window_no w1)) (timeout_list box1)\<rparr>)
                        else Inl Undefined)
                   (\<lambda>box2. rbind (insert_all g t ws box2) (\<lambda>(kept, b, outs). Inr (kept, b, out @ outs)))
         else rbind (insert_all g t ws box) (\<lambda>(kept, b, outs). Inr (w1 # kept, b, outs)))"

text \<open>Boundaries and end marks: the header on a cleared tuple.\<close>

definition forward_control :: "tuple \<Rightarrow> 'w aggregate_box \<Rightarrow> 'w aggregate_box \<times> tuple list" where
  "forward_control t box =
     (box\<lparr>emitted_count := Suc (emitted_count box)\<rparr>,
      [copy_header (agg_header_size box) t (clear_tuple (out_memory box (emitted_count box)))])"

text \<open>The numbers of open windows that are new and that were checkpointed, for the cost of the next checkpoint.\<close>

definition count_windows :: "bool \<Rightarrow> 'w window list \<Rightarrow> int" where
  "count_windows checkpointed ws = int (length (filter (\<lambda>w. w_checkpointed w = checkpointed) ws))"

definition Aggregate_step :: "tuple \<Rightarrow> 'w aggregate_box \<Rightarrow> ('w aggregate_box \<times> tuple list) result option" where
  "Aggregate_step t box0 =
     (if tuple_type t = BOUNDARY \<or> tuple_type t = RECONCILIATION_DONE
      then Some (Inr (forward_control t box0))
      else
        let box1 = (if \<not> agg_drop_mode box0 \<and> win_spec t \<noteq> -1 then box0\<lparr>agg_drop_mode := True\<rparr> else box0)
        in case expire_timeouts t box1 of
             Inl e \<Rightarrow> Some (Inl e)
           | Inr (box2, out1) \<Rightarrow>
               let g = agg_group_by box2 t; wl = windows_of g box2;
                   before_new = (if dirty_windows box2 g then count_windows False wl else 0);
                   before_updated = (if dirty_windows box2 g then count_windows True wl else 0);
                   box3 = (set_windows g wl box2)\<lparr>dirty_windows := (dirty_windows box2)(g := True)\<rparr>
               in case (if agg_method box3 = WINDOW_BY_TUPLES then Some (open_tuple_window g t box3)
                        else open_value_windows g t box3) of
                    None \<Rightarrow> None
                  | Some box4 \<Rightarrow>
                      let box5 = (if tuple_type t = TENTATIVE then box4\<lparr>box_tentative := True\<rparr> else box4)
                      in Some (rbind (insert_all g t (windows_of g box5) box5) (\<lambda>(kept, box6, out2).
                           Inr ((set_windows g kept box6)
                                  \<lparr>count_updated_windows := count_updated_windows box6 + count_windows True kept - before_updated,
                                   count_new_windows := count_new_windows box6 + count_windows False kept - before_new\<rparr>,
                                out1 @ out2))))"

text \<open>The tuples of a run, one after the other; a run reads as many as the invocation allows.\<close>

fun Aggregate_steps :: "tuple list \<Rightarrow> 'w aggregate_box \<Rightarrow> ('w aggregate_box \<times> tuple list) result option" where
  "Aggregate_steps [] box = Some (Inr (box, []))"
| "Aggregate_steps (t # ts) box =
     (case Aggregate_step t box of
        None \<Rightarrow> None
      | Some (Inl e) \<Rightarrow> Some (Inl e)
      | Some (Inr (box1, out)) \<Rightarrow>
          map_option (\<lambda>r. rbind r (\<lambda>(b, outs). Inr (b, out @ outs))) (Aggregate_steps ts box1))"

definition AggregateQBox_run ::
  "qbox_invocation \<Rightarrow> tuple list \<Rightarrow> 'w aggregate_box \<Rightarrow>
   qbox_invocation \<times> tuple list \<times> ('w aggregate_box \<times> tuple list) result option" where
  "AggregateQBox_run qi xs box =
     run_port 0 (\<lambda>t r. case r of
         None \<Rightarrow> None
       | Some (Inl e) \<Rightarrow> Some (Inl e)
       | Some (Inr (b, out)) \<Rightarrow>
           map_option (\<lambda>r. rbind r (\<lambda>(b1, out1). Inr (b1, out @ out1))) (Aggregate_step t b))
       qi xs (Some (Inr (box, [])))"

lemma Aggregate_steps_snoc:
  assumes "Aggregate_steps ts box = Some (Inr (box1, outs))"
  shows "Aggregate_steps (ts @ [t]) box =
    map_option (\<lambda>r. rbind r (\<lambda>(b, out). Inr (b, outs @ out))) (Aggregate_step t box1)"
  using assms
proof (induction ts arbitrary: box outs)
  case Nil
  then show ?case by (auto simp: rbind_def split: option.splits sum.splits)
next
  case (Cons u us)
  then obtain box0 out0 outs0 where u: "Aggregate_step u box = Some (Inr (box0, out0))"
    "Aggregate_steps us box0 = Some (Inr (box1, outs0))" "outs = out0 @ outs0"
    by (fastforce split: option.splits sum.splits prod.splits)
  then show ?case using Cons.IH [OF u(2)]
    by (cases "Aggregate_step t box1") (auto simp: rbind_def split: sum.splits)
qed

text \<open>A run is its steps on the tuples it reads.\<close>

lemma AggregateQBox_run_steps:
  assumes "Aggregate_steps (take (run_count 0 qi xs) xs) box = Some (Inr r)"
  shows "\<exists>qi'. AggregateQBox_run qi xs box = (qi', drop (run_count 0 qi xs) xs, Some (Inr r))"
proof -
  let ?f = "\<lambda>t r. case r of None \<Rightarrow> None | Some (Inl e) \<Rightarrow> Some (Inl e) | Some (Inr (b, out)) \<Rightarrow>
      map_option (\<lambda>r. rbind r (\<lambda>(b1, out1). Inr (b1, out @ out1))) (Aggregate_step t b)"
  have fold: "fold ?f ts (Some (Inr (b, out))) = Some (Inr (fst r, out @ snd r))"
    if "Aggregate_steps ts b = Some (Inr r)" for ts b out r
    using that
  proof (induction ts arbitrary: b out r)
    case (Cons u us)
    then obtain b0 out0 r0 where u: "Aggregate_step u b = Some (Inr (b0, out0))"
      "Aggregate_steps us b0 = Some (Inr r0)" "r = (fst r0, out0 @ snd r0)"
      by (fastforce split: option.splits sum.splits prod.splits)
    then show ?case using Cons.IH [OF u(2), of "out @ out0"] by simp
  qed auto
  show ?thesis
    using run_port_ex [of 0 ?f qi xs "Some (Inr (box, []))"] fold [OF assms, of "[]"]
    by (auto simp: AggregateQBox_run_def)
qed

end
