(* ===== verification/Aggregate_Spec.thy ===== *)
theory Aggregate_Spec
  imports Aggregate_Run
begin

text \<open>
  The Aggregate box over value windows against its reference: window \<open>k\<close> of a group starts \<open>k\<close>
  advances after the group's first value and aggregates the tuples of the group in its range.
\<close>

section \<open>Reference\<close>

abbreviation agg_group :: "'w aggregate_box \<Rightarrow> byte list \<Rightarrow> tuple list \<Rightarrow> tuple list" where
  "agg_group box g \<equiv> filter (\<lambda>t. agg_group_by box t = g)"

definition agg_start :: "'w aggregate_box \<Rightarrow> rat \<Rightarrow> nat \<Rightarrow> rat" where
  "agg_start box v0 k = v0 + of_nat k * advance_size box"

definition agg_content :: "'w aggregate_box \<Rightarrow> rat \<Rightarrow> tuple list \<Rightarrow> nat \<Rightarrow> tuple list" where
  "agg_content box v0 us k =
     filter (\<lambda>u. agg_start box v0 k \<le> agg_window_field box u \<and>
                 agg_window_field box u < agg_start box v0 k + agg_window_size box) us"

definition agg_states :: "'w aggregate list \<Rightarrow> tuple list \<Rightarrow> 'w list" where
  "agg_states afs us = map (\<lambda>af. fold (agg_incr af) us (agg_init af)) afs"

text \<open>How many multiples of the advance are at most \<open>x\<close>, from 0 on.\<close>

definition nb_upto :: "rat \<Rightarrow> rat \<Rightarrow> nat" where
  "nb_upto adv x = nat (\<lfloor>x / adv\<rfloor> + 1)"

text \<open>
  The results that the \<open>i\<close>-th tuple triggers: those of the windows that end at or before its value
  and did not at the value before it in its group. A result is the group, the start and the states.
\<close>

definition agg_results :: "'w aggregate_box \<Rightarrow> tuple list \<Rightarrow> nat \<Rightarrow> (byte list \<times> rat \<times> 'w list) list" where
  "agg_results box ts i =
     (let t = ts ! i; g = agg_group_by box t; us = agg_group box g (take i ts);
          v0 = agg_window_field box (hd (us @ [t]));
          lo = (if us = [] then 0 else nb_upto (advance_size box) (agg_window_field box (last us) - v0 - agg_window_size box));
          hi = nb_upto (advance_size box) (agg_window_field box t - v0 - agg_window_size box)
      in map (\<lambda>k. (g, agg_start box v0 k, agg_states (agg_functions box) (agg_content box v0 us k)))
           (filter (\<lambda>k. drop_empty_outputs box \<longrightarrow> agg_content box v0 us k \<noteq> []) [lo..<hi]))"

definition result_bytes :: "'w aggregate_box \<Rightarrow> byte list \<times> rat \<times> 'w list \<Rightarrow> byte list" where
  "result_bytes box r =
     (case r of (g, start, states) \<Rightarrow>
        g @ (if agg_order_by box = ORDER_BY_FIELD
             then take (agg_field_length box)
                    (if agg_field_is_int32 box then int32_bytes (if start \<ge> 0 then \<lfloor>start\<rfloor> else \<lceil>start\<rceil>)
                     else double_bytes box start)
             else [])
        @ concat (map2 agg_final (agg_functions box) states))"

definition carries :: "'w aggregate_box \<Rightarrow> tuple \<Rightarrow> byte list \<times> rat \<times> 'w list \<Rightarrow> bool" where
  "carries box t r \<longleftrightarrow> (\<exists>rest. body t = result_bytes box r @ rest)"

lemma less_nb_upto: "0 < adv \<Longrightarrow> k < nb_upto adv x \<longleftrightarrow> of_nat k * adv \<le> x"
  unfolding nb_upto_def by (simp add: zless_nat_eq_int_zless zle_add1_eq_le le_floor_iff pos_le_divide_eq)

lemma nb_upto_mono: "0 < adv \<Longrightarrow> x \<le> y \<Longrightarrow> nb_upto adv x \<le> nb_upto adv y"
  unfolding nb_upto_def by (intro nat_mono) (simp add: floor_mono divide_right_mono)

lemma agg_states_Nil [simp]: "agg_states afs [] = map agg_init afs"
  by (simp add: agg_states_def)

lemma agg_states_snoc: "map2 (\<lambda>af. agg_incr af t) afs (agg_states afs us) = agg_states afs (us @ [t])"
  by (simp add: agg_states_def map2_map_map [of _ "\<lambda>x. x", simplified])

section \<open>Configurations\<close>

definition same_agg :: "'w aggregate_box \<Rightarrow> 'w aggregate_box \<Rightarrow> bool" where
  "same_agg box b \<longleftrightarrow>
     box = b\<lparr>box_tentative := box_tentative box, window_starts := window_starts box, open_windows := open_windows box,
             dirty_windows := dirty_windows box, count_new_windows := count_new_windows box,
             count_updated_windows := count_updated_windows box, next_window_no := next_window_no box,
             emitted_count := emitted_count box\<rparr>"

lemma same_aggD:
  assumes "same_agg box b"
  shows "agg_functions b = agg_functions box" "agg_drop_mode b = agg_drop_mode box"
    "drop_empty_outputs b = drop_empty_outputs box" "independent_alignment b = independent_alignment box"
    "agg_method b = agg_method box" "agg_window_size b = agg_window_size box" "advance_size b = advance_size box"
    "agg_order_by b = agg_order_by box" "agg_window_field b = agg_window_field box"
    "agg_field_is_int32 b = agg_field_is_int32 box" "agg_field_length b = agg_field_length box"
    "agg_group_by b = agg_group_by box" "box_slack b = box_slack box" "timing_out b = timing_out box"
    "double_bytes b = double_bytes box"
  by (subst assms [unfolded same_agg_def], simp)+

lemma same_agg_refl [simp]: "same_agg box box"
  by (simp add: same_agg_def)

lemma same_agg_upd [simp]:
  "same_agg box (b\<lparr>box_tentative := x1\<rparr>) = same_agg box b"
  "same_agg box (b\<lparr>window_starts := x2\<rparr>) = same_agg box b"
  "same_agg box (b\<lparr>open_windows := x3\<rparr>) = same_agg box b"
  "same_agg box (b\<lparr>dirty_windows := x4\<rparr>) = same_agg box b"
  "same_agg box (b\<lparr>count_new_windows := x5\<rparr>) = same_agg box b"
  "same_agg box (b\<lparr>count_updated_windows := x6\<rparr>) = same_agg box b"
  "same_agg box (b\<lparr>next_window_no := x7\<rparr>) = same_agg box b"
  "same_agg box (b\<lparr>emitted_count := x8\<rparr>) = same_agg box b"
  by (simp_all add: same_agg_def)

lemma windows_of_set [simp]:
  "windows_of h (set_windows g ws box) = (if h = g then ws else windows_of h box)"
  by (simp add: windows_of_def set_windows_def)

lemma windows_of_upd [simp]:
  "windows_of h (b\<lparr>box_tentative := x1\<rparr>) = windows_of h b"
  "windows_of h (b\<lparr>window_starts := x2\<rparr>) = windows_of h b"
  "windows_of h (b\<lparr>dirty_windows := x4\<rparr>) = windows_of h b"
  "windows_of h (b\<lparr>count_new_windows := x5\<rparr>) = windows_of h b"
  "windows_of h (b\<lparr>count_updated_windows := x6\<rparr>) = windows_of h b"
  "windows_of h (b\<lparr>next_window_no := x7\<rparr>) = windows_of h b"
  "windows_of h (b\<lparr>emitted_count := x8\<rparr>) = windows_of h b"
  by (simp_all add: windows_of_def)

lemma set_windows_sel [simp]:
  "same_agg box (set_windows g ws b) = same_agg box b" "window_starts (set_windows g ws b) = window_starts b"
  "timing_out (set_windows g ws b) = timing_out b" "advance_size (set_windows g ws b) = advance_size b"
  "agg_method (set_windows g ws b) = agg_method b"
  by (simp_all add: set_windows_def)

section \<open>Windows\<close>

text \<open>An open window is window \<open>k\<close> of its group and has seen the tuples \<open>us\<close> of the group.\<close>

definition window_is :: "'w aggregate_box \<Rightarrow> byte list \<Rightarrow> rat \<Rightarrow> tuple list \<Rightarrow> nat \<Rightarrow> 'w window \<Rightarrow> bool" where
  "window_is box g v0 us k w \<longleftrightarrow>
     window_kind w = ValueWindow (agg_start box v0 k) (agg_start box v0 k + agg_window_size box) 0 \<and>
     agg_windows w = agg_states (agg_functions box) (agg_content box v0 us k) \<and> group_by_value w = g \<and>
     \<not> w_fake_flag w \<and> (w_empty w \<longleftrightarrow> agg_content box v0 us k = [])"

definition the_result :: "'w aggregate_box \<Rightarrow> byte list \<Rightarrow> rat \<Rightarrow> tuple list \<Rightarrow> nat \<Rightarrow> byte list \<times> rat \<times> 'w list" where
  "the_result box g v0 us k = (g, agg_start box v0 k, agg_states (agg_functions box) (agg_content box v0 us k))"

lemma open_value_window_is:
  assumes "same_agg box b" "\<not> timing_out box" "box_slack box = 0" "agg_content box v0 us k = []"
  shows "\<exists>w. windows_of g (open_value_window g (agg_start box v0 k) spec False b) = windows_of g b @ [w] \<and>
    window_is box g v0 us k w"
    "h \<noteq> g \<Longrightarrow> windows_of h (open_value_window g x spec False b) = windows_of h b"
    "same_agg box (open_value_window g x spec False b)"
    "window_starts (open_value_window g x spec False b) = window_starts b"
  using assms(2-4) same_aggD [OF assms(1)] assms(1)
  by (simp_all add: open_value_window_def insert_new_window_def Window_new_def window_is_def Let_def)

text \<open>Opening: windows \<open>n\<close> to \<open>m\<close>, for the starts up to the value.\<close>

lemma open_regular_is:
  assumes "same_agg box b" "\<not> timing_out box" "box_slack box = 0" "0 < advance_size box"
    and "ws_next ws = agg_start box v0 n" "m = nb_upto (advance_size box) (v - v0)" "n \<le> m"
    and "\<And>k. n \<le> k \<Longrightarrow> agg_content box v0 us k = []"
  shows "\<exists>b' news. open_regular g v spec ws b = Some (ws\<lparr>ws_next := agg_start box v0 m\<rparr>, b') \<and> same_agg box b' \<and>
    window_starts b' = window_starts b \<and> (\<forall>h. h \<noteq> g \<longrightarrow> windows_of h b' = windows_of h b) \<and>
    windows_of g b' = windows_of g b @ news \<and> list_all2 (window_is box g v0 us) [n..<m] news"
  using assms(1,5,7,8)
proof (induction "m - n" arbitrary: n ws b)
  case 0
  then have "n = m" by simp
  have "\<not> ws_next ws \<le> v" using less_nb_upto [OF assms(4), of m "v - v0"] assms(6) 0(3) \<open>n = m\<close>
    by (simp add: agg_start_def algebra_simps)
  then have "open_regular g v spec ws b = Some (ws, b)"
    by (simp add: open_regular_def while_option_unfold)
  then show ?case using 0 \<open>n = m\<close> by (intro exI [of _ b] exI [of _ "[]"]) simp
next
  case (Suc d)
  then have nm: "n < m" by simp
  have v: "ws_next ws \<le> v" using less_nb_upto [OF assms(4), of n "v - v0"] assms(6) nm Suc.prems(2)
    by (simp add: agg_start_def algebra_simps)
  let ?ws = "ws\<lparr>ws_next := ws_next ws + advance_size box\<rparr>" and ?b = "open_value_window g (ws_next ws) spec False b"
  note o = open_value_window_is [OF Suc.prems(1) assms(2,3) Suc.prems(4) [OF order_refl]]
  have step: "open_regular g v spec ws b = open_regular g v spec ?ws ?b"
    using v same_aggD(7) [OF Suc.prems(1)] by (simp add: open_regular_def while_option_unfold [of _ _ "(ws, b)"])
  have nx: "ws_next ?ws = agg_start box v0 (Suc n)" using Suc.prems(2) by (simp add: agg_start_def algebra_simps)
  have "d = m - Suc n" "Suc n \<le> m" using Suc.hyps(2) by auto
  from Suc.hyps(1) [OF this(1) o(3) nx this(2)] Suc.prems(4)
  obtain b' news where IH: "open_regular g v spec ?ws ?b = Some (?ws\<lparr>ws_next := agg_start box v0 m\<rparr>, b')" "same_agg box b'"
    "window_starts b' = window_starts ?b" "\<forall>h. h \<noteq> g \<longrightarrow> windows_of h b' = windows_of h ?b"
    "windows_of g b' = windows_of g ?b @ news" "list_all2 (window_is box g v0 us) [Suc n..<m] news"
    by (metis Suc_leD)
  obtain w where w: "windows_of g ?b = windows_of g b @ [w]" "window_is box g v0 us n w"
    using o(1) [of g spec] Suc.prems(2) by auto
  have "list_all2 (window_is box g v0 us) [n..<m] (w # news)" using w(2) IH(6) nm by (simp add: upt_conv_Cons)
  then show ?case using step IH w(1) o(2,4) by (intro exI [of _ b'] exI [of _ "w # news"]) simp
qed

text \<open>Offering a tuple: what happens to one window.\<close>

lemma agg_content_snoc:
  "agg_content box v0 (us @ [t]) k = agg_content box v0 us k @
     (if agg_start box v0 k \<le> agg_window_field box t \<and> agg_window_field box t < agg_start box v0 k + agg_window_size box
      then [t] else [])"
  by (simp add: agg_content_def)

lemma insert_tuple_is:
  assumes "window_is box g v0 us k w" "agg_start box v0 k \<le> agg_window_field box t" "\<not> get_fake_flag t"
  shows "agg_window_field box t < agg_start box v0 k + agg_window_size box \<Longrightarrow>
      \<exists>w'. insert_tuple (agg_functions box) (agg_window_field box t) t w = (False, w') \<and> window_is box g v0 (us @ [t]) k w'"
    "\<not> agg_window_field box t < agg_start box v0 k + agg_window_size box \<Longrightarrow>
      \<exists>w'. insert_tuple (agg_functions box) (agg_window_field box t) t w = (True, w') \<and> window_is box g v0 us k w'"
  using assms
  by (auto simp: window_is_def insert_tuple_def Window_insert_tuple_def agg_content_snoc agg_states_snoc Let_def)

lemma emit_unless_empty_is:
  assumes "window_is box g v0 us k w" "same_agg box b"
  shows "\<exists>outs n. emit_unless_empty w b = (outs, b\<lparr>emitted_count := n\<rparr>) \<and>
    list_all2 (carries box) outs
      (if drop_empty_outputs box \<longrightarrow> agg_content box v0 us k \<noteq> [] then [the_result box g v0 us k] else [])"
proof -
  note c = same_aggD [OF assms(2)]
  obtain x n where e: "emit_for_window w b = (x, b\<lparr>emitted_count := n\<rparr>)" by (simp add: emit_for_window_def Let_def)
  have x: "x = fst (emit_for_window w b)" by (simp add: e)
  have car: "carries box x (the_result box g v0 us k)"
    unfolding carries_def the_result_def result_bytes_def x emit_for_window_def overlay_def
    using assms(1) by (simp add: window_is_def get_start_value_def final_value_def c Let_def)
  have emp: "w_empty w \<longleftrightarrow> agg_content box v0 us k = []" using assms(1) by (simp add: window_is_def)
  show ?thesis
  proof (cases "drop_empty_outputs box \<longrightarrow> agg_content box v0 us k \<noteq> []")
    case True
    then have "emit_unless_empty w b = ([x], b\<lparr>emitted_count := n\<rparr>)"
      by (auto simp: emit_unless_empty_def emp c e)
    then show ?thesis using True car by (intro exI [of _ "[x]"] exI [of _ n]) simp
  next
    case False
    then show ?thesis
      by (intro exI [of _ "[]"] exI [of _ "emitted_count b"]) (simp add: emit_unless_empty_def emp c)
  qed
qed

lemma insert_all_is:
  assumes "list_all2 (window_is box g v0 us) ks ws" "same_agg box b" "\<not> timing_out box" "\<not> get_fake_flag t"
    and "\<forall>k \<in> set ks. agg_start box v0 k \<le> agg_window_field box t"
  shows "\<exists>kept n outs. insert_all g t ws b = Inr (kept, b\<lparr>emitted_count := n\<rparr>, outs) \<and>
    list_all2 (window_is box g v0 (us @ [t]))
      (filter (\<lambda>k. agg_window_field box t < agg_start box v0 k + agg_window_size box) ks) kept \<and>
    list_all2 (carries box) outs (map (the_result box g v0 us)
      (filter (\<lambda>k. drop_empty_outputs box \<longrightarrow> agg_content box v0 us k \<noteq> [])
        (filter (\<lambda>k. \<not> agg_window_field box t < agg_start box v0 k + agg_window_size box) ks)))"
  using assms(1,2,5)
proof (induction ks ws arbitrary: b rule: list_all2_induct)
  case Nil
  then show ?case by (intro exI [of _ "[]"] exI [of _ "emitted_count b"]) simp
next
  case (Cons k ks w ws)
  note c = same_aggD [OF Cons.prems(1)]
  have k: "agg_start box v0 k \<le> agg_window_field box t" using Cons.prems(2) by simp
  note ins = insert_tuple_is [OF Cons.hyps(1) k assms(4)]
  show ?case
  proof (cases "agg_window_field box t < agg_start box v0 k + agg_window_size box")
    case True
    then obtain w' where "insert_tuple (agg_functions box) (agg_window_field box t) t w = (False, w')"
      "window_is box g v0 (us @ [t]) k w'"
      using ins(1) by blast
    moreover obtain kept n outs where "insert_all g t ws b = Inr (kept, b\<lparr>emitted_count := n\<rparr>, outs)"
      "list_all2 (window_is box g v0 (us @ [t]))
        (filter (\<lambda>k. agg_window_field box t < agg_start box v0 k + agg_window_size box) ks) kept"
      "list_all2 (carries box) outs (map (the_result box g v0 us)
        (filter (\<lambda>k. drop_empty_outputs box \<longrightarrow> agg_content box v0 us k \<noteq> [])
          (filter (\<lambda>k. \<not> agg_window_field box t < agg_start box v0 k + agg_window_size box) ks)))"
      using Cons.IH [OF Cons.prems(1)] Cons.prems(2) by auto
    ultimately show ?thesis using True
      by (intro exI [of _ "w' # kept"] exI [of _ n] exI [of _ outs]) (simp add: c)
  next
    case False
    then obtain w' where w': "insert_tuple (agg_functions box) (agg_window_field box t) t w = (True, w')" "window_is box g v0 us k w'"
      using ins(2) by blast
    obtain out n where e: "emit_unless_empty w' b = (out, b\<lparr>emitted_count := n\<rparr>)"
      "list_all2 (carries box) out (if drop_empty_outputs box \<longrightarrow> agg_content box v0 us k \<noteq> [] then [the_result box g v0 us k] else [])"
      using emit_unless_empty_is [OF w'(2) Cons.prems(1)] by blast
    have "same_agg box (b\<lparr>emitted_count := n\<rparr>)" using Cons.prems(1) by simp
    from Cons.IH [OF this] Cons.prems(2) obtain kept n' outs where IH:
      "insert_all g t ws (b\<lparr>emitted_count := n\<rparr>) = Inr (kept, b\<lparr>emitted_count := n'\<rparr>, outs)"
      "list_all2 (window_is box g v0 (us @ [t]))
        (filter (\<lambda>k. agg_window_field box t < agg_start box v0 k + agg_window_size box) ks) kept"
      "list_all2 (carries box) outs (map (the_result box g v0 us)
        (filter (\<lambda>k. drop_empty_outputs box \<longrightarrow> agg_content box v0 us k \<noteq> [])
          (filter (\<lambda>k. \<not> agg_window_field box t < agg_start box v0 k + agg_window_size box) ks)))"
      by auto
    have "insert_all g t (w # ws) b = Inr (kept, b\<lparr>emitted_count := n'\<rparr>, out @ outs)"
      using w'(1) e(1) IH(1) assms(3) by (simp add: c)
    moreover have "list_all2 (carries box) (out @ outs) (map (the_result box g v0 us)
        (filter (\<lambda>k. drop_empty_outputs box \<longrightarrow> agg_content box v0 us k \<noteq> [])
          (filter (\<lambda>k. \<not> agg_window_field box t < agg_start box v0 k + agg_window_size box) (k # ks))))"
      using list_all2_appendI [OF e(2) IH(3)] False
      by (cases "drop_empty_outputs box"; cases "agg_content box v0 us k = []") simp_all
    ultimately show ?thesis using IH(2) False
      by (intro exI [of _ kept] exI [of _ n'] exI [of _ "out @ outs"]) simp
  qed
qed

end
