(* ===== verification/Aggregate_Windows.thy ===== *)
theory Aggregate_Windows
  imports Aggregate_Spec
begin

text \<open>
  Runs of the Aggregate box over value windows: every step keeps the open windows in line with the
  reference, and a run outputs exactly the results of the reference.
\<close>

section \<open>Hypotheses\<close>

text \<open>Value windows aligned with the first tuple, no slack, no timeout, no load shedder in front.\<close>

definition regular :: "'w aggregate_box \<Rightarrow> bool" where
  "regular box \<longleftrightarrow> agg_method box = WINDOW_BY_VALUES \<and> \<not> agg_drop_mode box \<and> \<not> timing_out box \<and>
     \<not> independent_alignment box \<and> box_slack box = 0 \<and> 0 < advance_size box \<and> 0 < agg_window_size box"

definition plain :: "tuple \<Rightarrow> bool" where
  "plain t \<longleftrightarrow> tuple_type t \<noteq> BOUNDARY \<and> tuple_type t \<noteq> RECONCILIATION_DONE \<and> win_spec t = -1 \<and> \<not> get_fake_flag t"

definition in_order :: "'w aggregate_box \<Rightarrow> tuple list \<Rightarrow> bool" where
  "in_order box ts \<longleftrightarrow> (\<forall>g. sorted (map (agg_window_field box) (agg_group box g ts)))"

lemma regularD:
  assumes "regular box"
  shows "agg_method box = WINDOW_BY_VALUES" "\<not> agg_drop_mode box" "\<not> timing_out box" "\<not> independent_alignment box"
    "box_slack box = 0" "0 < advance_size box" "0 < agg_window_size box"
  using assms by (simp_all add: regular_def)

lemma in_order_snoc:
  assumes "in_order box (ts @ [t])"
  defines "us \<equiv> agg_group box (agg_group_by box t) ts"
  shows "in_order box ts" "us \<noteq> [] \<Longrightarrow> agg_window_field box (last us) \<le> agg_window_field box t"
    "u \<in> set us \<Longrightarrow> agg_window_field box u \<le> agg_window_field box (last us)"
proof -
  have "sorted (map (agg_window_field box) (agg_group box g ts))" for g
    using assms(1) [unfolded in_order_def, rule_format, of g] by (auto simp: sorted_append split: if_splits)
  then show s: "in_order box ts" by (simp add: in_order_def)
  show "us \<noteq> [] \<Longrightarrow> agg_window_field box (last us) \<le> agg_window_field box t"
    using assms(1) [unfolded in_order_def, rule_format, of "agg_group_by box t"] last_in_set [of us]
    by (simp add: sorted_append us_def)
  have "sorted (map f xs) \<Longrightarrow> u \<in> set xs \<Longrightarrow> f u \<le> f (last xs)" for f :: "tuple \<Rightarrow> rat" and xs
    by (induction xs) auto
  then show "u \<in> set us \<Longrightarrow> agg_window_field box u \<le> agg_window_field box (last us)"
    using s by (simp add: in_order_def us_def)
qed

section \<open>The state of a group\<close>

definition group_windows ::
  "'w aggregate_box \<Rightarrow> byte list \<Rightarrow> rat \<Rightarrow> tuple list \<Rightarrow> nat \<Rightarrow> nat \<Rightarrow> window_start option \<Rightarrow> 'w window list \<Rightarrow> bool" where
  "group_windows box g v0 us lo n wso wl \<longleftrightarrow>
     (\<exists>ws. wso = Some ws \<and> ws_initialized ws \<and> ws_next ws = agg_start box v0 n) \<and>
     list_all2 (window_is box g v0 us) [lo..<n] wl"

abbreviation nb_opened :: "'w aggregate_box \<Rightarrow> rat \<Rightarrow> rat \<Rightarrow> nat" where
  "nb_opened box v0 v \<equiv> nb_upto (advance_size box) (v - v0)"

abbreviation nb_closed :: "'w aggregate_box \<Rightarrow> rat \<Rightarrow> rat \<Rightarrow> nat" where
  "nb_closed box v0 v \<equiv> nb_upto (advance_size box) (v - v0 - agg_window_size box)"

definition agg_covers :: "'w aggregate_box \<Rightarrow> tuple list \<Rightarrow> byte list \<Rightarrow> window_start option \<Rightarrow> 'w window list \<Rightarrow> bool" where
  "agg_covers box ts g wso wl \<longleftrightarrow>
     (let us = agg_group box g ts; v0 = agg_window_field box (hd us); l = agg_window_field box (last us)
      in if us = [] then wso = None \<and> wl = []
         else group_windows box g v0 us (nb_closed box v0 l) (nb_opened box v0 l) wso wl)"

lemma agg_covers_other:
  "agg_group_by box t \<noteq> g \<Longrightarrow> agg_covers box (ts @ [t]) g wso wl = agg_covers box ts g wso wl"
  by (simp add: agg_covers_def)

lemma nb_closed_le_opened:
  "regular box \<Longrightarrow> nb_closed box v0 v \<le> nb_opened box v0 v"
  by (intro nb_upto_mono) (simp_all add: regular_def)

text \<open>Opening the windows for the next tuple of a group.\<close>

lemma open_value_windows_is:
  assumes "regular box" "same_agg box b" "in_order box (ts @ [t])"
  defines "g \<equiv> agg_group_by box t" and "v \<equiv> agg_window_field box t"
  defines "us \<equiv> agg_group box g ts"
  defines "v0 \<equiv> agg_window_field box (hd (us @ [t]))"
  defines "lo \<equiv> (if us = [] then 0 else nb_closed box v0 (agg_window_field box (last us)))"
  assumes "agg_covers box ts g (window_starts b g) (windows_of g b)"
  shows "\<exists>b'. open_value_windows g t b = Some b' \<and> same_agg box b' \<and>
    group_windows box g v0 us lo (nb_opened box v0 v) (window_starts b' g) (windows_of g b') \<and>
    (\<forall>h. h \<noteq> g \<longrightarrow> window_starts b' h = window_starts b h \<and> windows_of h b' = windows_of h b) \<and>
    lo \<le> nb_closed box v0 v"
proof -
  note r = regularD [OF assms(1)] and c = same_aggD [OF assms(2)]
    and ord = in_order_snoc [OF assms(3), folded g_def, folded us_def v_def]
  define n where "n = (if us = [] then 0 else nb_opened box v0 (agg_window_field box (last us)))"
  define ws where "ws = (case window_starts b g of
      None \<Rightarrow> (WindowStart_new 0 0)\<lparr>ws_initialized := True, ws_next := v, ws_keep_until := 0\<rparr> | Some ws \<Rightarrow> ws)"
  have gw: "group_windows box g v0 us lo n (Some ws) (windows_of g b)"
  proof (cases "us = []")
    case True
    then show ?thesis using assms(9)
      by (simp add: agg_covers_def us_def [symmetric] group_windows_def ws_def WindowStart_new_def n_def lo_def
          agg_start_def v0_def v_def)
  next
    case False
    then show ?thesis using assms(9)
      by (auto simp: agg_covers_def us_def [symmetric] group_windows_def ws_def n_def lo_def v0_def Let_def)
  qed
  have mono: "lo \<le> nb_closed box v0 v" "n \<le> nb_opened box v0 v"
    using ord(2) r(6) by (auto simp: lo_def n_def intro!: nb_upto_mono)
  have lon: "lo \<le> n" using nb_closed_le_opened [OF assms(1)] by (simp add: lo_def n_def)
  have empty: "agg_content box v0 us k = []" if "n \<le> k" for k
  proof (cases "us = []")
    case False
    then have "agg_window_field box (last us) < agg_start box v0 k"
      using that less_nb_upto [OF r(6), of k "agg_window_field box (last us) - v0"]
      by (simp add: n_def agg_start_def algebra_simps)
    then have "\<forall>u \<in> set us. agg_window_field box u < agg_start box v0 k" using ord(3) by fastforce
    then show ?thesis by (auto simp: agg_content_def filter_empty_conv)
  qed (simp add: agg_content_def)
  have nx: "ws_next ws = agg_start box v0 n" "ws_initialized ws" using gw by (auto simp: group_windows_def)
  from open_regular_is [OF assms(2) r(3,5,6) nx(1) refl mono(2) empty] obtain b' news where o:
    "open_regular g v (win_spec t) ws b = Some (ws\<lparr>ws_next := agg_start box v0 (nb_opened box v0 v)\<rparr>, b')" "same_agg box b'"
    "window_starts b' = window_starts b" "\<forall>h. h \<noteq> g \<longrightarrow> windows_of h b' = windows_of h b"
    "windows_of g b' = windows_of g b @ news" "list_all2 (window_is box g v0 us) [n..<nb_opened box v0 v] news" by blast
  let ?ws = "ws\<lparr>ws_next := agg_start box v0 (nb_opened box v0 v)\<rparr>"
  let ?b = "b'\<lparr>window_starts := (window_starts b')(g \<mapsto> ?ws)\<rparr>"
  have open_eq: "open_value_windows g t b = map_option (\<lambda>(ws, b). b\<lparr>window_starts := (window_starts b)(g \<mapsto> ws)\<rparr>)
      (open_regular g v (win_spec t) ws b)"
    using nx(2) r(2,4) by (auto simp: open_value_windows_def ws_def v_def c Let_def WindowStart_new_def split: option.splits)
  have all: "list_all2 (window_is box g v0 us) [lo..<nb_opened box v0 v] (windows_of g b')"
    using list_all2_appendI [of "window_is box g v0 us" "[lo..<n]" "windows_of g b" "[n..<nb_opened box v0 v]" news]
      gw o(5,6) upt_split [OF lon mono(2)] by (simp add: group_windows_def)
  have "group_windows box g v0 us lo (nb_opened box v0 v) (window_starts ?b g) (windows_of g ?b)"
    using all nx(2) by (simp add: group_windows_def)
  then show ?thesis using open_eq o(1-4) mono(1) by (intro exI [of _ ?b]) simp
qed

lemma filter_upt:
  "a \<le> c \<Longrightarrow> c \<le> b \<Longrightarrow> filter (\<lambda>k. k < c) [a..<b] = [a..<c]"
  "a \<le> c \<Longrightarrow> c \<le> b \<Longrightarrow> filter (\<lambda>k. \<not> k < c) [a..<b] = [c..<b]"
proof -
  assume ab: "a \<le> c" "c \<le> b"
  have "[a..<b] = [a..<c] @ [c..<b]" using upt_split [OF ab] by simp
  then show "filter (\<lambda>k. k < c) [a..<b] = [a..<c]" "filter (\<lambda>k. \<not> k < c) [a..<b] = [c..<b]"
    by (simp_all add: filter_empty_conv filter_id_conv)
qed

lemma Aggregate_step_plain:
  assumes "plain t" "\<not> timing_out b" "\<not> agg_drop_mode b"
  defines "g \<equiv> agg_group_by b t"
  defines "b1 \<equiv> (set_windows g (windows_of g b) b)\<lparr>dirty_windows := (dirty_windows b)(g := True)\<rparr>"
  assumes "(if agg_method b = WINDOW_BY_TUPLES then Some (open_tuple_window g t b1) else open_value_windows g t b1) = Some b2"
    and "b3 = (if tuple_type t = TENTATIVE then b2\<lparr>box_tentative := True\<rparr> else b2)"
    and "insert_all g t (windows_of g b3) b3 = Inr (kept, b4, outs)"
  shows "\<exists>u n. Aggregate_step t b =
    Some (Inr ((set_windows g kept b4)\<lparr>count_updated_windows := u, count_new_windows := n\<rparr>, outs))"
proof -
  define n where "n up = (if dirty_windows b g then count_windows up (windows_of g b) else 0)" for up
  have m: "agg_method b1 = agg_method b" by (simp add: b1_def)
  have "Aggregate_step t b = Some (Inr ((set_windows g kept b4)
      \<lparr>count_updated_windows := count_updated_windows b4 + count_windows True kept - n True,
        count_new_windows := count_new_windows b4 + count_windows False kept - n False\<rparr>, outs))"
    unfolding Aggregate_step_def expire_timeouts_def using assms(1-3,6,8) m
    by (cases "dirty_windows b g"; cases "agg_method b = WINDOW_BY_TUPLES")
      (simp_all add: plain_def Let_def g_def [symmetric] b1_def [symmetric] assms(7) [symmetric] n_def split del: if_split)
  then show ?thesis by (intro exI)
qed

lemma Aggregate_step_is:
  assumes "regular box" "same_agg box b" "in_order box (ts @ [t])" "plain t"
    and "\<forall>g. agg_covers box ts g (window_starts b g) (windows_of g b)"
  shows "\<exists>b' outs. Aggregate_step t b = Some (Inr (b', outs)) \<and> same_agg box b' \<and>
    (\<forall>g. agg_covers box (ts @ [t]) g (window_starts b' g) (windows_of g b')) \<and>
    list_all2 (carries box) outs (agg_results box (ts @ [t]) (length ts))"
proof -
  note r = regularD [OF assms(1)] and c = same_aggD [OF assms(2)]
  define g where "g = agg_group_by box t"
  define v where "v = agg_window_field box t"
  define us where "us = agg_group box g ts"
  define v0 where "v0 = agg_window_field box (hd (us @ [t]))"
  define lo where "lo = (if us = [] then 0 else nb_closed box v0 (agg_window_field box (last us)))"
  define b1 where "b1 = (set_windows g (windows_of g b) b)\<lparr>dirty_windows := (dirty_windows b)(g := True)\<rparr>"
  have b1: "same_agg box b1" "window_starts b1 = window_starts b" "windows_of h b1 = windows_of h b" for h
    using assms(2) by (simp_all add: b1_def)
  note gdefs = g_def [symmetric] v_def [symmetric] us_def [symmetric] v0_def [symmetric] lo_def [symmetric]
  obtain b2 where o: "open_value_windows g t b1 = Some b2" "same_agg box b2"
    "group_windows box g v0 us lo (nb_opened box v0 v) (window_starts b2 g) (windows_of g b2)"
    "\<forall>h. h \<noteq> g \<longrightarrow> window_starts b2 h = window_starts b h \<and> windows_of h b2 = windows_of h b" "lo \<le> nb_closed box v0 v"
    using open_value_windows_is [OF assms(1) b1(1) assms(3), folded g_def v_def, folded us_def, folded v0_def,
      folded lo_def, unfolded b1(2,3), OF assms(5) [rule_format, of g]] by blast
  define b3 where "b3 = (if tuple_type t = TENTATIVE then b2\<lparr>box_tentative := True\<rparr> else b2)"
  have b3: "same_agg box b3" "window_starts b3 = window_starts b2" "windows_of h b3 = windows_of h b2" for h
    using o(2) by (simp_all add: b3_def)
  let ?hi = "nb_closed box v0 v" and ?n = "nb_opened box v0 v"
  have hi: "agg_start box v0 k + agg_window_size box \<le> v \<longleftrightarrow> k < ?hi" and n: "agg_start box v0 k \<le> v \<longleftrightarrow> k < ?n" for k
    using less_nb_upto [OF r(6), of k] by (auto simp: agg_start_def algebra_simps)
  have flt: "filter (\<lambda>k. v < agg_start box v0 k + agg_window_size box) [lo..<?n] = [?hi..<?n]"
    "filter (\<lambda>k. \<not> v < agg_start box v0 k + agg_window_size box) [lo..<?n] = [lo..<?hi]"
    using filter_upt [OF o(5) nb_closed_le_opened [OF assms(1)]] by (simp_all add: not_le [symmetric] hi)
  have "list_all2 (window_is box g v0 us) [lo..<?n] (windows_of g b3)" using o(3) b3(3) by (simp add: group_windows_def)
  from insert_all_is [OF this b3(1) r(3), of t, folded v_def, unfolded flt] assms(4)
  obtain kept e outs where ins: "insert_all g t (windows_of g b3) b3 = Inr (kept, b3\<lparr>emitted_count := e\<rparr>, outs)"
    "list_all2 (window_is box g v0 (us @ [t])) [?hi..<?n] kept"
    "list_all2 (carries box) outs (map (the_result box g v0 us)
      (filter (\<lambda>k. drop_empty_outputs box \<longrightarrow> agg_content box v0 us k \<noteq> []) [lo..<?hi]))"
    by (auto simp: plain_def n)
  obtain u m where st: "Aggregate_step t b =
      Some (Inr ((set_windows g kept (b3\<lparr>emitted_count := e\<rparr>))\<lparr>count_updated_windows := u, count_new_windows := m\<rparr>, outs))"
    using Aggregate_step_plain [OF assms(4), of b b2 b3] r(1-3) o(1) ins(1) unfolding c gdefs b1_def [symmetric]
    by (simp add: b3_def) blast
  let ?b = "(set_windows g kept (b3\<lparr>emitted_count := e\<rparr>))\<lparr>count_updated_windows := u, count_new_windows := m\<rparr>"
  have cov: "agg_covers box (ts @ [t]) h (window_starts ?b h) (windows_of h ?b)" for h
  proof (cases "h = g")
    case True
    have "group_windows box g v0 (us @ [t]) ?hi ?n (window_starts ?b g) (windows_of g ?b)"
      using o(3) ins(2) b3(2) by (simp add: group_windows_def)
    then show ?thesis by (simp add: True agg_covers_def gdefs Let_def)
  next
    case False
    then show ?thesis using assms(5) o(4) b3(2,3) agg_covers_other [of box t h ts] by (simp add: gdefs)
  qed
  have res: "agg_results box (ts @ [t]) (length ts) = map (the_result box g v0 us)
      (filter (\<lambda>k. drop_empty_outputs box \<longrightarrow> agg_content box v0 us k \<noteq> []) [lo..<?hi])"
    by (cases "us = []") (simp_all add: agg_results_def gdefs lo_def v0_def the_result_def [abs_def] Let_def)
  have same: "same_agg box ?b" using b3(1) by simp
  show ?thesis unfolding res by (intro exI conjI allI) (rule st same cov ins(3))+
qed

text \<open>A run from a new box.\<close>

lemma agg_results_append:
  assumes "i < length ts"
  shows "agg_results box (ts @ us) i = agg_results box ts i"
proof -
  have "take i (ts @ us) = take i ts" "(ts @ us) ! i = ts ! i" using assms by (simp_all add: nth_append)
  then show ?thesis unfolding agg_results_def by (simp only:)
qed

text \<open>Runs step by step: an invariant of the prefixes, and what each tuple triggers.\<close>

lemma Aggregate_steps_by_step:
  assumes "P [] box"
    and step: "\<And>ts t us b. all = ts @ t # us \<Longrightarrow> P ts b \<Longrightarrow>
      \<exists>b' outs. Aggregate_step t b = Some (Inr (b', outs)) \<and> P (ts @ [t]) b' \<and> list_all2 R outs (res (length ts))"
  shows "\<exists>b outs. Aggregate_steps all box = Some (Inr (b, outs)) \<and> P all b \<and>
    list_all2 R outs (concat (map res [0..<length all]))"
proof -
  have "\<exists>b outs. Aggregate_steps ts box = Some (Inr (b, outs)) \<and> P ts b \<and>
      list_all2 R outs (concat (map res [0..<length ts]))" if "all = ts @ us" for ts us
    using that
  proof (induction ts arbitrary: us rule: rev_induct)
    case Nil
    then show ?case using assms(1) by simp
  next
    case (snoc t ts)
    then have all: "all = ts @ t # us" by simp
    from snoc.IH [OF this] obtain b outs where IH: "Aggregate_steps ts box = Some (Inr (b, outs))" "P ts b"
      "list_all2 R outs (concat (map res [0..<length ts]))" by blast
    from step [OF all IH(2)] obtain b' outs' where st: "Aggregate_step t b = Some (Inr (b', outs'))" "P (ts @ [t]) b'"
      "list_all2 R outs' (res (length ts))" by blast
    have "list_all2 R (outs @ outs') (concat (map res [0..<length (ts @ [t])]))"
      using list_all2_appendI [OF IH(3) st(3)] by simp
    then show ?case using Aggregate_steps_snoc [OF IH(1), of t] st(1,2) by simp
  qed
  from this [of all "[]"] show ?thesis by simp
qed

lemma in_order_append: "in_order box (ts @ us) \<Longrightarrow> in_order box ts"
  by (simp add: in_order_def sorted_append)

lemma Aggregate_steps_is:
  assumes "regular box" "window_starts box = Map.empty" "open_windows box = Map.empty"
    and "in_order box ts" "\<forall>t \<in> set ts. plain t"
  shows "\<exists>b outs. Aggregate_steps ts box = Some (Inr (b, outs)) \<and>
    list_all2 (carries box) outs (concat (map (agg_results box ts) [0..<length ts]))"
proof -
  let ?P = "\<lambda>ts b. same_agg box b \<and> (\<forall>g. agg_covers box ts g (window_starts b g) (windows_of g b))"
  have init: "?P [] box" using assms(2,3) by (simp add: agg_covers_def windows_of_def)
  have stepped: "\<exists>b' outs. Aggregate_step t b = Some (Inr (b', outs)) \<and> ?P (us @ [t]) b' \<and>
      list_all2 (carries box) outs (agg_results box ts (length us))" if "ts = us @ t # vs" "?P us b" for us t vs b
  proof -
    have "in_order box (us @ [t])" "plain t" using assms(4,5) that(1) in_order_append [of box "us @ [t]" vs] by simp_all
    then show ?thesis
      using Aggregate_step_is [OF assms(1), of b us t] that agg_results_append [of "length us" "us @ [t]" box vs] by auto
  qed
  have "\<exists>b outs. Aggregate_steps ts box = Some (Inr (b, outs)) \<and> ?P ts b \<and>
      list_all2 (carries box) outs (concat (map (agg_results box ts) [0..<length ts]))"
  proof (rule Aggregate_steps_by_step [where P = ?P])
    show "?P [] box" by (rule init)
  qed (rule stepped)
  then show ?thesis by blast
qed

end
