(* ===== verification/Aggregate_Tuples.thy ===== *)
theory Aggregate_Tuples
  imports Aggregate_Windows
begin

text \<open>
  The Aggregate box over windows of tuple counts: every \<open>a\<close> tuples of a group it outputs the
  aggregate of the group's last \<open>W\<close> tuples, where \<open>a\<close> is the smaller of the advance and the size.
\<close>

section \<open>Reference\<close>

definition by_tuples :: "'w aggregate_box \<Rightarrow> nat \<Rightarrow> nat \<Rightarrow> bool" where
  "by_tuples box W A \<longleftrightarrow> agg_method box = WINDOW_BY_TUPLES \<and> agg_window_size box = of_nat W \<and>
     advance_size box = of_nat A \<and> 0 < W \<and> 0 < A \<and> \<not> timing_out box \<and> \<not> agg_drop_mode box"

definition tuple_result :: "'w aggregate_box \<Rightarrow> byte list \<Rightarrow> tuple list \<Rightarrow> nat \<Rightarrow> byte list \<times> rat \<times> 'w list" where
  "tuple_result box g us j = (g, of_int \<lfloor>agg_window_field box (us ! j)\<rfloor>, agg_states (agg_functions box) (drop j us))"

definition tuple_results :: "'w aggregate_box \<Rightarrow> nat \<Rightarrow> nat \<Rightarrow> tuple list \<Rightarrow> nat \<Rightarrow> (byte list \<times> rat \<times> 'w list) list" where
  "tuple_results box W A ts i =
     (let g = agg_group_by box (ts ! i); us = agg_group box g (take i ts) @ [ts ! i]; n = length us
      in if W \<le> n \<and> min W A dvd (n - W) then [tuple_result box g us (n - W)] else [])"

text \<open>Of \<open>n\<close> tuples: how many windows they opened, and how many they closed.\<close>

definition tw_opened :: "nat \<Rightarrow> nat \<Rightarrow> nat" where
  "tw_opened a n = (n + a - 1) div a"

definition tw_closed :: "nat \<Rightarrow> nat \<Rightarrow> nat \<Rightarrow> nat" where
  "tw_closed a W n = (if n < W then 0 else (n - W) div a + 1)"

lemma less_tw_opened: "0 < a \<Longrightarrow> k < tw_opened a n \<longleftrightarrow> k * a < n"
  by (simp add: tw_opened_def less_eq_div_iff_mult_less_eq flip: Suc_le_eq) linarith

lemma less_tw_closed: "0 < a \<Longrightarrow> k < tw_closed a W n \<longleftrightarrow> k * a + W \<le> n"
  by (simp add: tw_closed_def less_Suc_eq_le less_eq_div_iff_mult_less_eq) linarith

lemma nat_eqI_less: "(\<And>k. k < m \<longleftrightarrow> k < n) \<Longrightarrow> m = n" for m n :: nat
  by (meson linorder_neqE_nat less_irrefl)

lemma nat_leI_less: "(\<And>k. k < m \<Longrightarrow> k < n) \<Longrightarrow> m \<le> n" for m n :: nat
  by (meson less_irrefl not_less)

lemma tw_opened_Suc:
  assumes "0 < a"
  shows "tw_opened a (Suc n) = (if a dvd n then Suc (tw_opened a n) else tw_opened a n)"
    and "a dvd n \<Longrightarrow> tw_opened a n * a = n"
proof -
  have "(a * q + a - 1) div a = q" for q
    using assms by (intro div_nat_eqI) (simp_all add: algebra_simps)
  then show e: "a dvd n \<Longrightarrow> tw_opened a n * a = n" by (auto simp: tw_opened_def elim!: dvdE)
  show "tw_opened a (Suc n) = (if a dvd n then Suc (tw_opened a n) else tw_opened a n)"
  proof (rule nat_eqI_less)
    fix k
    have "k * a = n \<longleftrightarrow> a dvd n \<and> k = tw_opened a n" using e assms by (metis dvd_triv_right mult_right_cancel neq0_conv)
    then show "k < tw_opened a (Suc n) \<longleftrightarrow> k < (if a dvd n then Suc (tw_opened a n) else tw_opened a n)"
      using less_tw_opened [OF assms, of k n] less_tw_opened [OF assms, of k "Suc n"] by (auto simp: less_Suc_eq)
  qed
qed

lemma tw_closed_Suc:
  assumes "0 < a"
  shows "[tw_closed a W n..<tw_closed a W (Suc n)] = (if W \<le> Suc n \<and> a dvd (Suc n - W) then [(Suc n - W) div a] else [])"
proof (cases "W \<le> Suc n \<and> a dvd (Suc n - W)")
  case True
  then obtain q where q: "Suc n = W + q * a" by (metis dvd_div_mult_self le_add_diff_inverse)
  have "k * a + W \<le> n \<longleftrightarrow> k * a + W < Suc n" for k by auto
  then have "k < tw_closed a W n \<longleftrightarrow> k < q" "k < tw_closed a W (Suc n) \<longleftrightarrow> k < Suc q" for k
    using assms by (simp_all add: less_tw_closed [OF assms] q less_Suc_eq_le)
  then have "tw_closed a W n = q" "tw_closed a W (Suc n) = Suc q" by (auto intro: nat_eqI_less)
  then show ?thesis using True q assms by simp
next
  case False
  have "k * a + W \<noteq> Suc n" for k using False by (metis add_diff_cancel_right' dvd_triv_right le_add2)
  then have "tw_closed a W n = tw_closed a W (Suc n)"
    by (intro nat_eqI_less) (simp add: less_tw_closed [OF assms] le_Suc_eq)
  then show ?thesis using False by simp
qed

text \<open>A window opens before the next tuple exactly if the number of tuples is a multiple of \<open>a\<close>.\<close>

lemma tw_opens:
  assumes "0 < W" "0 < A"
  defines "a \<equiv> min W A"
  shows "tw_closed a W n \<le> tw_opened a n"
    and "tw_closed a W n < tw_opened a n \<Longrightarrow> A \<le> n - (tw_opened a n - 1) * a \<longleftrightarrow> a dvd n"
    and "\<not> tw_closed a W n < tw_opened a n \<Longrightarrow> a dvd n"
proof -
  define q where "q = tw_opened a n"
  have a: "0 < a" "a \<le> W" "a \<le> A" "a = W \<or> a = A" using assms by auto
  note o = less_tw_opened [OF a(1), of _ n, folded q_def] and c = less_tw_closed [OF a(1), of _ W n]
  show "tw_closed a W n \<le> tw_opened a n"
    using c o assms(1) by (metis add_le_same_cancel1 le_add1 le_trans less_le_trans linorder_not_le nat_less_le q_def)
  have last: "(q - 1) * a < n" if "0 < q" using o [of "q - 1"] that by simp
  have up: "n \<le> q * a" using o [of q] by simp
  have rest: "n - (q - 1) * a < a" if "\<not> a dvd n"
  proof -
    have "0 < q" using up that by (cases q) auto
    moreover have "n \<noteq> q * a" using that by auto
    ultimately show ?thesis using up last by (cases q) auto
  qed
  show "a dvd n" if "\<not> tw_closed a W n < tw_opened a n"
  proof (rule ccontr)
    assume nd: "\<not> a dvd n"
    have q: "0 < q" using up nd by (cases q) auto
    have "\<not> (q - 1) * a + W \<le> n" using rest [OF nd] last [OF q] a(2) by linarith
    then show False using c [of "q - 1"] that q by (simp add: q_def)
  qed
  show "A \<le> n - (tw_opened a n - 1) * a \<longleftrightarrow> a dvd n" if lt: "tw_closed a W n < tw_opened a n"
  proof (cases "a dvd n")
    case True
    have n: "n = q * a" using tw_opened_Suc(2) [OF a(1) True] by (simp add: q_def)
    have "0 < q" "\<not> (q - 1) * a + W \<le> n" using lt c [of "q - 1"] by (simp_all add: q_def) linarith
    then have "n - (q - 1) * a = a" "a < W" using n by (cases q; simp)+
    then show ?thesis using True a(4) by (simp add: q_def)
  next
    case False
    then show ?thesis using rest [OF False] a(3) by (simp add: q_def)
  qed
qed

section \<open>Windows\<close>

text \<open>Window \<open>k\<close> of group \<open>g\<close>, which opened at tuple \<open>k * a\<close>, after \<open>n\<close> of the tuples \<open>us\<close>.\<close>

definition tuple_window_is :: "'w aggregate_box \<Rightarrow> byte list \<Rightarrow> nat \<Rightarrow> nat \<Rightarrow> tuple list \<Rightarrow> nat \<Rightarrow> nat \<Rightarrow> 'w window \<Rightarrow> bool" where
  "tuple_window_is box g a W us n k w \<longleftrightarrow>
     window_kind w = TupleWindow (int W) (int (n - k * a))
       (if agg_order_by box = ORDER_BY_FIELD then \<lfloor>agg_window_field box (us ! (k * a))\<rfloor> else 0) \<and>
     agg_windows w = agg_states (agg_functions box) (drop (k * a) (take n us)) \<and> group_by_value w = g \<and>
     \<not> w_fake_flag w \<and> (w_empty w \<longleftrightarrow> n \<le> k * a)"

definition tuple_windows :: "'w aggregate_box \<Rightarrow> byte list \<Rightarrow> nat \<Rightarrow> nat \<Rightarrow> tuple list \<Rightarrow> 'w window list \<Rightarrow> bool" where
  "tuple_windows box g a W us wl \<longleftrightarrow>
     list_all2 (tuple_window_is box g a W us (length us)) [tw_closed a W (length us)..<tw_opened a (length us)] wl"

lemma tuple_window_is_append:
  "k * a < length us \<Longrightarrow> tuple_window_is box g a W us (length us) k w \<Longrightarrow>
   tuple_window_is box g a W (us @ [t]) (length us) k w"
  by (simp add: tuple_window_is_def nth_append)

lemma tuple_window_insert:
  assumes "tuple_window_is box g a W (us @ [t]) (length us) k w" "k * a \<le> length us" "\<not> get_fake_flag t"
  shows "\<exists>w'. insert_tuple (agg_functions box) v t w = (k * a + W \<le> Suc (length us), w') \<and>
    tuple_window_is box g a W (us @ [t]) (Suc (length us)) k w'"
proof -
  define p where "p = k * a"
  show ?thesis
    using assms unfolding tuple_window_is_def p_def [symmetric]
    by (auto simp: insert_tuple_def Window_insert_tuple_def agg_states_snoc Let_def Suc_diff_le of_nat_diff)
qed

text \<open>A window that is not empty is emitted with its group, start and states.\<close>

lemma emit_carries:
  assumes "same_agg box b" "\<not> w_fake_flag w" "\<not> w_empty w"
    "agg_order_by box = ORDER_BY_FIELD \<Longrightarrow> get_start_value (window_kind w) = s"
  shows "\<exists>x n. emit_unless_empty w b = ([x], b\<lparr>emitted_count := n\<rparr>) \<and>
    carries box x (group_by_value w, s, agg_windows w)"
proof -
  note c = same_aggD [OF assms(1)]
  obtain x n where e: "emit_for_window w b = (x, b\<lparr>emitted_count := n\<rparr>)" by (simp add: emit_for_window_def Let_def)
  have x: "x = fst (emit_for_window w b)" by (simp add: e)
  have "carries box x (group_by_value w, s, agg_windows w)"
    unfolding carries_def result_bytes_def x emit_for_window_def overlay_def
    using assms(2,4) by (simp add: final_value_def c Let_def)
  then show ?thesis using assms(3) by (intro exI [of _ x] exI [of _ n]) (simp add: emit_unless_empty_def e)
qed

lemma insert_all_tuples:
  assumes "list_all2 (tuple_window_is box g a W (us @ [t]) (length us)) ks ws" "same_agg box b"
    and "\<forall>k \<in> set ks. k * a \<le> length us" "\<not> timing_out box" "\<not> get_fake_flag t" "0 < W"
  shows "\<exists>kept m outs. insert_all g t ws b = Inr (kept, b\<lparr>emitted_count := m\<rparr>, outs) \<and>
    list_all2 (tuple_window_is box g a W (us @ [t]) (Suc (length us)))
      (filter (\<lambda>k. \<not> k * a + W \<le> Suc (length us)) ks) kept \<and>
    list_all2 (carries box) outs (map (\<lambda>k. tuple_result box g (us @ [t]) (k * a))
      (filter (\<lambda>k. k * a + W \<le> Suc (length us)) ks))"
  using assms(1-3)
proof (induction ks ws arbitrary: b rule: list_all2_induct)
  case Nil
  then show ?case by (intro exI [of _ "[]"] exI [of _ "emitted_count b"]) simp
next
  case (Cons k ks w ws)
  note c = same_aggD [OF Cons.prems(1)]
  have k: "k * a \<le> length us" using Cons.prems(2) by simp
  obtain w' where w': "insert_tuple (agg_functions box) (agg_window_field b t) t w = (k * a + W \<le> Suc (length us), w')"
    "tuple_window_is box g a W (us @ [t]) (Suc (length us)) k w'"
    using tuple_window_insert [OF Cons.hyps(1) k assms(5)] by blast
  show ?case
  proof (cases "k * a + W \<le> Suc (length us)")
    case False
    obtain kept m outs where "insert_all g t ws b = Inr (kept, b\<lparr>emitted_count := m\<rparr>, outs)"
      "list_all2 (tuple_window_is box g a W (us @ [t]) (Suc (length us)))
        (filter (\<lambda>k. \<not> k * a + W \<le> Suc (length us)) ks) kept"
      "list_all2 (carries box) outs (map (\<lambda>k. tuple_result box g (us @ [t]) (k * a))
        (filter (\<lambda>k. k * a + W \<le> Suc (length us)) ks))"
      using Cons.IH [OF Cons.prems(1)] Cons.prems(2) by auto
    then show ?thesis using False w'
      by (intro exI [of _ "w' # kept"] exI [of _ m] exI [of _ outs]) (simp add: c Let_def)
  next
    case True
    let ?r = "tuple_result box g (us @ [t]) (k * a)"
    have "\<exists>x n. emit_unless_empty w' b = ([x], b\<lparr>emitted_count := n\<rparr>) \<and>
        carries box x (group_by_value w', fst (snd ?r), agg_windows w')"
      using w'(2) True k by (intro emit_carries Cons.prems(1))
        (auto simp: tuple_window_is_def get_start_value_def tuple_result_def)
    then obtain x n where e: "emit_unless_empty w' b = ([x], b\<lparr>emitted_count := n\<rparr>)" "carries box x ?r"
      using w'(2) by (auto simp: tuple_window_is_def tuple_result_def)
    have "same_agg box (b\<lparr>emitted_count := n\<rparr>)" using Cons.prems(1) by simp
    from Cons.IH [OF this] Cons.prems(2) obtain kept m outs where
      "insert_all g t ws (b\<lparr>emitted_count := n\<rparr>) = Inr (kept, b\<lparr>emitted_count := m\<rparr>, outs)"
      "list_all2 (tuple_window_is box g a W (us @ [t]) (Suc (length us)))
        (filter (\<lambda>k. \<not> k * a + W \<le> Suc (length us)) ks) kept"
      "list_all2 (carries box) outs (map (\<lambda>k. tuple_result box g (us @ [t]) (k * a))
        (filter (\<lambda>k. k * a + W \<le> Suc (length us)) ks))"
      by auto
    then show ?thesis using True w'(1) e assms(4)
      by (intro exI [of _ kept] exI [of _ m] exI [of _ "x # outs"]) (simp add: c Let_def)
  qed
qed

lemma list_all2_last: "list_all2 P xs ys \<Longrightarrow> xs \<noteq> [] \<Longrightarrow> P (last xs) (last ys)"
  by (induction rule: list_all2_induct) auto

lemma open_tuple_window_is:
  assumes "by_tuples box W A" "same_agg box b"
  defines "a \<equiv> min W A"
  assumes "tuple_windows box g a W us (windows_of g b)"
  shows "list_all2 (tuple_window_is box g a W (us @ [t]) (length us))
      [tw_closed a W (length us)..<tw_opened a (Suc (length us))] (windows_of g (open_tuple_window g t b))"
    and "same_agg box (open_tuple_window g t b)" "h \<noteq> g \<Longrightarrow> windows_of h (open_tuple_window g t b) = windows_of h b"
proof -
  let ?n = "length us" and ?ks = "[tw_closed a W (length us)..<tw_opened a (length us)]"
  have r: "agg_window_size box = of_nat W" "advance_size box = of_nat A" "0 < W" "0 < A" "\<not> timing_out box" and a: "0 < a"
    using assms(1) by (simp_all add: by_tuples_def a_def)
  note c = same_aggD [OF assms(2)]
  show "same_agg box (open_tuple_window g t b)" "h \<noteq> g \<Longrightarrow> windows_of h (open_tuple_window g t b) = windows_of h b"
    using assms(2) r(5) by (simp_all add: open_tuple_window_def insert_new_window_def Let_def c)
  have ws: "list_all2 (tuple_window_is box g a W us ?n) ?ks (windows_of g b)"
    using assms(4) by (simp add: tuple_windows_def)
  have old: "list_all2 (tuple_window_is box g a W (us @ [t]) ?n) ?ks (windows_of g b)"
    using ws by (rule list.rel_mono_strong) (simp add: less_tw_opened [OF a] tuple_window_is_append)
  have len: "length (windows_of g b) = length ?ks" using list_all2_lengthD [OF ws] by simp
  have opens: "windows_of g b = [] \<or> of_int (tuple_count (window_kind (last (windows_of g b)))) \<ge> advance_size b \<longleftrightarrow> a dvd ?n"
  proof (cases "tw_closed a W ?n < tw_opened a ?n")
    case True
    then have ne: "windows_of g b \<noteq> []" using len by auto
    have "tuple_window_is box g a W us ?n (last ?ks) (last (windows_of g b))"
      using list_all2_last [OF ws] True by simp
    then have "tuple_count (window_kind (last (windows_of g b))) = int (?n - (tw_opened a ?n - 1) * a)"
      using True by (simp add: tuple_window_is_def)
    then show ?thesis using ne tw_opens(2) [OF r(3,4), of ?n, folded a_def, OF True] r(2) by (simp add: c)
  next
    case False
    then show ?thesis using len tw_opens(3) [OF r(3,4), of ?n, folded a_def] by simp
  qed
  show "list_all2 (tuple_window_is box g a W (us @ [t]) ?n)
      [tw_closed a W ?n..<tw_opened a (Suc ?n)] (windows_of g (open_tuple_window g t b))"
  proof (cases "a dvd ?n")
    case True
    have e: "tw_opened a ?n * a = ?n" "tw_opened a (Suc ?n) = Suc (tw_opened a ?n)" "tw_closed a W ?n \<le> tw_opened a ?n"
      using tw_opened_Suc [OF a, of ?n] tw_opens(1) [OF r(3,4), of ?n, folded a_def] True by simp_all
    let ?w = "Window_new b g (TupleWindow \<lfloor>agg_window_size b\<rfloor> 0
        (if agg_order_by b = ORDER_BY_FIELD then \<lfloor>agg_window_field b t\<rfloor> else 0)) (-1) False"
    have "windows_of g (open_tuple_window g t b) = windows_of g b @ [?w]"
      using True opens r(5) by (simp add: open_tuple_window_def insert_new_window_def Let_def c)
    moreover have "tuple_window_is box g a W (us @ [t]) ?n (tw_opened a ?n) ?w"
      using r(1) by (simp add: tuple_window_is_def Window_new_def c e(1))
    ultimately show ?thesis using old e(2,3) by (simp add: list_all2_appendI)
  next
    case False
    then have "open_tuple_window g t b = b" using opens by (simp add: open_tuple_window_def Let_def)
    then show ?thesis using old tw_opened_Suc(1) [OF a, of ?n] False by simp
  qed
qed

section \<open>Runs\<close>

lemma Aggregate_step_tuples:
  assumes "by_tuples box W A" "same_agg box b" "plain t"
  defines "a \<equiv> min W A"
  assumes "\<forall>g. tuple_windows box g a W (agg_group box g ts) (windows_of g b)"
  shows "\<exists>b' outs. Aggregate_step t b = Some (Inr (b', outs)) \<and> same_agg box b' \<and>
    (\<forall>g. tuple_windows box g a W (agg_group box g (ts @ [t])) (windows_of g b')) \<and>
    list_all2 (carries box) outs (tuple_results box W A (ts @ [t]) (length ts))"
proof -
  define g where "g = agg_group_by box t"
  define us where "us = agg_group box g ts"
  define b1 where "b1 = (set_windows g (windows_of g b) b)\<lparr>dirty_windows := (dirty_windows b)(g := True)\<rparr>"
  define b2 where "b2 = open_tuple_window g t b1"
  define b3 where "b3 = (if tuple_type t = TENTATIVE then b2\<lparr>box_tentative := True\<rparr> else b2)"
  let ?n = "length us"
  have r: "agg_method box = WINDOW_BY_TUPLES" "0 < W" "0 < A" "\<not> timing_out box" "\<not> agg_drop_mode box" and a: "0 < a"
    using assms(1) by (simp_all add: by_tuples_def a_def)
  note c = same_aggD [OF assms(2)] and gdefs = g_def [symmetric] us_def [symmetric]
  have b1: "same_agg box b1" "windows_of h b1 = windows_of h b" for h using assms(2) by (simp_all add: b1_def)
  have cov: "tuple_windows box g a W us (windows_of g b1)" using assms(5) by (simp add: b1(2) us_def)
  note o = open_tuple_window_is [OF assms(1) b1(1), folded a_def, OF cov, where t = t, folded b2_def]
  have b3: "same_agg box b3" "windows_of h b3 = windows_of h b2" for h using o(2) by (simp_all add: b3_def)
  have op: "tw_closed a W ?n \<le> tw_closed a W (Suc ?n)" "tw_closed a W (Suc ?n) \<le> tw_opened a (Suc ?n)"
    using tw_opens(1) [OF r(2,3), folded a_def] by (auto intro: nat_leI_less simp: less_tw_closed [OF a])
  have flt: "filter (\<lambda>k. k * a + W \<le> Suc ?n) [tw_closed a W ?n..<tw_opened a (Suc ?n)] = [tw_closed a W ?n..<tw_closed a W (Suc ?n)]"
    "filter (\<lambda>k. \<not> k * a + W \<le> Suc ?n) [tw_closed a W ?n..<tw_opened a (Suc ?n)] = [tw_closed a W (Suc ?n)..<tw_opened a (Suc ?n)]"
    unfolding less_tw_closed [OF a, symmetric] by (rule filter_upt [OF op])+
  have ks: "\<forall>k \<in> set [tw_closed a W ?n..<tw_opened a (Suc ?n)]. k * a \<le> ?n"
    using less_tw_opened [OF a, of _ "Suc ?n"] by (simp add: less_Suc_eq_le)
  have fake: "\<not> get_fake_flag t" using assms(3) by (simp add: plain_def)
  from insert_all_tuples [OF o(1) [folded b3(2)] b3(1) ks r(4) fake r(2), unfolded flt]
  obtain kept m outs where ins: "insert_all g t (windows_of g b3) b3 = Inr (kept, b3\<lparr>emitted_count := m\<rparr>, outs)"
    "list_all2 (tuple_window_is box g a W (us @ [t]) (Suc ?n)) [tw_closed a W (Suc ?n)..<tw_opened a (Suc ?n)] kept"
    "list_all2 (carries box) outs (map (\<lambda>k. tuple_result box g (us @ [t]) (k * a)) [tw_closed a W ?n..<tw_closed a W (Suc ?n)])"
    by blast
  obtain u v where st: "Aggregate_step t b =
      Some (Inr ((set_windows g kept (b3\<lparr>emitted_count := m\<rparr>))\<lparr>count_updated_windows := u, count_new_windows := v\<rparr>, outs))"
    using Aggregate_step_plain [OF assms(3), of b b2 b3 kept "b3\<lparr>emitted_count := m\<rparr>" outs] r(1,4,5) ins(1)
    unfolding c gdefs b1_def [symmetric] b2_def [symmetric] b3_def [symmetric] by auto
  let ?b = "(set_windows g kept (b3\<lparr>emitted_count := m\<rparr>))\<lparr>count_updated_windows := u, count_new_windows := v\<rparr>"
  have cov': "tuple_windows box h a W (agg_group box h (ts @ [t])) (windows_of h ?b)" for h
  proof (cases "h = g")
    case True
    then show ?thesis using ins(2) by (simp add: tuple_windows_def gdefs)
  next
    case False
    then have "windows_of h ?b = windows_of h b" using o(3) b1(2) b3(2) by simp
    then show ?thesis using assms(5) False by (simp add: gdefs)
  qed
  have res: "tuple_results box W A (ts @ [t]) (length ts) =
      map (\<lambda>k. tuple_result box g (us @ [t]) (k * a)) [tw_closed a W ?n..<tw_closed a W (Suc ?n)]"
    by (auto simp: tuple_results_def gdefs a_def [symmetric] tw_closed_Suc [OF a] Let_def)
  have same: "same_agg box ?b" using b3(1) by simp
  show ?thesis unfolding res by (intro exI conjI allI) (rule st same cov' ins(3))+
qed

lemma tuple_results_append:
  assumes "i < length ts"
  shows "tuple_results box W A (ts @ us) i = tuple_results box W A ts i"
proof -
  have "take i (ts @ us) = take i ts" "(ts @ us) ! i = ts ! i" using assms by (simp_all add: nth_append)
  then show ?thesis unfolding tuple_results_def by (simp only:)
qed

lemma Aggregate_steps_tuples:
  assumes "by_tuples box W A" "open_windows box = Map.empty" "\<forall>t \<in> set ts. plain t"
  shows "\<exists>b outs. Aggregate_steps ts box = Some (Inr (b, outs)) \<and>
    list_all2 (carries box) outs (concat (map (tuple_results box W A ts) [0..<length ts]))"
proof -
  let ?P = "\<lambda>ts b. same_agg box b \<and> (\<forall>g. tuple_windows box g (min W A) W (agg_group box g ts) (windows_of g b))"
  have "0 < min W A" using assms(1) by (simp add: by_tuples_def)
  from less_tw_opened [OF this, of 0 0] have "tw_opened (min W A) 0 = 0" by simp
  then have init: "?P [] box"
    using assms(1,2) by (simp add: tuple_windows_def windows_of_def by_tuples_def tw_closed_def)
  have stepped: "\<exists>b' outs. Aggregate_step t b = Some (Inr (b', outs)) \<and> ?P (us @ [t]) b' \<and>
      list_all2 (carries box) outs (tuple_results box W A ts (length us))" if "ts = us @ t # vs" "?P us b" for us t vs b
    using Aggregate_step_tuples [OF assms(1), of b t us] that assms(3)
      tuple_results_append [of "length us" "us @ [t]" box W A vs] by auto
  have "\<exists>b outs. Aggregate_steps ts box = Some (Inr (b, outs)) \<and> ?P ts b \<and>
      list_all2 (carries box) outs (concat (map (tuple_results box W A ts) [0..<length ts]))"
  proof (rule Aggregate_steps_by_step [where P = ?P])
    show "?P [] box" by (rule init)
  qed (rule stepped)
  then show ?thesis by blast
qed

end
