(* ===== verification/Aggregate_Wf.thy ===== *)
theory Aggregate_Wf
  imports Aggregate_Tuples
begin

text \<open>
  Well-formedness of the Aggregate box, for every mode of operation (values or tuples, slack,
  timeouts, behind a load shedder): every open window has one state per function and the group it
  is listed under, and the timeout list refers to exactly the open windows. Every step keeps it, so that
  no step dereferences a window that is gone.
\<close>

definition window_ok :: "'w aggregate_box \<Rightarrow> byte list \<Rightarrow> 'w window \<Rightarrow> bool" where
  "window_ok box g w \<longleftrightarrow> length (agg_windows w) = length (agg_functions box) \<and> group_by_value w = g \<and>
     window_no w < next_window_no box \<and> (timing_out box \<longrightarrow> in_timeouts w) \<and>
     (agg_method box = WINDOW_BY_TUPLES \<longleftrightarrow> (case window_kind w of TupleWindow _ _ _ \<Rightarrow> True | _ \<Rightarrow> False))"

definition agg_wf :: "'w aggregate_box \<Rightarrow> bool" where
  "agg_wf box \<longleftrightarrow>
     (\<forall>g. (\<forall>w \<in> set (windows_of g box). window_ok box g w) \<and> distinct (map window_no (windows_of g box))) \<and>
     (timing_out box \<longrightarrow> distinct (timeout_list box) \<and>
        (\<forall>g i. (g, i) \<in> set (timeout_list box) \<longleftrightarrow> i \<in> window_no ` set (windows_of g box)))"

text \<open>What no step changes.\<close>

definition agg_config :: "'w aggregate_box \<Rightarrow> 'w aggregate list \<times> window_method \<times> bool \<times> rat" where
  "agg_config box = (agg_functions box, agg_method box, timing_out box, advance_size box)"

abbreviation agg_next_ok :: "'w aggregate_box \<Rightarrow> 'w aggregate_box \<Rightarrow> bool" where
  "agg_next_ok box b \<equiv> agg_wf b \<and> agg_config b = agg_config box"

lemma window_ok_upd [simp]:
  "window_ok (b\<lparr>box_tentative := x1\<rparr>) = window_ok b" "window_ok (b\<lparr>window_starts := x2\<rparr>) = window_ok b"
  "window_ok (b\<lparr>dirty_windows := x3\<rparr>) = window_ok b" "window_ok (b\<lparr>count_new_windows := x4\<rparr>) = window_ok b"
  "window_ok (b\<lparr>count_updated_windows := x5\<rparr>) = window_ok b" "window_ok (b\<lparr>emitted_count := x6\<rparr>) = window_ok b"
  "window_ok (b\<lparr>agg_drop_mode := x7\<rparr>) = window_ok b" "window_ok (b\<lparr>timeout_list := x8\<rparr>) = window_ok b"
  "window_ok (b\<lparr>open_windows := x9\<rparr>) = window_ok b" "window_ok (set_windows g ws b) = window_ok b"
  by (simp_all add: window_ok_def set_windows_def fun_eq_iff)

lemma windows_of_more_upd [simp]:
  "windows_of g (b\<lparr>agg_drop_mode := x7\<rparr>) = windows_of g b" "windows_of g (b\<lparr>timeout_list := x8\<rparr>) = windows_of g b"
  by (simp_all add: windows_of_def)

lemma agg_wf_upd [simp]:
  "agg_wf (b\<lparr>box_tentative := x1\<rparr>) = agg_wf b" "agg_wf (b\<lparr>window_starts := x2\<rparr>) = agg_wf b"
  "agg_wf (b\<lparr>dirty_windows := x3\<rparr>) = agg_wf b" "agg_wf (b\<lparr>count_new_windows := x4\<rparr>) = agg_wf b"
  "agg_wf (b\<lparr>count_updated_windows := x5\<rparr>) = agg_wf b" "agg_wf (b\<lparr>emitted_count := x6\<rparr>) = agg_wf b"
  "agg_wf (b\<lparr>agg_drop_mode := x7\<rparr>) = agg_wf b"
  by (simp_all add: agg_wf_def)

lemma agg_config_upd [simp]:
  "agg_config (b\<lparr>box_tentative := x1\<rparr>) = agg_config b" "agg_config (b\<lparr>window_starts := x2\<rparr>) = agg_config b"
  "agg_config (b\<lparr>dirty_windows := x3\<rparr>) = agg_config b" "agg_config (b\<lparr>count_new_windows := x4\<rparr>) = agg_config b"
  "agg_config (b\<lparr>count_updated_windows := x5\<rparr>) = agg_config b" "agg_config (b\<lparr>emitted_count := x6\<rparr>) = agg_config b"
  "agg_config (b\<lparr>agg_drop_mode := x7\<rparr>) = agg_config b" "agg_config (b\<lparr>timeout_list := x8\<rparr>) = agg_config b"
  "agg_config (b\<lparr>open_windows := x9\<rparr>) = agg_config b" "agg_config (b\<lparr>next_window_no := x10\<rparr>) = agg_config b"
  "agg_config (set_windows g ws b) = agg_config b"
  by (simp_all add: agg_config_def set_windows_def)

section \<open>Opening\<close>

lemma window_ok_later: "window_ok b g w \<Longrightarrow> window_ok (b\<lparr>next_window_no := Suc (next_window_no b)\<rparr>) g w"
  by (simp add: window_ok_def)

lemma insert_new_window_ok:
  assumes "agg_wf b" "agg_method b = WINDOW_BY_TUPLES \<longleftrightarrow> (case k of TupleWindow _ _ _ \<Rightarrow> True | _ \<Rightarrow> False)"
  shows "agg_next_ok b (insert_new_window g (Window_new b g k spec fake) b)"
proof -
  define w where "w = (Window_new b g k spec fake)\<lparr>in_timeouts := timing_out b\<rparr>"
  define b' where "b' = insert_new_window g (Window_new b g k spec fake) b"
  have w: "window_no w = next_window_no b" by (simp add: w_def Window_new_def)
  have win: "windows_of h b' = (if h = g then windows_of g b @ [w] else windows_of h b)" for h
    by (simp add: b'_def w_def insert_new_window_def Let_def) (simp add: Window_new_def)
  have cfg: "agg_config b' = agg_config b" by (simp add: b'_def insert_new_window_def Let_def)
  have ok: "window_ok b' = window_ok (b\<lparr>next_window_no := Suc (next_window_no b)\<rparr>)"
    by (simp add: b'_def insert_new_window_def Let_def)
  have old: "window_ok b h u" "window_no u < next_window_no b" if "u \<in> set (windows_of h b)" for h u
    using assms(1) that by (auto simp: agg_wf_def window_ok_def)
  have "window_ok (b\<lparr>next_window_no := Suc (next_window_no b)\<rparr>) g w"
    using assms(2) by (simp add: window_ok_def w_def Window_new_def)
  then have "\<forall>u \<in> set (windows_of h b'). window_ok b' h u" for h
    by (auto simp: win ok intro!: window_ok_later old(1))
  moreover have "distinct (map window_no (windows_of h b'))" for h
    using assms(1) old(2) by (fastforce simp: win w agg_wf_def)
  moreover have "distinct (timeout_list b') \<and>
      (\<forall>h i. (h, i) \<in> set (timeout_list b') \<longleftrightarrow> i \<in> window_no ` set (windows_of h b'))" if "timing_out b"
  proof -
    have l: "timeout_list b' = timeout_list b @ [(g, next_window_no b)]"
      using that by (simp add: b'_def insert_new_window_def Let_def Window_new_def)
    have "(g, next_window_no b) \<notin> set (timeout_list b)" using assms(1) old(2) that by (fastforce simp: agg_wf_def)
    then show ?thesis using assms(1) that by (auto simp: l win w agg_wf_def)
  qed
  ultimately show ?thesis using cfg unfolding b'_def [symmetric] by (simp add: agg_wf_def agg_config_def)
qed

text \<open>Opening value windows; the loop ends since the advance is positive.\<close>

lemma open_value_window_ok:
  assumes "agg_wf b" "agg_method b \<noteq> WINDOW_BY_TUPLES"
  shows "agg_next_ok b (open_value_window g x spec fake b)"
  using insert_new_window_ok [OF assms(1)] assms(2) by (simp add: open_value_window_def)

lemma while_option_total:
  fixes f :: "'s \<Rightarrow> nat"
  assumes "\<And>s. P s \<Longrightarrow> b s \<Longrightarrow> P (c s) \<and> f (c s) < f s" "P s"
  shows "\<exists>t. while_option b c s = Some t \<and> P t"
proof -
  obtain t where t: "while_option b c s = Some t"
    using measure_while_option_Some [of P b c f, OF assms(1)] assms(2) by blast
  have "P t" by (rule while_option_rule [OF _ t, of P]) (use assms in auto)
  then show ?thesis using t by blast
qed

lemma nb_upto_step: "0 < adv \<Longrightarrow> 0 \<le> x \<Longrightarrow> nb_upto adv (x - adv) < nb_upto adv x"
  using less_nb_upto [of adv 0 x] by (simp add: nb_upto_def diff_divide_distrib)

lemma open_regular_ok:
  assumes "agg_wf b" "agg_method b \<noteq> WINDOW_BY_TUPLES" "0 < advance_size b"
  shows "\<exists>ws' b'. open_regular g v spec ws b = Some (ws', b') \<and> agg_next_ok b b'"
proof -
  have "\<exists>s. open_regular g v spec ws b = Some s \<and> agg_next_ok b (snd s)"
    unfolding open_regular_def
  proof (rule while_option_total [where P = "\<lambda>s. agg_next_ok b (snd s)" and f = "\<lambda>(ws, b'). nb_upto (advance_size b) (v - ws_next ws)"])
    fix s
    assume s: "agg_next_ok b (snd s)" "case s of (ws, b) \<Rightarrow> v \<ge> ws_next ws"
    obtain ws1 b1 where sp: "s = (ws1, b1)" by fastforce
    have adv: "advance_size b1 = advance_size b" using s(1) by (simp add: sp agg_config_def)
    have "agg_method b1 \<noteq> WINDOW_BY_TUPLES" using s(1) assms(2) by (simp add: sp agg_config_def)
    then have "agg_next_ok b (open_value_window g (ws_next ws1) spec False b1)"
      using open_value_window_ok [of b1] s(1) by (simp add: sp)
    moreover have "nb_upto (advance_size b) (v - (ws_next ws1 + advance_size b)) < nb_upto (advance_size b) (v - ws_next ws1)"
      using nb_upto_step [OF assms(3), of "v - ws_next ws1"] s(2) by (simp add: sp diff_diff_eq)
    ultimately show "agg_next_ok b (snd (case s of (ws, b) \<Rightarrow> (ws\<lparr>ws_next := ws_next ws + advance_size b\<rparr>,
          open_value_window g (ws_next ws) spec False b))) \<and>
        (case case s of (ws, b) \<Rightarrow> (ws\<lparr>ws_next := ws_next ws + advance_size b\<rparr>, open_value_window g (ws_next ws) spec False b) of
           (ws, b') \<Rightarrow> nb_upto (advance_size b) (v - ws_next ws)) <
        (case s of (ws, b') \<Rightarrow> nb_upto (advance_size b) (v - ws_next ws))"
      by (simp add: sp adv)
  qed (use assms(1) in simp)
  then show ?thesis by auto
qed

lemma skip_starts_ends:
  fixes v :: rat
  assumes "0 < adv"
  shows "\<exists>m. while_option (\<lambda>n. v > n) (\<lambda>n. n + adv) n = Some m"
proof (rule measure_while_option_Some [where P = "\<lambda>n. True" and f = "\<lambda>n. nb_upto adv (v - n)"])
  fix n
  assume "v > n"
  then show "True \<and> nb_upto adv (v - (n + adv)) < nb_upto adv (v - n)"
    using nb_upto_step [OF assms, of "v - n"] by (simp add: diff_diff_eq)
qed simp

lemma open_shed_ok:
  assumes "agg_wf b" "agg_method b \<noteq> WINDOW_BY_TUPLES"
  shows "agg_next_ok b (snd (open_shed g v spec ws b))"
  using open_value_window_ok [OF assms] assms(1) by (simp add: open_shed_def Let_def)

lemma open_value_windows_ok:
  assumes "agg_wf b" "agg_method b \<noteq> WINDOW_BY_TUPLES" "0 < advance_size b"
  shows "\<exists>b'. open_value_windows g t b = Some b' \<and> agg_next_ok b b'"
proof -
  define v0 where "v0 = agg_window_field b t"
  define ws0 where "ws0 = (case window_starts b g of None \<Rightarrow> WindowStart_new 0 0 | Some ws \<Rightarrow> ws)"
  define v where "v = (if \<not> ws_initialized ws0 \<and> independent_alignment b then v0 - c_fmod v0 (advance_size b) else v0)"
  define ws1 where "ws1 = (if ws_initialized ws0 then ws0 else ws0\<lparr>ws_initialized := True, ws_next := v, ws_keep_until := 0\<rparr>)"
  define put where "put = (\<lambda>(ws, b :: 'a aggregate_box). b\<lparr>window_starts := (window_starts b)(g \<mapsto> ws)\<rparr>)"
  note defs = open_value_windows_def Let_def v0_def [symmetric] ws0_def [symmetric] v_def [symmetric]
    ws1_def [symmetric] put_def [symmetric]
  have put: "agg_next_ok b (put p)" if "agg_next_ok b (snd p)" for p
    using that by (cases p) (simp add: put_def)
  show ?thesis
  proof (cases "agg_drop_mode b")
    case True
    obtain n where "while_option (\<lambda>n. v > n) (\<lambda>n. n + advance_size b) (ws_next ws1) = Some n"
      using skip_starts_ends [OF assms(3)] by blast
    then have "open_value_windows g t b = Some (put (open_shed g v (win_spec t) (ws1\<lparr>ws_next := n\<rparr>) b))"
      using True unfolding defs by (simp del: if_split_asm)
    then show ?thesis using put open_shed_ok [OF assms(1,2)] by blast
  next
    case False
    obtain p where "open_regular g v (win_spec t) ws1 b = Some p" "agg_next_ok b (snd p)"
      using open_regular_ok [OF assms, of g v "win_spec t" ws1] by auto
    then have "open_value_windows g t b = Some (put p)" using False unfolding defs by simp
    then show ?thesis using put \<open>agg_next_ok b (snd p)\<close> by blast
  qed
qed

lemma open_tuple_window_ok:
  assumes "agg_wf b" "agg_method b = WINDOW_BY_TUPLES"
  shows "agg_next_ok b (open_tuple_window g t b)"
  using insert_new_window_ok [OF assms(1)] assms by (simp add: open_tuple_window_def Let_def)

section \<open>Closing\<close>

lemma emit_unless_empty_upd: "\<exists>outs n. emit_unless_empty w b = (outs, b\<lparr>emitted_count := n\<rparr>)"
proof -
  obtain x n where e: "emit_for_window w b = (x, b\<lparr>emitted_count := n\<rparr>)" by (simp add: emit_for_window_def Let_def)
  show ?thesis
  proof (cases "\<not> w_empty w \<or> \<not> drop_empty_outputs b")
    case True
    then show ?thesis by (intro exI [of _ "[x]"] exI [of _ n]) (simp add: emit_unless_empty_def e)
  next
    case False
    then show ?thesis by (intro exI [of _ "[]"] exI [of _ "emitted_count b"]) (simp add: emit_unless_empty_def)
  qed
qed

lemma expire_windows_ok:
  assumes "agg_wf (b\<lparr>timeout_list := l\<rparr>)" "timing_out b"
  shows "\<exists>b' outs. expire_windows th l b = Inr (b', outs) \<and> agg_next_ok b b'"
  using assms
proof (induction l arbitrary: b)
  case Nil
  then show ?case by simp
next
  case (Cons p rest)
  obtain g i where p: "p = (g, i)" by fastforce
  have wf: "\<forall>h. (\<forall>w \<in> set (windows_of h b). window_ok b h w) \<and> distinct (map window_no (windows_of h b))"
    "distinct (p # rest)" "\<And>h j. (h, j) \<in> set (p # rest) \<longleftrightarrow> j \<in> window_no ` set (windows_of h b)"
    using Cons.prems by (simp_all add: agg_wf_def)
  obtain w where f: "find (\<lambda>w. window_no w = i) (windows_of g b) = Some w"
    using wf(3) [of g i] by (cases "find (\<lambda>w. window_no w = i) (windows_of g b)") (auto simp: p find_None_iff)
  show ?case
  proof (cases "Timestamp_gt th (w_t0 w)")
    case False
    then show ?thesis using f Cons.prems(1) by (simp add: p)
  next
    case True
    obtain outs n where e: "emit_unless_empty w b = (outs, b\<lparr>emitted_count := n\<rparr>)"
      using emit_unless_empty_upd by blast
    let ?wl = "filter (\<lambda>u. window_no u \<noteq> i) (windows_of g b)"
    let ?b = "(set_windows g ?wl (b\<lparr>emitted_count := n\<rparr>))\<lparr>dirty_windows := (dirty_windows b)(g := True)\<rparr>"
    have win: "windows_of h ?b = (if h = g then ?wl else windows_of h b)" for h by simp
    have "agg_wf (?b\<lparr>timeout_list := rest\<rparr>)"
      unfolding agg_wf_def windows_of_more_upd window_ok_upd win
    proof (intro conjI allI impI)
      fix h j
      show "\<forall>w \<in> set (if h = g then ?wl else windows_of h b). window_ok b h w" using wf(1) by auto
      show "distinct (map window_no (if h = g then ?wl else windows_of h b))" using wf(1) by (simp add: distinct_map_filter)
      have "(h, j) \<in> set rest \<longleftrightarrow> (h, j) \<in> set (p # rest) \<and> (h, j) \<noteq> p" using wf(2) by auto
      also have "\<dots> \<longleftrightarrow> j \<in> window_no ` set (windows_of h b) \<and> (h, j) \<noteq> (g, i)" using wf(3) p by simp
      finally show "(h, j) \<in> set (timeout_list (?b\<lparr>timeout_list := rest\<rparr>)) \<longleftrightarrow>
          j \<in> window_no ` set (if h = g then ?wl else windows_of h b)" by auto
    qed (use wf(2) in simp)
    moreover have "timing_out ?b" using Cons.prems(2) by simp
    ultimately obtain b' outs' where "expire_windows th rest ?b = Inr (b', outs')" "agg_next_ok ?b b'"
      using Cons.IH [of ?b] by blast
    then show ?thesis using f True e by (simp add: p Let_def)
  qed
qed

lemma insert_tuple_ok:
  "window_ok b g w \<Longrightarrow> insert_tuple (agg_functions b) v t w = (e, w') \<Longrightarrow> window_ok b g w' \<and> window_no w' = window_no w"
proof -
  have i: "window_ok b g u \<Longrightarrow> window_ok b g (Window_insert_tuple (agg_functions b) t u)"
    "window_no (Window_insert_tuple (agg_functions b) t u) = window_no u" for u
    by (auto simp: window_ok_def Window_insert_tuple_def Let_def)
  assume w: "window_ok b g w" "insert_tuple (agg_functions b) v t w = (e, w')"
  show ?thesis
  proof (cases "window_kind w")
    case (ValueWindow lo hi s)
    have "window_ok b g (w\<lparr>window_kind := ValueWindow lo hi n\<rparr>)" "window_ok b g (w\<lparr>w_max_stime := x, w_t_last := y, w_lt_last := z\<rparr>)"
      for n x y z using w(1) ValueWindow by (simp_all add: window_ok_def)
    then show ?thesis using w i by (auto simp: insert_tuple_def ValueWindow split: if_splits)
  next
    case (TupleWindow sz n st)
    have "window_ok b g (w\<lparr>window_kind := TupleWindow sz m st\<rparr>)" for m
      using w(1) TupleWindow by (simp add: window_ok_def)
    then show ?thesis using w(2) i by (auto simp: insert_tuple_def TupleWindow)
  qed
qed

text \<open>Offering a tuple closes the windows numbered \<open>C\<close>.\<close>

lemma insert_all_ok:
  assumes "\<forall>w \<in> set ws. window_ok b g w" "distinct (map window_no ws)"
  shows "\<exists>kept n C outs. insert_all g t ws b = Inr (kept, b\<lparr>emitted_count := n,
      timeout_list := (if timing_out b then filter (\<lambda>p. p \<notin> Pair g ` C) (timeout_list b) else timeout_list b)\<rparr>, outs) \<and>
    map window_no kept = filter (\<lambda>i. i \<notin> C) (map window_no ws) \<and> C \<subseteq> set (map window_no ws) \<and>
    (\<forall>w \<in> set kept. window_ok b g w)"
  using assms
proof (induction ws arbitrary: b)
  case Nil
  show ?case by (intro exI [of _ "[]"] exI [of _ "emitted_count b"] exI [of _ "{}"]) simp
next
  case (Cons w ws)
  obtain e w' where ins: "insert_tuple (agg_functions b) (agg_window_field b t) t w = (e, w')" by fastforce
  have w': "window_ok b g w'" "window_no w' = window_no w" using insert_tuple_ok [OF _ ins] Cons.prems(1) by auto
  show ?case
  proof (cases e)
    case False
    obtain kept n C outs where IH: "insert_all g t ws b = Inr (kept, b\<lparr>emitted_count := n,
        timeout_list := (if timing_out b then filter (\<lambda>p. p \<notin> Pair g ` C) (timeout_list b) else timeout_list b)\<rparr>, outs)"
      "map window_no kept = filter (\<lambda>i. i \<notin> C) (map window_no ws)" "C \<subseteq> set (map window_no ws)"
      "\<forall>w \<in> set kept. window_ok b g w"
      using Cons.IH [of b] Cons.prems by auto
    have "window_no w \<notin> C" using IH(3) Cons.prems(2) by auto
    then show ?thesis using ins False IH w'
      by (intro exI [of _ "w' # kept"] exI [of _ n] exI [of _ C] exI [of _ outs]) auto
  next
    case True
    obtain out m where em: "emit_unless_empty w' b = (out, b\<lparr>emitted_count := m\<rparr>)" using emit_unless_empty_upd by blast
    let ?b = "b\<lparr>emitted_count := m, timeout_list := (if timing_out b
        then filter (\<lambda>p. p \<noteq> (g, window_no w)) (timeout_list b) else timeout_list b)\<rparr>"
    obtain kept n C outs where IH: "insert_all g t ws ?b = Inr (kept, ?b\<lparr>emitted_count := n,
        timeout_list := (if timing_out ?b then filter (\<lambda>p. p \<notin> Pair g ` C) (timeout_list ?b) else timeout_list ?b)\<rparr>, outs)"
      "map window_no kept = filter (\<lambda>i. i \<notin> C) (map window_no ws)" "C \<subseteq> set (map window_no ws)"
      "\<forall>w \<in> set kept. window_ok b g w"
      using Cons.IH [of ?b] Cons.prems by auto
    have "insert_all g t (w # ws) b = rbind (insert_all g t ws ?b) (\<lambda>(kept, b, outs). Inr (kept, b, out @ outs))"
      using ins True em w' by (cases "timing_out b") (simp_all add: window_ok_def)
    moreover have "filter (\<lambda>i. i \<notin> insert (window_no w) C) (map window_no ws) = filter (\<lambda>i. i \<notin> C) (map window_no ws)"
      using Cons.prems(2) by (intro filter_cong refl) (metis distinct.simps(2) insert_iff list.simps(9))
    moreover have "filter (\<lambda>p. p \<notin> Pair g ` C) (filter (\<lambda>p. p \<noteq> (g, window_no w)) l) =
        filter (\<lambda>p. p \<notin> Pair g ` insert (window_no w) C) l" for l :: "(byte list \<times> nat) list"
      by (auto simp: conj_commute intro!: filter_cong)
    ultimately show ?thesis using IH
      by (intro exI [of _ kept] exI [of _ n] exI [of _ "insert (window_no w) C"] exI [of _ "out @ outs"]) auto
  qed
qed

section \<open>Steps and runs\<close>

lemma insert_all_wf:
  assumes "agg_wf b"
  shows "\<exists>kept b' outs. insert_all g t (windows_of g b) b = Inr (kept, b', outs) \<and> agg_next_ok b (set_windows g kept b')"
proof -
  have wf: "\<forall>h. (\<forall>w \<in> set (windows_of h b). window_ok b h w) \<and> distinct (map window_no (windows_of h b))"
    using assms by (simp add: agg_wf_def)
  then obtain kept n C outs where ins: "insert_all g t (windows_of g b) b = Inr (kept, b\<lparr>emitted_count := n,
        timeout_list := (if timing_out b then filter (\<lambda>p. p \<notin> Pair g ` C) (timeout_list b) else timeout_list b)\<rparr>, outs)"
      "map window_no kept = filter (\<lambda>i. i \<notin> C) (map window_no (windows_of g b))"
      "C \<subseteq> set (map window_no (windows_of g b))" "\<forall>w \<in> set kept. window_ok b g w"
    using insert_all_ok [of "windows_of g b" b g t] by auto
  define l where "l = (if timing_out b then filter (\<lambda>p. p \<notin> Pair g ` C) (timeout_list b) else timeout_list b)"
  let ?b = "set_windows g kept (b\<lparr>emitted_count := n, timeout_list := l\<rparr>)"
  have win: "windows_of h ?b = (if h = g then kept else windows_of h b)" for h by simp
  have nos: "window_no ` set kept = window_no ` set (windows_of g b) - C"
    using arg_cong [OF ins(2), of set] by auto
  have "agg_wf ?b"
    unfolding agg_wf_def win window_ok_upd
  proof (intro conjI allI impI)
    fix h i
    show "\<forall>w \<in> set (if h = g then kept else windows_of h b). window_ok b h w" using wf ins(4) by auto
    show "distinct (map window_no (if h = g then kept else windows_of h b))" using wf ins(2) by simp
    assume "timing_out ?b"
    then have to: "timing_out b" by simp
    then show "distinct (timeout_list ?b)" using assms by (simp add: l_def agg_wf_def set_windows_def)
    show "(h, i) \<in> set (timeout_list ?b) \<longleftrightarrow> i \<in> window_no ` set (if h = g then kept else windows_of h b)"
      using assms to nos by (auto simp: l_def agg_wf_def set_windows_def)
  qed
  then show ?thesis using ins(1) unfolding l_def [symmetric] by (intro exI conjI) (assumption, simp_all)
qed

lemma Aggregate_step_ok:
  assumes "agg_wf b" "0 < advance_size b"
  shows "\<exists>b' outs. Aggregate_step t b = Some (Inr (b', outs)) \<and> agg_next_ok b b'"
proof (cases "tuple_type t = BOUNDARY \<or> tuple_type t = RECONCILIATION_DONE")
  case True
  then show ?thesis using assms(1) by (simp add: Aggregate_step_def forward_control_def)
next
  case False
  define b1 where "b1 = (if \<not> agg_drop_mode b \<and> win_spec t \<noteq> -1 then b\<lparr>agg_drop_mode := True\<rparr> else b)"
  have b1: "agg_next_ok b b1" using assms(1) by (simp add: b1_def)
  obtain b2 out1 where b2: "expire_timeouts t b1 = Inr (b2, out1)" "agg_next_ok b b2"
  proof (cases "timing_out b1")
    case True
    have "agg_wf (b1\<lparr>timeout_list := timeout_list b1\<rparr>)" using b1 by simp
    from expire_windows_ok [OF this True] show ?thesis using that b1 True by (auto simp: expire_timeouts_def)
  next
    case False
    then show ?thesis using that b1 by (auto simp: expire_timeouts_def)
  qed
  define g where "g = agg_group_by b2 t"
  define b3 where "b3 = (set_windows g (windows_of g b2) b2)\<lparr>dirty_windows := (dirty_windows b2)(g := True)\<rparr>"
  have "windows_of h b3 = windows_of h b2" for h by (simp add: b3_def)
  moreover have "window_ok b3 = window_ok b2" "timing_out b3 = timing_out b2" "timeout_list b3 = timeout_list b2"
    "agg_config b3 = agg_config b2"
    by (simp_all add: b3_def set_windows_def)
  ultimately have b3: "agg_next_ok b b3" using b2(2) by (simp add: agg_wf_def)
  then have adv: "0 < advance_size b3" using assms(2) by (simp add: agg_config_def)
  obtain b4 where b4: "agg_method b3 = WINDOW_BY_TUPLES \<Longrightarrow> open_tuple_window g t b3 = b4"
    "agg_method b3 \<noteq> WINDOW_BY_TUPLES \<Longrightarrow> open_value_windows g t b3 = Some b4" "agg_next_ok b b4"
    using open_tuple_window_ok [of b3 g t] open_value_windows_ok [of b3 g t] b3 adv
    by (cases "agg_method b3 = WINDOW_BY_TUPLES") auto
  define b5 where "b5 = (if tuple_type t = TENTATIVE then b4\<lparr>box_tentative := True\<rparr> else b4)"
  have b5: "agg_next_ok b b5" using b4(3) by (simp add: b5_def)
  obtain kept b6 out2 where ins: "insert_all g t (windows_of g b5) b5 = Inr (kept, b6, out2)"
    "agg_next_ok b5 (set_windows g kept b6)"
    using insert_all_wf b5 by blast
  have m: "agg_method b3 = agg_method b2" by (simp add: b3_def)
  have "\<exists>b' outs. Aggregate_step t b = Some (Inr (b', outs)) \<and> agg_next_ok (set_windows g kept b6) b'"
    unfolding Aggregate_step_def b1_def [symmetric] Let_def
    using False b2(1) ins(1) b4(1,2) [unfolded m] ins(2) m
    by (cases "agg_method b2 = WINDOW_BY_TUPLES") (simp_all add: Let_def g_def [symmetric] b3_def [symmetric] b5_def [symmetric] split del: if_split)
  then show ?thesis using ins(2) b5 by auto
qed

lemma Aggregate_steps_ok:
  assumes "agg_wf b" "0 < advance_size b"
  shows "\<exists>b' outs. Aggregate_steps ts b = Some (Inr (b', outs)) \<and> agg_next_ok b b'"
  using assms
proof (induction ts arbitrary: b)
  case (Cons t ts)
  obtain b1 out1 where s: "Aggregate_step t b = Some (Inr (b1, out1))" "agg_next_ok b b1"
    using Aggregate_step_ok [OF Cons.prems] by blast
  then have "0 < advance_size b1" using Cons.prems(2) by (simp add: agg_config_def)
  then obtain b2 out2 where "Aggregate_steps ts b1 = Some (Inr (b2, out2))" "agg_next_ok b1 b2"
    using Cons.IH s(2) by blast
  then show ?case using s by simp
qed simp

end
