(* ===== verification/Aggregate_Doubles.thy ===== *)
theory Aggregate_Doubles
  imports Aggregate_Wf
begin

text \<open>
  Where the rational numbers of the Aggregate box stand for the code's \<open>double\<close> values: as long as all values are multiples of one power
  of two and small enough, every sum that the loops over window starts form is a \<open>double\<close>, and the loops with rounded sums
  are the loops of the model. Beyond that an advance can be absorbed by the rounding, and then the loop does not end.
\<close>

section \<open>Exact values\<close>

text \<open>The multiples of \<open>1 / 2 ^ k\<close> with at most 53 bits, all of which are values of a \<open>double\<close>.\<close>

definition exact_at :: "nat \<Rightarrow> rat \<Rightarrow> bool" where
  "exact_at k x \<longleftrightarrow> x * 2 ^ k \<in> \<int> \<and> \<bar>x * 2 ^ k\<bar> \<le> 2 ^ 53"

lemma exact_at_add:
  assumes "exact_at k x" "exact_at k y" "\<bar>(x + y) * 2 ^ k\<bar> \<le> 2 ^ 53"
  shows "exact_at k (x + y)"
  using assms by (simp add: exact_at_def distrib_right)

text \<open>
  The values of a window field that the loops handle exactly: with the advance and the size of the windows they are
  multiples of one power of two, and the sums stay below 53 bits. (The smallest power is that of the
  smallest normal number.)
\<close>

definition exact_doubles :: "'w aggregate_box \<Rightarrow> tuple list \<Rightarrow> bool" where
  "exact_doubles box ts \<longleftrightarrow>
     (\<exists>k \<le> 1022. exact_at k (advance_size box) \<and> exact_at k (agg_window_size box) \<and>
        (\<forall>t \<in> set ts. exact_at k (agg_window_field box t) \<and>
           (\<bar>agg_window_field box t\<bar> + \<bar>advance_size box\<bar> + \<bar>agg_window_size box\<bar>) * 2 ^ k \<le> 2 ^ 53))"

section \<open>The loop over window starts with rounding\<close>

definition open_value_window_rounded ::
  "(rat \<Rightarrow> rat) \<Rightarrow> byte list \<Rightarrow> rat \<Rightarrow> int \<Rightarrow> bool \<Rightarrow> 'w aggregate_box \<Rightarrow> 'w aggregate_box" where
  "open_value_window_rounded rnd g start spec fake box =
     insert_new_window g
       (Window_new box g (ValueWindow start (rnd (start + agg_window_size box)) (box_slack box)) spec fake) box"

definition open_regular_rounded ::
  "(rat \<Rightarrow> rat) \<Rightarrow> byte list \<Rightarrow> rat \<Rightarrow> int \<Rightarrow> window_start \<Rightarrow> 'w aggregate_box \<Rightarrow> (window_start \<times> 'w aggregate_box) option" where
  "open_regular_rounded rnd g v spec ws box =
     while_option (\<lambda>(ws, b). v \<ge> ws_next ws)
       (\<lambda>(ws, b). (ws\<lparr>ws_next := rnd (ws_next ws + advance_size b)\<rparr>, open_value_window_rounded rnd g (ws_next ws) spec False b))
       (ws, box)"

text \<open>On exact values the rounding does nothing.\<close>

lemma open_regular_exact:
  fixes box :: "'w aggregate_box" and ws :: window_start
  assumes rnd: "\<And>x. exact_at k x \<Longrightarrow> rnd x = x"
    and "exact_at k (advance_size box)" "exact_at k (agg_window_size box)" "0 < advance_size box" "0 \<le> agg_window_size box"
    and "exact_at k v" "(\<bar>v\<bar> + advance_size box + agg_window_size box) * 2 ^ k \<le> 2 ^ 53"
    and "exact_at k (ws_next ws)" "- \<bar>v\<bar> \<le> ws_next ws"
  shows "open_regular_rounded rnd g v spec ws box = open_regular g v spec ws box"
proof -
  let ?adv = "advance_size box" and ?sz = "agg_window_size box"
  let ?P = "\<lambda>(ws :: window_start, b :: 'w aggregate_box). exact_at k (ws_next ws) \<and> - \<bar>v\<bar> \<le> ws_next ws \<and> advance_size b = ?adv \<and> agg_window_size b = ?sz"
  have sum: "exact_at k (n + ?adv) \<and> exact_at k (n + ?sz)" if n: "exact_at k n" "- \<bar>v\<bar> \<le> n" "n \<le> v" for n
  proof -
    have "\<bar>n + ?adv\<bar> \<le> \<bar>v\<bar> + ?adv + ?sz" "\<bar>n + ?sz\<bar> \<le> \<bar>v\<bar> + ?adv + ?sz"
      using n(2,3) assms(4,5) by linarith+
    then have "\<bar>n + ?adv\<bar> * 2 ^ k \<le> (\<bar>v\<bar> + ?adv + ?sz) * 2 ^ k" "\<bar>n + ?sz\<bar> * 2 ^ k \<le> (\<bar>v\<bar> + ?adv + ?sz) * 2 ^ k"
      by (intro mult_right_mono; simp)+
    then have "\<bar>n + ?adv\<bar> * 2 ^ k \<le> 2 ^ 53" "\<bar>n + ?sz\<bar> * 2 ^ k \<le> 2 ^ 53"
      using assms(7) order_trans by blast+
    then have "\<bar>(n + ?adv) * 2 ^ k\<bar> \<le> 2 ^ 53" "\<bar>(n + ?sz) * 2 ^ k\<bar> \<le> 2 ^ 53"
      by (simp_all add: abs_mult)
    then show ?thesis using exact_at_add [OF n(1) assms(2)] exact_at_add [OF n(1) assms(3)] by blast
  qed
  have "map_option (\<lambda>s. s) (while_option (\<lambda>(ws, b). v \<ge> ws_next ws)
       (\<lambda>(ws, b). (ws\<lparr>ws_next := rnd (ws_next ws + advance_size b)\<rparr>, open_value_window_rounded rnd g (ws_next ws) spec False b)) (ws, box)) =
     while_option (\<lambda>(ws, b). v \<ge> ws_next ws)
       (\<lambda>(ws, b). (ws\<lparr>ws_next := ws_next ws + advance_size b\<rparr>, open_value_window g (ws_next ws) spec False b)) (ws, box)"
  proof (rule while_option_commute_invariant [where P = ?P])
    fix s :: "window_start \<times> 'w aggregate_box"
    assume s: "?P s" "case s of (ws, b) \<Rightarrow> v \<ge> ws_next ws"
    obtain w b where p: "s = (w, b)" by (cases s)
    have e: "exact_at k (ws_next w + ?adv)" "exact_at k (ws_next w + ?sz)" using s sum [of "ws_next w"] by (simp_all add: p)
    then have r: "rnd (ws_next w + ?adv) = ws_next w + ?adv" "rnd (ws_next w + ?sz) = ws_next w + ?sz" using rnd by simp_all
    then show "(case s of (ws, b) \<Rightarrow> (ws\<lparr>ws_next := rnd (ws_next ws + advance_size b)\<rparr>, open_value_window_rounded rnd g (ws_next ws) spec False b)) =
        (case s of (ws, b) \<Rightarrow> (ws\<lparr>ws_next := ws_next ws + advance_size b\<rparr>, open_value_window g (ws_next ws) spec False b))"
      using s(1) by (simp add: p open_value_window_rounded_def open_value_window_def)
    show "?P (case s of (ws, b) \<Rightarrow> (ws\<lparr>ws_next := rnd (ws_next ws + advance_size b)\<rparr>, open_value_window_rounded rnd g (ws_next ws) spec False b))"
      using s(1) e r assms(4) by (simp add: p open_value_window_rounded_def insert_new_window_def Let_def set_windows_def)
  qed (use assms(8,9) in auto)
  then show ?thesis by (simp add: open_regular_rounded_def open_regular_def option.map_ident)
qed

text \<open>
  When a sum is rounded back to the start it came from, as \<open>2 ^ 53 + 1\<close> is, the loop opens windows for ever.
\<close>

lemma open_regular_absorbed:
  fixes box :: "'w aggregate_box" and ws :: window_start
  assumes "rnd (ws_next ws + advance_size box) = ws_next ws" "ws_next ws \<le> v"
  shows "open_regular_rounded rnd g v spec ws box = None"
proof (rule ccontr)
  let ?I = "\<lambda>(w :: window_start, b :: 'w aggregate_box). ws_next w = ws_next ws \<and> advance_size b = advance_size box"
  assume "open_regular_rounded rnd g v spec ws box \<noteq> None"
  then obtain r where r: "open_regular_rounded rnd g v spec ws box = Some r" by blast
  have "?I r"
    by (rule while_option_rule [OF _ r [unfolded open_regular_rounded_def], where P = ?I])
      (use assms(1) in \<open>auto simp: open_value_window_rounded_def insert_new_window_def Let_def set_windows_def\<close>)
  moreover have "\<not> (case r of (w, b) \<Rightarrow> v \<ge> ws_next w)"
    using while_option_stop [OF r [unfolded open_regular_rounded_def]] .
  ultimately show False using assms(2) by auto
qed

end
