(* ===== verification/Aggregate_Setup.thy ===== *)
theory Aggregate_Setup
  imports Aggregate_Doubles
begin

text \<open>
  The setup of the Aggregate box (\<open>setup_impl\<close> and \<open>setup_parameters\<close> in boxes/AggregateQBox.cc): the checks
  on its parameters and the box they give.
\<close>

text \<open>
  The parameters as the library converts them. \<open>p_window_field\<close> is the parsed expression with the
  tests on its type, \<open>p_group_by\<close> the function of the group-by expressions with their lengths (negative
  if not fixed); \<open>p_passive\<close> is the state of the box itself.
\<close>

record 'w agg_params =
  num_inputs :: nat
  p_window_size :: rat
  p_advance :: rat
  p_size_by :: string
  p_order_by :: string
  p_drop_mode :: "bool option"
  p_last_agg :: "bool option"
  p_drop_empty :: "bool option"
  p_independent :: "bool option"
  p_slack :: "int option"
  p_window_field :: "tuple \<Rightarrow> rat"
  p_is_int32 :: bool
  p_is_numeric :: bool
  p_field_length :: nat
  p_timeout :: "rat option"
  p_passive :: bool
  p_functions :: "'w aggregate list"
  p_group_by :: "tuple \<Rightarrow> byte list"
  p_group_lengths :: "int list"

definition or_default :: "'a \<Rightarrow> 'a option \<Rightarrow> 'a" where
  "or_default d x = (case x of None \<Rightarrow> d | Some a \<Rightarrow> a)"

definition method_of_name :: "string \<Rightarrow> window_method result" where
  "method_of_name s =
     (if s = ''VALUES'' then Inr WINDOW_BY_VALUES
      else if s = ''TUPLES'' then Inr WINDOW_BY_TUPLES else Inl AuroraException)"

definition order_of_name :: "string \<Rightarrow> order_by_method result" where
  "order_of_name s =
     (if s = ''FIELD'' then Inr ORDER_BY_FIELD
      else if s = ''TUPLENUM'' then Inr ORDER_BY_TUPLENUM else Inl AuroraException)"

text \<open>The type tests on the window field, which is parsed only when it is used.\<close>

definition check_window_field :: "window_method \<Rightarrow> order_by_method \<Rightarrow> 'w agg_params \<Rightarrow> unit result" where
  "check_window_field wm om ps =
     (if wm = WINDOW_BY_VALUES \<or> om = ORDER_BY_FIELD
      then if wm = WINDOW_BY_TUPLES \<and> \<not> p_is_int32 ps then Inl AuroraException
           else if \<not> p_is_numeric ps then Inl AuroraException
           else Inr ()
      else Inr ())"

text \<open>A passive box ignores the value of the timeout but keeps timing out; a negative one turns it off.\<close>

definition timeout_of :: "bool \<Rightarrow> rat option \<Rightarrow> bool \<times> timestamp" where
  "timeout_of passive p =
     (case p of None \<Rightarrow> (False, Timestamp_zero)
      | Some x \<Rightarrow>
          if passive then (True, Timestamp_zero)
          else if x < 0 then (False, Timestamp_zero)
          else (True, Timestamp \<lfloor>x\<rfloor> \<lfloor>(x - of_int \<lfloor>x\<rfloor>) * 1000000\<rfloor>))"

text \<open>The state of a box before setup; the last arguments are the memory it will write to.\<close>

definition Aggregate_new ::
  "'w agg_params \<Rightarrow> window_method \<Rightarrow> order_by_method \<Rightarrow> (nat \<Rightarrow> tuple) \<Rightarrow> (nat \<Rightarrow> int) \<Rightarrow> (rat \<Rightarrow> byte list) \<Rightarrow> nat \<Rightarrow> 'w aggregate_box" where
  "Aggregate_new ps wm om mem tids dbytes hsize =
     \<lparr>agg_functions = p_functions ps, agg_drop_mode = or_default False (p_drop_mode ps),
      last_agg = or_default True (p_last_agg ps), box_tentative = False,
      drop_empty_outputs = or_default False (p_drop_empty ps),
      independent_alignment = or_default False (p_independent ps), agg_method = wm,
      agg_window_size = p_window_size ps, advance_size = p_advance ps, agg_order_by = om,
      agg_window_field = p_window_field ps, agg_field_is_int32 = p_is_int32 ps,
      agg_field_length = p_field_length ps, agg_group_by = p_group_by ps, window_starts = Map.empty,
      box_slack = or_default 0 (p_slack ps), timing_out = fst (timeout_of (p_passive ps) (p_timeout ps)),
      agg_timeout = snd (timeout_of (p_passive ps) (p_timeout ps)), timeout_list = [],
      open_windows = Map.empty, dirty_windows = (\<lambda>_. False), count_new_windows = 0,
      count_updated_windows = 0, next_window_no = 0, emitted_count = 0, out_memory = mem,
      stale_tid = tids, double_bytes = dbytes, agg_header_size = hsize\<rparr>"

definition Aggregate_setup ::
  "'w agg_params \<Rightarrow> (nat \<Rightarrow> tuple) \<Rightarrow> (nat \<Rightarrow> int) \<Rightarrow> (rat \<Rightarrow> byte list) \<Rightarrow> nat \<Rightarrow> 'w aggregate_box result" where
  "Aggregate_setup ps mem tids dbytes hsize =
     (if num_inputs ps \<noteq> 1 then Inl AuroraException
      else if p_advance ps > p_window_size ps then Inl AuroraException
      else rbind (method_of_name (p_size_by ps)) (\<lambda>wm.
           rbind (order_of_name (p_order_by ps)) (\<lambda>om.
           rbind (check_window_field wm om ps) (\<lambda>_.
             if p_functions ps = [] then Inl AuroraException
             else if \<exists>l \<in> set (p_group_lengths ps). l < 0 then Inl AuroraException
             else Inr (Aggregate_new ps wm om mem tids dbytes hsize)))))"

lemma Aggregate_setup_Inr:
  assumes "Aggregate_setup ps mem tids dbytes hsize = Inr box"
  shows "\<exists>wm om. box = Aggregate_new ps wm om mem tids dbytes hsize \<and> method_of_name (p_size_by ps) = Inr wm \<and>
    order_of_name (p_order_by ps) = Inr om" and "p_advance ps \<le> p_window_size ps" and "p_functions ps \<noteq> []"
  using assms by (auto simp: Aggregate_setup_def split: if_splits)

lemma Aggregate_new_sel [simp]:
  "agg_functions (Aggregate_new ps wm om mem tids dbytes hsize) = p_functions ps"
  "agg_drop_mode (Aggregate_new ps wm om mem tids dbytes hsize) = or_default False (p_drop_mode ps)"
  "drop_empty_outputs (Aggregate_new ps wm om mem tids dbytes hsize) = or_default False (p_drop_empty ps)"
  "independent_alignment (Aggregate_new ps wm om mem tids dbytes hsize) = or_default False (p_independent ps)"
  "agg_method (Aggregate_new ps wm om mem tids dbytes hsize) = wm"
  "agg_window_size (Aggregate_new ps wm om mem tids dbytes hsize) = p_window_size ps"
  "advance_size (Aggregate_new ps wm om mem tids dbytes hsize) = p_advance ps"
  "agg_group_by (Aggregate_new ps wm om mem tids dbytes hsize) = p_group_by ps"
  "agg_window_field (Aggregate_new ps wm om mem tids dbytes hsize) = p_window_field ps"
  "window_starts (Aggregate_new ps wm om mem tids dbytes hsize) = Map.empty"
  "open_windows (Aggregate_new ps wm om mem tids dbytes hsize) = Map.empty"
  "timeout_list (Aggregate_new ps wm om mem tids dbytes hsize) = []"
  "box_slack (Aggregate_new ps wm om mem tids dbytes hsize) = or_default 0 (p_slack ps)"
  "timing_out (Aggregate_new ps wm om mem tids dbytes hsize) = fst (timeout_of (p_passive ps) (p_timeout ps))"
  by (simp_all add: Aggregate_new_def)

lemma Aggregate_new_wf: "agg_wf (Aggregate_new ps wm om mem tids dbytes hsize)"
  by (simp add: agg_wf_def windows_of_def)

text \<open>An advance that is not positive opens windows for ever.\<close>

lemma open_regular_diverges:
  assumes "advance_size b \<le> 0" "ws_next ws \<le> v"
  shows "open_regular g v spec ws b = None"
proof (rule ccontr)
  assume "open_regular g v spec ws b \<noteq> None"
  then obtain s where r: "open_regular g v spec ws b = Some s" by auto
  have "case s of (ws, b') \<Rightarrow> advance_size b' \<le> 0 \<and> ws_next ws \<le> v"
    using r unfolding open_regular_def
    by (rule while_option_rule [where P = "\<lambda>(ws, b'). advance_size b' \<le> 0 \<and> ws_next ws \<le> v", rotated])
      (use assms in \<open>auto simp: open_value_window_def insert_new_window_def Let_def set_windows_def\<close>)
  then show False using while_option_stop [OF r [unfolded open_regular_def]] by (simp split: prod.splits)
qed

lemma open_value_windows_diverges:
  "window_starts b g = None \<Longrightarrow> \<not> agg_drop_mode b \<Longrightarrow> advance_size b \<le> 0 \<Longrightarrow> open_value_windows g t b = None"
  by (simp add: open_value_windows_def Let_def WindowStart_new_def open_regular_diverges)

end
