(* ===== verification/Shed_Reference.thy ===== *)
theory Shed_Reference
  imports Window_Drop_Spec Aggregate_Setup
begin

text \<open>
  What load shedding leaves of an aggregate's input: the windows that the dropper opens keep all their
  tuples, and the results of a window do not change once a tuple at its end has come.
\<close>

section \<open>Results that are out\<close>

text \<open>Every window that ends at or before the last value of its group is among the results.\<close>

lemma agg_content_past:
  "agg_start box v0 k + agg_window_size box \<le> agg_window_field box t \<Longrightarrow>
   agg_content box v0 (us @ [t]) k = agg_content box v0 us k"
  by (simp add: agg_content_snoc)

lemma the_result_past:
  "agg_start box v0 k + agg_window_size box \<le> agg_window_field box t \<Longrightarrow>
   the_result box g v0 (us @ [t]) k = the_result box g v0 us k"
  by (simp add: the_result_def agg_content_past)

definition all_results :: "'w aggregate_box \<Rightarrow> tuple list \<Rightarrow> (byte list \<times> rat \<times> 'w list) list" where
  "all_results box ts = concat (map (agg_results box ts) [0..<length ts])"

lemma all_results_snoc: "all_results box (ts @ [t]) = all_results box ts @ agg_results box (ts @ [t]) (length ts)"
proof -
  have "map (agg_results box (ts @ [t])) [0..<length ts] = map (agg_results box ts) [0..<length ts]"
    by (simp add: agg_results_append)
  then show ?thesis by (simp add: all_results_def del: map_eq_conv)
qed

lemma closed_window_is_result:
  assumes "regular box" "in_order box ts"
  defines "us \<equiv> \<lambda>g. agg_group box g ts"
  defines "v0 \<equiv> \<lambda>g. agg_window_field box (hd (us g))"
  assumes "us g \<noteq> []" "agg_start box (v0 g) k + agg_window_size box \<le> agg_window_field box (last (us g))"
    and "drop_empty_outputs box \<longrightarrow> agg_content box (v0 g) (us g) k \<noteq> []"
  shows "the_result box g (v0 g) (us g) k \<in> set (all_results box ts)"
  using assms(2,5-7) unfolding us_def v0_def
proof (induction ts rule: rev_induct)
  case (snoc t ts)
  let ?us = "agg_group box g ts"
  note r = regularD [OF assms(1)]
  show ?case
  proof (cases "agg_group_by box t = g")
    case False
    then show ?thesis using snoc in_order_snoc(1) [OF snoc.prems(1)] by (simp add: all_results_snoc)
  next
    case True
    define w0 where "w0 = agg_window_field box (hd (?us @ [t]))"
    define v where "v = agg_window_field box t"
    define lo where "lo = (if ?us = [] then 0 else nb_closed box w0 (agg_window_field box (last ?us)))"
    have g: "agg_group box g (ts @ [t]) = ?us @ [t]" using True by simp
    have past: "agg_start box w0 k + agg_window_size box \<le> agg_window_field box t"
      using snoc.prems(3) unfolding g by (simp add: w0_def)
    have e: "the_result box g w0 (?us @ [t]) k = the_result box g w0 ?us k"
      "agg_content box w0 (?us @ [t]) k = agg_content box w0 ?us k"
      using the_result_past [OF past] agg_content_past [OF past] by blast+
    have hi: "k < nb_closed box w0 v"
      using less_nb_upto [OF r(6), of k "v - w0 - agg_window_size box"] past by (simp add: v_def agg_start_def algebra_simps)
    have cont: "drop_empty_outputs box \<longrightarrow> agg_content box w0 ?us k \<noteq> []"
      using snoc.prems(4) unfolding g by (simp only: e(2) w0_def [symmetric])
    show ?thesis unfolding g w0_def [symmetric] e(1)
    proof (cases "k < lo")
      case True
      then have us: "?us \<noteq> []" and k: "k < nb_closed box w0 (agg_window_field box (last ?us))" by (auto simp: lo_def split: if_splits)
      have h: "w0 = agg_window_field box (hd ?us)" using us by (simp add: w0_def)
      have "agg_start box w0 k + agg_window_size box \<le> agg_window_field box (last ?us)"
        using k less_nb_upto [OF r(6), of k "agg_window_field box (last ?us) - w0 - agg_window_size box"]
        by (simp add: agg_start_def algebra_simps)
      then show "the_result box g w0 ?us k \<in> set (all_results box (ts @ [t]))"
        using snoc.IH [OF in_order_snoc(1) [OF snoc.prems(1)] us] cont h by (simp add: all_results_snoc)
    next
      case False
      have "agg_results box (ts @ [t]) (length ts) =
          map (the_result box g w0 ?us) (filter (\<lambda>k. drop_empty_outputs box \<longrightarrow> agg_content box w0 ?us k \<noteq> []) [lo..<nb_closed box w0 v])"
        by (cases "?us = []") (simp_all add: agg_results_def True lo_def w0_def v_def the_result_def [abs_def] Let_def)
      then show "the_result box g w0 ?us k \<in> set (all_results box (ts @ [t]))"
        using False hi cont by (simp add: all_results_snoc)
    qed
  qed
qed simp

section \<open>The dropper's output\<close>

text \<open>An aggregate behind a dropper: the same windows over the same field and groups, which do not read
  the window specification.\<close>

definition behind_dropper :: "window_drop_box \<Rightarrow> 'w aggregate_box \<Rightarrow> bool" where
  "behind_dropper d box \<longleftrightarrow> regular box \<and> last_agg box \<and>
     agg_window_size box = of_int (window_size d) \<and> advance_size box = of_int (window_slide d) \<and>
     agg_window_field box = (\<lambda>t. of_int (window_field d t)) \<and> agg_group_by box = group_by_fields d \<and>
     (\<forall>t x. window_field d (t\<lparr>win_spec := x\<rparr>) = window_field d t \<and> group_by_fields d (t\<lparr>win_spec := x\<rparr>) = group_by_fields d t) \<and>
     (\<forall>af \<in> set (agg_functions box). \<forall>t x. agg_incr af (t\<lparr>win_spec := x\<rparr>) = agg_incr af t)"

definition respecified :: "tuple \<Rightarrow> tuple \<Rightarrow> bool" where
  "respecified a b \<longleftrightarrow> (\<exists>x. a = b\<lparr>win_spec := x\<rparr>)"

lemma respecified_refl [simp]: "respecified t t"
  unfolding respecified_def by (intro exI [of _ "win_spec t"]) simp

lemma agg_states_respecified:
  assumes "list_all2 respecified us' us" "\<forall>af \<in> set afs. \<forall>t x. agg_incr af (t\<lparr>win_spec := x\<rparr>) = agg_incr af t"
  shows "agg_states afs us' = agg_states afs us"
proof -
  have "fold (agg_incr af) us' s = fold (agg_incr af) us s" if "af \<in> set afs" for af s
    using assms(1)
  proof (induction us' us arbitrary: s rule: list_all2_induct)
    case (Cons a as b bs)
    then show ?case using assms(2) that by (auto simp: respecified_def)
  qed simp
  then show ?thesis by (simp add: agg_states_def)
qed

lemma filter_concat_map: "filter P (concat (map f xs)) = concat (map (\<lambda>x. filter P (f x)) xs)"
  by (induction xs) auto

lemma list_all2_concat:
  "(\<And>i. i \<in> set is \<Longrightarrow> list_all2 R (f i) (g i)) \<Longrightarrow> list_all2 R (concat (map f is)) (concat (map g is))"
  by (induction "is") (auto intro: list_all2_appendI)

lemma concat_singletons: "concat (map (\<lambda>i. [xs ! i]) [0..<length xs]) = xs"
  by (simp add: map_nth)

text \<open>A window that was opened keeps all its tuples.\<close>

lemma shed_keeps_window:
  assumes "\<forall>t x. window_field d (t\<lparr>win_spec := x\<rparr>) = window_field d t \<and> group_by_fields d (t\<lparr>win_spec := x\<rparr>) = group_by_fields d t"
    and "j < length ts" "is_start d ts j" "opens j"
  defines "P \<equiv> \<lambda>u. group_by_fields d u = group_by_fields d (ts ! j) \<and> window_field d (ts ! j) \<le> window_field d u \<and>
      window_field d u < window_field d (ts ! j) + window_size d"
  shows "list_all2 respecified (filter P (shed_all d opens ts)) (filter P ts)"
proof -
  have P: "P (t\<lparr>win_spec := x\<rparr>) = P t" for t x using assms(1) by (simp add: P_def)
  have kept: "shed d opens ts i \<noteq> []" if i: "i < length ts" "P (ts ! i)" for i
  proof (cases "i \<le> j")
    case True
    have "i = j"
    proof (rule ccontr)
      assume "i \<noteq> j"
      then have "ts ! i \<in> set (take j ts)" using True assms(2) nth_mem [of i "take j ts"] by simp
      then show False using assms(3) i(2) by (auto simp: is_start_def P_def Let_def filter_empty_conv)
    qed
    then show ?thesis using assms(3) by (simp add: shed_def Let_def)
  next
    case False
    then have j: "j < length (take i ts)" "take i ts ! j = ts ! j" using i(1) by simp_all
    have "is_start d (take i ts) j" using assms(3) is_start_append [of j "take i ts" d "drop i ts"] j(1) by simp
    then have "covered d opens (take i ts) (group_by_fields d (ts ! i)) (window_field d (ts ! i))"
      unfolding covered_def using j assms(4) i(2) by (intro exI [of _ j]) (simp add: P_def)
    then show ?thesis by (simp add: shed_def Let_def)
  qed
  have "list_all2 respecified (filter P (shed d opens ts i)) (filter P [ts ! i])" if "i < length ts" for i
    using kept [OF that] by (auto simp: shed_def Let_def P respecified_def split: if_splits)
  then have "list_all2 respecified (concat (map (\<lambda>i. filter P (shed d opens ts i)) [0..<length ts]))
      (concat (map (\<lambda>i. filter P [ts ! i]) [0..<length ts]))"
    by (intro list_all2_concat) simp
  then show ?thesis
    using filter_concat_map [of P "shed d opens ts" "[0..<length ts]"] filter_concat_map [of P "\<lambda>i. [ts ! i]" "[0..<length ts]"]
    unfolding shed_all_def concat_singletons by simp
qed

end
