(* ===== verification/Shed_Aggregate.thy ===== *)
theory Shed_Aggregate
  imports Shed_Reference
begin

text \<open>
  The Aggregate box on the output of the window dropper: it aggregates exactly the windows that the
  dropper opened, and their results are results of the query without load shedding.
\<close>

section \<open>Window starts\<close>

definition next_of :: "window_drop_box \<Rightarrow> tuple list \<Rightarrow> int" where
  "next_of d us = window_field d (hd us) +
     window_slide d * ((window_field d (last us) - window_field d (hd us)) div window_slide d + 1)"

lemma start_iff_next:
  assumes "0 < window_slide d" "gapless d (ts @ [t])"
  defines "us \<equiv> wd_group d (group_by_fields d t) ts"
  assumes "us \<noteq> []"
  shows "window_field d t \<le> next_of d us"
    "is_start d (ts @ [t]) (length ts) \<longleftrightarrow> window_field d t = next_of d us"
    "window_field d t \<noteq> next_of d us \<Longrightarrow> next_of d (us @ [t]) = next_of d us"
    "window_field d t = next_of d us \<Longrightarrow> next_of d (us @ [t]) = window_field d t + window_slide d"
    "u \<in> set us \<Longrightarrow> window_field d u < next_of d us" "window_field d (hd us) \<le> window_field d t"
    "window_slide d dvd next_of d us - window_field d (hd us)"
    "u \<in> set us \<Longrightarrow> window_field d u \<le> window_field d t"
proof -
  let ?l = "window_field d (last us)" and ?h = "window_field d (hd us)"
  note gp = gapless_snoc [OF assms(2), folded us_def] and nx = next_start [OF assms(1) next_of_def [of d us]]
  show le: "window_field d t \<le> next_of d us" using gp(3) [OF assms(4)] nx(1) by linarith
  have hl: "?h \<le> ?l" "?l \<le> window_field d t" using gp(2,5) assms(4) by simp_all
  then show "?h \<le> window_field d t" by simp
  show less: "window_field d u < next_of d us" if "u \<in> set us" for u using gp(4) [OF that] nx(1) by simp
  show "window_field d u \<le> window_field d t" if "u \<in> set us" using gp(4) [OF that] hl(2) by simp
  show "window_slide d dvd next_of d us - ?h" by (simp add: next_of_def)
  have "window_field d t = next_of d us" if "window_slide d dvd window_field d t - ?h" "?l < window_field d t"
    using nx(2) [OF hl] that le by force
  then show "is_start d (ts @ [t]) (length ts) \<longleftrightarrow> window_field d t = next_of d us"
    using assms(4) less nx(3) unfolding is_start_snoc Let_def us_def [symmetric] by (metis last_in_set)
  show "next_of d (us @ [t]) = next_of d us" if "window_field d t \<noteq> next_of d us"
    using nx(5) [OF hl(2)] le that assms(4) by (simp add: next_of_def)
  show "next_of d (us @ [t]) = window_field d t + window_slide d" if "window_field d t = next_of d us"
    using nx(4) [OF that] that assms(4) by (simp add: next_of_def algebra_simps)
qed

lemma next_of_single [simp]: "next_of d [t] = window_field d t + window_slide d"
  by (simp add: next_of_def)

section \<open>The box behind the dropper\<close>

lemma behindD:
  assumes "behind_dropper d box"
  shows "agg_method box = WINDOW_BY_VALUES" "\<not> timing_out box" "\<not> independent_alignment box" "box_slack box = 0"
    "last_agg box" "agg_window_size box = of_int (window_size d)" "advance_size box = of_int (window_slide d)"
    "agg_window_field box u = of_int (window_field d u)" "agg_group_by box = group_by_fields d"
    "window_field d (u\<lparr>win_spec := x\<rparr>) = window_field d u" "group_by_fields d (u\<lparr>win_spec := x\<rparr>) = group_by_fields d u"
    "0 < window_size d" "0 < window_slide d" "regular box"
    "\<forall>af \<in> set (agg_functions box). \<forall>t x. agg_incr af (t\<lparr>win_spec := x\<rparr>) = agg_incr af t"
  using assms by (simp_all add: behind_dropper_def regular_def)

abbreviation dropping :: "'w aggregate_box \<Rightarrow> 'w aggregate_box" where
  "dropping box \<equiv> box\<lparr>agg_drop_mode := True\<rparr>"

lemma dropping_simps [simp]:
  "agg_start (dropping box) = agg_start box" "agg_content (dropping box) = agg_content box"
  "window_is (dropping box) = window_is box" "the_result (dropping box) = the_result box"
  "carries (dropping box) = carries box"
  by (simp_all add: fun_eq_iff agg_start_def agg_content_def window_is_def the_result_def carries_def result_bytes_def
      split: prod.split)

lemma agg_start_of_int:
  "behind_dropper d box \<Longrightarrow> agg_start box (of_int h) k = of_int (h + int k * window_slide d)"
  by (simp add: agg_start_def behindD)

lemma same_agg_last:
  assumes "same_agg box b"
  shows "last_agg b = last_agg box"
  by (subst assms [unfolded same_agg_def]) simp

lemma dropping_id: "agg_drop_mode b \<Longrightarrow> dropping b = b"
  by (cases b) simp

text \<open>A step in drop mode.\<close>

lemma Aggregate_step_shed:
  assumes "tuple_type t \<noteq> BOUNDARY" "tuple_type t \<noteq> RECONCILIATION_DONE" "\<not> timing_out b" "agg_method b = WINDOW_BY_VALUES"
    and "agg_drop_mode b \<or> win_spec t \<noteq> -1"
  defines "g \<equiv> agg_group_by b t"
  defines "b1 \<equiv> (set_windows g (windows_of g b) (dropping b))\<lparr>dirty_windows := (dirty_windows b)(g := True)\<rparr>"
  assumes "open_value_windows g t b1 = Some b2" "b3 = (if tuple_type t = TENTATIVE then b2\<lparr>box_tentative := True\<rparr> else b2)"
    and "insert_all g t (windows_of g b3) b3 = Inr (kept, b4, outs)"
  shows "\<exists>u n. Aggregate_step t b =
    Some (Inr ((set_windows g kept b4)\<lparr>count_updated_windows := u, count_new_windows := n\<rparr>, outs))"
proof -
  define n where "n up = (if dirty_windows b g then count_windows up (windows_of g b) else 0)" for up
  have d: "(if \<not> agg_drop_mode b \<and> win_spec t \<noteq> -1 then dropping b else b) = dropping b"
    using assms(5) by (cases "agg_drop_mode b") auto
  have "Aggregate_step t b = Some (Inr ((set_windows g kept b4)
      \<lparr>count_updated_windows := count_updated_windows b4 + count_windows True kept - n True,
        count_new_windows := count_new_windows b4 + count_windows False kept - n False\<rparr>, outs))"
    unfolding Aggregate_step_def expire_timeouts_def d using assms(1-4,8,10)
    by (cases "dirty_windows b g")
      (simp_all add: Let_def g_def [symmetric] b1_def [symmetric] assms(9) [symmetric] n_def split del: if_split)
  then show ?thesis by (intro exI)
qed

text \<open>
  Opening windows for a tuple that was let through, before which the group is \<open>us\<close>: at a window start the
  window opens if the dropper opened it; nothing else opens.
\<close>

lemma open_shed_is:
  assumes "behind_dropper d box" "same_agg (dropping box) b" "0 \<le> v" "agg_window_field box t = of_int v"
    and "case window_starts b g of
        None \<Rightarrow> n = v
      | Some ws \<Rightarrow> ws_initialized ws \<and> ws_next ws = of_int n \<and> ws_keep_until ws \<le> of_int n"
    and "v \<le> n" "win_spec t = (if v = n then if opn then v + window_size d else 0 else -1)"
    and "v = n \<Longrightarrow> agg_start box v0 k = of_int v" "v = n \<Longrightarrow> agg_content box v0 us k = []"
  shows "\<exists>b' ws new. open_value_windows g t b = Some b' \<and> same_agg (dropping box) b' \<and>
    window_starts b' = (window_starts b)(g \<mapsto> ws) \<and> ws_initialized ws \<and>
    ws_next ws = of_int (if v = n then v + window_slide d else n) \<and> ws_keep_until ws \<le> ws_next ws \<and>
    windows_of g b' = windows_of g b @ new \<and> (\<forall>h. h \<noteq> g \<longrightarrow> windows_of h b' = windows_of h b) \<and>
    list_all2 (window_is box g v0 us) (if v = n \<and> opn then [k] else []) new"
proof -
  note bd = behindD [OF assms(1)] and c = same_aggD [OF assms(2)]
  define ws0 where "ws0 = (case window_starts b g of
      None \<Rightarrow> (WindowStart_new 0 0)\<lparr>ws_initialized := True, ws_next := of_int v, ws_keep_until := 0\<rparr> | Some ws \<Rightarrow> ws)"
  have ws0: "ws_initialized ws0" "ws_next ws0 = of_int n" "ws_keep_until ws0 \<le> of_int n"
    using assms(3,5) by (auto simp: ws0_def split: option.splits)
  have skip: "while_option (\<lambda>m. of_int v > m) (\<lambda>m. m + advance_size b) (ws_next ws0) = Some (ws_next ws0)"
    using assms(6) ws0(2) by (simp add: while_option_unfold)
  have open_eq: "open_value_windows g t b = Some (case open_shed g (of_int v) (win_spec t) ws0 b of
      (ws, b') \<Rightarrow> b'\<lparr>window_starts := (window_starts b')(g \<mapsto> ws)\<rparr>)"
    using skip assms(4) bd(3) c(2,4,9)
    by (cases "window_starts b g") (use ws0(1) in \<open>auto simp: open_value_windows_def ws0_def Let_def WindowStart_new_def\<close>)
  have cf: "agg_window_size b = of_int (window_size d)" "advance_size b = of_int (window_slide d)" "last_agg b"
    using bd(5-7) c(6,7) same_agg_last [OF assms(2)] by simp_all
  let ?size1 = "of_int (window_size d) - 1 :: rat"
  have tr: "c_trunc ?size1 = window_size d - 1" using bd(12) by (simp add: c_trunc_def)
  let ?ws = "ws0\<lparr>ws_next := of_int n + of_int (window_slide d),
      ws_keep_until := (if opn then of_int (v + window_size d) - ?size1 else ws_keep_until ws0)\<rparr>"
  let ?b = "if opn then open_value_window g (of_int n) (v + 1) False b else b"
  have sh: "open_shed g (of_int v) (win_spec t) ws0 b = (if v = n then (?ws, ?b) else (ws0, b))"
    using assms(3,7) ws0(2,3) bd(12) cf by (auto simp: open_shed_def Let_def tr)
  show ?thesis
  proof (cases "v = n \<and> opn")
    case True
    have "agg_content (dropping box) v0 us k = []" "box_slack (dropping box) = 0" "\<not> timing_out (dropping box)"
      using assms(9) True bd(2,4) by simp_all
    note o = open_value_window_is [OF assms(2) this(3,2,1), where g = g]
    obtain w where w: "windows_of g (open_value_window g (of_int n) (v + 1) False b) = windows_of g b @ [w]"
      "window_is box g v0 us k w"
      using o(1) [where spec = "v + 1"] True assms(8) by auto
    let ?b = "(open_value_window g (of_int n) (v + 1) False b)\<lparr>window_starts := (window_starts b)(g \<mapsto> ?ws)\<rparr>"
    have "open_value_windows g t b = Some ?b" using open_eq sh True o(4) by simp
    then show ?thesis using w o(2,3) True ws0(1) bd(13)
      by (intro exI [of _ ?b] exI [of _ ?ws] exI [of _ "[w]"]) simp
  next
    case False
    let ?b = "b\<lparr>window_starts := (window_starts b)(g \<mapsto> if v = n then ?ws else ws0)\<rparr>"
    have "open_value_windows g t b = Some ?b" using open_eq sh False by auto
    moreover have "ws_keep_until ws0 \<le> of_int n + of_int (window_slide d)" using ws0(3) bd(13) by (simp add: add_increasing2)
    ultimately show ?thesis using False assms(2) ws0
      by (intro exI [of _ ?b] exI [of _ "if v = n then ?ws else ws0"] exI [of _ "[]"]) auto
  qed
qed

section \<open>The state behind the dropper\<close>

text \<open>Window \<open>k\<close> of group \<open>g\<close> was opened by the dropper.\<close>

definition opened :: "window_drop_box \<Rightarrow> (nat \<Rightarrow> bool) \<Rightarrow> tuple list \<Rightarrow> byte list \<Rightarrow> nat \<Rightarrow> bool" where
  "opened d opens ts g k \<longleftrightarrow>
     (\<exists>j < length ts. group_by_fields d (ts ! j) = g \<and> is_start d ts j \<and> opens j \<and>
        window_field d (ts ! j) = window_field d (hd (wd_group d g ts)) + int k * window_slide d)"

lemma opened_nonempty: "opened d opens ts g k \<Longrightarrow> wd_group d g ts \<noteq> []"
  by (auto simp: opened_def filter_empty_conv intro: nth_mem)

lemma opened_snoc:
  "opened d opens (ts @ [t]) g k \<longleftrightarrow> opened d opens ts g k \<or>
     group_by_fields d t = g \<and> is_start d (ts @ [t]) (length ts) \<and> opens (length ts) \<and>
     window_field d t = window_field d (hd (wd_group d g ts @ [t])) + int k * window_slide d"
proof -
  let ?h = "hd (wd_group d g ts)" and ?h' = "hd (wd_group d g (ts @ [t]))"
  have hd: "?h' = ?h" if "j < length ts" "group_by_fields d (ts ! j) = g" for j
  proof -
    have "ts ! j \<in> set (wd_group d g ts)" using that by simp
    then have "wd_group d g ts \<noteq> []" by (metis empty_iff empty_set)
    then show ?thesis by simp
  qed
  have "opened d opens (ts @ [t]) g k \<longleftrightarrow> (\<exists>j < length ts. group_by_fields d (ts ! j) = g \<and> is_start d ts j \<and> opens j \<and>
        window_field d (ts ! j) = window_field d ?h' + int k * window_slide d) \<or>
     group_by_fields d t = g \<and> is_start d (ts @ [t]) (length ts) \<and> opens (length ts) \<and>
     window_field d t = window_field d ?h' + int k * window_slide d"
    unfolding opened_def
    by (simp add: less_Suc_eq conj_disj_distribR ex_disj_distrib nth_append is_start_append del: filter_append cong: conj_cong)
  also have "(\<exists>j < length ts. group_by_fields d (ts ! j) = g \<and> is_start d ts j \<and> opens j \<and>
        window_field d (ts ! j) = window_field d ?h' + int k * window_slide d) \<longleftrightarrow> opened d opens ts g k"
    unfolding opened_def by (intro ex_cong1 conj_cong refl) (simp add: hd del: filter_append)
  finally show ?thesis by (cases "group_by_fields d t = g") simp_all
qed

lemma opened_start:
  assumes "opened d opens ts g k"
  shows "\<exists>u \<in> set (wd_group d g ts). window_field d u = window_field d (hd (wd_group d g ts)) + int k * window_slide d"
proof -
  obtain j where "j < length ts" "group_by_fields d (ts ! j) = g"
    "window_field d (ts ! j) = window_field d (hd (wd_group d g ts)) + int k * window_slide d"
    using assms by (auto simp: opened_def)
  then show ?thesis by (intro bexI [of _ "ts ! j"]) simp_all
qed

lemma shed_sources:
  assumes "u' \<in> set (shed_all d opens ts)"
  shows "\<exists>u \<in> set ts. respecified u' u"
proof -
  obtain i where i: "i < length ts" "u' \<in> set (shed d opens ts i)" using assms by (auto simp: shed_all_def)
  then have "respecified u' (ts ! i)" by (auto simp: shed_def Let_def respecified_def split: if_splits intro: exI [of _ "win_spec (ts ! i)"])
  then show ?thesis using i(1) by auto
qed

definition shed_group :: "window_drop_box \<Rightarrow> (nat \<Rightarrow> bool) \<Rightarrow> 'w aggregate_box \<Rightarrow> tuple list \<Rightarrow> byte list \<Rightarrow> 'w aggregate_box \<Rightarrow> bool" where
  "shed_group d opens box ts g b \<longleftrightarrow>
     (let us = wd_group d g ts; us' = wd_group d g (shed_all d opens ts); v0 = agg_window_field box (hd us)
      in if us = [] then window_starts b g = None \<and> windows_of g b = []
         else (\<exists>ws. window_starts b g = Some ws \<and> ws_initialized ws \<and> ws_next ws = of_int (next_of d us) \<and>
                  ws_keep_until ws \<le> ws_next ws) \<and>
              (\<exists>ks. list_all2 (window_is box g v0 us') ks (windows_of g b) \<and>
                 set ks = {k. opened d opens ts g k \<and>
                   (\<forall>u \<in> set us'. agg_window_field box u < agg_start box v0 k + agg_window_size box)}))"

definition shed_results :: "window_drop_box \<Rightarrow> (nat \<Rightarrow> bool) \<Rightarrow> 'w aggregate_box \<Rightarrow> tuple list \<Rightarrow> byte list \<Rightarrow> (byte list \<times> rat \<times> 'w list) set" where
  "shed_results d opens box ts g =
     (let us' = wd_group d g (shed_all d opens ts); v0 = agg_window_field box (hd (wd_group d g ts))
      in the_result box g v0 us' ` {k. opened d opens ts g k \<and>
           (\<exists>u \<in> set us'. agg_start box v0 k + agg_window_size box \<le> agg_window_field box u) \<and>
           (drop_empty_outputs box \<longrightarrow> agg_content box v0 us' k \<noteq> [])})"

definition shed_state :: "window_drop_box \<Rightarrow> (nat \<Rightarrow> bool) \<Rightarrow> 'w aggregate_box \<Rightarrow> tuple list \<Rightarrow> 'w aggregate_box \<Rightarrow> bool" where
  "shed_state d opens box ts b \<longleftrightarrow> same_agg (dropping box) (dropping b) \<and> (ts \<noteq> [] \<longrightarrow> agg_drop_mode b) \<and>
     (\<forall>g. shed_group d opens box ts g b)"

text \<open>A tuple that was dropped changes nothing.\<close>

lemma shed_nothing:
  assumes "behind_dropper d box" "gapless d (ts @ [t])" "shed d opens (ts @ [t]) (length ts) = []"
  shows "shed_state d opens box ts b \<Longrightarrow> shed_state d opens box (ts @ [t]) b"
    "shed_results d opens box (ts @ [t]) g = shed_results d opens box ts g"
proof -
  note bd = behindD [OF assms(1)]
  let ?us = "wd_group d (group_by_fields d t) ts"
  have nst: "\<not> is_start d (ts @ [t]) (length ts)" using assms(3) by (auto simp: shed_def Let_def)
  have us: "?us \<noteq> []" using nst by (auto simp: is_start_snoc)
  note st = start_iff_next [OF bd(13) assms(2) us]
  have nx: "next_of d (?us @ [t]) = next_of d ?us" using st(2,3) nst by blast
  have S: "shed_all d opens (ts @ [t]) = shed_all d opens ts" using assms(3) by (simp add: shed_all_snoc)
  have o: "opened d opens (ts @ [t]) = opened d opens ts" using nst by (simp add: fun_eq_iff opened_snoc)
  have hd: "hd (wd_group d h (ts @ [t])) = hd (wd_group d h ts)" if "wd_group d h ts \<noteq> []" for h using that by simp
  have nxh: "next_of d (wd_group d h (ts @ [t])) = next_of d (wd_group d h ts)" for h
    using nx by (cases "group_by_fields d t = h") auto
  have e: "wd_group d h (ts @ [t]) = [] \<longleftrightarrow> wd_group d h ts = []" for h using us by auto
  have "ts \<noteq> []" using us by auto
  then show "shed_state d opens box ts b \<Longrightarrow> shed_state d opens box (ts @ [t]) b"
    unfolding shed_state_def shed_group_def S o e nxh Let_def using hd by (simp del: filter_append set_filter)
  show "shed_results d opens box (ts @ [t]) g = shed_results d opens box ts g"
  proof (cases "wd_group d g ts = []")
    case True
    then have "\<not> opened d opens ts g k" for k using opened_nonempty by blast
    then show ?thesis by (simp add: shed_results_def S o Let_def del: filter_append)
  next
    case False
    then show ?thesis by (simp only: shed_results_def S o hd [OF False])
  qed
qed

section \<open>A tuple that is let through\<close>

lemma of_int_less: "(of_int a :: rat) < of_int b \<longleftrightarrow> a < b"
  by simp

text \<open>The group of the tuple, before and after it.\<close>

lemma shed_tuple:
  assumes "behind_dropper d box" "gapless d (ts @ [t])" "plain t" "shed d opens (ts @ [t]) (length ts) = [t']"
  defines "g \<equiv> group_by_fields d t" and "v \<equiv> window_field d t"
  defines "us \<equiv> wd_group d g ts" and "us' \<equiv> wd_group d g (shed_all d opens ts)"
  defines "n \<equiv> (if us = [] then v else next_of d us)" and "h \<equiv> window_field d (hd (us @ [t]))"
  defines "k \<equiv> nat ((v - h) div window_slide d)"
  shows "t' = t\<lparr>win_spec := (if v = n then if opens (length ts) then v + window_size d else 0 else -1)\<rparr>"
    "v \<le> n" "v = n \<Longrightarrow> h + int k * window_slide d = v" "next_of d (us @ [t]) = (if v = n then v + window_slide d else n)"
    "u \<in> set us' \<Longrightarrow> window_field d u \<le> v" "v = n \<Longrightarrow> u \<in> set us' \<Longrightarrow> window_field d u < v"
    "opened d opens (ts @ [t]) g j \<longleftrightarrow> opened d opens ts g j \<or> v = n \<and> opens (length ts) \<and> j = k"
    "opened d opens ts g j \<Longrightarrow> h + int j * window_slide d \<le> v"
    "v = n \<Longrightarrow> \<not> opened d opens ts g k" "ts = [] \<Longrightarrow> v = n" "us \<noteq> [] \<Longrightarrow> hd (us @ [t]) = hd us"
proof -
  note bd = behindD [OF assms(1)]
  note st = start_iff_next [OF bd(13) assms(2), folded g_def v_def, folded us_def]
  show hd: "us \<noteq> [] \<Longrightarrow> hd (us @ [t]) = hd us" by simp
  have start: "is_start d (ts @ [t]) (length ts) \<longleftrightarrow> v = n"
    using st(2) by (auto simp: n_def is_start_snoc Let_def g_def [symmetric] us_def [symmetric])
  show "ts = [] \<Longrightarrow> v = n" by (simp add: n_def us_def)
  have "win_spec t = -1" using assms(3) by (simp add: plain_def)
  then have "t\<lparr>win_spec := -1\<rparr> = t" by (cases t) simp
  then show "t' = t\<lparr>win_spec := (if v = n then if opens (length ts) then v + window_size d else 0 else -1)\<rparr>"
    using assms(4) start by (auto simp: shed_def Let_def v_def split: if_splits)
  show "v \<le> n" using st(1) by (simp add: n_def)
  show kk: "h + int k * window_slide d = v" if "v = n"
  proof (cases "us = []")
    case True
    then show ?thesis by (simp add: h_def k_def v_def)
  next
    case False
    have "window_slide d dvd v - h" "h \<le> v" using st(6,7) [OF False] that False by (simp_all add: n_def h_def)
    moreover from this have "0 \<le> (v - h) div window_slide d" using bd(13) by (simp add: pos_imp_zdiv_nonneg_iff)
    ultimately show ?thesis by (simp add: k_def)
  qed
  show "next_of d (us @ [t]) = (if v = n then v + window_slide d else n)"
    using st(3,4) by (cases "us = []") (simp_all add: n_def v_def)
  have src: "\<exists>w \<in> set us. window_field d u = window_field d w" if mem: "u \<in> set us'" for u
  proof -
    obtain w where w: "w \<in> set ts" "respecified u w" using shed_sources [of u d opens ts] mem by (auto simp: us'_def)
    then have "group_by_fields d w = group_by_fields d u" "window_field d u = window_field d w"
      using bd(10,11) by (auto simp: respecified_def)
    then show ?thesis using w(1) mem by (auto simp: us'_def us_def)
  qed
  show "window_field d u \<le> v" if "u \<in> set us'" using src [OF that] st(8) by fastforce
  show less: "window_field d u < v" if vn: "v = n" and mem: "u \<in> set us'"
  proof -
    obtain w where w: "w \<in> set us" "window_field d u = window_field d w" using src [OF mem] by blast
    then have "us \<noteq> []" by auto
    then show ?thesis using st(5) [of w] w vn by (simp add: n_def)
  qed
  have eq: "v = h + int j * window_slide d \<longleftrightarrow> j = k" if "v = n" for j
    using kk [OF that] bd(13) by auto
  show "opened d opens (ts @ [t]) g j \<longleftrightarrow> opened d opens ts g j \<or> v = n \<and> opens (length ts) \<and> j = k" for j
    unfolding opened_snoc using start eq by (auto simp: g_def h_def v_def us_def)
  have op: "\<exists>u \<in> set us. window_field d u = h + int j * window_slide d" if "opened d opens ts g j" for j
    using opened_start [OF that] opened_nonempty [OF that] by (simp add: us_def h_def)
  show "opened d opens ts g j \<Longrightarrow> h + int j * window_slide d \<le> v" for j using op st(8) by fastforce
  show "\<not> opened d opens ts g k" if vn: "v = n"
  proof
    assume "opened d opens ts g k"
    from op [OF this] obtain u where "u \<in> set us" "window_field d u = v" using kk [OF vn] by auto
    moreover from this have "us \<noteq> []" by auto
    ultimately show False using st(5) [of u] vn by (simp add: n_def)
  qed
qed

lemma shed_step:
  assumes "behind_dropper d box" "gapless d (ts @ [t])" "0 \<le> window_field d t" "plain t"
    and "shed d opens (ts @ [t]) (length ts) = [t']" "shed_state d opens box ts b"
  shows "\<exists>b' outs rs. Aggregate_step t' b = Some (Inr (b', outs)) \<and> shed_state d opens box (ts @ [t]) b' \<and>
    list_all2 (carries box) outs rs \<and>
    (\<forall>g. shed_results d opens box (ts @ [t]) g =
       (if g = group_by_fields d t then set rs else {}) \<union> shed_results d opens box ts g)"
proof -
  define g where "g = group_by_fields d t"
  define v where "v = window_field d t"
  define us where "us = wd_group d g ts"
  define us' where "us' = wd_group d g (shed_all d opens ts)"
  define n where "n = (if us = [] then v else next_of d us)"
  define h where "h = window_field d (hd (us @ [t]))"
  define k where "k = nat ((v - h) div window_slide d)"
  define v0 where "v0 = (of_int h :: rat)"
  note bd = behindD [OF assms(1)]
  note T = shed_tuple [OF assms(1,2,4,5), folded g_def v_def, folded us_def us'_def, folded n_def h_def, folded k_def]
  have t': "group_by_fields d t' = g" "window_field d t' = v" "tuple_type t' = tuple_type t" "\<not> get_fake_flag t'"
    "tuple_type t \<noteq> BOUNDARY" "tuple_type t \<noteq> RECONCILIATION_DONE"
    using assms(4) bd(10,11) by (simp_all add: T(1) g_def v_def plain_def get_fake_flag_def)
  have S': "wd_group d i (shed_all d opens (ts @ [t])) = wd_group d i (shed_all d opens ts) @ (if i = g then [t'] else [])" for i
    using t'(1) by (simp add: shed_all_snoc assms(5))
  have start_k: "agg_start box v0 j = of_int (h + int j * window_slide d)" for j
    unfolding v0_def by (rule agg_start_of_int [OF assms(1)])
  have inv: "same_agg (dropping box) (dropping b)" "ts \<noteq> [] \<Longrightarrow> agg_drop_mode b" "shed_group d opens box ts i b" for i
    using assms(6) by (simp_all add: shed_state_def)
  note ig = inv(3) [of g, unfolded shed_group_def Let_def, folded us_def us'_def]
  define b1 where "b1 = (set_windows g (windows_of g b) (dropping b))\<lparr>dirty_windows := (dirty_windows b)(g := True)\<rparr>"
  have b1: "same_agg (dropping box) b1" "window_starts b1 = window_starts b" "windows_of i b1 = windows_of i b" for i
    using inv(1) by (simp_all add: b1_def)
  obtain ks0 where ks0: "list_all2 (window_is box g v0 us') ks0 (windows_of g b)"
    "set ks0 = {j. opened d opens ts g j \<and> (\<forall>u \<in> set us'. agg_window_field box u < agg_start box v0 j + agg_window_size box)}"
  proof (cases "us = []")
    case True
    then have "\<not> opened d opens ts g j" for j using opened_nonempty us_def by metis
    then show ?thesis using that [of "[]"] ig True by simp
  next
    case False
    have "v0 = agg_window_field box (hd us)" using T(11) [OF False] bd(8) by (simp add: v0_def h_def)
    then show ?thesis using that ig False by auto
  qed
  let ?ks = "ks0 @ (if v = n \<and> opens (length ts) then [k] else [])"
  have cs: "case window_starts b1 g of None \<Rightarrow> n = v
      | Some ws \<Rightarrow> ws_initialized ws \<and> ws_next ws = of_int n \<and> ws_keep_until ws \<le> of_int n"
    using ig by (cases "us = []") (auto simp: b1(2) n_def)
  have wf: "agg_window_field box t' = of_int v" using bd(8) t'(2) by simp
  have wsp: "win_spec t' = (if v = n then if opens (length ts) then v + window_size d else 0 else -1)" by (simp add: T(1))
  have ak: "v = n \<Longrightarrow> agg_start box v0 k = of_int v" by (simp add: start_k T(3) del: of_int_add of_int_mult)
  have ac: "v = n \<Longrightarrow> agg_content box v0 us' k = []"
    using T(6) ak bd(8) by (fastforce simp: agg_content_def filter_empty_conv)
  from open_shed_is [OF assms(1) b1(1) assms(3) [folded v_def] wf cs T(2) wsp ak ac]
  obtain b2 ws new where o: "open_value_windows g t' b1 = Some b2" "same_agg (dropping box) b2"
    "window_starts b2 = (window_starts b1)(g \<mapsto> ws)" "ws_initialized ws"
    "ws_next ws = of_int (if v = n then v + window_slide d else n)" "ws_keep_until ws \<le> ws_next ws"
    "windows_of g b2 = windows_of g b1 @ new" "\<forall>i. i \<noteq> g \<longrightarrow> windows_of i b2 = windows_of i b1"
    "list_all2 (window_is box g v0 us') (if v = n \<and> opens (length ts) then [k] else []) new" by blast
  define b3 where "b3 = (if tuple_type t' = TENTATIVE then b2\<lparr>box_tentative := True\<rparr> else b2)"
  have b3: "same_agg (dropping box) b3" "window_starts b3 = window_starts b2" "windows_of i b3 = windows_of i b2" for i
    using o(2) by (simp_all add: b3_def)
  have all: "list_all2 (window_is box g v0 us') ?ks (windows_of g b3)"
    using list_all2_appendI [OF ks0(1) o(9)] o(7) b1(3) b3(3) by simp
  have le: "\<forall>j \<in> set ?ks. agg_start box v0 j \<le> of_int v"
    using T(8) ks0(2) ak by (auto simp: start_k simp del: of_int_add of_int_mult)
  let ?late = "\<lambda>j. \<not> of_int v < agg_start box v0 j + agg_window_size box"
  let ?drop = "\<lambda>j. drop_empty_outputs box \<longrightarrow> agg_content box v0 us' j \<noteq> []"
  obtain kept e outs where ins: "insert_all g t' (windows_of g b3) b3 = Inr (kept, b3\<lparr>emitted_count := e\<rparr>, outs)"
    "list_all2 (window_is box g v0 (us' @ [t'])) (filter (\<lambda>j. of_int v < agg_start box v0 j + agg_window_size box) ?ks) kept"
    "list_all2 (carries box) outs (map (the_result box g v0 us') (filter ?drop (filter ?late ?ks)))"
    using insert_all_is [of "dropping box" g v0 us' ?ks "windows_of g b3" b3 t'] all b3(1) bd(2) t'(4) le wf by auto
  have cb: "timing_out b = timing_out box" "agg_method b = agg_method box" "agg_group_by b = agg_group_by box"
    using same_aggD(14,5,12) [OF inv(1)] by simp_all
  have gb: "agg_group_by b t' = g" using cb(3) bd(9) t'(1) by simp
  have dm: "agg_drop_mode b \<or> win_spec t' \<noteq> -1"
    using inv(2) T(10) wsp assms(3) bd(12) by (cases "ts = []") (auto simp: v_def)
  obtain x y where st: "Aggregate_step t' b =
      Some (Inr ((set_windows g kept (b3\<lparr>emitted_count := e\<rparr>))\<lparr>count_updated_windows := x, count_new_windows := y\<rparr>, outs))"
    using Aggregate_step_shed [of t' b b2 b3 kept "b3\<lparr>emitted_count := e\<rparr>" outs] t'(3,5,6) cb(1,2) bd(1,2) dm o(1) ins(1) b3_def
    unfolding gb b1_def [symmetric] by auto
  let ?b = "(set_windows g kept (b3\<lparr>emitted_count := e\<rparr>))\<lparr>count_updated_windows := x, count_new_windows := y\<rparr>"
  let ?rs = "map (the_result box g v0 us') (filter ?drop (filter ?late ?ks))"
  have wsb: "window_starts ?b = (window_starts b)(g \<mapsto> ws)" using o(3) b1(2) b3(2) by simp
  have win: "windows_of i ?b = (if i = g then kept else windows_of i b)" for i using o(8) b1(3) b3(3) by simp
  have usg: "wd_group d g (ts @ [t]) = us @ [t]" by (simp add: g_def us_def)
  have usi: "wd_group d i (ts @ [t]) = wd_group d i ts" if "i \<noteq> g" for i using that by (simp add: g_def)
  have op: "opened d opens (ts @ [t]) i j = opened d opens ts i j" if "i \<noteq> g" for i j
    using that by (auto simp: opened_snoc g_def)
  have v0: "agg_window_field box (hd (us @ [t])) = v0" using bd(8) by (simp add: v0_def h_def)
  have us'g: "wd_group d g (shed_all d opens (ts @ [t])) = us' @ [t']" by (simp add: S' us'_def)
  have new: "\<forall>u \<in> set us'. agg_window_field box u < agg_start box v0 k + agg_window_size box" if "v = n"
    using T(6) [OF that] ak [OF that] bd(6,8,12) by fastforce
  have kset: "set (filter (\<lambda>j. of_int v < agg_start box v0 j + agg_window_size box) ?ks) = {j. opened d opens (ts @ [t]) g j \<and>
      (\<forall>u \<in> set (us' @ [t']). agg_window_field box u < agg_start box v0 j + agg_window_size box)}"
    using ks0(2) new wf by (auto simp: T(7))
  have "shed_group d opens box (ts @ [t]) i ?b" for i
  proof (cases "i = g")
    case True
    have "\<exists>ks. list_all2 (window_is box g v0 (us' @ [t'])) ks kept \<and> set ks = {j. opened d opens (ts @ [t]) g j \<and>
        (\<forall>u \<in> set (us' @ [t']). agg_window_field box u < agg_start box v0 j + agg_window_size box)}"
      using ins(2) kset by blast
    moreover have "ws_next ws = of_int (next_of d (us @ [t]))" using o(5) T(4) by simp
    ultimately show ?thesis
      using o(4,6) unfolding True shed_group_def Let_def wsb win usg us'g v0 by simp
  next
    case False
    then show ?thesis using inv(3) [of i] unfolding shed_group_def Let_def wsb win S' usi [OF False] op [OF False]
      by (simp del: set_filter)
  qed
  moreover have "agg_drop_mode ?b" using same_aggD(2) [OF b3(1)] by (simp add: set_windows_def)
  ultimately have state: "shed_state d opens box (ts @ [t]) ?b"
    using b3(1) by (simp add: shed_state_def dropping_id)
  let ?fin = "\<lambda>j. agg_start box v0 j + agg_window_size box"
  let ?old = "{j. opened d opens ts g j \<and> (\<exists>u \<in> set us'. ?fin j \<le> agg_window_field box u) \<and> ?drop j}"
  have old: "shed_results d opens box ts g = the_result box g v0 us' ` ?old"
  proof (cases "us = []")
    case True
    then have "\<not> opened d opens ts g j" for j using opened_nonempty us_def by metis
    then show ?thesis by (simp add: shed_results_def Let_def)
  next
    case False
    then have "agg_window_field box (hd us) = v0" using v0 by simp
    then show ?thesis unfolding shed_results_def Let_def us_def [symmetric] us'_def [symmetric] by (simp only:)
  qed
  have past: "the_result box g v0 (us' @ [t']) j = the_result box g v0 us' j"
    "agg_content box v0 (us' @ [t']) j = agg_content box v0 us' j" if "?fin j \<le> of_int v" for j
    using that the_result_past [of box v0 j t' g us'] agg_content_past [of box v0 j t' us'] wf by simp_all
  have late: "?fin j \<le> of_int v" if "u \<in> set us'" "?fin j \<le> agg_window_field box u" for u j
    using that T(5) [OF that(1)] bd(8) order_trans by fastforce
  let ?new = "{j. opened d opens (ts @ [t]) g j \<and> (\<exists>u \<in> set (us' @ [t']). ?fin j \<le> agg_window_field box u) \<and>
      (drop_empty_outputs box \<longrightarrow> agg_content box v0 (us' @ [t']) j \<noteq> [])}"
  have split: "?new = set (filter ?drop (filter ?late ?ks)) \<union> ?old"
  proof (rule set_eqI)
    fix j
    let ?E = "\<exists>u \<in> set us'. ?fin j \<le> agg_window_field box u"
    have E: "?E \<Longrightarrow> ?fin j \<le> of_int v" using late by blast
    have N: "v = n \<and> opens (length ts) \<and> j = k \<Longrightarrow> \<not> ?E" using new by (auto simp: not_le)
    have K: "j \<in> set ?ks \<longleftrightarrow> (opened d opens ts g j \<and> \<not> ?E) \<or> v = n \<and> opens (length ts) \<and> j = k"
      using ks0(2) by (auto simp: not_le)
    have X: "(\<exists>u \<in> set (us' @ [t']). ?fin j \<le> agg_window_field box u) \<longleftrightarrow> ?E \<or> ?fin j \<le> of_int v" using wf by auto
    show "j \<in> ?new \<longleftrightarrow> j \<in> set (filter ?drop (filter ?late ?ks)) \<union> ?old"
    proof (cases "?fin j \<le> of_int v")
      case True
      show ?thesis unfolding set_filter mem_Collect_eq Un_iff T(7) not_less K X past(2) [OF True] using True N by blast
    next
      case False
      then show ?thesis unfolding set_filter mem_Collect_eq Un_iff T(7) not_less K X using E by blast
    qed
  qed
  have "shed_results d opens box (ts @ [t]) g = the_result box g v0 (us' @ [t']) ` ?new"
    by (simp only: shed_results_def Let_def usg us'g v0)
  also have "\<dots> = the_result box g v0 us' ` ?new" using past(1) late wf by (intro image_cong) auto
  also have "\<dots> = set ?rs \<union> shed_results d opens box ts g" by (simp only: split image_Un old set_map)
  finally have res_g: "shed_results d opens box (ts @ [t]) g = set ?rs \<union> shed_results d opens box ts g" .
  have res: "shed_results d opens box (ts @ [t]) i = (if i = g then set ?rs else {}) \<union> shed_results d opens box ts i" for i
  proof (cases "i = g")
    case False
    then show ?thesis by (simp add: shed_results_def Let_def usi S' op del: filter_append)
  qed (use res_g in simp)
  show ?thesis using st state ins(3) res unfolding g_def [symmetric] by blast
qed

end
