(* ===== verification/Window_Drop_Properties.thy ===== *)
theory Window_Drop_Properties
  imports Window_Drop_Spec
begin

text \<open>The properties of the window dropper, and what goes wrong in a gap.\<close>

section \<open>Gaps\<close>

lemma skip_gaps_ends:
  assumes "0 < slide"
  shows "\<exists>ws' k. skip_gaps slide v ws = Some ws' \<and>
    ws' = ws\<lparr>next_win_start := next_win_start ws + slide * int k, batch_counter := batch_counter ws + int k\<rparr> \<and>
    v < next_win_start ws' + slide \<and> (next_win_start ws \<le> v \<longrightarrow> next_win_start ws' \<le> v)"
proof (induction "nat (v - next_win_start ws)" arbitrary: ws rule: less_induct)
  case less
  show ?case
  proof (cases "v \<ge> next_win_start ws + slide")
    case False
    then show ?thesis by (intro exI [of _ ws] exI [of _ 0]) (simp add: skip_gaps_def while_option_unfold)
  next
    case True
    let ?ws = "ws\<lparr>next_win_start := next_win_start ws + slide, batch_counter := batch_counter ws + 1\<rparr>"
    have "nat (v - next_win_start ?ws) < nat (v - next_win_start ws)" using True assms by simp
    from less [OF this] obtain ws' k where IH: "skip_gaps slide v ?ws = Some ws'"
      "ws' = ?ws\<lparr>next_win_start := next_win_start ?ws + slide * int k, batch_counter := batch_counter ?ws + int k\<rparr>"
      "v < next_win_start ws' + slide" "next_win_start ?ws \<le> v \<longrightarrow> next_win_start ws' \<le> v" by blast
    have "skip_gaps slide v ws = Some ws'" using True IH(1) by (simp add: skip_gaps_def while_option_unfold [of _ _ ws])
    then show ?thesis using IH(2-4) True
      by (intro exI [of _ ws'] exI [of _ "Suc k"]) (simp add: algebra_simps)
  qed
qed

text \<open>With a slide that is not positive the loop does not end.\<close>

lemma skip_gaps_diverges:
  assumes "slide \<le> 0" "next_win_start ws + slide \<le> v"
  shows "skip_gaps slide v ws = None"
proof (rule ccontr)
  assume "skip_gaps slide v ws \<noteq> None"
  then obtain ws' where r: "skip_gaps slide v ws = Some ws'" by auto
  have "next_win_start ws' + slide \<le> v"
    using r unfolding skip_gaps_def
    by (rule while_option_rule [where P = "\<lambda>ws. next_win_start ws + slide \<le> v", rotated]) (use assms in auto)
  then show False using while_option_stop [OF r [unfolded skip_gaps_def]] by simp
qed

lemma step_in_gap:
  assumes "wd_method box = WINDOW_BY_VALUES" "window_infos box (group_by_fields box t) = Some ws" "initialized ws"
    and "next_win_start ws < window_field box t"
  shows "WindowDrop_step t box = map_option (\<lambda>r. rbind r (\<lambda>(box1, ws, out).
      Inr (box1\<lparr>window_infos := (window_infos box1)(group_by_fields box t \<mapsto> ws)\<rparr>, out))) (gap_case box (window_field box t) t ws)"
  using assms by (simp add: WindowDrop_step_def Let_def)

section \<open>Example\<close>

text \<open>Windows of three values, one after the other, in batches of one; the value is the first byte.\<close>

definition example_dropper :: "(nat \<Rightarrow> bool) \<Rightarrow> window_drop_box" where
  "example_dropper ds =
     \<lparr>wd_method = WINDOW_BY_VALUES, window_field = (\<lambda>t. uint (hd (body t))), window_field_offset = 0,
      group_by_fields = (\<lambda>t. []), max_batch_size = 1, window_size = 3, window_slide = 3, across_union = False,
      window_infos = Map.empty, draws = ds, start_draws = 0, gap_draws = 0\<rparr>"

definition value_tuple :: "byte \<Rightarrow> tuple" where
  "value_tuple c =
     \<lparr>tv = Timestamp_zero, local_tv = Timestamp_zero, tuple_flag = 0, tuple_type = INSERTION,
      win_spec = -1, quality = 0, rev_id = 0, tuple_id = 0, rev_field = 0, tuple_stime = Timestamp_zero,
      body = [c, 0, 0, 0]\<rparr>"

lemma example_dropper_simps [simp]:
  "wd_method (example_dropper ds) = WINDOW_BY_VALUES" "window_field (example_dropper ds) = (\<lambda>t. uint (hd (body t)))"
  "group_by_fields (example_dropper ds) = (\<lambda>t. [])" "max_batch_size (example_dropper ds) = 1"
  "window_size (example_dropper ds) = 3" "window_slide (example_dropper ds) = 3"
  "\<not> across_union (example_dropper ds)" "window_infos (example_dropper ds) = Map.empty"
  "draws (example_dropper ds) = ds" "start_draws (example_dropper ds) = 0" "gap_draws (example_dropper ds) = 0"
  "body (value_tuple c) = [c, 0, 0, 0]"
  by (simp_all add: example_dropper_def value_tuple_def)

section \<open>Properties\<close>

text \<open>
  C15. Load shedding keeps whole windows: on inputs whose values, per group, never decrease and
  never skip a value, a new box outputs exactly the tuples at window starts and the tuples of the windows
  it opened, unchanged and in order; a start says when its window closes, or 0 if it does not open.
  No assertion fails and every gap loop ends.
\<close>

theorem window_drop_keeps_windows:
  assumes "wd_method box = WINDOW_BY_VALUES" "0 < window_slide box" "\<not> across_union box" "window_infos box = Map.empty"
    and "gapless box ts" "\<forall>u \<in> set ts. 0 \<le> window_field box u"
  shows "\<exists>b opens. WindowDropQBox_run ts box = Some (Inr (b, concat (map (shed box opens ts) [0..<length ts])))"
  using run_sheds [OF assms] by (auto simp: shed_all_def)

theorem window_drop_keeps_windows_witness:
  "\<exists>b opens ts. ts = map value_tuple [0, 1, 2, 2, 3, 4] \<and>
     WindowDropQBox_run ts (example_dropper (\<lambda>i. i = 0)) =
       Some (Inr (b, concat (map (shed (example_dropper (\<lambda>i. i = 0)) opens ts) [0..<length ts])))"
proof -
  have "gapless (example_dropper (\<lambda>i. i = 0)) (map value_tuple [0, 1, 2, 2, 3, 4])"
    "\<forall>u \<in> set (map value_tuple [0, 1, 2, 2, 3, 4]). 0 \<le> window_field (example_dropper (\<lambda>i. i = 0)) u"
    by (simp_all add: gapless_def)
  from window_drop_keeps_windows [OF _ _ _ _ this] show ?thesis by simp
qed

text \<open>
  A gap crashes the box: in a group that is compensating for extra windows and has none left to
  compensate, a tuple after the next window start fails an assertion of the code for gaps, which
  asks for the opposite of what the code for starts asks for and of what always holds in this mode.
\<close>

lemma gap_fails_assertion:
  assumes "wd_method box = WINDOW_BY_VALUES" "0 < window_slide box"
    and "window_infos box (group_by_fields box t) = Some ws" "ws_flags ws" "drop_extra ws"
    and "extra_counter ws = 0 \<or> drop_counter ws = max_batch_size box" "next_win_start ws < window_field box t"
  shows "WindowDrop_step t box = Some (Inl AssertionFailed)"
proof -
  obtain ws' k where s: "skip_gaps (window_slide box) (window_field box t) ws = Some ws'"
    "ws' = ws\<lparr>next_win_start := next_win_start ws + window_slide box * int k, batch_counter := batch_counter ws + int k\<rparr>"
    using skip_gaps_ends [OF assms(2), of "window_field box t" ws] by blast
  have "\<not> extra_needed ws" "\<not> batch_drop ws" "initialized ws" using assms(4,5) by (auto simp: ws_flags_def)
  then show ?thesis
    using assms s(1) by (simp add: step_in_gap gap_case_def batch_decision_def s(2) ws_flags_def)
qed

text \<open>
  A tuple of an open window is lost if it comes after the next window start: it is sent as a
  fake tuple whose window field holds that start, though the window it belongs to has not closed.
\<close>

lemma gap_replaces_tuple:
  assumes "wd_method box = WINDOW_BY_VALUES" "window_infos box (group_by_fields box t) = Some ws"
    and "ws_flags ws" "\<not> drop_extra ws" "\<not> across_union box"
    and "next_win_start ws < window_field box t" "window_field box t < next_win_start ws + window_slide box"
    and "window_field box t < keep_until ws"
  shows "\<exists>b spec t'. WindowDrop_step t box = Some (Inr (b, [t'])) \<and>
    t' = store_int32 (window_field_offset box) (next_win_start ws) (set_fake_flag True (t\<lparr>win_spec := spec\<rparr>)) \<and> get_fake_flag t'"
proof -
  have s: "skip_gaps (window_slide box) (window_field box t) ws = Some ws"
    using assms(7) by (simp add: skip_gaps_def while_option_unfold)
  have f: "initialized ws" "\<not> zero_batch ws" "\<not> positive_batch ws" "\<not> force_open ws" "extra_needed ws \<longrightarrow> batch_drop ws"
    using assms(3) by (auto simp: ws_flags_def)
  obtain box1 ws1 where d: "batch_decision True box ws = Inr (box1, ws1)" "next_win_start ws1 = next_win_start ws"
    using f(2-5) assms(4) by (cases "extra_needed ws"; cases "batch_counter ws = 0 \<or> batch_counter ws \<ge> max_batch_size box")
      (simp_all add: batch_decision_def Let_def)
  obtain win_drop ws2 where w: "window_decision (max_batch_size box) ws1 = (win_drop, ws2)" by fastforce
  have n: "next_win_start ws2 = next_win_start ws"
    using w d(2) by (auto simp: window_decision_def Let_def split: if_splits)
  have fake: "get_fake_flag (store_int32 o1 n1 (set_fake_flag True u))" for o1 n1 u
    using get_set_fake_flag by (simp add: store_int32_def get_fake_flag_def)
  show ?thesis
    using assms(1,2,5,6) f(1,2)
    by (auto simp: step_in_gap gap_case_def s d w n fake_or_not_def fake_tuple_def release_def fake Let_def)
qed

end
