(* ===== verification/Aggregate_Properties.thy ===== *)
theory Aggregate_Properties
  imports Aggregate_Setup
begin

text \<open>The properties of the Aggregate box, each with an instance of its hypotheses.\<close>

section \<open>Examples\<close>

text \<open>Counting the tuples in windows over the tuple's number, in one group.\<close>

definition count_aggregate :: "nat aggregate" where
  "count_aggregate = \<lparr>agg_init = 0, agg_incr = (\<lambda>_. Suc), agg_final = (\<lambda>n. [word_of_int (int n)])\<rparr>"

definition numbered_tuple :: "int \<Rightarrow> tuple" where
  "numbered_tuple n =
     \<lparr>tv = Timestamp n 0, local_tv = Timestamp n 0, tuple_flag = 0, tuple_type = INSERTION,
      win_spec = -1, quality = 0, rev_id = -1, tuple_id = n, rev_field = -1, tuple_stime = Timestamp n 0, body = []\<rparr>"

definition counting :: "string \<Rightarrow> rat \<Rightarrow> rat \<Rightarrow> nat agg_params" where
  "counting by sz adv =
     \<lparr>num_inputs = 1, p_window_size = sz, p_advance = adv, p_size_by = by, p_order_by = ''TUPLENUM'',
      p_drop_mode = None, p_last_agg = None, p_drop_empty = None, p_independent = None, p_slack = None,
      p_window_field = (\<lambda>t. of_int (tuple_id t)), p_is_int32 = True, p_is_numeric = True, p_field_length = 4,
      p_timeout = None, p_passive = False, p_functions = [count_aggregate], p_group_by = (\<lambda>_. []),
      p_group_lengths = []\<rparr>"

definition setup_counting :: "string \<Rightarrow> rat \<Rightarrow> rat \<Rightarrow> nat aggregate_box result" where
  "setup_counting by sz adv = Aggregate_setup (counting by sz adv) (\<lambda>_. numbered_tuple 0) (\<lambda>_. 0) (\<lambda>_. []) 0"

definition counting_box :: "window_method \<Rightarrow> rat \<Rightarrow> rat \<Rightarrow> nat aggregate_box" where
  "counting_box m sz adv = Aggregate_new (counting ''VALUES'' sz adv) m ORDER_BY_TUPLENUM (\<lambda>_. numbered_tuple 0) (\<lambda>_. 0) (\<lambda>_. []) 0"

lemma counting_box_sel [simp]:
  "agg_functions (counting_box m sz adv) = [count_aggregate]" "\<not> agg_drop_mode (counting_box m sz adv)"
  "\<not> drop_empty_outputs (counting_box m sz adv)" "agg_method (counting_box m sz adv) = m"
  "agg_window_size (counting_box m sz adv) = sz" "advance_size (counting_box m sz adv) = adv"
  "agg_group_by (counting_box m sz adv) = (\<lambda>_. [])"
  "agg_window_field (counting_box m sz adv) = (\<lambda>t. of_int (tuple_id t))" "\<not> timing_out (counting_box m sz adv)"
  "box_slack (counting_box m sz adv) = 0" "\<not> independent_alignment (counting_box m sz adv)"
  "tuple_id (numbered_tuple n) = n" "plain (numbered_tuple n)"
  by (simp_all add: counting_box_def counting_def or_default_def timeout_of_def numbered_tuple_def plain_def get_fake_flag_def)

lemma setup_counting [simp]:
  "adv \<le> sz \<Longrightarrow> setup_counting ''VALUES'' sz adv = Inr (counting_box WINDOW_BY_VALUES sz adv)"
  "adv \<le> sz \<Longrightarrow> setup_counting ''TUPLES'' sz adv = Inr (counting_box WINDOW_BY_TUPLES sz adv)"
  by (simp_all add: setup_counting_def Aggregate_setup_def method_of_name_def order_of_name_def check_window_field_def
      counting_box_def counting_def Aggregate_new_def)

lemma agg_states_count: "agg_states [count_aggregate] us = [length us]"
proof -
  have "fold (\<lambda>_. Suc) us n = length us + n" for n by (induction us arbitrary: n) auto
  then show ?thesis by (simp add: agg_states_def count_aggregate_def)
qed

definition four_tuples :: "tuple list" where
  "four_tuples = map numbered_tuple [0, 1, 1, 3]"

lemma four_tuples_nth [simp]:
  "take 0 four_tuples = []" "take (Suc 0) four_tuples = [numbered_tuple 0]" "take 2 four_tuples = map numbered_tuple [0, 1]"
  "take 3 four_tuples = map numbered_tuple [0, 1, 1]" "four_tuples ! 0 = numbered_tuple 0"
  "four_tuples ! Suc 0 = numbered_tuple 1" "four_tuples ! 2 = numbered_tuple 1" "four_tuples ! 3 = numbered_tuple 3"
  by (simp_all add: four_tuples_def numeral_2_eq_2 numeral_3_eq_3)

lemma run_four [simp]: "run_count 0 (QBoxInvocation_new (\<lambda>_. 0)) four_tuples = 4" "length four_tuples = 4"
  by (simp_all add: four_tuples_def run_count_def continue_dequeue_on_def QBoxInvocation_new_def u32_inc_def)

lemma small_upt: "[0..<4::nat] = [0, 1, 2, 3]" "[0..<2::nat] = [0, 1]"
  by (simp_all add: upt_rec)

lemma floor_m1: "\<lfloor>- 1 :: rat\<rfloor> = - 1"
  using floor_of_int [of "- 1", where 'a = rat] by simp

lemma counting_results:
  "concat (map (agg_results (counting_box WINDOW_BY_VALUES 2 1) four_tuples) [0..<4]) = [([], 0, [3]), ([], 1, [2])]"
  unfolding small_upt
  by (simp add: agg_results_def nb_upto_def agg_states_count agg_content_def agg_start_def Let_def small_upt floor_m1)

lemma counting_tuple_results:
  "concat (map (tuple_results (counting_box WINDOW_BY_TUPLES 2 2) 2 2 four_tuples) [0..<4]) = [([], 0, [2]), ([], 1, [2])]"
  unfolding small_upt
  by (simp add: tuple_results_def tuple_result_def agg_states_count Let_def)

section \<open>Properties\<close>

text \<open>
  C10. Sliding-window aggregation equals its reference: with windows over the values of a field, whatever
  the size and the positive advance, a box that was just set up and whose groups arrive in order outputs, for
  the tuples the run takes from its queue, one result per window that ends, when it ends, in order: the group, the
  start of the window and every aggregate of exactly the tuples of the group in its range. The run fails nowhere.
\<close>

theorem aggregate_equals_reference:
  assumes "Aggregate_setup ps mem tids dbytes hsize = Inr box" "regular box"
    and "ts = take (run_count 0 qi xs) xs" "in_order box ts" "\<forall>t \<in> set ts. plain t"
  shows "\<exists>qi' b outs. AggregateQBox_run qi xs box = (qi', drop (run_count 0 qi xs) xs, Some (Inr (b, outs))) \<and>
    list_all2 (carries box) outs (concat (map (agg_results box ts) [0..<length ts]))"
proof -
  have "window_starts box = Map.empty" "open_windows box = Map.empty" using Aggregate_setup_Inr(1) [OF assms(1)] by auto
  then obtain b outs where r: "Aggregate_steps ts box = Some (Inr (b, outs))"
    "list_all2 (carries box) outs (concat (map (agg_results box ts) [0..<length ts]))"
    using Aggregate_steps_is [OF assms(2) _ _ assms(4,5)] by blast
  from AggregateQBox_run_steps [OF r(1) [unfolded assms(3)]] r(2) show ?thesis by blast
qed

theorem aggregate_equals_reference_witness:
  "\<exists>qi' b t1 t2. AggregateQBox_run (QBoxInvocation_new (\<lambda>_. 0)) four_tuples (counting_box WINDOW_BY_VALUES 2 1) =
       (qi', [], Some (Inr (b, [t1, t2]))) \<and>
     carries (counting_box WINDOW_BY_VALUES 2 1) t1 ([], 0, [3]) \<and>
     carries (counting_box WINDOW_BY_VALUES 2 1) t2 ([], 1, [2])"
proof -
  let ?box = "counting_box WINDOW_BY_VALUES 2 1"
  have f: "regular ?box" "in_order ?box four_tuples" "\<forall>t \<in> set four_tuples. plain t" "setup_counting ''VALUES'' 2 1 = Inr ?box"
    by (simp_all add: regular_def in_order_def four_tuples_def)
  from aggregate_equals_reference [OF f(4) [unfolded setup_counting_def] f(1), of four_tuples "QBoxInvocation_new (\<lambda>_. 0)" four_tuples] f(2,3)
  show ?thesis by (auto simp: run_four counting_results list_all2_Cons2)
qed

text \<open>
  C16. Aggregation over windows of tuple counts equals its reference: a box that was just set up with
  windows of W tuples advancing by A outputs, after every A-th tuple of a group from the W-th
  on, every aggregate of exactly the last W tuples of the group, in any interleaving of the groups.
\<close>

theorem tuple_windows_equal_reference:
  assumes "Aggregate_setup ps mem tids dbytes hsize = Inr box" "by_tuples box W A"
    and "ts = take (run_count 0 qi xs) xs" "\<forall>t \<in> set ts. plain t"
  shows "\<exists>qi' b outs. AggregateQBox_run qi xs box = (qi', drop (run_count 0 qi xs) xs, Some (Inr (b, outs))) \<and>
    list_all2 (carries box) outs (concat (map (tuple_results box W A ts) [0..<length ts])) \<and> min W A = A"
proof -
  have "open_windows box = Map.empty" "advance_size box \<le> agg_window_size box"
    using Aggregate_setup_Inr [OF assms(1)] by auto
  moreover from this have "min W A = A" using assms(2) by (simp add: by_tuples_def)
  ultimately obtain b outs where r: "Aggregate_steps ts box = Some (Inr (b, outs))"
    "list_all2 (carries box) outs (concat (map (tuple_results box W A ts) [0..<length ts]))"
    using Aggregate_steps_tuples [OF assms(2) _ assms(4)] by blast
  from AggregateQBox_run_steps [OF r(1) [unfolded assms(3)]] r(2) \<open>min W A = A\<close> show ?thesis by blast
qed

theorem tuple_windows_equal_reference_witness:
  "\<exists>qi' b t1 t2. AggregateQBox_run (QBoxInvocation_new (\<lambda>_. 0)) four_tuples (counting_box WINDOW_BY_TUPLES 2 2) =
       (qi', [], Some (Inr (b, [t1, t2]))) \<and>
     carries (counting_box WINDOW_BY_TUPLES 2 2) t1 ([], 0, [2]) \<and>
     carries (counting_box WINDOW_BY_TUPLES 2 2) t2 ([], 1, [2])"
proof -
  let ?box = "counting_box WINDOW_BY_TUPLES 2 2"
  have f: "by_tuples ?box 2 2" "\<forall>t \<in> set four_tuples. plain t" "setup_counting ''TUPLES'' 2 2 = Inr ?box"
    by (simp_all add: by_tuples_def four_tuples_def)
  from tuple_windows_equal_reference [OF f(3) [unfolded setup_counting_def] f(1), of four_tuples "QBoxInvocation_new (\<lambda>_. 0)" four_tuples] f(2)
  show ?thesis by (auto simp: run_four counting_tuple_results list_all2_Cons2)
qed

text \<open>
  C11. The windows of the Aggregate box stay well-typed and no run fails: whatever the parameters that setup
  accepts with a positive advance (windows over values or tuples, slack, timeouts, behind a load shedder), on any tuples that, for
  windows over values, have values on which sums of doubles are exact (finite, multiples of one power of two, 53 bits with the advance
  and the size of a window), a run ends without an error and without a reference to a window that is gone; after it, every
  open window has one state per function and is listed under its own group, and the timeout list refers to
  exactly the open windows. On these values the loop over window starts with rounded sums is that of the model (open_regular_exact). On other values the rounding may absorb the advance, and opening windows need not end
  (open_regular_absorbed).
\<close>

theorem aggregate_well_formed:
  assumes "Aggregate_setup ps mem tids dbytes hsize = Inr box" "0 < p_advance ps"
    and "agg_method box = WINDOW_BY_VALUES \<longrightarrow> exact_doubles box xs"
  shows "\<exists>qi' b outs. AggregateQBox_run qi xs box = (qi', drop (run_count 0 qi xs) xs, Some (Inr (b, outs))) \<and>
    agg_wf b \<and> agg_config b = agg_config box"
proof -
  have "agg_wf box" "0 < advance_size box"
    using Aggregate_setup_Inr(1) [OF assms(1)] assms(2) by (auto simp: Aggregate_new_wf)
  from Aggregate_steps_ok [OF this] obtain b outs where
    r: "Aggregate_steps (take (run_count 0 qi xs) xs) box = Some (Inr (b, outs))" "agg_wf b \<and> agg_config b = agg_config box"
    by blast
  from AggregateQBox_run_steps [OF r(1)] r(2) show ?thesis by blast
qed

theorem aggregate_well_formed_witness:
  "\<exists>qi' b outs. AggregateQBox_run (QBoxInvocation_new (\<lambda>_. 0)) four_tuples (counting_box WINDOW_BY_VALUES 2 1) =
       (qi', [], Some (Inr (b, outs))) \<and> agg_wf b"
proof -
  have f: "setup_counting ''VALUES'' 2 1 = Inr (counting_box WINDOW_BY_VALUES 2 1)" "0 < p_advance (counting ''VALUES'' 2 1)"
    by (simp_all add: counting_def)
  have "exact_doubles (counting_box WINDOW_BY_VALUES 2 1) four_tuples"
    unfolding exact_doubles_def
    by (rule exI [of _ 0]) (simp add: exact_at_def four_tuples_def counting_box_def Aggregate_new_def counting_def numbered_tuple_def)
  then have "agg_method (counting_box WINDOW_BY_VALUES 2 1) = WINDOW_BY_VALUES \<longrightarrow>
      exact_doubles (counting_box WINDOW_BY_VALUES 2 1) four_tuples" by blast
  from aggregate_well_formed [OF f(1) [unfolded setup_counting_def] f(2) this, of "QBoxInvocation_new (\<lambda>_. 0)"]
  show ?thesis by (auto simp: run_four)
qed

text \<open>
  Setup accepts an advance that is zero or negative, and then the first tuple of a group never returns:
  the box opens windows for ever.
\<close>

lemma nonpositive_advance_hangs:
  assumes "Aggregate_setup ps mem tids dbytes hsize = Inr box" "p_advance ps \<le> 0" "p_size_by ps = ''VALUES''"
    and "p_timeout ps = None" "\<not> or_default False (p_drop_mode ps)" "plain t"
  shows "Aggregate_step t box = None"
proof -
  obtain om where box: "box = Aggregate_new ps WINDOW_BY_VALUES om mem tids dbytes hsize"
    using Aggregate_setup_Inr(1) [OF assms(1)] assms(3) by (auto simp: method_of_name_def)
  show ?thesis
    using assms(2,4-6) by (simp add: open_value_windows_diverges Aggregate_step_def box plain_def expire_timeouts_def timeout_of_def Let_def set_windows_def)
qed

end
