(* ===== verification/Shed_Properties.thy ===== *)
theory Shed_Properties
  imports Shed_Aggregate Window_Drop_Properties Aggregate_Properties
begin

text \<open>Load shedding in front of an aggregate: a query on the shed stream against the query on the whole stream.\<close>

section \<open>Runs\<close>

lemma shed_run:
  assumes "behind_dropper d box" "window_starts box = Map.empty" "open_windows box = Map.empty"
    and "gapless d ts" "\<forall>u \<in> set ts. 0 \<le> window_field d u \<and> plain u"
  shows "\<exists>b outs rs. Aggregate_steps (shed_all d opens ts) box = Some (Inr (b, outs)) \<and> shed_state d opens box ts b \<and>
    list_all2 (carries box) outs rs \<and> set rs = (\<Union>g. shed_results d opens box ts g)"
  using assms(4,5)
proof (induction ts rule: rev_induct)
  case Nil
  have "\<not> opened d opens [] g k" for g k by (simp add: opened_def)
  then show ?case using assms(2,3)
    by (simp add: shed_all_def shed_state_def shed_group_def windows_of_def shed_results_def)
next
  case (snoc t ts)
  obtain b outs rs where IH: "Aggregate_steps (shed_all d opens ts) box = Some (Inr (b, outs))" "shed_state d opens box ts b"
    "list_all2 (carries box) outs rs" "set rs = (\<Union>g. shed_results d opens box ts g)"
    using snoc.IH gapless_snoc(1) [OF snoc.prems(1)] snoc.prems(2) by auto
  show ?case
  proof (cases "shed d opens (ts @ [t]) (length ts)")
    case Nil
    note n = shed_nothing [OF assms(1) snoc.prems(1) Nil]
    have "shed_all d opens (ts @ [t]) = shed_all d opens ts" by (simp add: shed_all_snoc Nil)
    then show ?thesis using IH n(1) [OF IH(2)] n(2) by auto
  next
    case (Cons t' rest)
    then have t': "shed d opens (ts @ [t]) (length ts) = [t']" by (auto simp: shed_def Let_def split: if_splits)
    have p: "0 \<le> window_field d t" "plain t" using snoc.prems(2) by simp_all
    from shed_step [OF assms(1) snoc.prems(1) p t' IH(2)] obtain b' outs' rs' where
      st: "Aggregate_step t' b = Some (Inr (b', outs'))" "shed_state d opens box (ts @ [t]) b'"
      "list_all2 (carries box) outs' rs'"
      "\<forall>g. shed_results d opens box (ts @ [t]) g = (if g = group_by_fields d t then set rs' else {}) \<union> shed_results d opens box ts g"
      by blast
    have "Aggregate_steps (shed_all d opens (ts @ [t])) box = Some (Inr (b', outs @ outs'))"
      using Aggregate_steps_snoc [OF IH(1), of t'] st(1) by (simp add: shed_all_snoc t')
    moreover have "set (rs @ rs') = (\<Union>g. shed_results d opens box (ts @ [t]) g)"
      using IH(4) st(4) by (auto split: if_splits)
    ultimately show ?thesis using st(2) list_all2_appendI [OF IH(3) st(3)] by blast
  qed
qed

text \<open>The results of opened windows are those of the stream that was not shed.\<close>

lemma opened_is_start:
  assumes "opened d opens ts g k" "behind_dropper d box"
  defines "us \<equiv> wd_group d g ts" and "us' \<equiv> wd_group d g (shed_all d opens ts)"
  shows "the_result box g (agg_window_field box (hd us)) us' k = the_result box g (agg_window_field box (hd us)) us k"
    "agg_content box (agg_window_field box (hd us)) us k \<noteq> []"
proof -
  note bd = behindD [OF assms(2)]
  obtain j where j: "j < length ts" "group_by_fields d (ts ! j) = g" "is_start d ts j" "opens j"
    "window_field d (ts ! j) = window_field d (hd us) + int k * window_slide d"
    using assms(1) by (auto simp: opened_def us_def)
  let ?v0 = "agg_window_field box (hd us)"
  have st: "agg_start box ?v0 k = of_int (window_field d (ts ! j))"
    using j(5) agg_start_of_int [OF assms(2), of "window_field d (hd us)" k] bd(8) by simp
  let ?P = "\<lambda>u. group_by_fields d u = group_by_fields d (ts ! j) \<and> window_field d (ts ! j) \<le> window_field d u \<and>
      window_field d u < window_field d (ts ! j) + window_size d"
  have win: "agg_start box ?v0 k \<le> agg_window_field box u \<and> agg_window_field box u < agg_start box ?v0 k + agg_window_size box \<longleftrightarrow>
      window_field d (ts ! j) \<le> window_field d u \<and> window_field d u < window_field d (ts ! j) + window_size d" for u
    unfolding bd(6,8) st [unfolded bd(8)] of_int_add [symmetric] of_int_less_iff of_int_le_iff by (rule refl)
  have c: "agg_content box ?v0 (wd_group d g xs) k = filter ?P xs" for xs
    unfolding agg_content_def filter_filter win using j(2) by (intro filter_cong) auto
  have "list_all2 respecified (filter ?P (shed_all d opens ts)) (filter ?P ts)"
    using bd(10,11) by (intro shed_keeps_window j(1,3,4)) simp
  then show "the_result box g ?v0 us' k = the_result box g ?v0 us k"
    using agg_states_respecified [OF _ bd(15)] c unfolding us_def us'_def the_result_def by simp
  have "ts ! j \<in> set (filter ?P ts)" using j(1) bd(12) by simp
  then show "agg_content box ?v0 us k \<noteq> []" unfolding us_def c [of ts, folded us_def] by (metis c empty_iff empty_set us_def)
qed

lemma shed_results_subset:
  assumes "behind_dropper d box" "in_order box ts"
  shows "shed_results d opens box ts g \<subseteq> set (all_results box ts)"
proof
  fix r
  assume "r \<in> shed_results d opens box ts g"
  then obtain k u where k: "r = the_result box g (agg_window_field box (hd (wd_group d g ts))) (wd_group d g (shed_all d opens ts)) k"
    "opened d opens ts g k" "u \<in> set (wd_group d g (shed_all d opens ts))"
    "agg_start box (agg_window_field box (hd (wd_group d g ts))) k + agg_window_size box \<le> agg_window_field box u"
    by (auto simp: shed_results_def Let_def)
  note bd = behindD [OF assms(1)]
  have us: "wd_group d g ts \<noteq> []" using opened_nonempty [OF k(2)] .
  obtain w where w: "w \<in> set ts" "respecified u w" using shed_sources [of u d opens ts] k(3) by auto
  then have wg: "w \<in> set (wd_group d g ts)" "agg_window_field box u = agg_window_field box w"
    using bd(8,10,11) k(3) by (auto simp: respecified_def)
  have "sorted (map (agg_window_field box) (wd_group d g ts))" using assms(2) bd(9) by (simp add: in_order_def)
  moreover have "sorted (map f xs) \<Longrightarrow> w \<in> set xs \<Longrightarrow> f w \<le> f (last xs)" for f :: "tuple \<Rightarrow> rat" and xs
    by (induction xs) auto
  ultimately have "agg_window_field box w \<le> agg_window_field box (last (wd_group d g ts))" using wg(1) by blast
  then have "the_result box g (agg_window_field box (hd (wd_group d g ts))) (wd_group d g ts) k \<in> set (all_results box ts)"
    using closed_window_is_result [OF bd(14) assms(2), of g k] us k(4) wg(2) opened_is_start(2) [OF k(2) assms(1)]
    by (simp add: bd(9))
  then show "r \<in> set (all_results box ts)" using opened_is_start(1) [OF k(2) assms(1)] k(1) by simp
qed

text \<open>A tuple that says when its window closes is a window start at which the window opened.\<close>

lemma win_spec_opened:
  assumes "behind_dropper d box" "\<forall>t \<in> set ts. plain t" "u \<in> set (shed_all d opens ts)" "0 < win_spec u"
  shows "\<exists>k. opened d opens ts (group_by_fields d u) k \<and>
    window_field d u = window_field d (hd (wd_group d (group_by_fields d u) ts)) + int k * window_slide d"
proof -
  note bd = behindD [OF assms(1)]
  obtain i where i: "i < length ts" "u \<in> set (shed d opens ts i)" using assms(3) by (auto simp: shed_all_def)
  have "win_spec (ts ! i) = -1" using assms(2) i(1) by (simp add: plain_def)
  then have st: "is_start d ts i" "opens i" "group_by_fields d u = group_by_fields d (ts ! i)" "window_field d u = window_field d (ts ! i)"
    using i(2) assms(4) bd(10,11) by (auto simp: shed_def Let_def split: if_splits)
  let ?g = "group_by_fields d (ts ! i)"
  let ?earlier = "wd_group d ?g (take i ts)"
  have "wd_group d ?g ts = ?earlier @ ts ! i # wd_group d ?g (drop (Suc i) ts)"
    using id_take_nth_drop [OF i(1)] by (metis (mono_tags, lifting) filter.simps(2) filter_append)
  then have h: "hd (wd_group d ?g ts) = (if ?earlier = [] then ts ! i else hd ?earlier)" by simp
  have "\<exists>k. window_field d (ts ! i) = window_field d (hd (wd_group d ?g ts)) + int k * window_slide d"
  proof (cases "?earlier = []")
    case True
    then show ?thesis using h by (intro exI [of _ 0]) simp
  next
    case False
    have "window_slide d dvd window_field d (ts ! i) - window_field d (hd ?earlier)"
      "window_field d (hd ?earlier) < window_field d (ts ! i)" using st(1) False hd_in_set [OF False] by (auto simp: is_start_def Let_def)
    moreover from this obtain m where m: "window_field d (ts ! i) - window_field d (hd ?earlier) = window_slide d * m" by (elim dvdE)
    ultimately have "0 < window_slide d * m" by simp
    then have "0 \<le> m" using bd(13) by (simp add: zero_less_mult_iff)
    then show ?thesis using m(1) h False by (intro exI [of _ "nat m"]) (simp add: algebra_simps)
  qed
  then show ?thesis using st i(1) by (auto simp: opened_def)
qed

lemma gapless_in_order:
  assumes "behind_dropper d box" "gapless d ts"
  shows "in_order box ts"
  unfolding in_order_def
proof
  fix g
  note bd = behindD [OF assms(1)]
  have "successively (\<lambda>a b. window_field d a \<le> window_field d b) (wd_group d g ts)"
    using assms(2) unfolding gapless_def by (blast intro: successively_mono)
  then have "sorted_wrt (\<lambda>a b. window_field d a \<le> window_field d b) (wd_group d g ts)"
    by (subst (asm) successively_conv_sorted_wrt) (auto intro: transpI)
  then show "sorted (map (agg_window_field box) (agg_group box g ts))"
    by (simp add: sorted_map bd(8,9))
qed

section \<open>Properties\<close>

text \<open>
  C6. On an input without gaps, load shedding never changes a result: take a new window dropper over value windows on one query path, a new Aggregate
  box whose windows and groups match it, and plain data tuples with values that are not negative and per group never decrease and skip no value.
  Then the box behind the dropper outputs only results that it also outputs
  on the whole input, unchanged, whatever the random decisions; and it outputs the result of every window that the
  dropper opened and that a later tuple ends. (With gaps the dropper can lose data or abort: gap_replaces_tuple and gap_fails_assertion. Values, windows and their sums are
  those of an int that does not overflow.)
\<close>

theorem shedding_keeps_results_exact:
  assumes "Aggregate_setup ps mem tids dbytes hsize = Inr box" "behind_dropper d box"
    and "wd_method d = WINDOW_BY_VALUES" "\<not> across_union d" "window_infos d = Map.empty"
    and "gapless d ts" "\<forall>u \<in> set ts. 0 \<le> window_field d u \<and> plain u"
  shows "\<exists>d' kept b outs rs. WindowDropQBox_run ts d = Some (Inr (d', kept)) \<and>
    Aggregate_steps kept box = Some (Inr (b, outs)) \<and> list_all2 (carries box) outs rs \<and>
    set rs \<subseteq> set (concat (map (agg_results box ts) [0..<length ts])) \<and>
    (\<forall>u \<in> set kept. \<forall>w \<in> set kept. 0 < win_spec u \<and> group_by_fields d w = group_by_fields d u \<and>
       window_field d u + window_size d \<le> window_field d w \<longrightarrow>
       (\<exists>states. (group_by_fields d u, of_int (window_field d u), states) \<in> set rs))"
proof -
  note bd = behindD [OF assms(2)]
  have new: "window_starts box = Map.empty" "open_windows box = Map.empty" using Aggregate_setup_Inr(1) [OF assms(1)] by auto
  obtain d' opens where dr: "WindowDropQBox_run ts d = Some (Inr (d', shed_all d opens ts))"
    using run_sheds [OF assms(3) bd(13) assms(4-6)] assms(7) by blast
  from shed_run [OF assms(2) new assms(6,7), of opens] obtain b outs rs where
    ag: "Aggregate_steps (shed_all d opens ts) box = Some (Inr (b, outs))" "list_all2 (carries box) outs rs"
    "set rs = (\<Union>g. shed_results d opens box ts g)" by blast
  have sub: "set rs \<subseteq> set (concat (map (agg_results box ts) [0..<length ts]))"
    using shed_results_subset [OF assms(2) gapless_in_order [OF assms(2,6)]] unfolding ag(3) all_results_def by blast
  have complete: "\<exists>states. (group_by_fields d u, of_int (window_field d u), states) \<in> set rs"
    if u: "u \<in> set (shed_all d opens ts)" "w \<in> set (shed_all d opens ts)" "0 < win_spec u"
      "group_by_fields d w = group_by_fields d u" "window_field d u + window_size d \<le> window_field d w" for u w
  proof -
    let ?g = "group_by_fields d u" and ?us = "wd_group d (group_by_fields d u) ts"
    let ?v0 = "agg_window_field box (hd ?us)" and ?us' = "wd_group d (group_by_fields d u) (shed_all d opens ts)"
    obtain k where k: "opened d opens ts ?g k" "window_field d u = window_field d (hd ?us) + int k * window_slide d"
      using win_spec_opened [OF assms(2) _ u(1,3)] assms(7) by blast
    have st: "agg_start box ?v0 k = of_int (window_field d u)"
      using agg_start_of_int [OF assms(2), of "window_field d (hd ?us)" k] k(2) bd(8) by simp
    have "agg_start box ?v0 k + agg_window_size box \<le> agg_window_field box w"
      unfolding bd(6,8) st [unfolded bd(8)] of_int_add [symmetric] of_int_le_iff using u(5) .
    then have "\<exists>w \<in> set ?us'. agg_start box ?v0 k + agg_window_size box \<le> agg_window_field box w" using u(2,4) by auto
    moreover have "u \<in> set (agg_content box ?v0 ?us' k)"
      using u(1) bd(12) unfolding agg_content_def bd(6,8) st [unfolded bd(8)] of_int_add [symmetric] of_int_less_iff of_int_le_iff by simp
    then have "drop_empty_outputs box \<longrightarrow> agg_content box ?v0 ?us' k \<noteq> []" by auto
    ultimately have "the_result box ?g ?v0 ?us' k \<in> set rs" unfolding ag(3) shed_results_def Let_def using k(1) by blast
    then show ?thesis by (auto simp: the_result_def st)
  qed
  show ?thesis using dr ag(1,2) sub complete by blast
qed

text \<open>A counting aggregate behind the example dropper.\<close>

definition counting_values :: "nat agg_params" where
  "counting_values = (counting ''VALUES'' 3 3)\<lparr>p_window_field := \<lambda>t. of_int (uint (hd (body t)))\<rparr>"

definition value_counter :: "nat aggregate_box" where
  "value_counter = Aggregate_new counting_values WINDOW_BY_VALUES ORDER_BY_TUPLENUM (\<lambda>_. value_tuple 0) (\<lambda>_. 0) (\<lambda>_. []) 0"

theorem shedding_keeps_results_exact_witness:
  "\<exists>ts d' kept b outs rs. ts = map value_tuple [0, 1, 2, 3, 3, 4, 5, 6] \<and>
     WindowDropQBox_run ts (example_dropper (\<lambda>i. i = 0)) = Some (Inr (d', kept)) \<and>
     Aggregate_steps kept value_counter = Some (Inr (b, outs)) \<and> list_all2 (carries value_counter) outs rs \<and>
     set rs \<subseteq> set (concat (map (agg_results value_counter ts) [0..<length ts]))"
proof -
  let ?ts = "map value_tuple [0, 1, 2, 3, 3, 4, 5, 6]"
  have s: "Aggregate_setup counting_values (\<lambda>_. value_tuple 0) (\<lambda>_. 0) (\<lambda>_. []) 0 = Inr value_counter"
    by (simp add: Aggregate_setup_def counting_values_def counting_def method_of_name_def order_of_name_def
        check_window_field_def value_counter_def)
  have b: "behind_dropper (example_dropper (\<lambda>i. i = 0)) value_counter"
    by (simp add: behind_dropper_def regular_def value_counter_def counting_values_def counting_def or_default_def
        timeout_of_def count_aggregate_def Aggregate_new_def example_dropper_def)
  have g: "gapless (example_dropper (\<lambda>i. i = 0)) ?ts"
    "\<forall>u \<in> set ?ts. 0 \<le> window_field (example_dropper (\<lambda>i. i = 0)) u \<and> plain u"
    by (simp_all add: gapless_def plain_def value_tuple_def get_fake_flag_def)
  have d: "wd_method (example_dropper (\<lambda>i. i = 0)) = WINDOW_BY_VALUES" "\<not> across_union (example_dropper (\<lambda>i. i = 0))"
    "window_infos (example_dropper (\<lambda>i. i = 0)) = Map.empty" by simp_all
  from shedding_keeps_results_exact [OF s b d g] obtain d' kept b outs rs where
    "WindowDropQBox_run ?ts (example_dropper (\<lambda>i. i = 0)) = Some (Inr (d', kept))"
    "Aggregate_steps kept value_counter = Some (Inr (b, outs))" "list_all2 (carries value_counter) outs rs"
    "set rs \<subseteq> set (concat (map (agg_results value_counter ?ts) [0..<length ?ts]))" by blast
  then show ?thesis by (intro exI conjI) (rule refl | assumption)+
qed

end
