(* ===== verification/Aggregate_Checkpoint.thy ===== *)
theory Aggregate_Checkpoint
  imports Aggregate_Setup
begin

text \<open>
  Checkpoints of the Aggregate box (\<open>pack_state\<close> and \<open>unpack_state\<close> in boxes/AggregateQBox.cc): the whole
  state, or the groups that changed since the last checkpoint.
\<close>

section \<open>What is sent\<close>

text \<open>
  A window start or window is sent whole or, in a delta, as an update of one that the receiver has. An
  update of a window by values also carries the slack left. The serialised window leaves out
  whether it is empty and whether it was checkpointed; the list iterators are local.
\<close>

datatype saved_start = StartUpdate rat rat | StartFull window_start

datatype 'w saved_window =
  WindowUpdate timestamp timestamp timestamp "'w list" int
| WindowFull "'w window"

record 'w agg_checkpoint =
  ck_delta :: bool
  ck_starts :: "(byte list \<times> saved_start) list"
  ck_timeouts :: "(byte list \<times> nat) list"
  ck_windows :: "(byte list \<times> 'w saved_window list) list"
  ck_tentative :: bool

definition slack_left :: "window_kind \<Rightarrow> int" where
  "slack_left k = (case k of ValueWindow _ _ s \<Rightarrow> s | TupleWindow _ _ _ \<Rightarrow> 0)"

definition save_start :: "bool \<Rightarrow> window_start \<Rightarrow> saved_start" where
  "save_start delta ws = (if delta \<and> ws_checkpointed ws then StartUpdate (ws_next ws) (ws_keep_until ws) else StartFull ws)"

text \<open>
  \<open>save\<close> is what the state of an aggregate's window is after it was serialised and read: the same state for most of the
  windows in expr/StandardAggregates.h, but not for those over BYTE, which write the address of a
  temporary string in place of the value.
\<close>

definition Window_save :: "('w \<Rightarrow> 'w) \<Rightarrow> bool \<Rightarrow> 'w window \<Rightarrow> 'w saved_window" where
  "Window_save save delta w =
     (if delta \<and> w_checkpointed w
      then WindowUpdate (w_t_last w) (w_lt_last w) (w_max_stime w) (map save (agg_windows w)) (slack_left (window_kind w))
      else WindowFull (w\<lparr>agg_windows := map save (agg_windows w)\<rparr>))"

text \<open>The timeout list, as positions in the lists of open windows.\<close>

fun position_of :: "nat \<Rightarrow> 'w window list \<Rightarrow> nat option" where
  "position_of i [] = None"
| "position_of i (w # ws) = (if window_no w = i then Some 0 else map_option Suc (position_of i ws))"

definition timeout_positions :: "'w aggregate_box \<Rightarrow> (byte list \<times> nat) list" where
  "timeout_positions b =
     concat (map (\<lambda>(g, i). case position_of i (windows_of g b) of None \<Rightarrow> [] | Some p \<Rightarrow> [(g, p)]) (timeout_list b))"

text \<open>
  Packing. The orders in which the hash maps are enumerated are arguments: of the window starts and
  of the open windows, which in a delta are both that of the changed groups. The subscripts of the open
  windows create an empty list for a group that has none.
\<close>

definition start_of :: "'w aggregate_box \<Rightarrow> byte list \<Rightarrow> window_start" where
  "start_of b g = (case window_starts b g of None \<Rightarrow> WindowStart_new 0 0 | Some ws \<Rightarrow> ws)"

definition Aggregate_pack ::
  "('w \<Rightarrow> 'w) \<Rightarrow> bool \<Rightarrow> byte list list \<Rightarrow> byte list list \<Rightarrow> 'w aggregate_box \<Rightarrow> 'w agg_checkpoint \<times> 'w aggregate_box" where
  "Aggregate_pack save delta start_order window_order b =
     (\<lparr>ck_delta = delta, ck_starts = map (\<lambda>g. (g, save_start delta (start_of b g))) start_order,
       ck_timeouts = timeout_positions b,
       ck_windows = map (\<lambda>g. (g, map (Window_save save delta) (windows_of g b))) window_order,
       ck_tentative = box_tentative b\<rparr>,
      b\<lparr>window_starts := (\<lambda>g. if delta \<and> g \<in> set start_order then Some ((start_of b g)\<lparr>ws_checkpointed := True\<rparr>) else window_starts b g),
        open_windows := (\<lambda>g. if delta \<and> g \<in> set window_order
           then Some (map (\<lambda>w. w\<lparr>w_checkpointed := True\<rparr>) (windows_of g b))
           else if g \<in> fst ` set (timeout_list b) then Some (windows_of g b) else open_windows b g),
        dirty_windows := (\<lambda>_. False), count_updated_windows := 0, count_new_windows := 0\<rparr>)"

section \<open>What is restored\<close>

definition load_start :: "saved_start \<Rightarrow> window_start \<Rightarrow> window_start" where
  "load_start s old =
     (case s of StartUpdate n k \<Rightarrow> old\<lparr>ws_next := n, ws_keep_until := k, ws_checkpointed := True\<rparr>
      | StartFull ws \<Rightarrow> ws\<lparr>ws_checkpointed := True\<rparr>)"

text \<open>An update of a window; \<open>upd\<close> is what the update operations of the aggregate's window make of the old and the sent state.\<close>

definition Window_update :: "('w \<Rightarrow> 'w \<Rightarrow> 'w) \<Rightarrow> timestamp \<Rightarrow> timestamp \<Rightarrow> timestamp \<Rightarrow> 'w list \<Rightarrow> int \<Rightarrow> 'w window \<Rightarrow> 'w window" where
  "Window_update upd tlast ltl ms sts sl w =
     w\<lparr>w_t_last := tlast, w_lt_last := ltl, w_max_stime := ms, agg_windows := map2 upd (agg_windows w) sts,
       window_kind := (case window_kind w of ValueWindow lo hi _ \<Rightarrow> ValueWindow lo hi sl | TupleWindow sz n st \<Rightarrow> TupleWindow sz n st),
       w_checkpointed := True\<rparr>"

definition restored_window :: "nat \<Rightarrow> 'w window \<Rightarrow> 'w window" where
  "restored_window i w = w\<lparr>window_no := i, w_empty := True, w_checkpointed := True, in_timeouts := False\<rparr>"

text \<open>
  The windows of a group: an update takes the next window of the old list, a whole window is new.
  \<open>i\<close> is the next free window number; the result has the numbers of updated and of new windows.
\<close>

fun unpack_windows ::
  "('w \<Rightarrow> 'w \<Rightarrow> 'w) \<Rightarrow> 'w saved_window list \<Rightarrow> 'w window list \<Rightarrow> nat \<Rightarrow> ('w window list \<times> nat \<times> int \<times> int) result" where
  "unpack_windows upd [] old i = Inr ([], i, 0, 0)"
| "unpack_windows upd (WindowUpdate tlast ltl ms sts sl # ss) old i =
     (case old of
        [] \<Rightarrow> Inl Undefined
      | w # old1 \<Rightarrow> rbind (unpack_windows upd ss old1 i) (\<lambda>(ws, j, u, n).
          Inr (Window_update upd tlast ltl ms sts sl w # ws, j, u + 1, n)))"
| "unpack_windows upd (WindowFull w # ss) old i =
     rbind (unpack_windows upd ss old (Suc i)) (\<lambda>(ws, j, u, n). Inr (restored_window i w # ws, j, u, n + 1))"

definition unpack_start :: "byte list \<times> saved_start \<Rightarrow> 'w aggregate_box \<Rightarrow> 'w aggregate_box" where
  "unpack_start p b = (case p of (g, s) \<Rightarrow> b\<lparr>window_starts := (window_starts b)(g \<mapsto> load_start s (start_of b g))\<rparr>)"

definition unpack_group ::
  "('w \<Rightarrow> 'w \<Rightarrow> 'w) \<Rightarrow> byte list \<times> 'w saved_window list \<Rightarrow> 'w aggregate_box \<Rightarrow> 'w aggregate_box result" where
  "unpack_group upd p b =
     (case p of (g, ss) \<Rightarrow>
        if ss = [] then Inr (b\<lparr>open_windows := (open_windows b)(g := None)\<rparr>)
        else rbind (unpack_windows upd ss (windows_of g b) (next_window_no b)) (\<lambda>(ws, i, u, n).
               Inr ((set_windows g ws b)\<lparr>next_window_no := i, count_updated_windows := count_updated_windows b + u,
                      count_new_windows := count_new_windows b + n\<rparr>)))"

text \<open>
  The timeout list is cleared and not rebuilt, since that code is commented out; no window's iterator
  into it is valid any more.
\<close>

definition clear_timeouts :: "'w aggregate_box \<Rightarrow> 'w aggregate_box" where
  "clear_timeouts b =
     b\<lparr>timeout_list := [], open_windows := (\<lambda>g. map_option (map (\<lambda>w. w\<lparr>in_timeouts := False\<rparr>)) (open_windows b g))\<rparr>"

definition Aggregate_unpack ::
  "('w \<Rightarrow> 'w \<Rightarrow> 'w) \<Rightarrow> 'w agg_checkpoint \<Rightarrow> 'w aggregate_box \<Rightarrow> 'w aggregate_box result" where
  "Aggregate_unpack upd ck b =
     (let b1 = b\<lparr>count_new_windows := 0, count_updated_windows := 0\<rparr>;
          b2 = (if ck_delta ck then b1 else b1\<lparr>window_starts := Map.empty\<rparr>);
          b3 = fold unpack_start (ck_starts ck) b2;
          b4 = (if ck_delta ck then b3 else b3\<lparr>open_windows := Map.empty\<rparr>)
      in rbind (fold_result (unpack_group upd) (ck_windows ck) b4) (\<lambda>b5.
           Inr (clear_timeouts b5\<lparr>box_tentative := ck_tentative ck\<rparr>)))"

end
