(* ===== verification/Aggregate_Restore.thy ===== *)
theory Aggregate_Restore
  imports Aggregate_Checkpoint
begin

text \<open>
  What a checkpoint has to keep: the part of an Aggregate box that its outputs depend on. Two boxes with the
  same view give the same outputs for ever, when they do not time out and emit empty windows; a box that was
  restored from a full checkpoint has the view of the original.
\<close>

section \<open>The view of a box\<close>

definition window_view :: "'w window \<Rightarrow> 'w window" where
  "window_view w = w\<lparr>window_no := 0, w_empty := True, w_checkpointed := True, in_timeouts := False\<rparr>"

definition start_view :: "window_start \<Rightarrow> window_start" where
  "start_view ws = ws\<lparr>ws_checkpointed := True\<rparr>"

definition box_view :: "'w aggregate_box \<Rightarrow> 'w aggregate_box" where
  "box_view b =
     b\<lparr>window_starts := (\<lambda>g. map_option start_view (window_starts b g)),
       open_windows := (\<lambda>g. Some (map window_view (windows_of g b))), timeout_list := [],
       dirty_windows := (\<lambda>_. False), count_new_windows := 0, count_updated_windows := 0, next_window_no := 0,
       emitted_count := 0, out_memory := (\<lambda>k. out_memory b (emitted_count b + k)),
       stale_tid := (\<lambda>k. stale_tid b (next_window_no b + k))\<rparr>"

lemma window_view_sel [simp]:
  "window_kind (window_view w) = window_kind w" "agg_windows (window_view w) = agg_windows w"
  "w_fake_flag (window_view w) = w_fake_flag w" "group_by_value (window_view w) = group_by_value w"
  "w_t_last (window_view w) = w_t_last w" "w_lt_last (window_view w) = w_lt_last w" "w_tid (window_view w) = w_tid w"
  "w_win_spec (window_view w) = w_win_spec w" "w_max_stime (window_view w) = w_max_stime w"
  "window_initialized (window_view w) = window_initialized w" "window_view (window_view w) = window_view w"
  by (simp_all add: window_view_def)

lemma start_view_sel [simp]:
  "ws_initialized (start_view ws) = ws_initialized ws" "ws_next (start_view ws) = ws_next ws"
  "ws_keep_until (start_view ws) = ws_keep_until ws" "start_view (start_view ws) = start_view ws"
  by (simp_all add: start_view_def)

lemma box_view_sel [simp]:
  "agg_functions (box_view b) = agg_functions b" "agg_drop_mode (box_view b) = agg_drop_mode b"
  "last_agg (box_view b) = last_agg b" "box_tentative (box_view b) = box_tentative b"
  "drop_empty_outputs (box_view b) = drop_empty_outputs b" "independent_alignment (box_view b) = independent_alignment b"
  "agg_method (box_view b) = agg_method b" "agg_window_size (box_view b) = agg_window_size b"
  "advance_size (box_view b) = advance_size b" "agg_order_by (box_view b) = agg_order_by b"
  "agg_window_field (box_view b) = agg_window_field b" "agg_field_is_int32 (box_view b) = agg_field_is_int32 b"
  "agg_field_length (box_view b) = agg_field_length b" "agg_group_by (box_view b) = agg_group_by b"
  "box_slack (box_view b) = box_slack b" "timing_out (box_view b) = timing_out b" "agg_timeout (box_view b) = agg_timeout b"
  "double_bytes (box_view b) = double_bytes b" "agg_header_size (box_view b) = agg_header_size b"
  "window_starts (box_view b) g = map_option start_view (window_starts b g)"
  "windows_of g (box_view b) = map window_view (windows_of g b)"
  "next_window_no (box_view b) = 0" "emitted_count (box_view b) = 0"
  "out_memory (box_view b) k = out_memory b (emitted_count b + k)"
  "stale_tid (box_view b) k = stale_tid b (next_window_no b + k)"
  by (simp_all add: box_view_def windows_of_def)

lemma box_view_idem [simp]: "box_view (box_view b) = box_view b"
  by (simp add: box_view_def option.map_comp comp_def windows_of_def)

text \<open>The view forgets what the box keeps for its bookkeeping.\<close>

lemma box_view_forgets [simp]:
  "box_view (b\<lparr>timeout_list := x1\<rparr>) = box_view b" "box_view (b\<lparr>dirty_windows := x2\<rparr>) = box_view b"
  "box_view (b\<lparr>count_new_windows := x3\<rparr>) = box_view b" "box_view (b\<lparr>count_updated_windows := x4\<rparr>) = box_view b"
  by (simp_all add: box_view_def windows_of_def)

lemma box_view_set [simp]:
  "box_view (set_windows g ws b) = (box_view b)\<lparr>open_windows := (\<lambda>h. Some (map window_view (if h = g then ws else windows_of h b)))\<rparr>"
  "box_view (b\<lparr>box_tentative := x5\<rparr>) = (box_view b)\<lparr>box_tentative := x5\<rparr>"
  "box_view (b\<lparr>agg_drop_mode := x6\<rparr>) = (box_view b)\<lparr>agg_drop_mode := x6\<rparr>"
  by (auto simp: box_view_def set_windows_def windows_of_def fun_eq_iff)

section \<open>The operations on views\<close>

lemma insert_tuple_view:
  "fst (insert_tuple afs v t (window_view w)) = fst (insert_tuple afs v t w)"
  "window_view (snd (insert_tuple afs v t (window_view w))) = window_view (snd (insert_tuple afs v t w))"
  by (simp_all add: insert_tuple_def Window_insert_tuple_def Let_def split: window_kind.split)
     (simp_all add: window_view_def)

lemma final_value_view [simp]: "final_value afs (window_view w) = final_value afs w"
  by (simp add: final_value_def)

lemma emit_for_window_view:
  "fst (emit_for_window (window_view w) (box_view b)) = fst (emit_for_window w b)"
  "box_view (snd (emit_for_window w' b)) = (box_view b)\<lparr>out_memory := (\<lambda>k. out_memory b (emitted_count b + Suc k))\<rparr>"
  by (simp_all add: emit_for_window_def Let_def) (simp add: box_view_def windows_of_def)

lemma insert_new_window_view:
  "box_view (insert_new_window g w b) =
     (box_view b)\<lparr>open_windows := (\<lambda>h. Some (map window_view (windows_of h b @ (if h = g then [w] else [])))),
       stale_tid := (\<lambda>k. stale_tid b (next_window_no b + Suc k))\<rparr>"
  by (auto simp: insert_new_window_def Let_def box_view_def set_windows_def windows_of_def window_view_def fun_eq_iff)

lemma Window_new_view: "window_view (Window_new (box_view b) g k spec fake) = window_view (Window_new b g k spec fake)"
  by (simp add: Window_new_def window_view_def)

section \<open>Boxes with the same view\<close>

lemma same_viewD:
  assumes "box_view b = box_view b'"
  shows "agg_functions b = agg_functions b'" "agg_drop_mode b = agg_drop_mode b'" "last_agg b = last_agg b'"
    "box_tentative b = box_tentative b'" "drop_empty_outputs b = drop_empty_outputs b'"
    "independent_alignment b = independent_alignment b'" "agg_method b = agg_method b'"
    "agg_window_size b = agg_window_size b'" "advance_size b = advance_size b'" "agg_order_by b = agg_order_by b'"
    "agg_window_field b = agg_window_field b'" "agg_group_by b = agg_group_by b'" "box_slack b = box_slack b'"
    "timing_out b = timing_out b'" "agg_header_size b = agg_header_size b'"
    "map_option start_view (window_starts b g) = map_option start_view (window_starts b' g)"
    "map window_view (windows_of g b) = map window_view (windows_of g b')"
    "out_memory b (emitted_count b + k) = out_memory b' (emitted_count b' + k)"
    "stale_tid b (next_window_no b + k) = stale_tid b' (next_window_no b' + k)"
  using assms box_view_sel [where b = b] box_view_sel [where b = b'] by metis+

lemma emit_same:
  assumes "box_view b = box_view b'" "window_view w = window_view w'" "\<not> drop_empty_outputs b"
  shows "fst (emit_unless_empty w b) = fst (emit_unless_empty w' b')"
    "box_view (snd (emit_unless_empty w b)) = box_view (snd (emit_unless_empty w' b'))"
proof -
  have "fst (emit_for_window w b) = fst (emit_for_window w' b')"
    using emit_for_window_view(1) [of w b] emit_for_window_view(1) [of w' b'] assms(1,2) by simp
  then show "fst (emit_unless_empty w b) = fst (emit_unless_empty w' b')"
    using assms(3) same_viewD(5) [OF assms(1)] by (simp add: emit_unless_empty_def split_beta)
  have "(\<lambda>k. out_memory b (emitted_count b + Suc k)) = (\<lambda>k. out_memory b' (emitted_count b' + Suc k))"
    by (rule ext) (rule same_viewD(18) [OF assms(1)])
  then have "box_view (snd (emit_for_window w b)) = box_view (snd (emit_for_window w' b'))"
    unfolding emit_for_window_view(2) assms(1) by simp
  then show "box_view (snd (emit_unless_empty w b)) = box_view (snd (emit_unless_empty w' b'))"
    using assms(3) same_viewD(5) [OF assms(1)] by (simp add: emit_unless_empty_def split_beta)
qed

lemma insert_new_window_same:
  assumes "box_view b = box_view b'" "window_view w = window_view w'"
  shows "box_view (insert_new_window g w b) = box_view (insert_new_window g w' b')"
proof -
  have s: "(\<lambda>k. stale_tid b (next_window_no b + Suc k)) = (\<lambda>k. stale_tid b' (next_window_no b' + Suc k))"
    by (rule ext) (rule same_viewD(19) [OF assms(1)])
  have "(\<lambda>h. Some (map window_view (windows_of h b @ (if h = g then [w] else [])))) =
      (\<lambda>h. Some (map window_view (windows_of h b' @ (if h = g then [w'] else []))))"
    using assms(2) same_viewD(17) [OF assms(1)] by (auto simp: fun_eq_iff)
  then show ?thesis unfolding insert_new_window_view s assms(1) by simp
qed

lemma Window_new_same:
  "box_view b = box_view b' \<Longrightarrow> window_view (Window_new b g k spec fake) = window_view (Window_new b' g k spec fake)"
  by (metis Window_new_view)

text \<open>Results up to the view.\<close>

abbreviation insert_view :: "('w window list \<times> 'w aggregate_box \<times> tuple list) result \<Rightarrow> ('w window list \<times> 'w aggregate_box \<times> tuple list) result" where
  "insert_view \<equiv> map_sum id (\<lambda>(kept, b, out). (map window_view kept, box_view b, out))"

lemma insert_view_cases:
  assumes "insert_view r = insert_view r'"
  shows "(\<exists>e. r = Inl e \<and> r' = Inl e) \<or> (\<exists>kept b out kept' b'. r = Inr (kept, b, out) \<and> r' = Inr (kept', b', out) \<and>
    map window_view kept = map window_view kept' \<and> box_view b = box_view b')"
  using assms by (cases r; cases r') auto

lemma insert_all_same:
  assumes "map window_view ws = map window_view ws'" "box_view b = box_view b'"
    and "\<not> drop_empty_outputs b" "\<not> timing_out b"
  shows "insert_view (insert_all g t ws b) = insert_view (insert_all g t ws' b')"
  using assms
proof (induction ws arbitrary: ws' b b')
  case Nil
  then show ?case by simp
next
  case (Cons w ws)
  obtain w' ws0 where ws': "ws' = w' # ws0" "window_view w = window_view w'" "map window_view ws = map window_view ws0"
    using Cons.prems(1) by (cases ws') auto
  note same = same_viewD [OF Cons.prems(2)]
  let ?i = "insert_tuple (agg_functions b) (agg_window_field b t) t"
  have i: "fst (?i w) = fst (?i w')" "window_view (snd (?i w)) = window_view (snd (?i w'))"
    using ws'(2) insert_tuple_view [of _ _ _ w] insert_tuple_view [of _ _ _ w'] by metis+
  note e = emit_same [OF Cons.prems(2) i(2) Cons.prems(3)]
  have keep: "\<not> drop_empty_outputs (snd (emit_unless_empty x b))" "\<not> timing_out (snd (emit_unless_empty x b))" for x
    using Cons.prems(3,4) by (simp_all add: emit_unless_empty_def emit_for_window_def Let_def)
  have keep': "\<not> timing_out (snd (emit_unless_empty x b'))" for x
    using Cons.prems(4) same(14) by (simp add: emit_unless_empty_def emit_for_window_def Let_def)
  note ih1 = insert_view_cases [OF Cons.IH [OF ws'(3) Cons.prems(2-4)]]
    and ih2 = insert_view_cases [OF Cons.IH [OF ws'(3) e(2) keep(1) keep(2)]]
  show ?case
  proof (cases "fst (?i w)")
    case True
    then show ?thesis using ih2 i e(1) keep(2) keep' same(1,11)
      by (fastforce simp: ws'(1) split_beta Let_def rbind_def)
  next
    case False
    then show ?thesis using ih1 i same(1,11) by (fastforce simp: ws'(1) split_beta Let_def rbind_def)
  qed
qed

section \<open>Opening windows\<close>

lemma last_kind_same:
  assumes "map window_view ws = map window_view ws'" "ws \<noteq> []"
  shows "window_kind (last ws) = window_kind (last ws')"
proof -
  have "window_view (last ws) = window_view (last ws')"
    using assms by (metis last_map list.map_disc_iff)
  then show ?thesis by (metis window_view_sel(1))
qed

lemma open_tuple_window_same:
  assumes "box_view b = box_view b'"
  shows "box_view (open_tuple_window g t b) = box_view (open_tuple_window g t b')"
proof -
  note same = same_viewD [OF assms]
  have e: "windows_of g b = [] \<longleftrightarrow> windows_of g b' = []" using same(17) by (metis list.map_disc_iff)
  then have "windows_of g b = [] \<or> of_int (tuple_count (window_kind (last (windows_of g b)))) \<ge> advance_size b \<longleftrightarrow>
      windows_of g b' = [] \<or> of_int (tuple_count (window_kind (last (windows_of g b')))) \<ge> advance_size b'"
    using last_kind_same [OF same(17)] same(9) by auto
  then show ?thesis using assms same(8,10,11)
    by (simp add: open_tuple_window_def Let_def insert_new_window_same [OF assms Window_new_same [OF assms]])
qed

lemma open_value_window_same:
  assumes "box_view b = box_view b'"
  shows "box_view (open_value_window g x spec fake b) = box_view (open_value_window g x spec fake b')"
  using insert_new_window_same [OF assms Window_new_same [OF assms]] same_viewD [OF assms]
  by (simp add: open_value_window_def)

text \<open>A loop whose states have a view that decides the test and the view of the next state.\<close>

lemma while_option_same:
  assumes "\<And>s. b (f s) = b s" "\<And>s. b s \<Longrightarrow> f (c (f s)) = f (c s)" "f s = f s'"
  shows "map_option f (while_option b c s) = map_option f (while_option b c s')"
proof -
  have "map_option f (while_option b c x) = while_option b (\<lambda>s. f (c s)) (f x)" for x
    by (rule while_option_commute) (simp_all add: assms(1,2))
  then show ?thesis by (simp add: assms(3))
qed

lemma open_regular_same:
  assumes "box_view b = box_view b'" "start_view ws = start_view ws'"
  shows "map_option (map_prod start_view box_view) (open_regular g v spec ws b) =
    map_option (map_prod start_view box_view) (open_regular g v spec ws' b')"
  unfolding open_regular_def
proof (rule while_option_same)
  fix s :: "window_start \<times> 'a aggregate_box"
  have v: "box_view (open_value_window g x spec False (box_view b)) = box_view (open_value_window g x spec False b)"
    for x and b :: "'a aggregate_box" by (rule open_value_window_same) simp
  show "map_prod start_view box_view (case map_prod start_view box_view s of (ws, b) \<Rightarrow>
        (ws\<lparr>ws_next := ws_next ws + advance_size b\<rparr>, open_value_window g (ws_next ws) spec False b)) =
      map_prod start_view box_view (case s of (ws, b) \<Rightarrow>
        (ws\<lparr>ws_next := ws_next ws + advance_size b\<rparr>, open_value_window g (ws_next ws) spec False b))"
    by (simp add: split_beta v) (simp add: start_view_def)
qed (use assms in \<open>simp_all add: split_beta\<close>)

lemma open_shed_same:
  assumes "box_view b = box_view b'" "start_view ws = start_view ws'"
  shows "map_prod start_view box_view (open_shed g v spec ws b) = map_prod start_view box_view (open_shed g v spec ws' b')"
proof -
  have w: "ws_next ws = ws_next ws'" "ws_keep_until ws = ws_keep_until ws'"
    using assms(2) start_view_sel by metis+
  have u: "start_view (ws\<lparr>ws_next := n\<rparr>) = start_view (ws'\<lparr>ws_next := n\<rparr>)"
    "start_view (ws\<lparr>ws_keep_until := k\<rparr>) = start_view (ws'\<lparr>ws_keep_until := k\<rparr>)"
    "start_view (ws\<lparr>ws_next := n, ws_keep_until := k\<rparr>) = start_view (ws'\<lparr>ws_next := n, ws_keep_until := k\<rparr>)" for n k
    using assms(2) by (cases ws; cases ws'; simp add: start_view_def)+
  show ?thesis unfolding open_shed_def Let_def w same_viewD [OF assms(1)]
    by (simp add: u assms open_value_window_same [OF assms(1)] split del: if_split cong: if_cong split: if_split)
qed

lemma put_start_same:
  assumes "box_view b = box_view b'" "start_view ws = start_view ws'"
  shows "box_view (b\<lparr>window_starts := (window_starts b)(g \<mapsto> ws)\<rparr>) = box_view (b'\<lparr>window_starts := (window_starts b')(g \<mapsto> ws')\<rparr>)"
proof -
  have "box_view (c\<lparr>window_starts := (window_starts c)(g \<mapsto> w)\<rparr>) =
      (box_view c)\<lparr>window_starts := (window_starts (box_view c))(g \<mapsto> start_view w)\<rparr>" for c :: "'a aggregate_box" and w
    by (auto simp: box_view_def windows_of_def fun_eq_iff)
  then show ?thesis by (simp add: assms)
qed

lemma open_value_windows_same:
  assumes "box_view b = box_view b'"
  shows "map_option box_view (open_value_windows g t b) = map_option box_view (open_value_windows g t b')"
proof -
  note same = same_viewD [OF assms]
  define ini where "ini c = (case window_starts c g of None \<Rightarrow> WindowStart_new 0 0 | Some ws \<Rightarrow> ws)" for c :: "'a aggregate_box"
  have i: "start_view (ini b) = start_view (ini b')"
    using same(16) [of g] by (cases "window_starts b g"; cases "window_starts b' g") (auto simp: ini_def)
  define v where "v c = (if \<not> ws_initialized (ini c) \<and> independent_alignment c
    then agg_window_field c t - c_fmod (agg_window_field c t) (advance_size c) else agg_window_field c t)" for c
  have ii: "ws_initialized (ini b) = ws_initialized (ini b')" using i start_view_sel(1) by metis
  have v: "v b = v b'" by (simp add: v_def ii same)
  define ws where "ws c = (if ws_initialized (ini c) then ini c
    else (ini c)\<lparr>ws_initialized := True, ws_next := v c, ws_keep_until := 0\<rparr>)" for c
  have w: "start_view (ws b) = start_view (ws b')"
    using i ii v by (cases "ini b"; cases "ini b'") (simp add: ws_def start_view_def)
  have n: "ws_next (ws b) = ws_next (ws b')" using w start_view_sel(2) by metis
  have u: "start_view ((ws b)\<lparr>ws_next := n\<rparr>) = start_view ((ws b')\<lparr>ws_next := n\<rparr>)" for n
    using w by (cases "ws b"; cases "ws b'") (simp add: start_view_def)
  define put where "put = (\<lambda>(ws, c). c\<lparr>window_starts := (window_starts c)(g \<mapsto> ws)\<rparr> :: 'a aggregate_box)"
  have p: "box_view (put p) = box_view (put q)" if "map_prod start_view box_view p = map_prod start_view box_view q" for p q
    using that put_start_same by (auto simp: put_def split_beta map_prod_def)
  have eq: "open_value_windows g t c = (if agg_drop_mode c
      then case while_option (\<lambda>n. v c > n) (\<lambda>n. n + advance_size c) (ws_next (ws c)) of None \<Rightarrow> None
        | Some n \<Rightarrow> Some (put (open_shed g (v c) (win_spec t) ((ws c)\<lparr>ws_next := n\<rparr>) c))
      else map_option put (open_regular g (v c) (win_spec t) (ws c) c))" for c
    by (simp only: open_value_windows_def Let_def v_def ws_def ini_def put_def)
  show ?thesis
  proof (cases "agg_drop_mode b")
    case True
    then show ?thesis using same(2) p [OF open_shed_same [OF assms u]]
      by (simp add: eq v n same(9) split: option.split)
  next
    case False
    let ?r = "open_regular g (v b') (win_spec t)"
    have "map_option (map_prod start_view box_view) (?r (ws b) b) = map_option (map_prod start_view box_view) (?r (ws b') b')"
      by (rule open_regular_same [OF assms w])
    then have "map_option (\<lambda>p. box_view (put p)) (?r (ws b) b) = map_option (\<lambda>p. box_view (put p)) (?r (ws b') b')"
      by (cases "?r (ws b) b"; cases "?r (ws b') b'") (auto intro: p)
    then show ?thesis using False same(2) by (simp add: eq v option.map_comp comp_def)
  qed
qed

section \<open>Steps\<close>

abbreviation step_view :: "('w aggregate_box \<times> tuple list) result option \<Rightarrow> ('w aggregate_box \<times> tuple list) result option" where
  "step_view \<equiv> map_option (map_sum id (map_prod box_view id))"

lemma forward_control_same:
  assumes "box_view b = box_view b'"
  shows "map_prod box_view id (forward_control t b) = map_prod box_view id (forward_control t b')"
proof -
  have e: "box_view (c\<lparr>emitted_count := Suc (emitted_count c)\<rparr>) =
      (box_view c)\<lparr>out_memory := (\<lambda>k. out_memory c (emitted_count c + Suc k))\<rparr>" for c :: "'a aggregate_box"
    by (simp add: box_view_def windows_of_def)
  have "(\<lambda>k. out_memory b (emitted_count b + Suc k)) = (\<lambda>k. out_memory b' (emitted_count b' + Suc k))"
    by (rule ext) (rule same_viewD(18) [OF assms])
  then show ?thesis using same_viewD(18) [OF assms, of 0] same_viewD(15) [OF assms]
    by (simp add: forward_control_def e assms)
qed

text \<open>What the equivalence asks of the configuration no step changes.\<close>

definition plain_config :: "'w aggregate_box \<Rightarrow> bool \<times> bool" where
  "plain_config b = (drop_empty_outputs b, timing_out b)"

lemma plain_config_upd [simp]:
  "plain_config (set_windows g ws b) = plain_config b" "plain_config (b\<lparr>window_starts := x1\<rparr>) = plain_config b"
  "plain_config (b\<lparr>box_tentative := x2\<rparr>) = plain_config b" "plain_config (b\<lparr>dirty_windows := x3\<rparr>) = plain_config b"
  "plain_config (b\<lparr>agg_drop_mode := x4\<rparr>) = plain_config b" "plain_config (b\<lparr>emitted_count := x5\<rparr>) = plain_config b"
  "plain_config (b\<lparr>count_new_windows := x6\<rparr>) = plain_config b" "plain_config (b\<lparr>count_updated_windows := x7\<rparr>) = plain_config b"
  "plain_config (insert_new_window g w b) = plain_config b" "plain_config (open_tuple_window g t b) = plain_config b"
  "plain_config (open_value_window g s spec fake b) = plain_config b"
  "plain_config (snd (open_shed g v spec wst b)) = plain_config b"
  by (simp_all add: plain_config_def set_windows_def insert_new_window_def open_tuple_window_def open_value_window_def
      open_shed_def Let_def)

lemma open_regular_config:
  assumes "open_regular g v spec ws b = Some r"
  shows "plain_config (snd r) = plain_config b"
  by (rule while_option_rule [OF _ assms [unfolded open_regular_def], where P = "\<lambda>s. plain_config (snd s) = plain_config b"])
    (auto simp: split_beta)

lemma open_value_windows_config: "open_value_windows g t b = Some b' \<Longrightarrow> plain_config b' = plain_config b"
  by (auto simp: open_value_windows_def Let_def split_beta split: if_splits option.splits dest: open_regular_config)

lemma insert_all_config:
  "insert_all g t ws b = Inr (kept, b', out) \<Longrightarrow> \<not> timing_out b \<Longrightarrow> plain_config b' = plain_config b"
proof (induction ws arbitrary: b kept b' out)
  case (Cons w ws)
  have e: "plain_config (snd (emit_unless_empty x b)) = plain_config b" "timing_out (snd (emit_unless_empty x b)) = timing_out b" for x
    by (simp_all add: emit_unless_empty_def emit_for_window_def Let_def plain_config_def)
  show ?case using Cons.prems e Cons.IH [of b] Cons.IH [of "snd (emit_unless_empty x b)" for x]
    by (fastforce simp: Let_def split_beta split: if_splits)
qed simp

text \<open>The parts of a step of a box that does not time out: before the windows are opened, opening, and the end.\<close>

definition step_begin :: "tuple \<Rightarrow> 'w aggregate_box \<Rightarrow> 'w aggregate_box" where
  "step_begin t b = (if \<not> agg_drop_mode b \<and> win_spec t \<noteq> -1 then b\<lparr>agg_drop_mode := True\<rparr> else b)"

definition step_open :: "tuple \<Rightarrow> 'w aggregate_box \<Rightarrow> 'w aggregate_box option" where
  "step_open t b =
     (let b1 = step_begin t b; g = agg_group_by b t;
          b3 = (set_windows g (windows_of g b1) b1)\<lparr>dirty_windows := (dirty_windows b1)(g := True)\<rparr>
      in map_option (\<lambda>c. if tuple_type t = TENTATIVE then c\<lparr>box_tentative := True\<rparr> else c)
           (if agg_method b = WINDOW_BY_TUPLES then Some (open_tuple_window g t b3) else open_value_windows g t b3))"

definition step_end :: "tuple \<Rightarrow> 'w aggregate_box \<Rightarrow> 'w window list \<times> 'w aggregate_box \<times> tuple list \<Rightarrow> 'w aggregate_box \<times> tuple list" where
  "step_end t b r =
     (let (kept, b6, out) = r; g = agg_group_by b t;
          before = (\<lambda>chk. if dirty_windows b g then count_windows chk (windows_of g b) else 0)
      in ((set_windows g kept b6)\<lparr>count_updated_windows := count_updated_windows b6 + count_windows True kept - before True,
            count_new_windows := count_new_windows b6 + count_windows False kept - before False\<rparr>, out))"

lemma step_begin_sel [simp]:
  "agg_group_by (step_begin t b) = agg_group_by b" "timing_out (step_begin t b) = timing_out b"
  "agg_method (step_begin t b) = agg_method b" "windows_of g (step_begin t b) = windows_of g b"
  "dirty_windows (step_begin t b) = dirty_windows b" "plain_config (step_begin t b) = plain_config b"
  by (simp_all add: step_begin_def windows_of_def)

lemma Aggregate_step_parts:
  assumes "tuple_type t \<noteq> BOUNDARY" "tuple_type t \<noteq> RECONCILIATION_DONE" "\<not> timing_out b"
  shows "Aggregate_step t b =
    map_option (\<lambda>c. map_sum id (step_end t b) (insert_all (agg_group_by b t) t (windows_of (agg_group_by b t) c) c)) (step_open t b)"
  using assms unfolding Aggregate_step_def step_begin_def [symmetric]
  by (simp add: expire_timeouts_def Let_def step_open_def option.map_comp split: option.split)
    (auto simp: rbind_def step_end_def Let_def split: sum.split)

lemma step_open_config: "step_open t b = Some c \<Longrightarrow> plain_config c = plain_config b"
  by (auto simp: step_open_def Let_def split: if_splits dest!: open_value_windows_config)

lemma Aggregate_step_config:
  assumes "Aggregate_step t b = Some (Inr (b', out))" "\<not> timing_out b"
  shows "plain_config b' = plain_config b"
proof (cases "tuple_type t = BOUNDARY \<or> tuple_type t = RECONCILIATION_DONE")
  case True
  then show ?thesis using assms(1) by (auto simp: Aggregate_step_def forward_control_def)
next
  case False
  obtain c0 where c0: "step_open t b = Some c0"
    "map_sum id (step_end t b) (insert_all (agg_group_by b t) t (windows_of (agg_group_by b t) c0) c0) = Inr (b', out)"
    using assms(1) False by (auto simp: Aggregate_step_parts assms(2))
  then obtain c kept b6 where c: "step_open t b = Some c" "b' = fst (step_end t b (kept, b6, out))"
    "insert_all (agg_group_by b t) t (windows_of (agg_group_by b t) c) c = Inr (kept, b6, out)"
    by (cases "insert_all (agg_group_by b t) t (windows_of (agg_group_by b t) c0) c0") (auto simp: step_end_def Let_def)
  have "plain_config c = plain_config b" by (rule step_open_config [OF c(1)])
  then have "plain_config b6 = plain_config b" using insert_all_config [OF c(3)] assms(2) by (simp add: plain_config_def)
  then show ?thesis by (simp add: c(2) step_end_def Let_def)
qed

lemma step_open_same:
  assumes "box_view b = box_view b'"
  shows "map_option box_view (step_open t b) = map_option box_view (step_open t b')"
proof -
  note same = same_viewD [OF assms]
  have s: "box_view ((set_windows g (windows_of g c) c)\<lparr>dirty_windows := d\<rparr>) = box_view c" for g d and c :: "'a aggregate_box"
  proof -
    have "(\<lambda>h. Some (map window_view (if h = g then windows_of g c else windows_of h c))) =
        (\<lambda>h. Some (map window_view (windows_of h c)))" by auto
    then show ?thesis unfolding box_view_forgets box_view_set by (simp add: box_view_def)
  qed
  have v: "box_view (step_begin t b) = box_view (step_begin t b')" using assms same(2) by (simp add: step_begin_def)
  define c where "c x = (set_windows (agg_group_by b t) (windows_of (agg_group_by b t) (step_begin t x)) (step_begin t x))
    \<lparr>dirty_windows := (dirty_windows (step_begin t x))(agg_group_by b t := True)\<rparr>" for x :: "'a aggregate_box"
  have c: "box_view (c b) = box_view (c b')" unfolding c_def s v ..
  let ?o = "\<lambda>x. if agg_method b = WINDOW_BY_TUPLES then Some (open_tuple_window (agg_group_by b t) t (c x))
    else open_value_windows (agg_group_by b t) t (c x)"
  have "map_option box_view (?o b) = map_option box_view (?o b')"
    using open_value_windows_same [OF c] open_tuple_window_same [OF c] by simp
  then show ?thesis unfolding step_open_def Let_def same(7) [symmetric] same(12) [symmetric] c_def [symmetric]
    by (cases "?o b"; cases "?o b'") auto
qed

lemma step_end_same:
  assumes "box_view b = box_view b'" "insert_view (Inr r) = insert_view (Inr r')"
  shows "map_prod box_view id (step_end t b r) = map_prod box_view id (step_end t b' r')"
proof -
  obtain kept b6 out kept' b6' where r: "r = (kept, b6, out)" "r' = (kept', b6', out)"
    "map window_view kept = map window_view kept'" "box_view b6 = box_view b6'"
    using assms(2) by (cases r; cases r') auto
  have "(\<lambda>h. Some (map window_view (if h = agg_group_by b t then kept else windows_of h b6))) =
      (\<lambda>h. Some (map window_view (if h = agg_group_by b t then kept' else windows_of h b6')))"
    using r(3) same_viewD(17) [OF r(4)] by auto
  then show ?thesis using same_viewD(12) [OF assms(1)] r(4) by (simp add: step_end_def Let_def r(1,2))
qed

lemma Aggregate_step_same:
  assumes "box_view b = box_view b'" "\<not> drop_empty_outputs b" "\<not> timing_out b"
  shows "step_view (Aggregate_step t b) = step_view (Aggregate_step t b')"
proof (cases "tuple_type t = BOUNDARY \<or> tuple_type t = RECONCILIATION_DONE")
  case True
  then show ?thesis using forward_control_same [OF assms(1)] by (simp add: Aggregate_step_def)
next
  case False
  note same = same_viewD [OF assms(1)]
  have nt: "\<not> timing_out b'" using assms(3) same(14) by simp
  let ?g = "agg_group_by b t"
  have i: "insert_view (insert_all ?g t (windows_of ?g c) c) = insert_view (insert_all ?g t (windows_of ?g c') c')"
    if "step_open t b = Some c" "box_view c = box_view c'" for c c'
    using insert_all_same [OF same_viewD(17) [OF that(2)] that(2)] step_open_config [OF that(1)] assms(2,3)
    by (simp add: plain_config_def)
  have "map_sum id (map_prod box_view id) (map_sum id (step_end t b) (insert_all ?g t (windows_of ?g c) c)) =
      map_sum id (map_prod box_view id) (map_sum id (step_end t b') (insert_all ?g t (windows_of ?g c') c'))"
    if "step_open t b = Some c" "box_view c = box_view c'" for c c'
    using insert_view_cases [OF i [OF that]] by (elim disjE exE conjE) (simp_all add: step_end_same [OF assms(1)])
  then show ?thesis using step_open_same [OF assms(1), of t] False
    by (cases "step_open t b"; cases "step_open t b'") (simp_all add: Aggregate_step_parts assms(3) nt same(12) [symmetric])
qed

text \<open>What a box outputs on its further input.\<close>

definition agg_outputs :: "tuple list \<Rightarrow> 'w aggregate_box \<Rightarrow> tuple list result option" where
  "agg_outputs ts b = map_option (map_sum id snd) (Aggregate_steps ts b)"

lemma agg_outputs_Nil: "agg_outputs [] b = Some (Inr [])"
  by (simp add: agg_outputs_def)

lemma agg_outputs_Cons:
  "agg_outputs (t # ts) b =
     (case Aggregate_step t b of None \<Rightarrow> None | Some (Inl e) \<Rightarrow> Some (Inl e)
      | Some (Inr (b1, out)) \<Rightarrow> map_option (map_sum id (\<lambda>outs. out @ outs)) (agg_outputs ts b1))"
proof -
  have "map_sum id snd (rbind r (\<lambda>(b, outs). Inr (b, out @ outs))) = map_sum id (\<lambda>outs. out @ outs) (map_sum id snd r)"
    for r :: "('a aggregate_box \<times> tuple list) result" and out
    by (cases r) auto
  then show ?thesis by (auto simp: agg_outputs_def option.map_comp comp_def split: option.split sum.split)
qed

lemma agg_outputs_same:
  "box_view b = box_view b' \<Longrightarrow> \<not> drop_empty_outputs b \<Longrightarrow> \<not> timing_out b \<Longrightarrow> agg_outputs ts b = agg_outputs ts b'"
proof (induction ts arbitrary: b b')
  case (Cons t ts)
  note s = Aggregate_step_same [OF Cons.prems, of t]
  show ?case
  proof (cases "Aggregate_step t b")
    case None
    then show ?thesis using s by (simp add: agg_outputs_Cons)
  next
    case (Some r)
    then obtain r' where r': "Aggregate_step t b' = Some r'" "map_sum id (map_prod box_view id) r = map_sum id (map_prod box_view id) r'"
      using s by (cases "Aggregate_step t b'") auto
    show ?thesis
    proof (cases r)
      case (Inl e)
      then show ?thesis using Some r' by (cases r') (auto simp: agg_outputs_Cons)
    next
      case (Inr p)
      then obtain c out c' where p: "r = Inr (c, out)" "r' = Inr (c', out)" "box_view c = box_view c'"
        using r'(2) by (cases p; cases r') auto
      have "plain_config c = plain_config b" using Aggregate_step_config Some Cons.prems(3) by (simp add: p(1))
      then have "agg_outputs ts c = agg_outputs ts c'" using Cons.IH [OF p(3)] Cons.prems(2,3) by (simp add: plain_config_def)
      then show ?thesis by (simp add: agg_outputs_Cons Some r'(1) p(1,2))
    qed
  qed
qed (simp add: agg_outputs_Nil)

section \<open>A full checkpoint\<close>

text \<open>
  A standby with the parameters of the original, in any state; the memory that both leave uninitialised holds the same
  values. The mode of dropping is run-time state that is not part of a checkpoint.
\<close>

definition same_setup :: "'w aggregate_box \<Rightarrow> 'w aggregate_box \<Rightarrow> bool" where
  "same_setup b b0 \<longleftrightarrow>
     b0 = b\<lparr>window_starts := window_starts b0, open_windows := open_windows b0, timeout_list := timeout_list b0,
       dirty_windows := dirty_windows b0, count_new_windows := count_new_windows b0,
       count_updated_windows := count_updated_windows b0, next_window_no := next_window_no b0,
       emitted_count := emitted_count b0, box_tentative := box_tentative b0, out_memory := out_memory b0,
       stale_tid := stale_tid b0, agg_drop_mode := agg_drop_mode b0\<rparr> \<and>
     (\<forall>i j. out_memory b0 i = out_memory b j) \<and> (\<forall>i j. stale_tid b0 i = stale_tid b j)"

text \<open>The states of the open windows come through serialisation unchanged.\<close>

definition saves_states :: "('w \<Rightarrow> 'w) \<Rightarrow> 'w aggregate_box \<Rightarrow> bool" where
  "saves_states save b \<longleftrightarrow> (\<forall>g. \<forall>w \<in> set (windows_of g b). map save (agg_windows w) = agg_windows w)"

lemma unpack_starts:
  "fold unpack_start (map (\<lambda>g. (g, save_start False (f g))) gs) b =
     b\<lparr>window_starts := (\<lambda>g. if g \<in> set gs then Some ((f g)\<lparr>ws_checkpointed := True\<rparr>) else window_starts b g)\<rparr>"
  by (induction gs arbitrary: b) (simp_all add: unpack_start_def save_start_def load_start_def fun_eq_iff)

lemma unpack_windows_full:
  "unpack_windows upd (map WindowFull ws) old i = Inr (map2 restored_window [i..<i + length ws] ws, i + length ws, 0, int (length ws))"
proof (induction ws arbitrary: i)
  case (Cons w ws)
  have "[i..<i + length (w # ws)] = i # [Suc i..<Suc i + length ws]" by (simp add: upt_rec [of i]) (cases ws; simp)
  then show ?case by (simp only:) (simp add: Cons.IH)
qed simp

lemma restored_view: "map window_view (map2 restored_window [i..<i + length ws] ws) = map window_view ws"
  by (rule nth_equalityI) (simp_all add: restored_window_def window_view_def)

lemma box_view_next_no: "stale_tid b = (\<lambda>_. i) \<Longrightarrow> box_view (b\<lparr>next_window_no := n\<rparr>) = box_view b"
  by (simp add: box_view_def windows_of_def)

abbreviation put_view :: "(byte list \<Rightarrow> 'w window list) \<Rightarrow> 'w aggregate_box \<Rightarrow> 'w aggregate_box" where
  "put_view f b \<equiv> (box_view b)\<lparr>open_windows := (\<lambda>h. Some (map window_view (f h)))\<rparr>"

lemma unpack_group_full:
  assumes "stale_tid b = (\<lambda>_. i)"
  shows "\<exists>b'. unpack_group upd (g, map WindowFull ws) b = Inr b' \<and> stale_tid b' = (\<lambda>_. i) \<and>
    box_view b' = put_view (\<lambda>h. if h = g then ws else windows_of h b) b"
proof (cases "ws = []")
  case True
  have "box_view (b\<lparr>open_windows := (open_windows b)(g := None)\<rparr>) = put_view (\<lambda>h. if h = g then [] else windows_of h b) b"
    by (auto simp: box_view_def windows_of_def fun_eq_iff)
  then show ?thesis using assms unfolding True by (simp add: unpack_group_def)
next
  case False
  let ?ws = "map2 restored_window [next_window_no b..<next_window_no b + length ws] ws"
  let ?b = "(set_windows g ?ws b)\<lparr>next_window_no := next_window_no b + length ws,
    count_updated_windows := count_updated_windows b + 0, count_new_windows := count_new_windows b + int (length ws)\<rparr>"
  have s: "stale_tid (set_windows g ?ws b) = (\<lambda>_. i)" using assms by (simp add: set_windows_def)
  have "(\<lambda>h. Some (map window_view (if h = g then ?ws else windows_of h b))) =
      (\<lambda>h. Some (map window_view (if h = g then ws else windows_of h b)))"
    using restored_view [of "next_window_no b" ws] by (auto simp: fun_eq_iff)
  then have "box_view ?b = put_view (\<lambda>h. if h = g then ws else windows_of h b) b"
    unfolding box_view_forgets box_view_next_no [OF s] box_view_set by (rule arg_cong)
  then show ?thesis using False s by (simp add: unpack_group_def unpack_windows_full)
qed

lemma unpack_groups_full:
  assumes "stale_tid b = (\<lambda>_. i)"
  shows "\<exists>b'. fold_result (unpack_group upd) (map (\<lambda>g. (g, map WindowFull (f g))) gs) b = Inr b' \<and>
    box_view b' = put_view (\<lambda>h. if h \<in> set gs then f h else windows_of h b) b"
  using assms
proof (induction gs arbitrary: b)
  case Nil
  then show ?case by (simp add: box_view_def)
next
  case (Cons g gs)
  obtain b1 where b1: "unpack_group upd (g, map WindowFull (f g)) b = Inr b1" "stale_tid b1 = (\<lambda>_. i)"
    "box_view b1 = put_view (\<lambda>h. if h = g then f g else windows_of h b) b"
    using unpack_group_full [OF Cons.prems] by blast
  obtain b' where b': "fold_result (unpack_group upd) (map (\<lambda>g. (g, map WindowFull (f g))) gs) b1 = Inr b'"
    "box_view b' = put_view (\<lambda>h. if h \<in> set gs then f h else windows_of h b1) b1"
    using Cons.IH [OF b1(2)] by blast
  have "map window_view (windows_of h b1) = map window_view (if h = g then f g else windows_of h b)" for h
    using arg_cong [OF b1(3), of "windows_of h"] by (simp add: windows_of_def [of h "_ \<lparr>open_windows := _\<rparr>"])
  then have "(\<lambda>h. Some (map window_view (if h \<in> set gs then f h else windows_of h b1))) =
      (\<lambda>h. Some (map window_view (if h \<in> set (g # gs) then f h else windows_of h b)))"
    by (auto simp: fun_eq_iff)
  then have "box_view b' = put_view (\<lambda>h. if h \<in> set (g # gs) then f h else windows_of h b) b"
    unfolding b'(2) b1(3) by simp
  then show ?case using b1(1) b'(1) by simp
qed

lemma clear_timeouts_view: "box_view (clear_timeouts b\<lparr>box_tentative := x\<rparr>) = (box_view b)\<lparr>box_tentative := x\<rparr>"
proof -
  have "map window_view (windows_of g (clear_timeouts b)) = map window_view (windows_of g b)" for g
    by (auto simp: clear_timeouts_def windows_of_def window_view_def split: option.split)
  then have "box_view (clear_timeouts b) = box_view b"
    unfolding box_view_def by (simp) (simp add: clear_timeouts_def)
  then show ?thesis by simp
qed

lemma restore_view:
  assumes "same_setup b b0" "set so = dom (window_starts b)" "dom (open_windows b) \<subseteq> set wo" "saves_states save b"
    and "agg_drop_mode b0 = agg_drop_mode b"
  shows "\<exists>b'. Aggregate_unpack upd (fst (Aggregate_pack save False so wo b)) b0 = Inr b' \<and> box_view b' = box_view b"
proof -
  have e: "b0 = b\<lparr>window_starts := window_starts b0, open_windows := open_windows b0, timeout_list := timeout_list b0,
       dirty_windows := dirty_windows b0, count_new_windows := count_new_windows b0,
       count_updated_windows := count_updated_windows b0, next_window_no := next_window_no b0,
       emitted_count := emitted_count b0, box_tentative := box_tentative b0, out_memory := out_memory b0,
       stale_tid := stale_tid b0, agg_drop_mode := agg_drop_mode b0\<rparr>" using assms(1) by (simp add: same_setup_def)
  have m: "out_memory b0 i = out_memory b j" "stale_tid b0 i = stale_tid b j" for i j
    using assms(1) unfolding same_setup_def by blast+
  have mm: "out_memory b0 i = out_memory b 0" "out_memory b (emitted_count b + i) = out_memory b 0"
    "stale_tid b0 i = stale_tid b 0" "stale_tid b (next_window_no b + i) = stale_tid b 0" for i
    using m by metis+
  define b4 where "b4 = b0\<lparr>count_new_windows := 0, count_updated_windows := 0,
    window_starts := (\<lambda>g. if g \<in> set so then Some ((start_of b g)\<lparr>ws_checkpointed := True\<rparr>) else None), open_windows := Map.empty\<rparr>"
  have "stale_tid b4 = (\<lambda>_. stale_tid b 0)" using m(2) by (auto simp: b4_def)
  from unpack_groups_full [OF this, of upd "\<lambda>g. windows_of g b" wo] obtain b5 where
    b5: "fold_result (unpack_group upd) (map (\<lambda>g. (g, map WindowFull (windows_of g b))) wo) b4 = Inr b5"
    "box_view b5 = put_view (\<lambda>h. if h \<in> set wo then windows_of h b else windows_of h b4) b4" by blast
  have sv: "map (Window_save save False) (windows_of g b) = map WindowFull (windows_of g b)" for g
    using assms(4) by (simp add: saves_states_def Window_save_def)
  have r: "Aggregate_unpack upd (fst (Aggregate_pack save False so wo b)) b0 = Inr (clear_timeouts b5\<lparr>box_tentative := box_tentative b\<rparr>)"
    using b5(1) by (simp add: Aggregate_unpack_def Aggregate_pack_def Let_def unpack_starts b4_def sv cong: if_cong)
  have w: "(if h \<in> set wo then windows_of h b else windows_of h b4) = windows_of h b" for h
    using assms(3) by (auto simp: b4_def windows_of_def split: option.split)
  have st: "(if g \<in> set so then Some ((start_of b g)\<lparr>ws_checkpointed := True\<rparr>) else None) = map_option start_view (window_starts b g)" for g
    using assms(2) by (auto simp: start_of_def start_view_def split: option.split)
  have "(put_view (\<lambda>h. windows_of h b) b4)\<lparr>box_tentative := box_tentative b\<rparr> = box_view b"
    by (subst (2) box_view_def, simp add: box_view_def b4_def st mm option.map_comp comp_def, subst e, simp add: assms(5))
  then have "box_view (clear_timeouts b5\<lparr>box_tentative := box_tentative b\<rparr>) = box_view b"
    unfolding clear_timeouts_view b5(2) w .
  then show ?thesis using r by blast
qed

end
