(* ===== verification/Checkpoint_Properties.thy ===== *)
theory Checkpoint_Properties
  imports Aggregate_Restore Aggregate_Properties
begin

text \<open>
  What checkpoints of the Aggregate box promise and where they fail: a restored box continues like the
  original, unless it times out or drops empty outputs; a delta after a window has closed goes to the wrong windows.
\<close>

section \<open>Restored windows\<close>

text \<open>A window that is closed but has no valid iterator into the timeout list.\<close>

lemma insert_all_dangling:
  assumes "w \<in> set ws" "\<not> in_timeouts w" "timing_out b"
    and "fst (insert_tuple (agg_functions b) (agg_window_field b t) t w)"
  shows "insert_all g t ws b = Inl Undefined"
  using assms
proof (induction ws arbitrary: b)
  case (Cons u ws)
  let ?i = "insert_tuple (agg_functions b) (agg_window_field b t) t"
  have k: "agg_functions (snd (emit_unless_empty x b)) = agg_functions b" "timing_out (snd (emit_unless_empty x b)) = timing_out b"
    "agg_window_field (snd (emit_unless_empty x b)) = agg_window_field b" for x
    by (simp_all add: emit_unless_empty_def emit_for_window_def Let_def)
  have t: "in_timeouts (snd (?i x)) = in_timeouts x" for x
    by (simp add: insert_tuple_def Window_insert_tuple_def Let_def split: window_kind.split)
  show ?case
  proof (cases "w = u")
    case True
    then show ?thesis using Cons.prems k t by (simp add: split_beta Let_def)
  next
    case False
    then have ih: "insert_all g t ws c = Inl Undefined"
      if "agg_functions c = agg_functions b" "timing_out c" "agg_window_field c = agg_window_field b" for c
      using Cons.IH [of c] Cons.prems that by simp
    show ?thesis using Cons.prems(3) by (simp add: split_beta Let_def ih k)
  qed
qed simp

lemma clear_timeouts_windows: "w \<in> set (windows_of g (clear_timeouts b)) \<Longrightarrow> \<not> in_timeouts w"
  by (auto simp: clear_timeouts_def windows_of_def split: option.splits)

lemma unpack_timeouts:
  assumes "Aggregate_unpack upd ck b0 = Inr b"
  shows "timeout_list b = []" "w \<in> set (windows_of g b) \<Longrightarrow> \<not> in_timeouts w"
proof -
  obtain b5 where b: "b = clear_timeouts b5\<lparr>box_tentative := ck_tentative ck\<rparr>"
    using assms by (auto simp: Aggregate_unpack_def Let_def)
  show "timeout_list b = []" by (simp add: b clear_timeouts_def)
  show "w \<in> set (windows_of g b) \<Longrightarrow> \<not> in_timeouts w"
    using clear_timeouts_windows [of w g b5] by (simp add: b windows_of_def)
qed

text \<open>
  A restored window counts as empty. When the next tuple of its group closes it, nothing is emitted
  if empty outputs are dropped, although it held tuples.
\<close>

lemma restored_window_is_dropped:
  assumes "drop_empty_outputs b" "window_kind w = ValueWindow lo hi 0" "lo \<le> hi" "hi \<le> v"
  shows "fst (insert_tuple afs v t (restored_window i w))"
    "emit_unless_empty (snd (insert_tuple afs v t (restored_window i w))) b = ([], b)"
  using assms by (simp_all add: insert_tuple_def restored_window_def emit_unless_empty_def)

section \<open>Deltas\<close>

definition window_span :: "'w window \<Rightarrow> rat \<times> rat" where
  "window_span w = (case window_kind w of ValueWindow lo hi _ \<Rightarrow> (lo, hi) | TupleWindow sz _ st \<Rightarrow> (of_int sz, of_int st))"

lemma unpack_windows_delta:
  assumes "\<forall>w \<in> set ws. w_checkpointed w" "length ws \<le> length old"
  shows "\<exists>ws'. unpack_windows upd (map (Window_save save True) ws) old i = Inr (ws', i, int (length ws), 0) \<and>
    map window_span ws' = take (length ws) (map window_span old) \<and>
    map agg_windows ws' = map2 (map2 upd) (map agg_windows old) (map (\<lambda>w. map save (agg_windows w)) ws)"
  using assms
proof (induction ws arbitrary: old)
  case (Cons w ws)
  obtain o1 os where o: "old = o1 # os" "length ws \<le> length os" using Cons.prems(2) by (cases old) auto
  obtain ws' where ws': "unpack_windows upd (map (Window_save save True) ws) os i = Inr (ws', i, int (length ws), 0)"
    "map window_span ws' = take (length ws) (map window_span os)"
    "map agg_windows ws' = map2 (map2 upd) (map agg_windows os) (map (\<lambda>w. map save (agg_windows w)) ws)"
    using Cons.IH [OF _ o(2)] Cons.prems(1) by auto
  let ?u = "Window_update upd (w_t_last w) (w_lt_last w) (w_max_stime w) (map save (agg_windows w)) (slack_left (window_kind w)) o1"
  have u: "window_span ?u = window_span o1" "agg_windows ?u = map2 upd (agg_windows o1) (map save (agg_windows w))"
    by (simp_all add: Window_update_def window_span_def split: window_kind.split)
  have s: "Window_save save True w = WindowUpdate (w_t_last w) (w_lt_last w) (w_max_stime w) (map save (agg_windows w)) (slack_left (window_kind w))"
    using Cons.prems(1) by (simp add: Window_save_def)
  show ?case by (rule exI [of _ "?u # ws'"]) (simp add: ws' u s o(1))
qed simp

section \<open>Properties\<close>

text \<open>
  C14. A full checkpoint is complete for a box that emits empty windows and does not time out, if the states of its open windows
  are serialised faithfully (the windows over BYTE are not): a standby with the same parameters and the same initial contents of
  uninitialised memory, whatever windows it has, that is in the same mode of dropping as the original (this mode is not part
  of the checkpoint), restores it and then outputs on every further input exactly what the original outputs,
  errors and divergence included; and taking the checkpoint does not disturb the original.
\<close>

theorem aggregate_checkpoint_roundtrip:
  assumes "same_setup b b0" "\<not> drop_empty_outputs b" "\<not> timing_out b" "saves_states save b" "agg_drop_mode b0 = agg_drop_mode b"
    and "set starts = dom (window_starts b)" "set groups = dom (open_windows b)"
    and "Aggregate_pack save False starts groups b = (ck, b1)"
  shows "\<exists>b'. Aggregate_unpack upd ck b0 = Inr b' \<and>
    (\<forall>ts. agg_outputs ts b' = agg_outputs ts b \<and> agg_outputs ts b1 = agg_outputs ts b)"
proof -
  have ck: "ck = fst (Aggregate_pack save False starts groups b)" and b1: "b1 = snd (Aggregate_pack save False starts groups b)"
    using assms(8) by simp_all
  obtain b' where b': "Aggregate_unpack upd ck b0 = Inr b'" "box_view b' = box_view b"
    using restore_view [OF assms(1,6) _ assms(4,5)] assms(7) unfolding ck by blast
  have w: "windows_of g (b\<lparr>window_starts := window_starts b, open_windows :=
      (\<lambda>g. if g \<in> fst ` set (timeout_list b) then Some (windows_of g b) else open_windows b g)\<rparr>) = windows_of g b" for g
    by (simp add: windows_of_def)
  then have "box_view b1 = box_view b"
    unfolding b1 Aggregate_pack_def by (simp add: box_view_def)
  then show ?thesis using b' agg_outputs_same [OF b'(2) [symmetric] assms(2,3)] agg_outputs_same [of b b1] assms(2,3) by metis
qed

text \<open>The mode of dropping after a restore is that of the standby.\<close>

lemma drop_mode_not_restored: "Aggregate_unpack upd ck b0 = Inr b' \<Longrightarrow> agg_drop_mode b' = agg_drop_mode b0"
proof -
  have st: "agg_drop_mode (unpack_start x b) = agg_drop_mode b" for x b
    by (cases x) (simp add: unpack_start_def)
  have s: "agg_drop_mode (fold unpack_start xs b) = agg_drop_mode b" for xs b
    by (induction xs arbitrary: b) (simp_all add: st)
  have u: "unpack_group upd x b = Inr c \<Longrightarrow> agg_drop_mode c = agg_drop_mode b" for x b c
    by (cases x) (auto simp: unpack_group_def set_windows_def split: if_splits)
  have g: "fold_result (unpack_group upd) xs b = Inr c \<Longrightarrow> agg_drop_mode c = agg_drop_mode b" for xs b c
  proof (induction xs arbitrary: b)
    case (Cons x xs)
    then obtain b1 where "unpack_group upd x b = Inr b1" "fold_result (unpack_group upd) xs b1 = Inr c" by auto
    then show ?case using Cons.IH [of b1] u [of x b b1] by simp
  qed simp
  assume "Aggregate_unpack upd ck b0 = Inr b'"
  then obtain b5 where "fold_result (unpack_group upd) (ck_windows ck)
      (if ck_delta ck then fold unpack_start (ck_starts ck) (if ck_delta ck then b0\<lparr>count_new_windows := 0, count_updated_windows := 0\<rparr>
        else b0\<lparr>count_new_windows := 0, count_updated_windows := 0, window_starts := Map.empty\<rparr>)
       else (fold unpack_start (ck_starts ck) (if ck_delta ck then b0\<lparr>count_new_windows := 0, count_updated_windows := 0\<rparr>
        else b0\<lparr>count_new_windows := 0, count_updated_windows := 0, window_starts := Map.empty\<rparr>))\<lparr>open_windows := Map.empty\<rparr>) = Inr b5"
    "b' = clear_timeouts b5\<lparr>box_tentative := ck_tentative ck\<rparr>"
    by (auto simp: Aggregate_unpack_def Let_def cong: if_cong)
  from g [OF this(1)] this(2) show "agg_drop_mode b' = agg_drop_mode b0"
    by (cases "ck_delta ck") (simp_all add: s clear_timeouts_def)
qed

text \<open>A box with an open window, and a standby that has other windows.\<close>

definition half_way :: "window_kind \<Rightarrow> nat window" where
  "half_way k = (Window_new (counting_box WINDOW_BY_VALUES 2 1) [] k (-1) False)
     \<lparr>agg_windows := [1], window_initialized := True, w_empty := False, w_checkpointed := True\<rparr>"

definition running_box :: "window_method \<Rightarrow> window_kind list \<Rightarrow> nat aggregate_box" where
  "running_box m ks = (counting_box m 2 1)\<lparr>window_starts := [[] \<mapsto> WindowStart_new 1 0], open_windows := [[] \<mapsto> map half_way ks]\<rparr>"

lemma running_box_sel [simp]:
  "\<not> drop_empty_outputs (running_box m ks)" "\<not> timing_out (running_box m ks)" "agg_method (running_box m ks) = m"
  "windows_of [] (running_box m ks) = map half_way ks" "dom (window_starts (running_box m ks)) = {[]}"
  "dom (open_windows (running_box m ks)) = {[]}" "agg_group_by (running_box m ks) = (\<lambda>_. [])"
  "timeout_list (running_box m ks) = []"
  by (simp_all add: running_box_def windows_of_def) (simp_all add: counting_box_def)

theorem aggregate_checkpoint_roundtrip_witness:
  "\<exists>b'. Aggregate_unpack (\<lambda>old sent. sent) (fst (Aggregate_pack (\<lambda>n. n) False [[]] [[]] (running_box WINDOW_BY_VALUES [ValueWindow 0 2 0])))
       (running_box WINDOW_BY_VALUES [ValueWindow 5 7 0]) = Inr b' \<and>
     agg_outputs [numbered_tuple 3] b' = agg_outputs [numbered_tuple 3] (running_box WINDOW_BY_VALUES [ValueWindow 0 2 0])"
proof -
  let ?b = "running_box WINDOW_BY_VALUES [ValueWindow 0 2 0]" and ?standby = "running_box WINDOW_BY_VALUES [ValueWindow 5 7 0]"
  have "same_setup ?b ?standby" by (simp add: same_setup_def running_box_def counting_box_def Aggregate_new_def)
  moreover have "saves_states (\<lambda>n. n) ?b" "agg_drop_mode ?standby = agg_drop_mode ?b" by (simp_all add: saves_states_def running_box_def)
  ultimately show ?thesis
    using aggregate_checkpoint_roundtrip [of ?b ?standby "\<lambda>n. n" "[[]]" "[[]]" "fst (Aggregate_pack (\<lambda>n. n) False [[]] [[]] ?b)"
      "snd (Aggregate_pack (\<lambda>n. n) False [[]] [[]] ?b)" "\<lambda>old sent. sent"] by simp blast
qed

text \<open>
  A restored box that times out crashes: the timeout list is not restored, so when the next tuple of a group closes one
  of its restored windows the box erases an iterator into a list that does not hold it, which is undefined.
\<close>

lemma restored_window_closes_undefined:
  assumes "Aggregate_unpack upd ck b0 = Inr b" "timing_out b" "agg_method b = WINDOW_BY_TUPLES"
    and "tuple_type t \<noteq> BOUNDARY" "tuple_type t \<noteq> RECONCILIATION_DONE"
    and "w \<in> set (windows_of (agg_group_by b t) b)" "window_kind w = TupleWindow sz n st" "sz \<le> n + 1"
  shows "Aggregate_step t b = Some (Inl Undefined)"
proof -
  let ?g = "agg_group_by b t"
  note u = unpack_timeouts [OF assms(1)]
  define b1 where "b1 = (if \<not> agg_drop_mode b \<and> win_spec t \<noteq> -1 then b\<lparr>agg_drop_mode := True\<rparr> else b)"
  have b1: "agg_group_by b1 = agg_group_by b" "agg_method b1 = agg_method b" "windows_of g b1 = windows_of g b" "timing_out b1"
    "timeout_list b1 = []" for g
    using assms(2) u(1) by (simp_all add: b1_def windows_of_def)
  define b3 where "b3 = (set_windows ?g (windows_of ?g b) (b1\<lparr>timeout_list := []\<rparr>))\<lparr>dirty_windows := (dirty_windows b1)(?g := True)\<rparr>"
  define b5 where "b5 = (if tuple_type t = TENTATIVE then (open_tuple_window ?g t b3)\<lparr>box_tentative := True\<rparr> else open_tuple_window ?g t b3)"
  have x: "expire_timeouts t b1 = Inr (b1\<lparr>timeout_list := []\<rparr>, [])" using b1(4,5) by (simp add: expire_timeouts_def)
  have "set (windows_of ?g (open_tuple_window ?g t b3)) \<supseteq> set (windows_of ?g b3)" "timing_out (open_tuple_window ?g t b3) = timing_out b3"
    by (auto simp: open_tuple_window_def insert_new_window_def Let_def)
  moreover have "windows_of ?g b3 = windows_of ?g b" "timing_out b3" using b1(4) by (simp_all add: b3_def)
  ultimately have w: "w \<in> set (windows_of ?g b5)" "timing_out b5" using assms(6) by (auto simp: b5_def)
  have "insert_all ?g t (windows_of ?g b5) b5 = Inl Undefined"
    using insert_all_dangling [OF w(1) u(2) [OF assms(6)] w(2)] assms(7,8) by (simp add: insert_tuple_def)
  then show ?thesis unfolding Aggregate_step_def b1_def [symmetric] Let_def
    using assms(3-5) by (simp add: x b1 b3_def [symmetric] b5_def [symmetric])
qed

text \<open>
  A delta checkpoint after the primary has closed a window corrupts the standby: the updates of the remaining windows are
  applied to the standby's windows from the first on, so each of them keeps the range of the window before, with the state of its
  successor, the window that was closed stays open and the last one is lost.
\<close>

lemma delta_checkpoint_shifts_windows:
  assumes "Aggregate_pack save True [g] [g] b = (ck, b1)" "\<forall>w \<in> set (windows_of g b). w_checkpointed w" "windows_of g b \<noteq> []"
    and "map window_span (windows_of g b0) = gone # map window_span (windows_of g b)"
  shows "\<exists>b'. Aggregate_unpack upd ck b0 = Inr b' \<and>
    map window_span (windows_of g b') = gone # butlast (map window_span (windows_of g b)) \<and>
    map agg_windows (windows_of g b') = map2 (map2 upd) (map agg_windows (windows_of g b0)) (map (\<lambda>w. map save (agg_windows w)) (windows_of g b))"
proof -
  have ck: "ck = fst (Aggregate_pack save True [g] [g] b)" using assms(1) by simp
  have l: "length (windows_of g b0) = Suc (length (windows_of g b))" using arg_cong [OF assms(4), of length] by simp
  let ?c = "unpack_start (g, save_start True (start_of b g)) (b0\<lparr>count_new_windows := 0, count_updated_windows := 0\<rparr>)"
  have c: "windows_of g ?c = windows_of g b0" "next_window_no ?c = next_window_no b0"
    by (simp_all add: unpack_start_def windows_of_def)
  obtain ws' where ws': "unpack_windows upd (map (Window_save save True) (windows_of g b)) (windows_of g b0) (next_window_no b0) =
      Inr (ws', next_window_no b0, int (length (windows_of g b)), 0)"
    "map window_span ws' = take (length (windows_of g b)) (map window_span (windows_of g b0))"
    "map agg_windows ws' = map2 (map2 upd) (map agg_windows (windows_of g b0)) (map (\<lambda>w. map save (agg_windows w)) (windows_of g b))"
    using unpack_windows_delta [OF assms(2), of "windows_of g b0" upd save "next_window_no b0"] l by auto
  have r: "\<exists>b5. fold_result (unpack_group upd) (ck_windows ck) ?c = Inr b5 \<and> open_windows b5 g = Some ws'"
    using ws'(1) assms(3) by (simp add: ck Aggregate_pack_def unpack_group_def c set_windows_def)
  then obtain b5 where b5: "fold_result (unpack_group upd) (ck_windows ck) ?c = Inr b5" "open_windows b5 g = Some ws'" by blast
  have "Aggregate_unpack upd ck b0 = Inr (clear_timeouts b5\<lparr>box_tentative := ck_tentative ck\<rparr>)"
    using b5(1) by (simp add: Aggregate_unpack_def Let_def) (simp add: ck Aggregate_pack_def)
  moreover have "windows_of g (clear_timeouts b5\<lparr>box_tentative := ck_tentative ck\<rparr>) = map (\<lambda>w. w\<lparr>in_timeouts := False\<rparr>) ws'"
    by (simp add: windows_of_def clear_timeouts_def b5(2))
  moreover have "window_span (w\<lparr>in_timeouts := False\<rparr>) = window_span w" for w :: "'a window" by (simp add: window_span_def)
  moreover have "take (length (windows_of g b)) (gone # map window_span (windows_of g b)) = gone # butlast (map window_span (windows_of g b))"
    using assms(3) by (cases "windows_of g b" rule: rev_cases) simp_all
  ultimately show ?thesis using ws'(2,3) assms(4) by (simp add: comp_def)
qed

end
