(* ===== verification/Standard_Aggregates.thy ===== *)
theory Standard_Aggregates
  imports Aggregate_Spec "HOL-Library.Signed_Division"
begin

text \<open>
  The built-in aggregate functions (expr/StandardAggregates.h): count, min, max, sum, avg, firstval and
  lastval over the integer types of a width and over floating-point types, as instances of the
  aggregates of the Aggregate box.
\<close>

section \<open>Number types\<close>

text \<open>
  What the template needs of its type: the conversion of a literal, \<open>numeric_limits\<close> and arithmetic.
  Integers wrap around at their width; floating-point values are rationals without rounding.
\<close>

record 'v number_type =
  nt_of_int :: "int \<Rightarrow> 'v"
  nt_min :: 'v
  nt_max :: 'v
  nt_nan :: 'v
  nt_add :: "'v \<Rightarrow> 'v \<Rightarrow> 'v"
  nt_sub :: "'v \<Rightarrow> 'v \<Rightarrow> 'v"
  nt_div :: "'v \<Rightarrow> int \<Rightarrow> 'v"

definition wrap_int :: "nat \<Rightarrow> int \<Rightarrow> int" where
  "wrap_int w x = signed_take_bit (w - 1) x"

definition int_type :: "nat \<Rightarrow> int number_type" where
  "int_type w =
     \<lparr>nt_of_int = wrap_int w, nt_min = - (2 ^ (w - 1)), nt_max = 2 ^ (w - 1) - 1, nt_nan = 0,
      nt_add = (\<lambda>a b. wrap_int w (a + b)), nt_sub = (\<lambda>a b. wrap_int w (a - b)),
      nt_div = (\<lambda>a b. wrap_int w (a sdiv b))\<rparr>"

text \<open>\<open>numeric_limits<T>::min()\<close> of a floating-point type is its smallest positive normal number.\<close>

definition float_type :: "rat \<Rightarrow> rat \<Rightarrow> rat \<Rightarrow> rat number_type" where
  "float_type smallest largest nan =
     \<lparr>nt_of_int = of_int, nt_min = smallest, nt_max = largest, nt_nan = nan,
      nt_add = (+), nt_sub = (-), nt_div = (\<lambda>a b. a / of_int b)\<rparr>"

section \<open>The window of a standard aggregate\<close>

datatype standard_aggregate_type = MIN' | MAX' | SUM' | AVG' | FIRSTVAL' | LASTVAL'

record 'v standard_window =
  sw_val :: 'v
  sw_count :: int

definition standard_init :: "'v number_type \<Rightarrow> standard_aggregate_type \<Rightarrow> 'v standard_window" where
  "standard_init nt a =
     \<lparr>sw_val = (case a of MIN' \<Rightarrow> nt_max nt | MAX' \<Rightarrow> nt_min nt | _ \<Rightarrow> nt_of_int nt 0), sw_count = 0\<rparr>"

definition standard_incr :: "'v::linorder number_type \<Rightarrow> standard_aggregate_type \<Rightarrow> 'v \<Rightarrow> 'v standard_window \<Rightarrow> 'v standard_window" where
  "standard_incr nt a x w =
     \<lparr>sw_val = (case a of MIN' \<Rightarrow> min (sw_val w) x | MAX' \<Rightarrow> max (sw_val w) x | SUM' \<Rightarrow> nt_add nt (sw_val w) x
        | AVG' \<Rightarrow> nt_add nt (sw_val w) x | FIRSTVAL' \<Rightarrow> (if sw_count w \<noteq> 0 then sw_val w else x) | LASTVAL' \<Rightarrow> x),
      sw_count = sw_count w + 1\<rparr>"

definition standard_remove :: "'v number_type \<Rightarrow> standard_aggregate_type \<Rightarrow> 'v \<Rightarrow> 'v standard_window \<Rightarrow> 'v standard_window" where
  "standard_remove nt a x w =
     \<lparr>sw_val = (if a = SUM' \<or> a = AVG' then nt_sub nt (sw_val w) x else sw_val w), sw_count = sw_count w - 1\<rparr>"

definition standard_final :: "'v number_type \<Rightarrow> standard_aggregate_type \<Rightarrow> 'v standard_window \<Rightarrow> 'v" where
  "standard_final nt a w =
     (if sw_count w \<noteq> 0 \<or> a = SUM' then (if a = AVG' then nt_div nt (sw_val w) (sw_count w) else sw_val w)
      else nt_nan nt)"

text \<open>As an aggregate of the box: over an argument expression, with the bytes of a value.\<close>

definition standard_aggregate ::
  "'v::linorder number_type \<Rightarrow> ('v \<Rightarrow> byte list) \<Rightarrow> standard_aggregate_type \<Rightarrow> (tuple \<Rightarrow> 'v) \<Rightarrow> 'v standard_window aggregate" where
  "standard_aggregate nt bytes a arg =
     \<lparr>agg_init = standard_init nt a, agg_incr = (\<lambda>t. standard_incr nt a (arg t)),
      agg_final = (\<lambda>w. bytes (standard_final nt a w))\<rparr>"

text \<open>The count.\<close>

definition CountAggregate :: "int aggregate" where
  "CountAggregate = \<lparr>agg_init = 0, agg_incr = (\<lambda>_ n. n + 1), agg_final = int32_bytes\<rparr>"

text \<open>
  What a delta checkpoint makes of the state that the receiver has and the state that the sender has: only
  the window of the count overrides \<open>update\<close>, the others send and read nothing.
\<close>

definition standard_update :: "'v standard_window \<Rightarrow> 'v standard_window \<Rightarrow> 'v standard_window" where
  "standard_update old sent = old"

definition count_update :: "int \<Rightarrow> int \<Rightarrow> int" where
  "count_update old sent = sent"

section \<open>What they compute\<close>

lemma fold_standard:
  "fold (agg_incr (standard_aggregate nt bytes a arg)) us = fold (standard_incr nt a) (map arg us)"
  by (simp add: standard_aggregate_def fold_map comp_def)

lemma standard_count: "sw_count (fold (standard_incr nt a) xs w) = sw_count w + int (length xs)"
  by (induction xs arbitrary: w) (simp_all add: standard_incr_def)

lemma fold_min_max:
  "sw_val (fold (standard_incr nt MIN') xs w) = fold min xs (sw_val w)"
  "sw_val (fold (standard_incr nt MAX') xs w) = fold max xs (sw_val w)"
  by (induction xs arbitrary: w) (simp_all add: standard_incr_def min.commute max.commute)

lemma fold_first_last:
  "xs \<noteq> [] \<Longrightarrow> sw_val (fold (standard_incr nt LASTVAL') xs w) = last xs"
  "0 < sw_count w \<Longrightarrow> sw_val (fold (standard_incr nt FIRSTVAL') xs w) = sw_val w"
  by (induction xs arbitrary: w) (simp_all add: standard_incr_def)

lemma wrap_add: "wrap_int w (wrap_int w a + b) = wrap_int w (a + b)"
proof -
  have "take_bit n (signed_take_bit m a + b) = take_bit n (a + b)" if "n \<le> Suc m" for n m and a b :: int
  proof -
    have "take_bit n (signed_take_bit m a) = take_bit n a" using that by (simp add: take_bit_signed_take_bit)
    then show ?thesis using take_bit_add [of n "signed_take_bit m a" b] take_bit_add [of n a b] by simp
  qed
  then show ?thesis unfolding wrap_int_def by (intro signed_take_bit_eq_iff_take_bit_eq [THEN iffD2]) simp
qed

lemma fold_sum:
  assumes "a = SUM' \<or> a = AVG'"
  shows "sw_val (fold (standard_incr (int_type w) a) xs s) = (if xs = [] then sw_val s else wrap_int w (sw_val s + sum_list xs))"
  using assms
proof (induction xs arbitrary: s)
  case (Cons x xs)
  have "sw_val (standard_incr (int_type w) a x s) = wrap_int w (sw_val s + x)"
    using Cons.prems by (auto simp: standard_incr_def int_type_def)
  then show ?case using Cons.IH [OF Cons.prems] by (simp add: wrap_add add.assoc)
qed simp

lemma standard_init_sel [simp]: "sw_count (standard_init nt a) = 0"
  by (simp add: standard_init_def)

lemma wrap_int_id: "0 < w \<Longrightarrow> - (2 ^ (w - 1)) \<le> x \<Longrightarrow> x < 2 ^ (w - 1) \<Longrightarrow> wrap_int w x = x"
  by (simp add: wrap_int_def signed_take_bit_int_eq_self)

text \<open>The final values over a window that is not empty.\<close>

lemma standard_min_max:
  assumes "xs \<noteq> []"
  shows "standard_final nt MIN' (fold (standard_incr nt MIN') xs (standard_init nt MIN')) = min (nt_max nt) (Min (set xs))"
    "standard_final nt MAX' (fold (standard_incr nt MAX') xs (standard_init nt MAX')) = max (nt_min nt) (Max (set xs))"
proof -
  have "fold min xs y = min y (Min (set xs))" "fold max xs y = max y (Max (set xs))" for y
    using assms Min.set_eq_fold [of y xs] Max.set_eq_fold [of y xs] by simp_all
  then show "standard_final nt MIN' (fold (standard_incr nt MIN') xs (standard_init nt MIN')) = min (nt_max nt) (Min (set xs))"
    "standard_final nt MAX' (fold (standard_incr nt MAX') xs (standard_init nt MAX')) = max (nt_min nt) (Max (set xs))"
    using assms by (simp_all add: standard_final_def standard_count fold_min_max standard_init_def)
qed

lemma standard_first_last:
  assumes "xs \<noteq> []"
  shows "standard_final nt FIRSTVAL' (fold (standard_incr nt FIRSTVAL') xs (standard_init nt FIRSTVAL')) = hd xs"
    "standard_final nt LASTVAL' (fold (standard_incr nt LASTVAL') xs (standard_init nt LASTVAL')) = last xs"
proof -
  obtain x ys where xs: "xs = x # ys" using assms by (cases xs) auto
  have "sw_val (fold (standard_incr nt FIRSTVAL') ys (standard_incr nt FIRSTVAL' x (standard_init nt FIRSTVAL'))) = x"
    by (subst fold_first_last(2)) (simp_all add: standard_incr_def)
  then show "standard_final nt FIRSTVAL' (fold (standard_incr nt FIRSTVAL') xs (standard_init nt FIRSTVAL')) = hd xs"
    by (simp add: standard_final_def standard_count xs) (simp add: standard_incr_def)
  show "standard_final nt LASTVAL' (fold (standard_incr nt LASTVAL') xs (standard_init nt LASTVAL')) = last xs"
    using assms by (simp add: standard_final_def standard_count fold_first_last(1))
qed

lemma standard_sum_avg:
  assumes "0 < w" "xs \<noteq> []"
  shows "standard_final (int_type w) SUM' (fold (standard_incr (int_type w) SUM') xs (standard_init (int_type w) SUM')) = wrap_int w (sum_list xs)"
    "standard_final (int_type w) AVG' (fold (standard_incr (int_type w) AVG') xs (standard_init (int_type w) AVG')) =
       wrap_int w (wrap_int w (sum_list xs) sdiv int (length xs))"
proof -
  have z: "sw_val (standard_init (int_type w) a) = 0" if "a = SUM' \<or> a = AVG'" for a
    using that assms(1) by (auto simp: standard_init_def int_type_def wrap_int_def)
  show "standard_final (int_type w) SUM' (fold (standard_incr (int_type w) SUM') xs (standard_init (int_type w) SUM')) = wrap_int w (sum_list xs)"
    using assms(2) z by (simp add: standard_final_def standard_count fold_sum)
  show "standard_final (int_type w) AVG' (fold (standard_incr (int_type w) AVG') xs (standard_init (int_type w) AVG')) =
      wrap_int w (wrap_int w (sum_list xs) sdiv int (length xs))"
    using assms(2) z by (simp add: standard_final_def standard_count fold_sum) (simp add: int_type_def)
qed

text \<open>Removing a value undoes adding it, for sums and averages.\<close>

lemma standard_remove_incr:
  assumes "a = SUM' \<or> a = AVG'" "wrap_int w (sw_val s) = sw_val s"
  shows "standard_remove (int_type w) a x (standard_incr (int_type w) a x s) = s"
  using assms wrap_add [of w "sw_val s + x" "- x"] by (auto simp: standard_remove_def standard_incr_def int_type_def)

section \<open>Properties\<close>

text \<open>The output over the tuples of a window.\<close>

definition aggregate_result :: "'w aggregate \<Rightarrow> tuple list \<Rightarrow> byte list" where
  "aggregate_result a us = agg_final a (fold (agg_incr a) us (agg_init a))"

text \<open>
  C36. The built-in aggregates compute what they are named after: over the tuples of a window that is not empty
  and integer values within the width of the type, the output is the minimum, the maximum, the first and the last value,
  the sum modulo the width, the average as the truncated quotient of that sum by the number of tuples, and the
  number of tuples.
\<close>

theorem standard_aggregates_correct:
  fixes arg :: "tuple \<Rightarrow> int"
  assumes "0 < w" "us \<noteq> []" "\<forall>u \<in> set us. - (2 ^ (w - 1)) \<le> arg u \<and> arg u < 2 ^ (w - 1)"
    and "result = (\<lambda>a. aggregate_result (standard_aggregate (int_type w) bytes a arg) us)"
  shows "result MIN' = bytes (Min (arg ` set us)) \<and> result MAX' = bytes (Max (arg ` set us)) \<and>
    result FIRSTVAL' = bytes (arg (hd us)) \<and> result LASTVAL' = bytes (arg (last us)) \<and>
    result SUM' = bytes (wrap_int w (sum_list (map arg us))) \<and>
    result AVG' = bytes (wrap_int w (wrap_int w (sum_list (map arg us)) sdiv int (length us))) \<and>
    aggregate_result CountAggregate us = int32_bytes (int (length us))"
proof -
  let ?xs = "map arg us"
  have ne: "?xs \<noteq> []" using assms(2) by simp
  have r: "result a = bytes (standard_final (int_type w) a (fold (standard_incr (int_type w) a) ?xs (standard_init (int_type w) a)))" for a
    unfolding assms(4) aggregate_result_def fold_standard by (simp add: standard_aggregate_def)
  have "Min (arg ` set us) \<in> arg ` set us" "Max (arg ` set us) \<in> arg ` set us" using assms(2) by simp_all
  then have lim: "min (nt_max (int_type w)) (Min (set ?xs)) = Min (arg ` set us)" "max (nt_min (int_type w)) (Max (set ?xs)) = Max (arg ` set us)"
    using assms(3) by (fastforce simp: int_type_def)+
  have "fold (agg_incr CountAggregate) us n = n + int (length us)" for n
    by (induction us arbitrary: n) (simp_all add: CountAggregate_def)
  then have c: "aggregate_result CountAggregate us = int32_bytes (int (length us))"
    by (simp add: aggregate_result_def) (simp add: CountAggregate_def)
  show ?thesis unfolding r standard_min_max [OF ne] lim standard_first_last [OF ne] standard_sum_avg [OF assms(1) ne] c
    using assms(2) by (simp add: hd_map last_map)
qed

theorem standard_aggregates_correct_witness:
  "\<exists>us. us \<noteq> [] \<and> aggregate_result (standard_aggregate (int_type 8) (\<lambda>x. [word_of_int x]) SUM' (\<lambda>t. uint (hd (body t)))) us = [word_of_int (- 56)]"
proof -
  let ?t = "\<lparr>tv = Timestamp 0 0, local_tv = Timestamp 0 0, tuple_flag = 0, tuple_type = INSERTION, win_spec = -1,
    quality = 0, rev_id = -1, tuple_id = 0, rev_field = -1, tuple_stime = Timestamp 0 0, body = [100]\<rparr>"
  have h: "(0::nat) < 8" "[?t, ?t] \<noteq> []" "\<forall>u \<in> set [?t, ?t]. - (2 ^ (8 - 1)) \<le> uint (hd (body u)) \<and> uint (hd (body u)) < 2 ^ (8 - 1)"
    by simp_all
  from standard_aggregates_correct [OF h refl, of "\<lambda>x. [word_of_int x]"]
  show ?thesis by (intro exI [of _ "[?t, ?t]"]) (simp add: wrap_int_def signed_take_bit_eq_take_bit_shift take_bit_eq_mod)
qed

text \<open>
  The maximum of negative floating-point numbers is wrong: for the types single and double the maximum starts from
  the minimum of numeric_limits, which is the smallest positive number, so over a window of numbers that are not larger it is that
  number, which is larger than every value in the window.
\<close>

lemma maximum_of_negative_floats:
  assumes "0 < smallest" "us \<noteq> []" "\<forall>u \<in> set us. arg u < 0"
  shows "aggregate_result (standard_aggregate (float_type smallest largest nan) bytes MAX' arg) us = bytes smallest \<and>
    Max (arg ` set us) < smallest"
proof -
  let ?nt = "float_type smallest largest nan"
  have "Max (arg ` set us) \<in> arg ` set us" using assms(2) by simp
  then have m: "Max (arg ` set us) < smallest" using assms(1,3) by fastforce
  have "standard_final ?nt MAX' (fold (standard_incr ?nt MAX') (map arg us) (standard_init ?nt MAX')) = smallest"
    using standard_min_max(2) [of "map arg us" ?nt] assms(2) m by (simp add: float_type_def)
  then show ?thesis using m unfolding aggregate_result_def fold_standard by (simp add: standard_aggregate_def)
qed

end
