(* ===== verification/Join_Box.thy ===== *)
theory Join_Box
  imports Complex_Main Box_Runs
begin

text \<open>
  The Join box (boxes/JoinQBox.cc, JoinQBox.h): a buffer of recent tuples per input; a tuple is joined with the
  buffer of the other input and then put into its own, which drops its oldest tuples by their number, by the values of a field,
  or by their age.

  The parsed predicate, output expressions and order-on fields are functions on the tuples; field values and
  selectivities (\<open>double\<close>) are rationals.
\<close>

section \<open>State\<close>

datatype join_side = LEFT | RIGHT

fun other_stream :: "join_side \<Rightarrow> join_side" where
  "other_stream LEFT = RIGHT"
| "other_stream RIGHT = LEFT"

record join_element =
  je_tuple :: tuple
  comparison_count :: int
  match_count :: int

datatype join_buffer_kind =
  TupleCountJoinBuffer (count_buffer_size: nat)
| FieldJoinBuffer (order_on_field: "tuple \<Rightarrow> rat") (field_buffer_size: rat)

text \<open>
  \<open>double_less\<close> compares the representations of two \<open>double\<close>s, \<open>join_memory k\<close> is what the memory of the \<open>k\<close>-th output tuple
  held before, \<open>stale_counts k\<close> what the uninitialised counters of a tuple that is not joined hold. \<open>is_sjoin\<close> says which
  class the virtual call of \<open>produce_dont_emit_tuple\<close> is dispatched to.
\<close>

record join_box =
  join_kind :: "join_side \<Rightarrow> join_buffer_kind"
  join_buffer :: "join_side \<Rightarrow> join_element list"
  join_timing_out :: bool
  join_timeout :: timestamp
  join_predicate :: "tuple \<Rightarrow> tuple \<Rightarrow> bool"
  just_concat :: bool
  output_expressions :: "tuple \<Rightarrow> tuple \<Rightarrow> byte list"
  left_body_size :: nat
  right_body_size :: nat
  join_selectivity :: "join_side \<Rightarrow> rat list"
  join_selectivity_sum :: "join_side \<Rightarrow> rat"
  is_sjoin :: bool
  double_less :: "64 word \<Rightarrow> 64 word \<Rightarrow> bool"
  join_memory :: "nat \<Rightarrow> tuple"
  join_emitted :: nat
  stale_counts :: "nat \<Rightarrow> int \<times> int"
  join_inserted :: nat

definition SELECTIVITY_VECTOR_LIMIT :: nat where
  "SELECTIVITY_VECTOR_LIMIT = 100"

section \<open>Output tuples\<close>

text \<open>\<open>std::max\<close>.\<close>

definition later :: "timestamp \<Rightarrow> timestamp \<Rightarrow> timestamp" where
  "later a b = (if Timestamp_lt a b then b else a)"

definition produce_dont_emit_tuple :: "join_box \<Rightarrow> tuple \<Rightarrow> tuple \<Rightarrow> tuple \<Rightarrow> tuple" where
  "produce_dont_emit_tuple box l r old =
     (let out = (set_fake_flag False
            (old\<lparr>tv := later (tv l) (tv r), local_tv := later (local_tv l) (local_tv r), tuple_id := tuple_id l,
                 tuple_type := tuple_type l, rev_id := rev_id l,
                 quality := (if double_less box (quality l) (quality r) then quality r else quality l), win_spec := -1\<rparr>))
            \<lparr>tuple_stime := later (tuple_stime l) (tuple_stime r)\<rparr>
      in if just_concat box
         then let joined = out\<lparr>body := overlay (take (left_body_size box) (body l) @ take (right_body_size box) (body r)) (body out)\<rparr>
              in if get_array_flag l \<or> get_array_flag r then set_array_flag True joined else joined
         else out\<lparr>body := overlay (output_expressions box l r) (body out)\<rparr>)"

text \<open>The Join that expects inputs in time order also marks its output as tentative.\<close>

definition produce_tuple :: "join_box \<Rightarrow> tuple \<Rightarrow> tuple \<Rightarrow> tuple \<Rightarrow> tuple" where
  "produce_tuple box l r old =
     (let out = produce_dont_emit_tuple box l r old
      in if is_sjoin box \<and> (tuple_type l = TENTATIVE \<or> tuple_type r = TENTATIVE) then out\<lparr>tuple_type := TENTATIVE\<rparr> else out)"

section \<open>Joining\<close>

text \<open>The pair of a tuple of stream \<open>s\<close> with a tuple of the other stream.\<close>

definition join_pair :: "join_side \<Rightarrow> tuple \<Rightarrow> tuple \<Rightarrow> tuple \<times> tuple" where
  "join_pair s t u = (case s of LEFT \<Rightarrow> (t, u) | RIGHT \<Rightarrow> (u, t))"

text \<open>
  A tuple \<open>t\<close> of stream \<open>s\<close> against the buffer of the other stream; \<open>k\<close> is the number of the next output. The counters of
  the buffered tuples are incremented; for those of \<open>t\<close> the code increments the pointers instead.
\<close>

fun JoinBuffer_join ::
  "join_box \<Rightarrow> join_side \<Rightarrow> tuple \<Rightarrow> nat \<Rightarrow> join_element list \<Rightarrow> join_element list \<times> tuple list" where
  "JoinBuffer_join box s t k [] = ([], [])"
| "JoinBuffer_join box s t k (e # es) =
     (let (l, r) = join_pair s t (je_tuple e);
          e1 = e\<lparr>comparison_count := comparison_count e + 1\<rparr>
      in if join_predicate box l r
         then let (es1, outs) = JoinBuffer_join box s t (Suc k) es
              in (e1\<lparr>match_count := match_count e + 1\<rparr> # es1, produce_tuple box l r (join_memory box k) # outs)
         else let (es1, outs) = JoinBuffer_join box s t k es in (e1 # es1, outs))"

section \<open>Buffers\<close>

text \<open>
  The selectivity of a tuple that leaves its buffer; a buffer by the values of a field overwrites the sum instead
  of adding to it.
\<close>

definition record_selectivity :: "bool \<Rightarrow> join_side \<Rightarrow> join_element \<Rightarrow> join_box \<Rightarrow> join_box" where
  "record_selectivity overwrite s e box =
     (let q = of_int (match_count e) / of_int (comparison_count e)
      in if comparison_count e > 0
         then box\<lparr>join_selectivity := (join_selectivity box)(s := join_selectivity box s @ [q]),
                  join_selectivity_sum := (join_selectivity_sum box)
                    (s := if overwrite then q else join_selectivity_sum box s + q)\<rparr>
         else box\<lparr>join_selectivity := (join_selectivity box)(s := join_selectivity box s @ [0])\<rparr>)"

fun expire_elements :: "timestamp \<Rightarrow> join_side \<Rightarrow> join_element list \<Rightarrow> join_box \<Rightarrow> join_element list \<times> join_box" where
  "expire_elements threshold s [] box = ([], box)"
| "expire_elements threshold s (e # es) box =
     (if Timestamp_lt (tv (je_tuple e)) threshold
      then expire_elements threshold s es (record_selectivity False s e box)
      else (e # es, box))"

fun evict_by_count :: "nat \<Rightarrow> join_side \<Rightarrow> join_element list \<Rightarrow> join_box \<Rightarrow> join_element list \<times> join_box" where
  "evict_by_count n s [] box = ([], box)"
| "evict_by_count n s (e # es) box =
     (if length (e # es) > n then evict_by_count n s es (record_selectivity False s e box) else (e # es, box))"

text \<open>
  The front of an empty list is undefined. The difference is that of the values as numbers: for an \<open>int32\<close> or \<open>int64\<close> field, of values whose difference
  is in the range of the type, and for floating-point fields, where the difference is exact.
\<close>

fun evict_by_field ::
  "(tuple \<Rightarrow> rat) \<Rightarrow> rat \<Rightarrow> rat \<Rightarrow> join_side \<Rightarrow> join_element list \<Rightarrow> join_box \<Rightarrow> (join_element list \<times> join_box) result" where
  "evict_by_field f sz new_value s [] box = Inl Undefined"
| "evict_by_field f sz new_value s (e # es) box =
     (if new_value - f (je_tuple e) \<ge> sz
      then evict_by_field f sz new_value s es (record_selectivity True s e box)
      else Inr (e # es, box))"

definition set_buffer :: "join_side \<Rightarrow> join_element list \<Rightarrow> join_box \<Rightarrow> join_box" where
  "set_buffer s es box = box\<lparr>join_buffer := (join_buffer box)(s := es)\<rparr>"

definition JoinBuffer_insert_tuple :: "join_side \<Rightarrow> tuple \<Rightarrow> join_box \<Rightarrow> join_element list \<times> join_box" where
  "JoinBuffer_insert_tuple s t box =
     (let (es, box1) = (if join_timing_out box
            then expire_elements (Timestamp_minus (tv t) (join_timeout box)) s (join_buffer box s) box
            else (join_buffer box s, box))
      in (es @ [\<lparr>je_tuple = t, comparison_count = 0, match_count = 0\<rparr>], box1))"

definition join_insert_tuple :: "join_side \<Rightarrow> tuple \<Rightarrow> join_box \<Rightarrow> join_box result" where
  "join_insert_tuple s t box =
     (let (es, box1) = JoinBuffer_insert_tuple s t box
      in case join_kind box s of
           TupleCountJoinBuffer n \<Rightarrow> (let (es1, box2) = evict_by_count n s es box1 in Inr (set_buffer s es1 box2))
         | FieldJoinBuffer f sz \<Rightarrow>
             rbind (evict_by_field f sz (f t) s es box1) (\<lambda>(es1, box2). Inr (set_buffer s es1 box2)))"

section \<open>Runs\<close>

text \<open>The back of an empty list is undefined.\<close>

definition add_counts :: "join_side \<Rightarrow> int \<times> int \<Rightarrow> join_box \<Rightarrow> join_box result" where
  "add_counts s counts box =
     (case join_buffer box s of
        [] \<Rightarrow> Inl Undefined
      | e # es \<Rightarrow>
          let b = last (e # es)
          in Inr (set_buffer s (butlast (e # es) @
               [b\<lparr>comparison_count := comparison_count b + fst counts, match_count := match_count b + snd counts\<rparr>]) box))"

definition join_process :: "join_side \<Rightarrow> bool \<Rightarrow> tuple \<Rightarrow> join_box \<Rightarrow> (join_box \<times> tuple list) result" where
  "join_process s do_join t box =
     (let (es, outs) = (if do_join then JoinBuffer_join box s t (join_emitted box) (join_buffer box (other_stream s))
                        else (join_buffer box (other_stream s), []));
          counts = (if do_join then (0, 0) else stale_counts box (join_inserted box));
          box1 = (set_buffer (other_stream s) es box)\<lparr>join_emitted := join_emitted box + length outs,
                    join_inserted := Suc (join_inserted box)\<rparr>
      in rbind (join_insert_tuple s t box1) (\<lambda>box2.
         rbind (add_counts s counts box2) (\<lambda>box3. Inr (box3, outs))))"

definition limit_side :: "join_side \<Rightarrow> join_box \<Rightarrow> join_box" where
  "limit_side s box =
     (if length (join_selectivity box s) > SELECTIVITY_VECTOR_LIMIT
      then box\<lparr>join_selectivity := (join_selectivity box)(s := []),
               join_selectivity_sum := (join_selectivity_sum box)(s := 0)\<rparr>
      else box)"

definition limit_selectivity :: "join_box \<Rightarrow> join_box" where
  "limit_selectivity box = limit_side RIGHT (limit_side LEFT box)"

text \<open>A step of the loop over an input, on the box and what it has sent.\<close>

definition Join_step :: "join_side \<Rightarrow> tuple \<Rightarrow> (join_box \<times> tuple list) result \<Rightarrow> (join_box \<times> tuple list) result" where
  "Join_step s t st = rbind st (\<lambda>(box, out). rbind (join_process s True t box) (\<lambda>(box1, outs). Inr (box1, out @ outs)))"

definition run_stream ::
  "join_side \<Rightarrow> qbox_invocation \<Rightarrow> tuple list \<Rightarrow> (join_box \<times> tuple list) result \<Rightarrow> qbox_invocation \<times> tuple list \<times> (join_box \<times> tuple list) result" where
  "run_stream s qi xs st =
     (let (qi1, rest, st1) = run_port (case s of LEFT \<Rightarrow> 0 | RIGHT \<Rightarrow> 1) (Join_step s) qi xs st
      in (qi1, rest, rbind st1 (\<lambda>(box, out). Inr (limit_selectivity box, out))))"

definition JoinQBox_run ::
  "qbox_invocation \<Rightarrow> tuple list \<Rightarrow> tuple list \<Rightarrow> join_box \<Rightarrow>
   qbox_invocation \<times> tuple list \<times> tuple list \<times> (join_box \<times> tuple list) result" where
  "JoinQBox_run qi lefts rights box =
     (let (qi1, lefts1, st1) = run_stream LEFT qi lefts (Inr (box, []));
          (qi2, rights1, st2) = run_stream RIGHT qi1 rights st1
      in (qi2, lefts1, rights1, st2))"

end
