(* ===== verification/Join_State.thy ===== *)
theory Join_State
  imports Join_Box
begin

text \<open>
  The setup of the Join box (\<open>setup_impl\<close>, \<open>create_buffer_by_parameter\<close>) and its checkpoints
  (\<open>pack_state\<close>, \<open>unpack_state\<close> with \<open>JoinBuffer::dump\<close> and \<open>init\<close>).
\<close>

section \<open>Setup\<close>

text \<open>
  The parameters of a buffer: the order, the size, the order-on field, whether its type is a number, and the width of
  an integer type.
\<close>

record buffer_params =
  bp_order_by :: string
  bp_size :: rat
  bp_field :: "tuple \<Rightarrow> rat"
  bp_numeric :: bool
  bp_width :: "nat option"

text \<open>
  The size is cast to \<open>size_t\<close>, or to the type of the field: towards zero, and undefined when the result is not a value
  of the type. The cast to \<open>single\<close> is taken to be exact.
\<close>

definition truncate_size :: "rat \<Rightarrow> int" where
  "truncate_size x = (if x \<ge> 0 then \<lfloor>x\<rfloor> else \<lceil>x\<rceil>)"

definition create_buffer :: "buffer_params \<Rightarrow> join_buffer_kind result" where
  "create_buffer ps =
     (if bp_order_by ps = ''TUPLES''
      then let n = truncate_size (bp_size ps)
           in if n < 0 \<or> 2 ^ 32 \<le> n then Inl Undefined else Inr (TupleCountJoinBuffer (nat n))
      else if bp_order_by ps = ''VALUES''
      then if \<not> bp_numeric ps then Inl AuroraException
           else case bp_width ps of
               None \<Rightarrow> Inr (FieldJoinBuffer (bp_field ps) (bp_size ps))
             | Some w \<Rightarrow>
                 let n = truncate_size (bp_size ps)
                 in if n < - (2 ^ (w - 1)) \<or> 2 ^ (w - 1) \<le> n then Inl Undefined
                    else Inr (FieldJoinBuffer (bp_field ps) (of_int n))
      else Inl AuroraException)"

text \<open>A negative timeout means none.\<close>

definition join_timeout_of :: "rat option \<Rightarrow> bool \<times> timestamp" where
  "join_timeout_of p =
     (case p of None \<Rightarrow> (False, Timestamp_zero)
      | Some x \<Rightarrow> if x < 0 then (False, Timestamp_zero)
                  else (True, Timestamp \<lfloor>x\<rfloor> \<lfloor>(x - of_int \<lfloor>x\<rfloor>) * 1000000\<rfloor>))"

text \<open>
  \<open>setup_impl\<close> on a box that holds the predicate, the output expressions and the sizes of the bodies;
  without output expressions the bodies are concatenated.
\<close>

definition Join_setup ::
  "nat \<Rightarrow> buffer_params \<Rightarrow> buffer_params \<Rightarrow> rat option \<Rightarrow> bool \<Rightarrow> join_box \<Rightarrow> join_box result" where
  "Join_setup inputs lp rp timeout no_expressions box =
     (if inputs \<noteq> 2 then Inl AuroraException
      else rbind (create_buffer lp) (\<lambda>lk. rbind (create_buffer rp) (\<lambda>rk.
        Inr (box\<lparr>join_kind := (\<lambda>s. case s of LEFT \<Rightarrow> lk | RIGHT \<Rightarrow> rk), join_buffer := (\<lambda>_. []),
          join_timing_out := fst (join_timeout_of timeout), join_timeout := snd (join_timeout_of timeout),
          just_concat := no_expressions, join_selectivity := (\<lambda>_. []), join_selectivity_sum := (\<lambda>_. 0)\<rparr>))))"

section \<open>Checkpoints\<close>

record join_state =
  js_left :: "tuple list"
  js_right :: "tuple list"

text \<open>The tuples that fit, from the front; the loop does not stop at the first that does not.\<close>

fun join_dump :: "nat \<Rightarrow> nat \<Rightarrow> nat \<Rightarrow> join_element list \<Rightarrow> tuple list" where
  "join_dump sz max_length offset [] = []"
| "join_dump sz max_length offset (e # es) =
     (if offset + sz \<le> max_length then je_tuple e # join_dump sz max_length (offset + sz) es
      else join_dump sz max_length offset es)"

definition body_size :: "join_side \<Rightarrow> join_box \<Rightarrow> nat" where
  "body_size s box = (case s of LEFT \<Rightarrow> left_body_size box | RIGHT \<Rightarrow> right_body_size box)"

text \<open>
  \<open>max_length\<close> gives the capacity of a \<open>dynbuf\<close> that was asked for a number of bytes. The buffer is asked for
  the bodies of all tuples and one header.
\<close>

definition dump_side :: "nat \<Rightarrow> (nat \<Rightarrow> nat) \<Rightarrow> join_side \<Rightarrow> join_box \<Rightarrow> tuple list" where
  "dump_side header_size max_length s box =
     join_dump (body_size s box + header_size)
       (max_length (length (join_buffer box s) * body_size s box + header_size)) 0 (join_buffer box s)"

definition Join_pack_state :: "nat \<Rightarrow> (nat \<Rightarrow> nat) \<Rightarrow> join_box \<Rightarrow> join_state" where
  "Join_pack_state header_size max_length box =
     \<lparr>js_left = dump_side header_size max_length LEFT box, js_right = dump_side header_size max_length RIGHT box\<rparr>"

definition JoinBuffer_init :: "join_side \<Rightarrow> tuple list \<Rightarrow> join_box \<Rightarrow> join_box result" where
  "JoinBuffer_init s ts box = fold_result (join_insert_tuple s) ts (set_buffer s [] box)"

definition Join_unpack_state :: "join_state \<Rightarrow> join_box \<Rightarrow> join_box result" where
  "Join_unpack_state js box = rbind (JoinBuffer_init LEFT (js_left js) box) (JoinBuffer_init RIGHT (js_right js))"

section \<open>Other operations\<close>

text \<open>
  The selectivities collected so far, as they are or as their average and number. The first does not reset the
  sum.
\<close>

definition get_join_selectivity :: "join_side \<Rightarrow> join_box \<Rightarrow> rat list \<times> join_box" where
  "get_join_selectivity s box = (join_selectivity box s, box\<lparr>join_selectivity := (join_selectivity box)(s := [])\<rparr>)"

definition get_average_selectivity :: "join_side \<Rightarrow> join_box \<Rightarrow> (rat \<times> nat) \<times> join_box" where
  "get_average_selectivity s box =
     (let n = length (join_selectivity box s)
      in if n > 0
         then ((join_selectivity_sum box s / of_nat n, n),
               box\<lparr>join_selectivity := (join_selectivity box)(s := []), join_selectivity_sum := (join_selectivity_sum box)(s := 0)\<rparr>)
         else ((0, 0), box))"

text \<open>After the list was taken, the average still counts the selectivities in it.\<close>

lemma average_after_list:
  assumes "snd (get_join_selectivity s box) = box1" "0 < comparison_count e"
  shows "fst (get_average_selectivity s (record_selectivity False s e box1)) =
    (join_selectivity_sum box s + of_int (match_count e) / of_int (comparison_count e), 1)"
  using assms by (auto simp: get_join_selectivity_def get_average_selectivity_def record_selectivity_def Let_def)

definition get_oldest :: "join_side \<Rightarrow> join_box \<Rightarrow> int" where
  "get_oldest s box = (case join_buffer box s of [] \<Rightarrow> -1 | e # es \<Rightarrow> tuple_id (je_tuple e))"

text \<open>Joining without sending: every match is written to the place of the next output.\<close>

definition join_no_emit :: "join_side \<Rightarrow> tuple \<Rightarrow> join_box \<Rightarrow> join_box" where
  "join_no_emit s t box =
     fold (\<lambda>e b. let (l, r) = join_pair s t (je_tuple e); k = join_emitted b
        in if join_predicate b l r then b\<lparr>join_memory := (join_memory b)(k := produce_tuple b l r (join_memory b k))\<rparr> else b)
       (join_buffer box (other_stream s)) box"

end
