(* ===== verification/SJoin_Box.thy ===== *)
theory SJoin_Box
  imports Join_State
begin

text \<open>
  The Join box for inputs in time order (boxes/SJoinQBox.cc, SJoinQBox.h): it takes the tuples of both
  inputs by increasing time, forwards boundaries, and holds back the end mark of a reconciliation until an input is empty.
\<close>

record sjoin_box =
  sj_join :: join_box
  leftjoin :: bool
  rightjoin :: bool
  last_left :: timestamp
  last_right :: timestamp
  produce_rec_done :: bool
  rec_done_tuple :: tuple
  sj_header_size :: nat

text \<open>\<open>setup_impl\<close>: only the text \<open>false\<close> turns a direction off.\<close>

definition SJoin_setup :: "string option \<Rightarrow> string option \<Rightarrow> sjoin_box \<Rightarrow> sjoin_box" where
  "SJoin_setup left_param right_param box =
     box\<lparr>leftjoin := (left_param \<noteq> Some ''false''), rightjoin := (right_param \<noteq> Some ''false''),
         last_left := Timestamp_zero, last_right := Timestamp_zero, produce_rec_done := False\<rparr>"

definition is_control_tuple :: "tuple \<Rightarrow> bool" where
  "is_control_tuple t \<longleftrightarrow> tuple_type t = BOUNDARY \<or> tuple_type t = RECONCILIATION_DONE"

text \<open>The header on a cleared tuple.\<close>

definition SJoin_process_control_tuple :: "tuple \<Rightarrow> sjoin_box \<Rightarrow> sjoin_box \<times> tuple list" where
  "SJoin_process_control_tuple t box =
     (let j = sj_join box
      in (box\<lparr>sj_join := j\<lparr>join_emitted := Suc (join_emitted j)\<rparr>\<rparr>,
          [copy_header (sj_header_size box) t (clear_tuple (join_memory j (join_emitted j)))]))"

definition set_last :: "join_side \<Rightarrow> timestamp \<Rightarrow> sjoin_box \<Rightarrow> sjoin_box" where
  "set_last s ts box = (case s of LEFT \<Rightarrow> box\<lparr>last_left := ts\<rparr> | RIGHT \<Rightarrow> box\<lparr>last_right := ts\<rparr>)"

definition SJoin_control :: "join_side \<Rightarrow> tuple \<Rightarrow> sjoin_box \<Rightarrow> sjoin_box \<times> tuple list" where
  "SJoin_control s t box =
     (let (box1, outs) = (if tuple_type t = RECONCILIATION_DONE
            then (box\<lparr>produce_rec_done := True, rec_done_tuple := copy_header (sj_header_size box) t (rec_done_tuple box)\<rparr>, [])
            else SJoin_process_control_tuple t box)
      in (set_last s (tuple_stime t) box1, outs))"

definition SJoin_data :: "join_side \<Rightarrow> tuple \<Rightarrow> sjoin_box \<Rightarrow> (sjoin_box \<times> tuple list) result" where
  "SJoin_data s t box =
     rbind (join_process s (case s of LEFT \<Rightarrow> leftjoin box | RIGHT \<Rightarrow> rightjoin box) t (sj_join box)) (\<lambda>(j, outs).
       Inr (set_last s (tuple_stime t) (box\<lparr>sj_join := limit_selectivity j\<rparr>), outs))"

text \<open>
  The next tuple to process: control tuples first, then by time, on a tie the right one. \<open>more_left\<close> and \<open>more_right\<close>
  say whether the invocation may go on with the input.
\<close>

definition SJoin_next :: "bool \<Rightarrow> bool \<Rightarrow> tuple list \<Rightarrow> tuple list \<Rightarrow> join_side" where
  "SJoin_next more_left more_right lefts rights =
     (if more_left \<and> is_control_tuple (hd lefts) then LEFT
      else if more_right \<and> is_control_tuple (hd rights) then RIGHT
      else if more_left \<and> more_right
      then if tuple_stime (hd lefts) < tuple_stime (hd rights) then LEFT else RIGHT
      else if more_left then LEFT else RIGHT)"

definition SJoin_step :: "join_side \<Rightarrow> tuple \<Rightarrow> sjoin_box \<Rightarrow> (sjoin_box \<times> tuple list) result" where
  "SJoin_step s t box = (if is_control_tuple t then Inr (SJoin_control s t box) else SJoin_data s t box)"

function SJoin_loop ::
  "qbox_invocation \<Rightarrow> bool \<Rightarrow> bool \<Rightarrow> tuple list \<Rightarrow> tuple list \<Rightarrow> sjoin_box \<Rightarrow>
   (qbox_invocation \<times> tuple list \<times> tuple list \<times> sjoin_box \<times> tuple list) result" where
  "SJoin_loop qi more_left more_right lefts rights box =
     (if \<not> more_left \<and> \<not> more_right then Inr (qi, lefts, rights, box, [])
      else if more_left \<and> lefts = [] \<or> more_right \<and> rights = [] then Inl AssertionFailed
      else case SJoin_next more_left more_right lefts rights of
        LEFT \<Rightarrow> (case lefts of
            [] \<Rightarrow> Inl AssertionFailed
          | t # ts \<Rightarrow> rbind (SJoin_step LEFT t box) (\<lambda>(box1, outs).
              let (more, qi1) = continue_dequeue_on 0 qi (ts \<noteq> [])
              in rbind (SJoin_loop qi1 more more_right ts rights box1)
                   (\<lambda>(qi2, ls, rs, box2, outs2). Inr (qi2, ls, rs, box2, outs @ outs2))))
      | RIGHT \<Rightarrow> (case rights of
            [] \<Rightarrow> Inl AssertionFailed
          | t # ts \<Rightarrow> rbind (SJoin_step RIGHT t box) (\<lambda>(box1, outs).
              let (more, qi1) = continue_dequeue_on 1 qi (ts \<noteq> [])
              in rbind (SJoin_loop qi1 more_left more lefts ts box1)
                   (\<lambda>(qi2, ls, rs, box2, outs2). Inr (qi2, ls, rs, box2, outs @ outs2)))))"
  by pat_completeness auto
termination
  by (relation "measure (\<lambda>(qi, ml, mr, ls, rs, box). length ls + length rs)") auto

definition SJoin_rec_done :: "tuple list \<Rightarrow> tuple list \<Rightarrow> sjoin_box \<Rightarrow> sjoin_box \<times> tuple list" where
  "SJoin_rec_done lefts rights box =
     (if (lefts = [] \<or> rights = []) \<and> produce_rec_done box
      then let t = (rec_done_tuple box)\<lparr>tuple_stime := (if Timestamp_gt (last_left box) (last_right box) then last_left box else last_right box)\<rparr>
           in SJoin_process_control_tuple t (box\<lparr>produce_rec_done := False, rec_done_tuple := t\<rparr>)
      else (box, []))"

definition SJoinQBox_run ::
  "qbox_invocation \<Rightarrow> tuple list \<Rightarrow> tuple list \<Rightarrow> sjoin_box \<Rightarrow>
   (qbox_invocation \<times> tuple list \<times> tuple list \<times> sjoin_box \<times> tuple list) result" where
  "SJoinQBox_run qi lefts rights box =
     (let (more_left, qi1) = continue_dequeue_on 0 qi (lefts \<noteq> []);
          (more_right, qi2) = continue_dequeue_on 1 qi1 (rights \<noteq> [])
      in rbind (SJoin_loop qi2 more_left more_right lefts rights box) (\<lambda>(qi3, ls, rs, box1, outs).
           let (box2, outs2) = SJoin_rec_done ls rs box1 in Inr (qi3, ls, rs, box2, outs @ outs2)))"

definition SJoin_unpack_state :: "join_state \<Rightarrow> sjoin_box \<Rightarrow> sjoin_box result" where
  "SJoin_unpack_state js box =
     rbind (Join_unpack_state js (sj_join box)) (\<lambda>j.
       Inr (box\<lparr>sj_join := j, last_left := Timestamp_zero, last_right := Timestamp_zero\<rparr>))"

end
