(* ===== verification/Join_Spec.thy ===== *)
theory Join_Spec
  imports SJoin_Box
begin

text \<open>
  What the Join box computes: every tuple is paired with the window of the other input at its arrival, a
  declarative function of the tuples that came before.
\<close>

section \<open>The reference\<close>

definition arrivals :: "join_side \<Rightarrow> (join_side \<times> tuple) list \<Rightarrow> tuple list" where
  "arrivals s evs = map snd (filter (\<lambda>e. fst e = s) evs)"

text \<open>A tuple that is not timed out when \<open>t\<close> comes.\<close>

definition young :: "join_box \<Rightarrow> tuple \<Rightarrow> tuple \<Rightarrow> bool" where
  "young box t u \<longleftrightarrow> \<not> join_timing_out box \<or> \<not> tv u < Timestamp_minus (tv t) (join_timeout box)"

definition join_window :: "join_box \<Rightarrow> join_side \<Rightarrow> tuple list \<Rightarrow> tuple list" where
  "join_window box s us =
     (case join_kind box s of
        TupleCountJoinBuffer n \<Rightarrow> (let vs = filter (young box (last us)) us in drop (length vs - n) vs)
      | FieldJoinBuffer f sz \<Rightarrow> filter (\<lambda>u. young box (last us) u \<and> f (last us) - f u < sz) us)"

definition join_partners :: "join_box \<Rightarrow> (join_side \<times> tuple) list \<Rightarrow> join_side \<times> tuple \<Rightarrow> (tuple \<times> tuple) list" where
  "join_partners box evs e =
     (case e of (s, t) \<Rightarrow> filter (\<lambda>(l, r). join_predicate box l r)
        (map (join_pair s t) (join_window box (other_stream s) (arrivals (other_stream s) evs))))"

fun join_more :: "join_box \<Rightarrow> (join_side \<times> tuple) list \<Rightarrow> (join_side \<times> tuple) list \<Rightarrow> (tuple \<times> tuple) list" where
  "join_more box before [] = []"
| "join_more box before (e # evs) = join_partners box before e @ join_more box (before @ [e]) evs"

definition join_reference :: "join_box \<Rightarrow> (join_side \<times> tuple) list \<Rightarrow> (tuple \<times> tuple) list" where
  "join_reference box evs = join_more box [] evs"

text \<open>An output for a pair, on whatever memory.\<close>

definition is_joined :: "join_box \<Rightarrow> tuple \<Rightarrow> tuple \<times> tuple \<Rightarrow> bool" where
  "is_joined box out p \<longleftrightarrow> (\<exists>old. out = produce_tuple box (fst p) (snd p) old)"

text \<open>
  Buffers that hold something, and inputs in the order that the buffers rely on: with a timeout, timestamps and the ages
  computed from them do not decrease and no tuple is too old when it comes; the values of an order-on field do not decrease.
\<close>

definition join_sized :: "join_box \<Rightarrow> bool" where
  "join_sized box \<longleftrightarrow> (\<forall>s. case join_kind box s of TupleCountJoinBuffer n \<Rightarrow> 0 < n | FieldJoinBuffer f sz \<Rightarrow> 0 < sz)"

definition join_ordered :: "join_box \<Rightarrow> join_side \<Rightarrow> tuple list \<Rightarrow> bool" where
  "join_ordered box s us \<longleftrightarrow>
     (join_timing_out box \<longrightarrow> sorted (map tv us) \<and> sorted (map (\<lambda>u. Timestamp_minus (tv u) (join_timeout box)) us)) \<and>
     (\<forall>u \<in> set us. young box u u) \<and>
     (case join_kind box s of TupleCountJoinBuffer n \<Rightarrow> True | FieldJoinBuffer f sz \<Rightarrow> sorted (map f us))"

lemma arrivals_Nil [simp]: "arrivals s [] = []"
  by (simp add: arrivals_def)

lemma arrivals_append [simp]: "arrivals s (evs @ fs) = arrivals s evs @ arrivals s fs"
  by (simp add: arrivals_def)

lemma arrivals_one [simp]: "arrivals s [(s', t)] = (if s' = s then [t] else [])"
  by (simp add: arrivals_def)

lemma arrivals_side [simp]: "arrivals s (map (Pair s') ts) = (if s = s' then ts else [])"
  by (simp add: arrivals_def filter_map comp_def)

lemma join_more_append: "join_more box before (evs @ fs) = join_more box before evs @ join_more box (before @ evs) fs"
  by (induction evs arbitrary: before) simp_all

lemma other_stream_neq [simp]: "other_stream s \<noteq> s" "s \<noteq> other_stream s"
  by (cases s; simp)+

section \<open>The operations\<close>

text \<open>What no operation changes.\<close>

definition join_config :: "join_box \<Rightarrow> join_box" where
  "join_config box = box\<lparr>join_buffer := (\<lambda>_. []), join_selectivity := (\<lambda>_. []), join_selectivity_sum := (\<lambda>_. 0),
     join_emitted := 0, join_inserted := 0\<rparr>"

lemma join_config_upd [simp]:
  "join_config (set_buffer s es box) = join_config box" "join_config (box\<lparr>join_emitted := x1\<rparr>) = join_config box"
  "join_config (box\<lparr>join_inserted := x2\<rparr>) = join_config box" "join_config (record_selectivity w s e box) = join_config box"
  "join_config (limit_selectivity box) = join_config box"
  by (simp_all add: join_config_def set_buffer_def record_selectivity_def limit_selectivity_def limit_side_def Let_def)

lemma join_configD:
  assumes "join_config a = join_config b"
  shows "join_kind a = join_kind b" "join_timing_out a = join_timing_out b" "join_timeout a = join_timeout b"
    "join_predicate a = join_predicate b" "just_concat a = just_concat b" "output_expressions a = output_expressions b"
    "left_body_size a = left_body_size b" "right_body_size a = right_body_size b" "is_sjoin a = is_sjoin b"
    "double_less a = double_less b"
  using assms by (cases a; cases b; simp add: join_config_def)+

lemma produce_tuple_config:
  assumes "join_config a = join_config b"
  shows "produce_tuple a l r old = produce_tuple b l r old"
  by (simp only: produce_tuple_def produce_dont_emit_tuple_def join_configD [OF assms])

lemma join_buffer_upd [simp]:
  "join_buffer (record_selectivity w s e box) = join_buffer box" "join_buffer (limit_selectivity box) = join_buffer box"
  "join_buffer (set_buffer s es box) = (join_buffer box)(s := es)"
  by (simp_all add: set_buffer_def record_selectivity_def limit_selectivity_def limit_side_def Let_def)

lemma JoinBuffer_join_is:
  "map je_tuple (fst (JoinBuffer_join box s t k es)) = map je_tuple es"
  "list_all2 (is_joined box) (snd (JoinBuffer_join box s t k es))
     (filter (\<lambda>(l, r). join_predicate box l r) (map (join_pair s t) (map je_tuple es)))"
  by (induction es arbitrary: k) (auto simp: split_beta Let_def is_joined_def)

lemma expire_elements_is:
  "map je_tuple (fst (expire_elements thr s es box)) = dropWhile (\<lambda>u. Timestamp_lt (tv u) thr) (map je_tuple es)"
  "join_config (snd (expire_elements thr s es box)) = join_config box"
  "join_buffer (snd (expire_elements thr s es box)) = join_buffer box"
  by (induction thr s es box rule: expire_elements.induct) auto

lemma evict_by_count_is:
  "map je_tuple (fst (evict_by_count n s es box)) = drop (length es - n) (map je_tuple es)"
  "join_config (snd (evict_by_count n s es box)) = join_config box"
  "join_buffer (snd (evict_by_count n s es box)) = join_buffer box"
  by (induction n s es box rule: evict_by_count.induct) (auto simp: Suc_diff_le)

lemma evict_by_field_is:
  assumes "e \<in> set es" "v - f (je_tuple e) < sz"
  shows "\<exists>es' box'. evict_by_field f sz v s es box = Inr (es', box') \<and>
    map je_tuple es' = dropWhile (\<lambda>u. sz \<le> v - f u) (map je_tuple es) \<and> join_config box' = join_config box \<and>
    join_buffer box' = join_buffer box"
  using assms by (induction f sz v s es box rule: evict_by_field.induct) auto

text \<open>The tuples a buffer keeps when \<open>t\<close> is put into it.\<close>

definition retained :: "join_box \<Rightarrow> join_side \<Rightarrow> tuple list \<Rightarrow> tuple \<Rightarrow> tuple list" where
  "retained box s us t =
     (let vs = dropWhile (\<lambda>u. \<not> young box t u) us @ [t]
      in case join_kind box s of
           TupleCountJoinBuffer n \<Rightarrow> drop (length vs - n) vs
         | FieldJoinBuffer f sz \<Rightarrow> dropWhile (\<lambda>u. sz \<le> f t - f u) vs)"

lemma JoinBuffer_insert_is:
  "map je_tuple (fst (JoinBuffer_insert_tuple s t box)) = dropWhile (\<lambda>u. \<not> young box t u) (map je_tuple (join_buffer box s)) @ [t]"
  "join_config (snd (JoinBuffer_insert_tuple s t box)) = join_config box"
  "join_buffer (snd (JoinBuffer_insert_tuple s t box)) = join_buffer box"
  by (simp_all add: JoinBuffer_insert_tuple_def split_beta expire_elements_is young_def dropWhile_eq_self_iff)

lemma join_insert_is:
  assumes "join_sized box"
  shows "\<exists>box'. join_insert_tuple s t box = Inr box' \<and> join_config box' = join_config box \<and>
    map je_tuple (join_buffer box' s) = retained box s (map je_tuple (join_buffer box s)) t \<and>
    join_buffer box' (other_stream s) = join_buffer box (other_stream s)"
proof (cases "join_kind box s")
  case (TupleCountJoinBuffer n)
  then show ?thesis
    using arg_cong [OF JoinBuffer_insert_is(1) [of s t box], of length, unfolded length_map]
    by (simp add: join_insert_tuple_def split_beta Let_def evict_by_count_is JoinBuffer_insert_is retained_def del: drop_append)
next
  case (FieldJoinBuffer f sz)
  let ?i = "JoinBuffer_insert_tuple s t box"
  have "t \<in> set (map je_tuple (fst ?i))" unfolding JoinBuffer_insert_is by simp
  then obtain e where e: "e \<in> set (fst ?i)" "je_tuple e = t" by auto
  have "0 < sz" using assms FieldJoinBuffer unfolding join_sized_def by (metis join_buffer_kind.simps(6))
  then have "f t - f (je_tuple e) < sz" using e(2) by simp
  from evict_by_field_is [where f = f and v = "f t" and sz = sz and s = s and box = "snd ?i", OF e(1) this] FieldJoinBuffer show ?thesis
    by (auto simp: join_insert_tuple_def split_beta JoinBuffer_insert_is retained_def)
qed

section \<open>Windows\<close>

lemma dropWhile_sorted:
  fixes f :: "'a \<Rightarrow> 'b::linorder"
  assumes "sorted (map f xs)" "\<And>x y. x \<in> set xs \<Longrightarrow> y \<in> set xs \<Longrightarrow> f x \<le> f y \<Longrightarrow> Q y \<Longrightarrow> Q x"
  shows "dropWhile Q xs = filter (\<lambda>x. \<not> Q x) xs"
  using assms
proof (induction xs)
  case (Cons x xs)
  show ?case
  proof (cases "Q x")
    case True
    have "dropWhile Q xs = filter (\<lambda>x. \<not> Q x) xs"
      by (rule Cons.IH) (use Cons.prems in auto)
    then show ?thesis using True by simp
  next
    case False
    then have "\<forall>y \<in> set xs. \<not> Q y" using Cons.prems by auto
    then show ?thesis using False by simp
  qed
qed simp

lemma dropWhile_last:
  assumes "\<forall>x \<in> set (dropWhile Q xs). \<not> Q x"
  shows "dropWhile Q (drop (length xs - n) xs) = drop (length (dropWhile Q xs) - n) (dropWhile Q xs)"
proof -
  define a b where ab: "a = takeWhile Q xs" "b = dropWhile Q xs"
  have xs: "xs = a @ b" and a: "\<forall>x \<in> set a. Q x" by (auto simp: ab dest: set_takeWhileD)
  have b: "\<forall>x \<in> set b. \<not> Q x" using assms by (simp add: ab)
  have no: "dropWhile Q ys = ys" if "\<forall>x \<in> set ys. \<not> Q x" for ys using that by (cases ys) auto
  have all: "dropWhile Q (ys @ b) = b" if "\<forall>x \<in> set ys. Q x" for ys using that no [OF b] by (simp add: dropWhile_append2)
  show ?thesis
  proof (cases "n \<ge> length b")
    case True
    then have "drop (length xs - n) xs = drop (length xs - n) a @ b" by (simp add: xs)
    moreover have "\<forall>x \<in> set (drop (length xs - n) a). Q x" using a by (meson in_set_dropD)
    ultimately show ?thesis using True all by (simp add: ab(2) [symmetric])
  next
    case False
    then have "drop (length xs - n) xs = drop (length b - n) b" by (simp add: xs)
    moreover have "\<forall>x \<in> set (drop (length b - n) b). \<not> Q x" using b by (meson in_set_dropD)
    ultimately show ?thesis using no by (simp add: ab(2) [symmetric])
  qed
qed

lemma drop_snoc_last: "drop (length (drop (length xs - n) xs @ [t]) - n) (drop (length xs - n) xs @ [t]) = drop (Suc (length xs) - n) (xs @ [t])"
proof -
  let ?k = "length xs - n"
  have a: "drop ?k xs @ [t] = drop ?k (xs @ [t])" by simp
  have "length (drop ?k xs @ [t]) - n + ?k = Suc (length xs) - n" by simp
  then show ?thesis using a drop_drop by metis
qed

text \<open>The window after one more tuple is what the buffer keeps of the window before.\<close>

lemma expired_prefix:
  assumes "join_timing_out box \<longrightarrow> sorted (map tv xs)"
  shows "dropWhile (\<lambda>u. \<not> young box t u) xs = filter (young box t) xs"
proof (cases "join_timing_out box")
  case True
  then have "dropWhile (\<lambda>u. \<not> young box t u) xs = filter (\<lambda>u. \<not> \<not> young box t u) xs"
    by (intro dropWhile_sorted [of tv]) (use assms in \<open>auto simp: young_def\<close>)
  then show ?thesis by simp
next
  case False
  then show ?thesis by (simp add: young_def dropWhile_eq_self_iff)
qed

lemma young_before:
  assumes "join_ordered box s (us @ [t])" "us \<noteq> []" "young box t u"
  shows "young box (last us) u"
proof -
  have "Timestamp_minus (tv (last us)) (join_timeout box) \<le> Timestamp_minus (tv t) (join_timeout box)" if "join_timing_out box"
    using assms(1,2) that by (auto simp: join_ordered_def sorted_append)
  then show ?thesis using assms(3) by (auto simp: young_def)
qed

lemma join_window_snoc:
  assumes "join_ordered box s (us @ [t])" "join_sized box"
  shows "join_window box s (us @ [t]) = retained box s (join_window box s us) t"
proof (cases "us = []")
  case True
  have "young box t t" using assms(1) by (simp add: join_ordered_def)
  moreover have "case join_kind box s of TupleCountJoinBuffer n \<Rightarrow> 0 < n | FieldJoinBuffer f sz \<Rightarrow> 0 < sz"
    using assms(2) by (simp add: join_sized_def)
  ultimately show ?thesis by (auto simp: True join_window_def retained_def Let_def split: join_buffer_kind.splits)
next
  case False
  have tt: "young box t t" using assms(1) by (simp add: join_ordered_def)
  have st: "join_timing_out box \<longrightarrow> sorted (map tv (filter P us))" for P
    using assms(1) by (auto simp: join_ordered_def sorted_append intro: sorted_filter)
  have yy: "young box (last us) u \<and> young box t u \<longleftrightarrow> young box t u" for u using young_before [OF assms(1) False] by blast
  show ?thesis
  proof (cases "join_kind box s")
    case (TupleCountJoinBuffer n)
    let ?B = "filter (young box (last us)) us"
    have C: "dropWhile (\<lambda>u. \<not> young box t u) ?B = filter (young box t) us"
      unfolding expired_prefix [OF st] using yy by (simp add: conj_commute)
    have "dropWhile (\<lambda>u. \<not> young box t u) (drop (length ?B - n) ?B) = drop (length (filter (young box t) us) - n) (filter (young box t) us)"
      using dropWhile_last [of "\<lambda>u. \<not> young box t u" ?B n] unfolding C by simp
    moreover have "join_window box s (us @ [t]) = drop (Suc (length (filter (young box t) us)) - n) (filter (young box t) us @ [t])"
      using tt by (simp add: join_window_def TupleCountJoinBuffer del: drop_append)
    moreover have "join_window box s us = drop (length ?B - n) ?B" by (simp add: join_window_def TupleCountJoinBuffer Let_def)
    ultimately show ?thesis unfolding retained_def Let_def TupleCountJoinBuffer join_buffer_kind.case
      by (simp only: drop_snoc_last)
  next
    case (FieldJoinBuffer f sz)
    have sf: "sorted (map f (us @ [t]))" using assms(1) FieldJoinBuffer by (auto simp: join_ordered_def)
    have pos: "0 < sz" using assms(2) FieldJoinBuffer unfolding join_sized_def by (metis join_buffer_kind.simps(6))
    let ?P = "filter (\<lambda>u. young box (last us) u \<and> f (last us) - f u < sz) us"
    have "sorted (map f (filter (young box t) ?P @ [t]))"
      using sf by (auto simp: sorted_append intro!: sorted_filter)
    then have "dropWhile (\<lambda>u. sz \<le> f t - f u) (filter (young box t) ?P @ [t]) = filter (\<lambda>u. \<not> sz \<le> f t - f u) (filter (young box t) ?P @ [t])"
      by (rule dropWhile_sorted) linarith
    moreover have "young box t u \<and> f t - f u < sz \<longleftrightarrow> \<not> sz \<le> f t - f u \<and> young box t u \<and> young box (last us) u \<and> f (last us) - f u < sz" for u
    proof -
      have "f (last us) \<le> f t" using sf False by (auto simp: sorted_append)
      then show ?thesis using yy by fastforce
    qed
    ultimately show ?thesis using tt pos
      by (simp add: join_window_def retained_def FieldJoinBuffer Let_def expired_prefix [OF st] conj_ac)
  qed
qed

section \<open>Steps\<close>

text \<open>The box after the events \<open>evs\<close>.\<close>

definition joined_upto :: "join_box \<Rightarrow> (join_side \<times> tuple) list \<Rightarrow> join_box \<Rightarrow> bool" where
  "joined_upto box0 evs box \<longleftrightarrow>
     join_config box = join_config box0 \<and>
     (\<forall>s. map je_tuple (join_buffer box s) = join_window box0 s (arrivals s evs))"

lemma joined_upto_new: "join_buffer box = (\<lambda>_. []) \<Longrightarrow> joined_upto box [] box"
  by (simp add: joined_upto_def join_window_def split: join_buffer_kind.split)

lemma is_joined_config:
  assumes "join_config a = join_config b"
  shows "is_joined a = is_joined b"
  by (intro ext) (simp only: is_joined_def produce_tuple_config [OF assms])

lemma retained_config:
  assumes "join_config a = join_config b"
  shows "retained a = retained b"
  by (intro ext) (simp only: retained_def young_def join_configD [OF assms])

lemma join_sized_config:
  assumes "join_config a = join_config b"
  shows "join_sized a = join_sized b"
  by (simp only: join_sized_def join_configD [OF assms])

lemma join_window_nonempty: "join_ordered box s (us @ [t]) \<Longrightarrow> join_sized box \<Longrightarrow> join_window box s (us @ [t]) \<noteq> []"
proof -
  assume a: "join_ordered box s (us @ [t])" "join_sized box"
  have "young box t t" using a(1) by (simp add: join_ordered_def)
  moreover have "case join_kind box s of TupleCountJoinBuffer n \<Rightarrow> 0 < n | FieldJoinBuffer f sz \<Rightarrow> 0 < sz"
    using a(2) by (simp add: join_sized_def)
  ultimately show ?thesis by (auto simp: join_window_def Let_def split: join_buffer_kind.splits)
qed

lemma add_counts_is:
  assumes "join_buffer box s \<noteq> []"
  shows "\<exists>box'. add_counts s c box = Inr box' \<and> join_config box' = join_config box \<and>
    map je_tuple (join_buffer box' s) = map je_tuple (join_buffer box s) \<and>
    join_buffer box' (other_stream s) = join_buffer box (other_stream s)"
proof -
  obtain e es where e: "join_buffer box s = e # es" using assms by (cases "join_buffer box s") auto
  have "map je_tuple (butlast (e # es) @ [y]) = map je_tuple (e # es)" if "je_tuple y = je_tuple (last (e # es))" for y
  proof -
    have "map je_tuple (butlast (e # es) @ [y]) = map je_tuple (butlast (e # es) @ [last (e # es)])"
      using that by (simp only: map_append list.map)
    then show ?thesis by (subst (asm) append_butlast_last_id) simp_all
  qed
  then show ?thesis by (simp add: add_counts_def e Let_def del: butlast.simps last.simps list.map map_append)
qed

lemma join_process_is:
  assumes "joined_upto box0 evs box" "join_sized box0" "join_ordered box0 s (arrivals s evs @ [t])"
  shows "\<exists>box' outs. join_process s True t box = Inr (box', outs) \<and> joined_upto box0 (evs @ [(s, t)]) box' \<and>
    list_all2 (is_joined box0) outs (join_partners box0 evs (s, t))"
proof -
  have cfg: "join_config box = join_config box0" and buf: "\<And>s. map je_tuple (join_buffer box s) = join_window box0 s (arrivals s evs)"
    using assms(1) by (simp_all add: joined_upto_def)
  let ?j = "JoinBuffer_join box s t (join_emitted box) (join_buffer box (other_stream s))"
  let ?box1 = "(set_buffer (other_stream s) (fst ?j) box)\<lparr>join_emitted := join_emitted box + length (snd ?j), join_inserted := Suc (join_inserted box)\<rparr>"
  have c1: "join_config ?box1 = join_config box0" by (simp add: cfg)
  obtain box2 where b2: "join_insert_tuple s t ?box1 = Inr box2" "join_config box2 = join_config ?box1"
    "map je_tuple (join_buffer box2 s) = retained ?box1 s (map je_tuple (join_buffer ?box1 s)) t"
    "join_buffer box2 (other_stream s) = join_buffer ?box1 (other_stream s)"
    using join_insert_is [of ?box1 s t] assms(2) join_sized_config [OF c1] by blast
  have w: "map je_tuple (join_buffer box2 s) = join_window box0 s (arrivals s evs @ [t])"
    unfolding b2(3) retained_config [OF c1] join_window_snoc [OF assms(3,2)] by (simp add: set_buffer_def buf)
  then have "join_buffer box2 s \<noteq> []" using join_window_nonempty [OF assms(3,2)] by auto
  then obtain box3 where b3: "add_counts s (0, 0) box2 = Inr box3" "join_config box3 = join_config box2"
    "map je_tuple (join_buffer box3 s) = map je_tuple (join_buffer box2 s)"
    "join_buffer box3 (other_stream s) = join_buffer box2 (other_stream s)"
    using add_counts_is by blast
  have o: "map je_tuple (join_buffer box3 (other_stream s)) = join_window box0 (other_stream s) (arrivals (other_stream s) evs)"
    unfolding b3(4) b2(4) by (simp add: set_buffer_def JoinBuffer_join_is buf)
  have "list_all2 (is_joined box0) (snd ?j) (join_partners box0 evs (s, t))"
    using JoinBuffer_join_is(2) [of box s t "join_emitted box" "join_buffer box (other_stream s)"]
    unfolding is_joined_config [OF cfg] buf join_configD(4) [OF cfg] by (simp add: join_partners_def)
  moreover have "map je_tuple (join_buffer box3 s') = join_window box0 s' (arrivals s' (evs @ [(s, t)]))" for s'
    using o b3(3) w by (cases s; cases s') auto
  then have "joined_upto box0 (evs @ [(s, t)]) box3" using b3(2) b2(2) c1 by (simp add: joined_upto_def)
  ultimately show ?thesis using b2(1) b3(1) by (auto simp: join_process_def split_beta)
qed

section \<open>Runs\<close>

lemma join_ordered_append: "join_ordered box s (us @ vs) \<Longrightarrow> join_ordered box s us"
  by (auto simp: join_ordered_def sorted_append split: join_buffer_kind.splits)

lemma joined_upto_limit: "joined_upto box0 evs box \<Longrightarrow> joined_upto box0 evs (limit_selectivity box)"
  by (simp add: joined_upto_def)

lemma fold_Join_step:
  assumes "joined_upto box0 evs box" "join_sized box0" "join_ordered box0 s (arrivals s evs @ ts)"
  shows "\<exists>box' outs. fold (Join_step s) ts (Inr (box, out)) = Inr (box', out @ outs) \<and>
    joined_upto box0 (evs @ map (Pair s) ts) box' \<and> list_all2 (is_joined box0) outs (join_more box0 evs (map (Pair s) ts))"
  using assms
proof (induction ts arbitrary: evs box out)
  case (Cons t ts)
  have o: "join_ordered box0 s (arrivals s evs @ [t])" using join_ordered_append [of box0 s "arrivals s evs @ [t]" ts] Cons.prems(3) by simp
  obtain box1 outs where p: "join_process s True t box = Inr (box1, outs)" "joined_upto box0 (evs @ [(s, t)]) box1"
    "list_all2 (is_joined box0) outs (join_partners box0 evs (s, t))"
    using join_process_is [OF Cons.prems(1,2) o] by blast
  have "join_ordered box0 s (arrivals s (evs @ [(s, t)]) @ ts)" using Cons.prems(3) by simp
  then obtain box' outs' where ih: "fold (Join_step s) ts (Inr (box1, out @ outs)) = Inr (box', (out @ outs) @ outs')"
    "joined_upto box0 ((evs @ [(s, t)]) @ map (Pair s) ts) box'"
    "list_all2 (is_joined box0) outs' (join_more box0 (evs @ [(s, t)]) (map (Pair s) ts))"
    using Cons.IH [OF p(2) Cons.prems(2)] by blast
  have "Join_step s t (Inr (box, out)) = Inr (box1, out @ outs)" by (simp add: Join_step_def p(1))
  then show ?case by (intro exI [of _ box'] exI [of _ "outs @ outs'"]) (use ih p in \<open>simp add: list_all2_appendI\<close>)
qed simp

lemma run_stream_is:
  assumes "joined_upto box0 evs box" "join_sized box0" "join_ordered box0 s (arrivals s evs @ xs)"
  shows "\<exists>qi' n box' outs. run_stream s qi xs (Inr (box, out)) = (qi', drop n xs, Inr (box', out @ outs)) \<and>
    joined_upto box0 (evs @ map (Pair s) (take n xs)) box' \<and>
    list_all2 (is_joined box0) outs (join_more box0 evs (map (Pair s) (take n xs)))"
proof -
  let ?p = "case s of LEFT \<Rightarrow> 0 | RIGHT \<Rightarrow> 1"
  let ?n = "run_count ?p qi xs"
  have "arrivals s evs @ xs = (arrivals s evs @ take ?n xs) @ drop ?n xs" by simp
  then have "join_ordered box0 s (arrivals s evs @ take ?n xs)" using assms(3) join_ordered_append by metis
  then obtain box' outs where f: "fold (Join_step s) (take ?n xs) (Inr (box, out)) = Inr (box', out @ outs)"
    "joined_upto box0 (evs @ map (Pair s) (take ?n xs)) box'"
    "list_all2 (is_joined box0) outs (join_more box0 evs (map (Pair s) (take ?n xs)))"
    using fold_Join_step [OF assms(1,2)] by blast
  obtain qi' where "run_port ?p (Join_step s) qi xs (Inr (box, out)) = (qi', drop ?n xs, Inr (box', out @ outs))"
    using run_port_ex [of ?p "Join_step s" qi xs "Inr (box, out)"] unfolding f(1) by blast
  then have "run_stream s qi xs (Inr (box, out)) = (qi', drop ?n xs, Inr (limit_selectivity box', out @ outs))"
    by (simp add: run_stream_def)
  then show ?thesis using joined_upto_limit [OF f(2)] f(3) by blast
qed

lemma JoinQBox_run_is:
  assumes "joined_upto box0 evs box" "join_sized box0"
    and "join_ordered box0 LEFT (arrivals LEFT evs @ ls)" "join_ordered box0 RIGHT (arrivals RIGHT evs @ rs)"
  shows "\<exists>qi' n m box' outs. JoinQBox_run qi ls rs box = (qi', drop n ls, drop m rs, Inr (box', outs)) \<and>
    joined_upto box0 (evs @ map (Pair LEFT) (take n ls) @ map (Pair RIGHT) (take m rs)) box' \<and>
    list_all2 (is_joined box0) outs (join_more box0 evs (map (Pair LEFT) (take n ls) @ map (Pair RIGHT) (take m rs)))"
proof -
  obtain q1 n b1 o1 where l: "run_stream LEFT qi ls (Inr (box, [])) = (q1, drop n ls, Inr (b1, o1))"
    "joined_upto box0 (evs @ map (Pair LEFT) (take n ls)) b1"
    "list_all2 (is_joined box0) o1 (join_more box0 evs (map (Pair LEFT) (take n ls)))"
    using run_stream_is [OF assms(1-3), of qi "[]"] by auto
  have "join_ordered box0 RIGHT (arrivals RIGHT (evs @ map (Pair LEFT) (take n ls)) @ rs)" using assms(4) by simp
  then obtain q2 m b2 o2 where r: "run_stream RIGHT q1 rs (Inr (b1, o1)) = (q2, drop m rs, Inr (b2, o1 @ o2))"
    "joined_upto box0 ((evs @ map (Pair LEFT) (take n ls)) @ map (Pair RIGHT) (take m rs)) b2"
    "list_all2 (is_joined box0) o2 (join_more box0 (evs @ map (Pair LEFT) (take n ls)) (map (Pair RIGHT) (take m rs)))"
    using run_stream_is [OF l(2) assms(2), of RIGHT rs q1 o1] by blast
  have "JoinQBox_run qi ls rs box = (q2, drop n ls, drop m rs, Inr (b2, o1 @ o2))" by (simp add: JoinQBox_run_def l(1) r(1))
  moreover have "list_all2 (is_joined box0) (o1 @ o2) (join_more box0 evs (map (Pair LEFT) (take n ls) @ map (Pair RIGHT) (take m rs)))"
    using l(3) r(3) by (simp add: join_more_append list_all2_appendI)
  ultimately show ?thesis using r(2) by (metis append.assoc)
qed

section \<open>Any input\<close>

text \<open>Whatever the order of the tuples: a buffer by number holds at most as many tuples as it may.\<close>

definition join_bounded :: "join_box \<Rightarrow> join_box \<Rightarrow> bool" where
  "join_bounded box0 box \<longleftrightarrow>
     join_config box = join_config box0 \<and>
     (\<forall>s. case join_kind box0 s of TupleCountJoinBuffer n \<Rightarrow> length (join_buffer box s) \<le> n | FieldJoinBuffer f sz \<Rightarrow> True)"

lemma retained_nonempty: "join_sized box \<Longrightarrow> retained box s us t \<noteq> []"
proof -
  assume "join_sized box"
  then have "case join_kind box s of TupleCountJoinBuffer n \<Rightarrow> 0 < n | FieldJoinBuffer f sz \<Rightarrow> 0 < sz" by (simp add: join_sized_def)
  moreover have "dropWhile Q (xs @ [t]) \<noteq> []" if "\<not> Q t" for Q and xs :: "tuple list" using that by (induction xs) auto
  ultimately show ?thesis by (auto simp: retained_def Let_def simp del: dropWhile_append dropWhile_eq_Nil_conv split: join_buffer_kind.split)
qed

lemma join_process_bounded:
  assumes "join_bounded box0 box" "join_sized box0"
  shows "\<exists>box' outs. join_process s b t box = Inr (box', outs) \<and> join_bounded box0 box' \<and> join_buffer box' s \<noteq> []"
proof -
  have cfg: "join_config box = join_config box0" using assms(1) by (simp add: join_bounded_def)
  let ?j = "if b then JoinBuffer_join box s t (join_emitted box) (join_buffer box (other_stream s)) else (join_buffer box (other_stream s), [])"
  have l: "length (fst ?j) = length (join_buffer box (other_stream s))"
    using JoinBuffer_join_is(1) [THEN arg_cong, of length, unfolded length_map] by simp
  let ?box1 = "(set_buffer (other_stream s) (fst ?j) box)\<lparr>join_emitted := join_emitted box + length (snd ?j), join_inserted := Suc (join_inserted box)\<rparr>"
  have c1: "join_config ?box1 = join_config box0" by (simp add: cfg)
  obtain box2 where b2: "join_insert_tuple s t ?box1 = Inr box2" "join_config box2 = join_config ?box1"
    "map je_tuple (join_buffer box2 s) = retained ?box1 s (map je_tuple (join_buffer ?box1 s)) t"
    "join_buffer box2 (other_stream s) = join_buffer ?box1 (other_stream s)"
    using join_insert_is [of ?box1 s t] assms(2) join_sized_config [OF c1] by blast
  have ne: "join_buffer box2 s \<noteq> []" using b2(3) retained_nonempty assms(2) join_sized_config [OF c1] by (metis list.map_disc_iff)
  then obtain box3 where b3: "add_counts s c box2 = Inr box3" "join_config box3 = join_config box2"
    "map je_tuple (join_buffer box3 s) = map je_tuple (join_buffer box2 s)"
    "join_buffer box3 (other_stream s) = join_buffer box2 (other_stream s)" if "c = (if b then (0, 0) else stale_counts box (join_inserted box))" for c
    using add_counts_is by blast
  define c where "c = (if b then (0, 0) else stale_counts box (join_inserted box))"
  note b3 = b3 [OF c_def]
  have "length (join_buffer box3 s) \<le> n" if "join_kind box0 s = TupleCountJoinBuffer n" for n
  proof -
    have "length (join_buffer box3 s) = length (retained ?box1 s (map je_tuple (join_buffer ?box1 s)) t)"
      using b3(3) b2(3) by (metis length_map)
    also have "\<dots> \<le> n" using that join_configD(1) [OF c1] by (simp add: retained_def Let_def)
    finally show ?thesis .
  qed
  then have own: "case join_kind box0 s of TupleCountJoinBuffer n \<Rightarrow> length (join_buffer box3 s) \<le> n | FieldJoinBuffer f sz \<Rightarrow> True"
    by (auto split: join_buffer_kind.split)
  have "length (join_buffer box3 (other_stream s)) = length (join_buffer box (other_stream s))"
    using b3(4) b2(4) l by (simp add: set_buffer_def)
  then have other: "case join_kind box0 (other_stream s) of TupleCountJoinBuffer n \<Rightarrow> length (join_buffer box3 (other_stream s)) \<le> n | FieldJoinBuffer f sz \<Rightarrow> True"
  proof -
    assume len: "length (join_buffer box3 (other_stream s)) = length (join_buffer box (other_stream s))"
    have "case join_kind box0 (other_stream s) of TupleCountJoinBuffer n \<Rightarrow> length (join_buffer box (other_stream s)) \<le> n | FieldJoinBuffer f sz \<Rightarrow> True"
      using assms(1) unfolding join_bounded_def by blast
    then show ?thesis by (simp only: len)
  qed
  have "case join_kind box0 s' of TupleCountJoinBuffer n \<Rightarrow> length (join_buffer box3 s') \<le> n | FieldJoinBuffer f sz \<Rightarrow> True" for s'
  proof (cases "s' = s")
    case True
    then show ?thesis using own by (simp only:)
  next
    case False
    then have "s' = other_stream s" by (cases s; cases s') auto
    then show ?thesis using other by (simp only:)
  qed
  then have "join_bounded box0 box3" using b3(2) b2(2) c1 by (simp add: join_bounded_def)
  moreover have "join_buffer box3 s \<noteq> []" using b3(3) ne by auto
  ultimately show ?thesis using b2(1) b3(1) by (auto simp: join_process_def split_beta c_def split: if_splits)
qed

end
