(* ===== verification/Join_Properties.thy ===== *)
theory Join_Properties
  imports Join_Spec
begin

text \<open>The properties of the Join boxes over runs, and where they fail.\<close>

section \<open>Sessions\<close>

text \<open>
  A session: several runs, each with its invocation and the tuples that have come on the inputs since; the tuples that a run
  leaves in its queues come first in the next.
\<close>

fun join_session ::
  "(qbox_invocation \<times> tuple list \<times> tuple list) list \<Rightarrow> tuple list \<Rightarrow> tuple list \<Rightarrow> join_box \<Rightarrow>
   (tuple list \<times> tuple list \<times> join_box \<times> tuple list) result" where
  "join_session [] ls rs box = Inr (ls, rs, box, [])"
| "join_session ((qi, new_ls, new_rs) # runs) ls rs box =
     (case JoinQBox_run qi (ls @ new_ls) (rs @ new_rs) box of
        (qi1, ls1, rs1, Inl e) \<Rightarrow> Inl e
      | (qi1, ls1, rs1, Inr (box1, out)) \<Rightarrow>
          rbind (join_session runs ls1 rs1 box1) (\<lambda>(ls2, rs2, box2, outs). Inr (ls2, rs2, box2, out @ outs)))"

abbreviation new_lefts :: "(qbox_invocation \<times> tuple list \<times> tuple list) list \<Rightarrow> tuple list" where
  "new_lefts runs \<equiv> concat (map (\<lambda>(qi, l, r). l) runs)"

abbreviation new_rights :: "(qbox_invocation \<times> tuple list \<times> tuple list) list \<Rightarrow> tuple list" where
  "new_rights runs \<equiv> concat (map (\<lambda>(qi, l, r). r) runs)"

lemma join_session_is:
  assumes "joined_upto box0 evs box" "join_sized box0"
    and "join_ordered box0 LEFT (arrivals LEFT evs @ ls @ new_lefts runs)"
    and "join_ordered box0 RIGHT (arrivals RIGHT evs @ rs @ new_rights runs)"
  shows "\<exists>ls' rs' box' outs evs'. join_session runs ls rs box = Inr (ls', rs', box', outs) \<and>
    arrivals LEFT evs' @ ls' = ls @ new_lefts runs \<and> arrivals RIGHT evs' @ rs' = rs @ new_rights runs \<and>
    list_all2 (is_joined box0) outs (join_more box0 evs evs')"
  using assms
proof (induction runs arbitrary: evs ls rs box)
  case Nil
  show ?case by (rule exI [of _ ls], rule exI [of _ rs], rule exI [of _ box], rule exI [of _ "[]"], rule exI [of _ "[]"]) simp
next
  case (Cons r runs)
  obtain qi nl nr where r: "r = (qi, nl, nr)" by (cases r)
  have ol: "join_ordered box0 LEFT (arrivals LEFT evs @ (ls @ nl))" and orr: "join_ordered box0 RIGHT (arrivals RIGHT evs @ (rs @ nr))"
    using Cons.prems(3,4) join_ordered_append [of box0 LEFT "arrivals LEFT evs @ (ls @ nl)" "new_lefts runs"]
      join_ordered_append [of box0 RIGHT "arrivals RIGHT evs @ (rs @ nr)" "new_rights runs"] by (simp_all add: r)
  obtain q n m b o1 where run: "JoinQBox_run qi (ls @ nl) (rs @ nr) box = (q, drop n (ls @ nl), drop m (rs @ nr), Inr (b, o1))"
    "joined_upto box0 (evs @ map (Pair LEFT) (take n (ls @ nl)) @ map (Pair RIGHT) (take m (rs @ nr))) b"
    "list_all2 (is_joined box0) o1 (join_more box0 evs (map (Pair LEFT) (take n (ls @ nl)) @ map (Pair RIGHT) (take m (rs @ nr))))"
    using JoinQBox_run_is [OF Cons.prems(1,2) ol orr] by blast
  let ?e = "map (Pair LEFT) (take n (ls @ nl)) @ map (Pair RIGHT) (take m (rs @ nr))"
  have "join_ordered box0 LEFT (arrivals LEFT (evs @ ?e) @ drop n (ls @ nl) @ new_lefts runs)"
    "join_ordered box0 RIGHT (arrivals RIGHT (evs @ ?e) @ drop m (rs @ nr) @ new_rights runs)"
    using Cons.prems(3,4) append_take_drop_id [of n "ls @ nl"] append_take_drop_id [of m "rs @ nr"]
    by (simp_all add: r del: take_append drop_append append_take_drop_id) (metis append.assoc)+
  then obtain ls' rs' b' o2 evs' where ih: "join_session runs (drop n (ls @ nl)) (drop m (rs @ nr)) b = Inr (ls', rs', b', o2)"
    "arrivals LEFT evs' @ ls' = drop n (ls @ nl) @ new_lefts runs" "arrivals RIGHT evs' @ rs' = drop m (rs @ nr) @ new_rights runs"
    "list_all2 (is_joined box0) o2 (join_more box0 (evs @ ?e) evs')"
    using Cons.IH [OF run(2) Cons.prems(2)] by blast
  have "join_session (r # runs) ls rs box = Inr (ls', rs', b', o1 @ o2)" by (simp only: r join_session.simps run(1)) (simp add: ih(1) del: drop_append)
  moreover have "arrivals LEFT (?e @ evs') @ ls' = ls @ new_lefts (r # runs)" "arrivals RIGHT (?e @ evs') @ rs' = rs @ new_rights (r # runs)"
    using ih(2,3) append_take_drop_id [of n "ls @ nl"] append_take_drop_id [of m "rs @ nr"]
    by (simp_all add: r del: take_append drop_append append_take_drop_id)
  moreover have "list_all2 (is_joined box0) (o1 @ o2) (join_more box0 evs (?e @ evs'))"
    using run(3) ih(4) by (simp only: join_more_append list_all2_appendI)
  ultimately show ?case by blast
qed

lemma Join_setup_new:
  assumes "Join_setup k lp rp timeout ne box0 = Inr box"
  shows "join_buffer box = (\<lambda>_. [])" "join_selectivity box = (\<lambda>_. [])" "create_buffer lp = Inr (join_kind box LEFT)"
    "create_buffer rp = Inr (join_kind box RIGHT)"
  using assms by (auto simp: Join_setup_def split: if_splits)

section \<open>Safety on any input\<close>

lemma limit_selectivity_bound: "length (join_selectivity (limit_selectivity box) s) \<le> SELECTIVITY_VECTOR_LIMIT"
  by (cases s) (auto simp: limit_selectivity_def limit_side_def)

lemma run_stream_bounded:
  assumes "join_bounded box0 box" "join_sized box0"
  shows "\<exists>qi' n box' out'. run_stream s qi xs (Inr (box, out)) = (qi', drop n xs, Inr (box', out')) \<and> join_bounded box0 box' \<and>
    (\<forall>s. length (join_selectivity box' s) \<le> SELECTIVITY_VECTOR_LIMIT)"
proof -
  have f: "\<exists>box' out'. fold (Join_step s) ts (Inr (b, o1)) = Inr (box', out') \<and> join_bounded box0 box'" if "join_bounded box0 b" for ts b o1
    using that
  proof (induction ts arbitrary: b o1)
    case (Cons t ts)
    then obtain b1 o2 where "join_process s True t b = Inr (b1, o2)" "join_bounded box0 b1"
      using join_process_bounded [OF Cons.prems assms(2)] by blast
    then show ?case using Cons.IH [of b1] by (simp add: Join_step_def [of s t])
  qed simp
  let ?p = "case s of LEFT \<Rightarrow> 0 | RIGHT \<Rightarrow> 1"
  obtain qi' where r: "run_port ?p (Join_step s) qi xs (Inr (box, out)) =
      (qi', drop (run_count ?p qi xs) xs, fold (Join_step s) (take (run_count ?p qi xs) xs) (Inr (box, out)))"
    using run_port_ex [of ?p "Join_step s" qi xs "Inr (box, out)"] by blast
  obtain b o1 where b: "fold (Join_step s) (take (run_count ?p qi xs) xs) (Inr (box, out)) = Inr (b, o1)" "join_bounded box0 b"
    using f [OF assms(1)] by blast
  have "run_stream s qi xs (Inr (box, out)) = (qi', drop (run_count ?p qi xs) xs, Inr (limit_selectivity b, o1))"
    using r b(1) by (simp add: run_stream_def)
  moreover have "join_bounded box0 (limit_selectivity b)" using b(2) unfolding join_bounded_def join_buffer_upd join_config_upd .
  ultimately show ?thesis using limit_selectivity_bound by blast
qed

lemma join_session_bounded:
  assumes "join_bounded box0 box" "join_sized box0" "\<forall>s. length (join_selectivity box s) \<le> SELECTIVITY_VECTOR_LIMIT"
  shows "\<exists>ls' rs' box' outs. join_session runs ls rs box = Inr (ls', rs', box', outs) \<and> join_bounded box0 box' \<and>
    (\<forall>s. length (join_selectivity box' s) \<le> SELECTIVITY_VECTOR_LIMIT)"
  using assms
proof (induction runs arbitrary: ls rs box)
  case (Cons r runs)
  obtain qi nl nr where r: "r = (qi, nl, nr)" by (cases r)
  obtain q1 n b1 o1 where l: "run_stream LEFT qi (ls @ nl) (Inr (box, [])) = (q1, drop n (ls @ nl), Inr (b1, o1))" "join_bounded box0 b1"
    using run_stream_bounded [OF Cons.prems(1,2)] by blast
  obtain q2 m b2 o2 where r2: "run_stream RIGHT q1 (rs @ nr) (Inr (b1, o1)) = (q2, drop m (rs @ nr), Inr (b2, o2))" "join_bounded box0 b2"
    "\<forall>s. length (join_selectivity b2 s) \<le> SELECTIVITY_VECTOR_LIMIT"
    using run_stream_bounded [OF l(2) Cons.prems(2)] by blast
  have "JoinQBox_run qi (ls @ nl) (rs @ nr) box = (q2, drop n (ls @ nl), drop m (rs @ nr), Inr (b2, o2))"
    by (simp add: JoinQBox_run_def l(1) r2(1))
  then show ?case using Cons.IH [OF r2(2) Cons.prems(2) r2(3), of "drop n (ls @ nl)" "drop m (rs @ nr)"]
    by (auto simp: r simp del: drop_append)
qed simp

section \<open>Properties of the Join box\<close>

text \<open>
  C12. The Join box is the window join of its inputs: over any number of runs of a box that was just set up, with buffers that can
  hold a tuple and inputs in order, each tuple is paired, when the box reads it, with exactly the tuples in the window of the other input
  (the last ones by number, those within the size by value, none that timed out) for which the predicate holds, in order, and the outputs
  are the joined tuples of these pairs; nothing is lost between runs.
\<close>

theorem join_equals_reference:
  assumes "Join_setup 2 lp rp timeout ne box0 = Inr box" "join_sized box"
    and "join_ordered box LEFT (new_lefts runs)" "join_ordered box RIGHT (new_rights runs)"
  shows "\<exists>ls rs box' outs evs. join_session runs [] [] box = Inr (ls, rs, box', outs) \<and>
    arrivals LEFT evs @ ls = new_lefts runs \<and> arrivals RIGHT evs @ rs = new_rights runs \<and>
    list_all2 (is_joined box) outs (join_reference box evs)"
  using join_session_is [OF joined_upto_new [OF Join_setup_new(1) [OF assms(1)]] assms(2), of "[]" runs "[]"] assms(3,4)
  by (simp add: join_reference_def)

text \<open>A join of the tuples with the same number.\<close>

definition join_tuple :: "int \<Rightarrow> tuple" where
  "join_tuple n =
     \<lparr>tv = Timestamp n 0, local_tv = Timestamp n 0, tuple_flag = 0, tuple_type = INSERTION,
      win_spec = -1, quality = 0, rev_id = -1, tuple_id = n, rev_field = -1, tuple_stime = Timestamp n 0, body = [0]\<rparr>"

definition blank_join :: join_box where
  "blank_join =
     \<lparr>join_kind = (\<lambda>_. TupleCountJoinBuffer 0), join_buffer = (\<lambda>_. []), join_timing_out = False, join_timeout = Timestamp_zero,
      join_predicate = (\<lambda>l r. tuple_id l = tuple_id r), just_concat = True, output_expressions = (\<lambda>_ _. []),
      left_body_size = 1, right_body_size = 1, join_selectivity = (\<lambda>_. []), join_selectivity_sum = (\<lambda>_. 0), is_sjoin = False,
      double_less = (\<lambda>_ _. False), join_memory = (\<lambda>_. join_tuple 0), join_emitted = 0, stale_counts = (\<lambda>_. (0, 0)), join_inserted = 0\<rparr>"

definition by_number :: "rat \<Rightarrow> buffer_params" where
  "by_number n = \<lparr>bp_order_by = ''TUPLES'', bp_size = n, bp_field = (\<lambda>_. 0), bp_numeric = True, bp_width = Some 32\<rparr>"

definition example_join :: join_box where
  "example_join = blank_join\<lparr>join_kind := (\<lambda>_. TupleCountJoinBuffer 2)\<rparr>"

lemma example_join_setup: "Join_setup 2 (by_number 2) (by_number 2) None True blank_join = Inr example_join"
proof -
  have "(\<lambda>s. case s of LEFT \<Rightarrow> TupleCountJoinBuffer 2 | RIGHT \<Rightarrow> TupleCountJoinBuffer 2) = (\<lambda>_. TupleCountJoinBuffer 2)"
    by (rule ext) (simp split: join_side.split)
  then show ?thesis by (simp add: Join_setup_def create_buffer_def truncate_size_def by_number_def join_timeout_of_def example_join_def blank_join_def)
qed

lemma example_join_sized: "join_sized example_join"
  by (simp add: join_sized_def example_join_def)

lemma example_join_ordered: "join_ordered example_join s us"
  by (simp add: join_ordered_def example_join_def blank_join_def young_def)

theorem join_equals_reference_witness:
  "\<exists>ls rs box' outs evs. join_session [(QBoxInvocation_new (\<lambda>_. 0), [join_tuple 1], [join_tuple 1])] [] [] example_join = Inr (ls, rs, box', outs) \<and>
     arrivals LEFT evs @ ls = [join_tuple 1] \<and> arrivals RIGHT evs @ rs = [join_tuple 1] \<and>
     list_all2 (is_joined example_join) outs (join_reference example_join evs)"
  using join_equals_reference [OF example_join_setup example_join_sized example_join_ordered example_join_ordered,
      of "[(QBoxInvocation_new (\<lambda>_. 0), [join_tuple 1], [join_tuple 1])]"] by simp

text \<open>
  C24. The Join box never fails and stays bounded: whatever tuples come in whatever order, with a timeout or without, no run of a
  box whose buffers can hold a tuple fails, a buffer by number never holds more tuples than its size, and after a run no more than
  the limit of selectivities is kept.
\<close>

theorem join_runs_bounded:
  assumes "Join_setup 2 lp rp timeout ne box0 = Inr box" "join_sized box"
  shows "\<exists>ls rs box' outs. join_session runs [] [] box = Inr (ls, rs, box', outs) \<and>
    (\<forall>s. length (join_selectivity box' s) \<le> SELECTIVITY_VECTOR_LIMIT) \<and>
    (\<forall>s. case join_kind box s of TupleCountJoinBuffer n \<Rightarrow> length (join_buffer box' s) \<le> n | FieldJoinBuffer f sz \<Rightarrow> True)"
proof -
  note new = Join_setup_new [OF assms(1)]
  have "join_bounded box box" using new(1) by (simp add: join_bounded_def split: join_buffer_kind.split)
  moreover have "\<forall>s. length (join_selectivity box s) \<le> SELECTIVITY_VECTOR_LIMIT" by (simp add: new(2))
  ultimately show ?thesis using join_session_bounded [of box box runs "[]" "[]"] assms(2) unfolding join_bounded_def by blast
qed

theorem join_runs_bounded_witness:
  "\<exists>ls rs box' outs. join_session [(QBoxInvocation_new (\<lambda>_. 0), map join_tuple [5, 3, 4], [])] [] [] example_join = Inr (ls, rs, box', outs) \<and>
     length (join_buffer box' LEFT) \<le> 2"
  using join_runs_bounded [OF example_join_setup example_join_sized, of "[(QBoxInvocation_new (\<lambda>_. 0), map join_tuple [5, 3, 4], [])]"]
  by (auto simp: example_join_def)

section \<open>Where the Join box fails\<close>

lemma run_stream_error: "\<exists>q rs. run_stream s qi xs (Inl e) = (q, rs, Inl e)"
proof -
  have f: "fold (Join_step s) ys (Inl e) = Inl e" for ys by (induction ys) (simp_all add: Join_step_def)
  show ?thesis using run_port_ex [of "case s of LEFT \<Rightarrow> 0 | RIGHT \<Rightarrow> 1" "Join_step s" qi xs "Inl e"] unfolding f by (auto simp: run_stream_def)
qed

lemma join_dump_take: "0 < sz \<Longrightarrow> join_dump sz mx off es = take ((mx - off) div sz) (map je_tuple es)"
proof (induction es arbitrary: off)
  case (Cons e es)
  show ?case
  proof (cases "off + sz \<le> mx")
    case True
    then have "(mx - off) div sz = Suc ((mx - (off + sz)) div sz)" using Cons.prems by (simp add: le_div_geq)
    then show ?thesis using True Cons by simp
  next
    case False
    then have "mx - off < sz" using Cons.prems by linarith
    then have "(mx - off) div sz = 0" by (rule div_less)
    then show ?thesis using False Cons by simp
  qed
qed simp

text \<open>
  Setup accepts buffers that cannot hold a tuple: with a size below one tuple, or a size that is not positive for a buffer by values,
  the first tuple of the input is evicted as soon as it is inserted, and the run then reads the back or the front of an empty list.
\<close>

lemma zero_join_buffer_undefined:
  assumes "Join_setup 2 lp rp timeout ne box0 = Inr box"
    and "bp_order_by lp = ''TUPLES'' \<and> bp_size lp < 1 \<or> bp_order_by lp = ''VALUES'' \<and> bp_size lp \<le> 0"
    and "lefts \<noteq> []" "\<not> has_box qi" "end_time qi = 0"
  shows "\<exists>qi' ls rs. JoinQBox_run qi lefts rights box = (qi', ls, rs, Inl Undefined)"
proof -
  note new = Join_setup_new [OF assms(1)]
  obtain t ts where t: "lefts = t # ts" using assms(3) by (cases lefts) auto
  have k: "(\<exists>f sz. join_kind box LEFT = FieldJoinBuffer f sz \<and> sz \<le> 0) \<or> join_kind box LEFT = TupleCountJoinBuffer 0"
  proof (cases "bp_order_by lp = ''TUPLES''")
    case True
    then have "bp_size lp < 1" using assms(2) by auto
    then have "truncate_size (bp_size lp) \<le> 0" by (auto simp: truncate_size_def ceiling_le_iff floor_less_iff) 
    then have "nat (truncate_size (bp_size lp)) = 0" by simp
    then show ?thesis using True new(3) by (auto simp: create_buffer_def Let_def split: if_splits)
  next
    case False
    then have "bp_size lp \<le> 0" "bp_order_by lp = ''VALUES''" using assms(2) by auto
    moreover have "truncate_size x \<le> 0" if "x \<le> 0" for x :: rat using that by (auto simp: truncate_size_def ceiling_le_iff)
    ultimately show ?thesis
      using new(3) [symmetric] by (auto simp: create_buffer_def Let_def of_int_le_0_iff split: if_splits option.splits)
  qed
  let ?j = "JoinBuffer_join box LEFT t (join_emitted box) []"
  have "join_process LEFT True t box = Inl Undefined"
    using k by (auto simp: join_process_def new(1) set_buffer_def join_insert_tuple_def JoinBuffer_insert_tuple_def add_counts_def Let_def)
  then have "Join_step LEFT t (Inr (box, [])) = Inl Undefined" by (simp add: Join_step_def)
  moreover have "fold (Join_step LEFT) xs (Inl Undefined) = Inl Undefined" for xs by (induction xs) (simp_all add: Join_step_def)
  moreover have "run_count 0 qi lefts > 0" using assms(4,5) by (simp add: t run_count_def continue_dequeue_on_def)
  then have "take (run_count 0 qi lefts) lefts = t # take (run_count 0 qi lefts - 1) ts" by (cases "run_count 0 qi lefts") (simp_all add: t)
  ultimately have f: "fold (Join_step LEFT) (take (run_count 0 qi lefts) lefts) (Inr (box, [])) = Inl Undefined" by simp
  obtain q1 where "run_stream LEFT qi lefts (Inr (box, [])) = (q1, drop (run_count 0 qi lefts) lefts, Inl Undefined)"
    using run_port_ex [of 0 "Join_step LEFT" qi lefts "Inr (box, [])"] unfolding f by (auto simp: run_stream_def)
  moreover obtain q2 rs where "run_stream RIGHT q1 rights (Inl Undefined) = (q2, rs, Inl Undefined)" using run_stream_error by blast
  ultimately show ?thesis by (simp add: JoinQBox_run_def)
qed

text \<open>
  C40. A checkpoint of a join loses tuples: the buffer for the dump is allocated for the bodies of the tuples and one header, while
  every tuple is dumped with its header, so of two or more tuples only those from the front that fit are saved.
\<close>

theorem join_checkpoint_loses_tuples:
  assumes "\<forall>n. max_length n = n" "0 < header_size" "2 \<le> length (join_buffer box s)"
    and "saved = (case s of LEFT \<Rightarrow> js_left (Join_pack_state header_size max_length box) | RIGHT \<Rightarrow> js_right (Join_pack_state header_size max_length box))"
  shows "saved = take ((length (join_buffer box s) * body_size s box + header_size) div (body_size s box + header_size))
      (map je_tuple (join_buffer box s)) \<and> length saved < length (join_buffer box s)"
proof -
  let ?n = "length (join_buffer box s)" and ?b = "body_size s box"
  have "saved = dump_side header_size max_length s box" by (simp add: assms(4) Join_pack_state_def split: join_side.split)
  then have s: "saved = take ((?n * ?b + header_size) div (?b + header_size)) (map je_tuple (join_buffer box s))"
    using assms(1,2) by (simp add: dump_side_def join_dump_take)
  have "?n * ?b + header_size < ?n * (?b + header_size)"
    using assms(2,3) mult_le_mono1 [of 2 ?n header_size] by (simp add: distrib_left)
  then have "(?n * ?b + header_size) div (?b + header_size) < ?n"
    using assms(2) by (subst div_less_iff_less_mult) simp_all
  then show ?thesis using s by simp
qed

theorem join_checkpoint_loses_tuples_witness:
  "js_left (Join_pack_state 10 (\<lambda>n. n) (blank_join\<lparr>join_buffer := (\<lambda>_. [\<lparr>je_tuple = join_tuple 1, comparison_count = 0, match_count = 0\<rparr>,
     \<lparr>je_tuple = join_tuple 2, comparison_count = 0, match_count = 0\<rparr>])\<rparr>)) = [join_tuple 1]"
  using join_checkpoint_loses_tuples [of "\<lambda>n. n" 10 "blank_join\<lparr>join_buffer := (\<lambda>_. [\<lparr>je_tuple = join_tuple 1, comparison_count = 0, match_count = 0\<rparr>,
     \<lparr>je_tuple = join_tuple 2, comparison_count = 0, match_count = 0\<rparr>])\<rparr>" LEFT, OF _ _ _ refl]
  by (simp add: body_size_def blank_join_def)

section \<open>Inputs in time order\<close>

text \<open>One step of the loop on a data tuple.\<close>

lemma SJoin_data_is:
  assumes "joined_upto box0 evs (sj_join box)" "join_sized box0" "join_ordered box0 s (arrivals s evs @ [t])"
    and "leftjoin box" "rightjoin box" "\<not> is_control_tuple t" "\<not> produce_rec_done box"
  shows "\<exists>box' outs. SJoin_step s t box = Inr (box', outs) \<and> joined_upto box0 (evs @ [(s, t)]) (sj_join box') \<and>
    list_all2 (is_joined box0) outs (join_partners box0 evs (s, t)) \<and> leftjoin box' \<and> rightjoin box' \<and> \<not> produce_rec_done box'"
proof -
  obtain j outs where j: "join_process s True t (sj_join box) = Inr (j, outs)" "joined_upto box0 (evs @ [(s, t)]) j"
    "list_all2 (is_joined box0) outs (join_partners box0 evs (s, t))"
    using join_process_is [OF assms(1-3)] by blast
  have "(case s of LEFT \<Rightarrow> leftjoin box | RIGHT \<Rightarrow> rightjoin box)" using assms(4,5) by (cases s) auto
  then have "SJoin_step s t box = Inr (set_last s (tuple_stime t) (box\<lparr>sj_join := limit_selectivity j\<rparr>), outs)"
    using assms(6) by (simp add: SJoin_step_def SJoin_data_def j(1))
  then show ?thesis using j(3) joined_upto_limit [OF j(2)] assms(4,5,7)
    by (auto simp: set_last_def split: join_side.split)
qed

lemma continue_unlimited:
  "\<not> has_box qi \<Longrightarrow> end_time qi = 0 \<Longrightarrow>
   \<exists>qi'. continue_dequeue_on port qi avail = (avail, qi') \<and> \<not> has_box qi' \<and> end_time qi' = 0"
  by (simp add: continue_dequeue_on_def)

abbreviation time_sorted :: "tuple list \<Rightarrow> bool" where
  "time_sorted ts \<equiv> sorted (map tuple_stime ts)"

lemma SJoin_loop_is:
  assumes "joined_upto box0 evs (sj_join box)" "join_sized box0" "leftjoin box" "rightjoin box" "\<not> produce_rec_done box"
    and "join_ordered box0 LEFT (arrivals LEFT evs @ ls)" "join_ordered box0 RIGHT (arrivals RIGHT evs @ rs)"
    and "time_sorted ls" "time_sorted rs" "\<forall>t \<in> set ls \<union> set rs. \<not> is_control_tuple t"
    and "\<not> has_box qi" "end_time qi = 0"
  shows "\<exists>qi' box' outs evs'. SJoin_loop qi (ls \<noteq> []) (rs \<noteq> []) ls rs box = Inr (qi', [], [], box', outs) \<and>
    arrivals LEFT evs' = ls \<and> arrivals RIGHT evs' = rs \<and> time_sorted (map snd evs') \<and> snd ` set evs' = set ls \<union> set rs \<and>
    list_all2 (is_joined box0) outs (join_more box0 evs evs') \<and> \<not> produce_rec_done box'"
  using assms
proof (induction "length ls + length rs" arbitrary: evs ls rs box qi rule: less_induct)
  case less
  show ?case
  proof (cases "ls = [] \<and> rs = []")
    case True
    then show ?thesis using less.prems(5) by (intro exI [of _ qi] exI [of _ box] exI [of _ "[]"]) simp
  next
    case False
    define s where "s = SJoin_next (ls \<noteq> []) (rs \<noteq> []) ls rs"
    have ctl: "ls \<noteq> [] \<Longrightarrow> \<not> is_control_tuple (hd ls)" "rs \<noteq> [] \<Longrightarrow> \<not> is_control_tuple (hd rs)" using less.prems(10) by auto
    show ?thesis
    proof (cases s)
      case LEFT
      then have ne: "ls \<noteq> []" and first: "rs \<noteq> [] \<Longrightarrow> tuple_stime (hd ls) < tuple_stime (hd rs)"
        using False ctl by (auto simp: s_def SJoin_next_def split: if_splits)
      obtain t ts where t: "ls = t # ts" using ne by (cases ls) auto
      have o: "join_ordered box0 LEFT (arrivals LEFT evs @ [t])" using less.prems(6) join_ordered_append [of box0 LEFT "arrivals LEFT evs @ [t]" ts] by (simp add: t)
      obtain b1 o1 where st: "SJoin_step LEFT t box = Inr (b1, o1)" "joined_upto box0 (evs @ [(LEFT, t)]) (sj_join b1)"
        "list_all2 (is_joined box0) o1 (join_partners box0 evs (LEFT, t))" "leftjoin b1" "rightjoin b1" "\<not> produce_rec_done b1"
        using SJoin_data_is [OF less.prems(1,2) o less.prems(3,4) _ less.prems(5)] ctl(1) t by auto
      obtain q1 where q: "continue_dequeue_on 0 qi (ts \<noteq> []) = (ts \<noteq> [], q1)" "\<not> has_box q1" "end_time q1 = 0"
        using continue_unlimited [OF less.prems(11,12)] by blast
      have "\<exists>qi' box' outs evs'. SJoin_loop q1 (ts \<noteq> []) (rs \<noteq> []) ts rs b1 = Inr (qi', [], [], box', outs) \<and>
          arrivals LEFT evs' = ts \<and> arrivals RIGHT evs' = rs \<and> time_sorted (map snd evs') \<and> snd ` set evs' = set ts \<union> set rs \<and>
          list_all2 (is_joined box0) outs (join_more box0 (evs @ [(LEFT, t)]) evs') \<and> \<not> produce_rec_done box'"
        by (rule less.hyps) (use less.prems st q in \<open>auto simp: t\<close>)
      then obtain q2 b2 o2 evs' where ih: "SJoin_loop q1 (ts \<noteq> []) (rs \<noteq> []) ts rs b1 = Inr (q2, [], [], b2, o2)"
        "arrivals LEFT evs' = ts" "arrivals RIGHT evs' = rs" "time_sorted (map snd evs')" "snd ` set evs' = set ts \<union> set rs"
        "list_all2 (is_joined box0) o2 (join_more box0 (evs @ [(LEFT, t)]) evs')" "\<not> produce_rec_done b2" by blast
      have loop: "SJoin_loop qi (ls \<noteq> []) (rs \<noteq> []) ls rs box = Inr (q2, [], [], b2, o1 @ o2)"
        using LEFT unfolding s_def by (subst SJoin_loop.simps) (simp add: t st(1) q(1) [simplified] ih(1) del: SJoin_loop.simps)
      have "tuple_stime t \<le> tuple_stime u" if "u \<in> set ts \<union> set rs" for u
        using that first less.prems(8,9) by (cases rs) (auto simp: t)
      then have "time_sorted (map snd ((LEFT, t) # evs'))" using ih(4,5) by auto
      then show ?thesis using ih(2,3,5-7) st(3) loop
        by (intro exI [of _ q2] exI [of _ b2] exI [of _ "o1 @ o2"] exI [of _ "(LEFT, t) # evs'"])
          (auto simp: t arrivals_def list_all2_appendI simp del: SJoin_loop.simps)
    next
      case RIGHT
      then have ne: "rs \<noteq> []" and first: "ls \<noteq> [] \<Longrightarrow> tuple_stime (hd rs) \<le> tuple_stime (hd ls)"
        using False ctl by (auto simp: s_def SJoin_next_def split: if_splits)
      obtain t ts where t: "rs = t # ts" using ne by (cases rs) auto
      have o: "join_ordered box0 RIGHT (arrivals RIGHT evs @ [t])" using less.prems(7) join_ordered_append [of box0 RIGHT "arrivals RIGHT evs @ [t]" ts] by (simp add: t)
      obtain b1 o1 where st: "SJoin_step RIGHT t box = Inr (b1, o1)" "joined_upto box0 (evs @ [(RIGHT, t)]) (sj_join b1)"
        "list_all2 (is_joined box0) o1 (join_partners box0 evs (RIGHT, t))" "leftjoin b1" "rightjoin b1" "\<not> produce_rec_done b1"
        using SJoin_data_is [OF less.prems(1,2) o less.prems(3,4) _ less.prems(5)] ctl(2) t by auto
      obtain q1 where q: "continue_dequeue_on 1 qi (ts \<noteq> []) = (ts \<noteq> [], q1)" "\<not> has_box q1" "end_time q1 = 0"
        using continue_unlimited [OF less.prems(11,12)] by blast
      have "\<exists>qi' box' outs evs'. SJoin_loop q1 (ls \<noteq> []) (ts \<noteq> []) ls ts b1 = Inr (qi', [], [], box', outs) \<and>
          arrivals LEFT evs' = ls \<and> arrivals RIGHT evs' = ts \<and> time_sorted (map snd evs') \<and> snd ` set evs' = set ls \<union> set ts \<and>
          list_all2 (is_joined box0) outs (join_more box0 (evs @ [(RIGHT, t)]) evs') \<and> \<not> produce_rec_done box'"
        by (rule less.hyps) (use less.prems st q in \<open>auto simp: t\<close>)
      then obtain q2 b2 o2 evs' where ih: "SJoin_loop q1 (ls \<noteq> []) (ts \<noteq> []) ls ts b1 = Inr (q2, [], [], b2, o2)"
        "arrivals LEFT evs' = ls" "arrivals RIGHT evs' = ts" "time_sorted (map snd evs')" "snd ` set evs' = set ls \<union> set ts"
        "list_all2 (is_joined box0) o2 (join_more box0 (evs @ [(RIGHT, t)]) evs')" "\<not> produce_rec_done b2" by blast
      have loop: "SJoin_loop qi (ls \<noteq> []) (rs \<noteq> []) ls rs box = Inr (q2, [], [], b2, o1 @ o2)"
        using RIGHT unfolding s_def by (subst SJoin_loop.simps) (simp add: t st(1) q(1) [simplified] ih(1) del: SJoin_loop.simps)
      have "tuple_stime t \<le> tuple_stime u" if "u \<in> set ls \<union> set ts" for u
        using that first less.prems(8,9) by (cases ls) (auto simp: t)
      then have "time_sorted (map snd ((RIGHT, t) # evs'))" using ih(4,5) by auto
      then show ?thesis using ih(2,3,5-7) st(3) loop
        by (intro exI [of _ q2] exI [of _ b2] exI [of _ "o1 @ o2"] exI [of _ "(RIGHT, t) # evs'"])
          (auto simp: t arrivals_def list_all2_appendI simp del: SJoin_loop.simps)
    qed
  qed
qed

text \<open>The parameters of a new box: both directions are joined.\<close>

lemma SJoin_setup_new:
  "p \<noteq> Some ''false'' \<Longrightarrow> q \<noteq> Some ''false'' \<Longrightarrow> leftjoin (SJoin_setup p q box) \<and> rightjoin (SJoin_setup p q box)"
  "\<not> produce_rec_done (SJoin_setup p q box)" "sj_join (SJoin_setup p q box) = sj_join box"
  by (simp_all add: SJoin_setup_def)

text \<open>
  C13. The Join for inputs in time order merges them: on data tuples in time order a run of a new box without limits reads everything,
  by increasing time over both inputs and each input in order, and its output is that of the window join of this merge; so the result does not
  depend on how the tuples were distributed over time.
\<close>

theorem sjoin_joins_in_time_order:
  assumes "Join_setup 2 lp rp timeout ne j0 = Inr (sj_join box0)" "box = SJoin_setup p q box0" "p \<noteq> Some ''false''" "q \<noteq> Some ''false''"
    and "join_sized (sj_join box)" "join_ordered (sj_join box) LEFT ls" "join_ordered (sj_join box) RIGHT rs"
    and "time_sorted ls" "time_sorted rs" "\<forall>t \<in> set ls \<union> set rs. \<not> is_control_tuple t" "\<not> has_box qi" "end_time qi = 0"
  shows "\<exists>qi' box' outs evs. SJoinQBox_run qi ls rs box = Inr (qi', [], [], box', outs) \<and>
    arrivals LEFT evs = ls \<and> arrivals RIGHT evs = rs \<and> time_sorted (map snd evs) \<and>
    list_all2 (is_joined (sj_join box)) outs (join_reference (sj_join box) evs)"
proof -
  have new: "joined_upto (sj_join box) [] (sj_join box)"
    by (rule joined_upto_new) (simp add: assms(2) SJoin_setup_new(3) Join_setup_new(1) [OF assms(1)])
  obtain q1 q2 where q: "continue_dequeue_on 0 qi (ls \<noteq> []) = (ls \<noteq> [], q1)" "continue_dequeue_on 1 q1 (rs \<noteq> []) = (rs \<noteq> [], q2)"
    "\<not> has_box q2" "end_time q2 = 0"
    using continue_unlimited [OF assms(11,12), of 0 "ls \<noteq> []"] continue_unlimited [of _ 1 "rs \<noteq> []"] by metis
  obtain q3 box' outs evs where l: "SJoin_loop q2 (ls \<noteq> []) (rs \<noteq> []) ls rs box = Inr (q3, [], [], box', outs)"
    "arrivals LEFT evs = ls" "arrivals RIGHT evs = rs" "time_sorted (map snd evs)"
    "list_all2 (is_joined (sj_join box)) outs (join_more (sj_join box) [] evs)" "\<not> produce_rec_done box'"
    using SJoin_loop_is [OF new assms(5), of ls rs q2] SJoin_setup_new [of p q box0] assms(2-4,6-10) q(3,4) by auto
  have "SJoinQBox_run qi ls rs box = Inr (q3, [], [], box', outs)"
    using l(1,6) q(1,2) by (simp add: SJoinQBox_run_def SJoin_rec_done_def del: SJoin_loop.simps)
  then show ?thesis using l(2-5) by (auto simp: join_reference_def)
qed

definition example_sjoin :: sjoin_box where
  "example_sjoin =
     \<lparr>sj_join = example_join, leftjoin = False, rightjoin = False, last_left = Timestamp_zero, last_right = Timestamp_zero,
      produce_rec_done = False, rec_done_tuple = join_tuple 0, sj_header_size = 53\<rparr>"

theorem sjoin_joins_in_time_order_witness:
  "\<exists>qi' box' outs evs. SJoinQBox_run (QBoxInvocation_new (\<lambda>_. 0)) [join_tuple 1, join_tuple 3] [join_tuple 2, join_tuple 3]
       (SJoin_setup None None example_sjoin) = Inr (qi', [], [], box', outs) \<and>
     time_sorted (map snd evs) \<and> arrivals LEFT evs = [join_tuple 1, join_tuple 3] \<and>
     list_all2 (is_joined example_join) outs (join_reference example_join evs)"
proof -
  have j: "Join_setup 2 (by_number 2) (by_number 2) None True blank_join = Inr (sj_join example_sjoin)"
    using example_join_setup by (simp add: example_sjoin_def)
  have s: "sj_join (SJoin_setup None None example_sjoin) = example_join" by (simp add: SJoin_setup_def example_sjoin_def)
  have h: "time_sorted [join_tuple 1, join_tuple 3]" "time_sorted [join_tuple 2, join_tuple 3]"
    "\<forall>t \<in> set [join_tuple 1, join_tuple 3] \<union> set [join_tuple 2, join_tuple 3]. \<not> is_control_tuple t"
    "\<not> has_box (QBoxInvocation_new (\<lambda>_. 0))" "end_time (QBoxInvocation_new (\<lambda>_. 0)) = 0"
    by (auto simp: join_tuple_def is_control_tuple_def QBoxInvocation_new_def less_eq_timestamp_def less_timestamp_iff)
  have "None \<noteq> Some ''false''" by simp
  from sjoin_joins_in_time_order [OF j refl this this, unfolded s, OF example_join_sized example_join_ordered example_join_ordered h]
  show ?thesis by blast
qed

text \<open>
  C37. A boundary overtakes older data: a boundary at the head of one input is forwarded before the data of the other input, so a
  joined tuple can leave the box behind a boundary although its time is before that of the boundary.
\<close>

theorem sjoin_boundary_overtakes:
  assumes "Join_setup 2 lp rp timeout ne j0 = Inr (sj_join box0)" "box = SJoin_setup None None box0" "sj_header_size box = 53"
    and "join_sized (sj_join box)" "join_ordered (sj_join box) LEFT [l]" "join_ordered (sj_join box) RIGHT [r]"
    and "\<not> is_control_tuple l" "\<not> is_control_tuple r" "tuple_type b = BOUNDARY" "join_predicate (sj_join box) l r"
    and "tuple_stime l < tuple_stime r" "tuple_stime r < tuple_stime b" "\<not> has_box qi" "end_time qi = 0"
  shows "\<exists>qi' box' o1 o2. SJoinQBox_run qi [l, b] [r] box = Inr (qi', [], [], box', [o1, o2]) \<and>
    tuple_type o1 = BOUNDARY \<and> tuple_stime o1 = tuple_stime b \<and> is_joined (sj_join box) o2 (l, r) \<and> tuple_stime o2 < tuple_stime o1"
proof -
  let ?j = "sj_join box"
  have new: "joined_upto ?j [] ?j"
    by (rule joined_upto_new) (simp add: assms(2) SJoin_setup_new(3) Join_setup_new(1) [OF assms(1)])
  have flags: "leftjoin box" "rightjoin box" "\<not> produce_rec_done box" by (simp_all add: assms(2) SJoin_setup_def)
  have bc: "is_control_tuple b" using assms(9) by (simp add: is_control_tuple_def)
  have head: "sj_header_size b2 = sj_header_size b1" if "SJoin_step s t b1 = Inr (b2, outs)" "\<not> is_control_tuple t" for s t b1 b2 outs
    using that by (auto simp: SJoin_step_def SJoin_data_def set_last_def split: join_side.splits)
  obtain b1 o0 where s1: "SJoin_step LEFT l box = Inr (b1, o0)" "joined_upto ?j ([] @ [(LEFT, l)]) (sj_join b1)"
    "list_all2 (is_joined ?j) o0 (join_partners ?j [] (LEFT, l))" "leftjoin b1" "rightjoin b1" "\<not> produce_rec_done b1"
    using SJoin_data_is [OF new assms(4), of LEFT l] assms(5,7) flags by auto
  have o0: "o0 = []" using s1(3) by (simp add: join_partners_def join_window_def Let_def split: join_buffer_kind.splits)
  define c where "c = copy_header 53 b (clear_tuple (join_memory (sj_join b1) (join_emitted (sj_join b1))))"
  define b2 where "b2 = b1\<lparr>sj_join := (sj_join b1)\<lparr>join_emitted := Suc (join_emitted (sj_join b1))\<rparr>, last_left := tuple_stime b\<rparr>"
  have s2: "SJoin_step LEFT b b1 = Inr (b2, [c])"
    using assms(3,9) head [OF s1(1) assms(7)] bc
    by (simp add: SJoin_step_def SJoin_control_def SJoin_process_control_tuple_def Let_def set_last_def c_def b2_def)
  have j2: "joined_upto ?j [(LEFT, l)] (sj_join b2)" using s1(2) by (simp add: joined_upto_def b2_def)
  have "leftjoin b2" "rightjoin b2" "\<not> produce_rec_done b2" using s1(4-6) by (simp_all add: b2_def)
  then obtain b3 o2 where s3: "SJoin_step RIGHT r b2 = Inr (b3, o2)" "list_all2 (is_joined ?j) o2 (join_partners ?j [(LEFT, l)] (RIGHT, r))"
    "\<not> produce_rec_done b3"
    using SJoin_data_is [OF j2 assms(4), of RIGHT r] assms(6,8) by auto
  have ll: "young ?j l l" using assms(5) by (simp add: join_ordered_def)
  have sized: "case join_kind ?j LEFT of TupleCountJoinBuffer n \<Rightarrow> 0 < n | FieldJoinBuffer f sz \<Rightarrow> 0 < sz" using assms(4) by (simp add: join_sized_def)
  have "join_window ?j LEFT [l] = [l]" using ll sized by (auto simp: join_window_def Let_def split: join_buffer_kind.splits)
  moreover have "arrivals LEFT [(LEFT, l)] = [l]" by simp
  ultimately have "join_partners ?j [(LEFT, l)] (RIGHT, r) = [(l, r)]" using assms(10) by (simp add: join_partners_def join_pair_def)
  then obtain o2' where o2: "o2 = [o2']" "is_joined ?j o2' (l, r)" using s3(2) by (auto simp: list_all2_Cons2)
  have "tuple_stime o2' = tuple_stime r"
    using o2(2) assms(11) by (auto simp: is_joined_def produce_tuple_def produce_dont_emit_tuple_def later_def Let_def flag_defs)
  moreover have cc: "tuple_type c = BOUNDARY" "tuple_stime c = tuple_stime b" using assms(9) by (simp_all add: c_def copy_header_def Let_def)
  moreover have "\<exists>q'. SJoinQBox_run qi [l, b] [r] box = Inr (q', [], [], b3, [c, o2'])"
  proof -
    obtain q1 where q1: "continue_dequeue_on 0 qi True = (True, q1)" "\<not> has_box q1" "end_time q1 = 0" using continue_unlimited [OF assms(13,14)] by blast
    obtain q2 where q2: "continue_dequeue_on (Suc 0) q1 True = (True, q2)" "\<not> has_box q2" "end_time q2 = 0" using continue_unlimited [OF q1(2,3)] by blast
    obtain q3 where q3: "continue_dequeue_on 0 q2 True = (True, q3)" "\<not> has_box q3" "end_time q3 = 0" using continue_unlimited [OF q2(2,3)] by blast
    obtain q4 where q4: "continue_dequeue_on 0 q3 False = (False, q4)" "\<not> has_box q4" "end_time q4 = 0" using continue_unlimited [OF q3(2,3)] by blast
    obtain q5 where q5: "continue_dequeue_on (Suc 0) q4 False = (False, q5)" using continue_unlimited [OF q4(2,3)] by blast
    have l5: "SJoin_loop q5 False False [] [] b3 = Inr (q5, [], [], b3, [])" by simp
    have l4: "SJoin_loop q4 False True [] [r] b2 = Inr (q5, [], [], b3, [o2'])"
      using assms(8) by (subst SJoin_loop.simps) (simp add: SJoin_next_def s3(1) q5 l5 o2(1) del: SJoin_loop.simps)
    have l3: "SJoin_loop q3 True True [b] [r] b1 = Inr (q5, [], [], b3, [c, o2'])"
      using bc by (subst SJoin_loop.simps) (simp add: SJoin_next_def s2 q4(1) l4 del: SJoin_loop.simps)
    have l2: "SJoin_loop q2 True True [l, b] [r] box = Inr (q5, [], [], b3, [c, o2'])"
      using assms(7,8,11) by (subst SJoin_loop.simps) (simp add: SJoin_next_def s1(1) o0 q3(1) l3 del: SJoin_loop.simps)
    show ?thesis by (simp add: SJoinQBox_run_def q1(1) q2(1) l2 SJoin_rec_done_def s3(3) del: SJoin_loop.simps)
  qed
  ultimately show ?thesis using o2(2) assms(12) by auto
qed

theorem sjoin_boundary_overtakes_witness:
  "\<exists>b qi' box' o1 o2. tuple_type b = BOUNDARY \<and>
     SJoinQBox_run (QBoxInvocation_new (\<lambda>_. 0)) [join_tuple 1, b] [join_tuple 2]
       (SJoin_setup None None (example_sjoin\<lparr>sj_join := example_join\<lparr>join_predicate := (\<lambda>_ _. True)\<rparr>\<rparr>)) = Inr (qi', [], [], box', [o1, o2]) \<and>
     tuple_type o1 = BOUNDARY \<and> tuple_stime o2 < tuple_stime o1"
proof -
  let ?b = "(join_tuple 9)\<lparr>tuple_type := BOUNDARY\<rparr>" and ?j = "example_join\<lparr>join_predicate := (\<lambda>_ _. True)\<rparr>"
  let ?box = "example_sjoin\<lparr>sj_join := ?j\<rparr>"
  have j: "Join_setup 2 (by_number 2) (by_number 2) None True (blank_join\<lparr>join_predicate := (\<lambda>_ _. True)\<rparr>) = Inr (sj_join ?box)"
  proof -
    have "(\<lambda>s. case s of LEFT \<Rightarrow> TupleCountJoinBuffer 2 | RIGHT \<Rightarrow> TupleCountJoinBuffer 2) = (\<lambda>_. TupleCountJoinBuffer 2)"
      by (rule ext) (simp split: join_side.split)
    then show ?thesis by (simp add: Join_setup_def create_buffer_def truncate_size_def by_number_def join_timeout_of_def example_join_def blank_join_def)
  qed
  have h: "sj_header_size (SJoin_setup None None ?box) = 53" "join_sized (sj_join (SJoin_setup None None ?box))"
    "join_ordered (sj_join (SJoin_setup None None ?box)) LEFT [join_tuple 1]" "join_ordered (sj_join (SJoin_setup None None ?box)) RIGHT [join_tuple 2]"
    by (simp_all add: SJoin_setup_def example_sjoin_def join_sized_def join_ordered_def young_def example_join_def blank_join_def)
  have t: "\<not> is_control_tuple (join_tuple 1)" "\<not> is_control_tuple (join_tuple 2)" "tuple_type ?b = BOUNDARY"
    "join_predicate (sj_join (SJoin_setup None None ?box)) (join_tuple 1) (join_tuple 2)"
    "tuple_stime (join_tuple 1) < tuple_stime (join_tuple 2)" "tuple_stime (join_tuple 2) < tuple_stime ?b"
    by (simp_all add: join_tuple_def is_control_tuple_def SJoin_setup_def less_timestamp_iff)
  from sjoin_boundary_overtakes [OF j refl h t, of "QBoxInvocation_new (\<lambda>_. 0)"] t(3) show ?thesis
    by (intro exI [of _ ?b]) (auto simp: QBoxInvocation_new_def)
qed

end
