(* ===== verification/Dynamic_Array.thy ===== *)
theory Dynamic_Array
  imports Field_Ext "HOL-Library.While_Combinator"
begin

text \<open>
  Arrays in tuples (queryProcessor/DynamicArray.cc, DynamicArray.h). The data of an array field lives in a static
  block of memory behind a header with a reference count and an iterator; the tuple has the address of the header. The
  memory is flat: a byte per 32-bit address, so that blocks that overlap are seen to overlap. The addresses in the header are
  those of the packed 32-bit layout that the code's casts between pointers and \<open>uint32\<close> rely on.
\<close>

section \<open>Bytes in memory\<close>

type_synonym address = "32 word"
type_synonym memory = "address \<Rightarrow> byte"

definition mem_read :: "memory \<Rightarrow> address \<Rightarrow> nat \<Rightarrow> byte list" where
  "mem_read m a n = map (\<lambda>i. m (a + of_nat i)) [0..<n]"

definition mem_write :: "address \<Rightarrow> byte list \<Rightarrow> memory \<Rightarrow> memory" where
  "mem_write a bs m = (\<lambda>x. if unat (x - a) < length bs then bs ! unat (x - a) else m x)"

text \<open>The bytes of a number, lowest first.\<close>

fun le_bytes :: "nat \<Rightarrow> nat \<Rightarrow> byte list" where
  "le_bytes 0 v = []"
| "le_bytes (Suc n) v = of_nat v # le_bytes n (v div 256)"

definition mem_uint32 :: "memory \<Rightarrow> address \<Rightarrow> 32 word" where
  "mem_uint32 m a = of_nat (le_nat (mem_read m a 4))"

definition mem_uint16 :: "memory \<Rightarrow> address \<Rightarrow> 16 word" where
  "mem_uint16 m a = of_nat (le_nat (mem_read m a 2))"

definition set_uint32 :: "address \<Rightarrow> 32 word \<Rightarrow> memory \<Rightarrow> memory" where
  "set_uint32 a w = mem_write a (le_bytes 4 (unat w))"

definition set_uint16 :: "address \<Rightarrow> 16 word \<Rightarrow> memory \<Rightarrow> memory" where
  "set_uint16 a w = mem_write a (le_bytes 2 (unat w))"

section \<open>The array memory\<close>

text \<open>\<open>ARRAY_MEMORY\<close> and \<open>header_size()\<close>: the size of the members below, which is a multiple of 4.\<close>

definition ARRAY_MEMORY :: "32 word" where "ARRAY_MEMORY = 1000000000"

definition array_header_size :: "32 word" where "array_header_size = 44"

text \<open>
  The static members: the remaining space and the free blocks by size. \<open>_free_block\<close> is the address \<open>base\<close> that
  the program was linked to, an argument of the operations that use it.
\<close>

record array_memory =
  array_bytes :: memory
  more_block :: "32 word"
  size_block :: "32 word \<rightharpoonup> address"

definition array_memory_init :: "memory \<Rightarrow> array_memory" where
  "array_memory_init m = \<lparr>array_bytes = m, more_block = ARRAY_MEMORY, size_block = Map.empty\<rparr>"

definition on_bytes :: "(memory \<Rightarrow> memory) \<Rightarrow> array_memory \<Rightarrow> array_memory" where
  "on_bytes f s = s\<lparr>array_bytes := f (array_bytes s)\<rparr>"

text \<open>The addresses of the members of a header.\<close>

definition variable_size_at :: "address \<Rightarrow> address" where "variable_size_at h = h + 28"
definition reference_count_at :: "address \<Rightarrow> address" where "reference_count_at h = h + 32"
definition jump_size_at :: "address \<Rightarrow> address" where "jump_size_at h = h + 34"
definition current_pos_at :: "address \<Rightarrow> address" where "current_pos_at h = h + 36"
definition end_boundary_at :: "address \<Rightarrow> address" where "end_boundary_at h = h + 40"

lemmas member_defs = variable_size_at_def reference_count_at_def jump_size_at_def current_pos_at_def end_boundary_at_def

text \<open>
  \<open>allocate_array\<close>: a free block of the size, if there is one (its address is returned as it is, without the
  4 bytes of the size), or else the next bytes of the block.
\<close>

definition round_up4 :: "32 word \<Rightarrow> 32 word" where
  "round_up4 sz = (sz + 3) AND - 4"

definition allocate_array :: "address \<Rightarrow> 32 word \<Rightarrow> array_memory \<Rightarrow> (address \<times> array_memory) result" where
  "allocate_array base size0 s =
     (let sz = round_up4 size0;
          head = (case size_block s sz of None \<Rightarrow> 0 | Some h \<Rightarrow> h)
      in if head \<noteq> 0
         then Inr (head, s\<lparr>size_block := (size_block s)(sz \<mapsto> mem_uint32 (array_bytes s) head)\<rparr>)
         else if sz + array_header_size + 4 > more_block s then Inl Fatal
         else let block = base + (ARRAY_MEMORY - more_block s)
              in Inr (block + 4,
                   (on_bytes (set_uint32 block sz) s)\<lparr>more_block := more_block s - sz - array_header_size - 4\<rparr>))"

text \<open>
  \<open>modify_array_reference\<close>: the count is compared with the change as an \<open>int\<close>. When the count becomes zero the block is
  entered in the list of its size; if the size has no entry yet, the entry that is written is the end of the map.
\<close>

definition modify_array_reference :: "address \<Rightarrow> 16 word \<Rightarrow> array_memory \<Rightarrow> array_memory result" where
  "modify_array_reference this delta s =
     (let cnt = mem_uint16 (array_bytes s) (reference_count_at this)
      in if int (unat cnt) < sint delta then Inl Fatal
         else
           let s1 = on_bytes (set_uint16 (reference_count_at this) (cnt + delta)) s
           in if cnt + delta = 0
              then let sz = mem_uint32 (array_bytes s1) (this - 4)
                   in case size_block s1 sz of None \<Rightarrow> Inl Undefined
                      | Some tail \<Rightarrow> Inr ((on_bytes (set_uint32 (this - 4) tail) s1)\<lparr>size_block := (size_block s1)(sz \<mapsto> this - 4)\<rparr>)
              else Inr s1)"

definition set_count_size :: "address \<Rightarrow> 16 word \<Rightarrow> 32 word \<Rightarrow> array_memory \<Rightarrow> array_memory" where
  "set_count_size this cnt sz =
     on_bytes (set_uint32 (variable_size_at this) sz \<circ> set_uint16 (reference_count_at this) cnt)"

definition array_size :: "address \<Rightarrow> 32 word \<Rightarrow> array_memory \<Rightarrow> 32 word" where
  "array_size this static_size s = mem_uint32 (array_bytes s) (variable_size_at this) * static_size"

section \<open>The iterator\<close>

definition first_position :: "address \<Rightarrow> array_memory \<Rightarrow> address \<times> array_memory" where
  "first_position this s = (this + array_header_size, on_bytes (set_uint32 (current_pos_at this) (this + array_header_size)) s)"

text \<open>The width of an element is stored in one byte.\<close>

definition save_jump :: "address \<Rightarrow> nat \<Rightarrow> array_memory \<Rightarrow> array_memory" where
  "save_jump this width = on_bytes (mem_write (jump_size_at this) [of_nat width])"

definition get_jump :: "address \<Rightarrow> array_memory \<Rightarrow> 32 word" where
  "get_jump this s = ucast (array_bytes s (jump_size_at this))"

definition set_boundary :: "address \<Rightarrow> 32 word \<Rightarrow> array_memory \<Rightarrow> array_memory" where
  "set_boundary this sz = on_bytes (set_uint32 (end_boundary_at this) (this + sz + array_header_size))"

definition get_boundary :: "address \<Rightarrow> array_memory \<Rightarrow> address" where
  "get_boundary this s = mem_uint32 (array_bytes s) (end_boundary_at this)"

text \<open>A position from which a whole element does not leave room behind it counts as the end; the end is the null pointer.\<close>

definition get_iterator_element :: "address \<Rightarrow> array_memory \<Rightarrow> address" where
  "get_iterator_element this s =
     (let pos = mem_uint32 (array_bytes s) (current_pos_at this)
      in if pos + get_jump this s \<ge> get_boundary this s then 0 else pos)"

definition increment_iterator :: "address \<Rightarrow> array_memory \<Rightarrow> array_memory" where
  "increment_iterator this s =
     on_bytes (set_uint32 (current_pos_at this) (mem_uint32 (array_bytes s) (current_pos_at this) + get_jump this s)) s"

section \<open>Arrays of tuples\<close>

text \<open>
  A tuple is its bytes, header included; the array fields of a schema are their offsets and static sizes, in the
  order of the fields.
\<close>

type_synonym array_fields = "(16 word \<times> 32 word) list"

definition tuple_word :: "nat \<Rightarrow> byte list \<Rightarrow> 32 word" where
  "tuple_word off bs = of_nat (le_nat (take 4 (drop off bs)))"

definition set_tuple_word :: "nat \<Rightarrow> 32 word \<Rightarrow> byte list \<Rightarrow> byte list" where
  "set_tuple_word off w bs = take off bs @ le_bytes 4 (unat w) @ drop (off + 4) bs"

text \<open>
  \<open>AuroraNode::array_allocator\<close> for the fields of a tuple that comes in: the word of a field is the size of its data,
  which is the next of \<open>data\<close>, and is replaced by the address of the array. The arguments of \<open>set_count_size\<close> are
  the number of sinks and the number of static arrays.
\<close>

fun allocate_fields :: "address \<Rightarrow> nat \<Rightarrow> array_fields \<Rightarrow> byte list \<Rightarrow> byte list \<Rightarrow> array_memory
    \<Rightarrow> (byte list \<times> byte list \<times> array_memory) result" where
  "allocate_fields base sinks [] tup data s = Inr (tup, data, s)"
| "allocate_fields base sinks ((off, static_size) # fs) tup data s =
     (if length tup < unat off + 4 then Inl Undefined
      else
        let sz = tuple_word (unat off) tup
        in rbind (allocate_array base sz s) (\<lambda>(header, s1).
          if length data < unat sz \<or> static_size = 0 then Inl Undefined
          else
            let s2 = set_boundary header sz s1;
                s3 = on_bytes (mem_write (header + array_header_size) (take (unat sz) data)) s2;
                s4 = set_count_size header (of_nat sinks) (sz div static_size) s3
            in allocate_fields base sinks fs (set_tuple_word (unat off) header tup) (drop (unat sz) data) s4))"

text \<open>The flag byte of the header is byte 16.\<close>

definition set_array_bit :: "byte list \<Rightarrow> byte list" where
  "set_array_bit tup = tup[16 := tup ! 16 OR ARRAY_FLAG]"

definition array_allocator :: "address \<Rightarrow> nat \<Rightarrow> array_fields \<Rightarrow> byte list \<Rightarrow> byte list \<Rightarrow> array_memory
    \<Rightarrow> (byte list \<times> byte list \<times> array_memory) result" where
  "array_allocator base sinks fs tup = allocate_fields base sinks fs (set_array_bit tup)"

text \<open>
  The loop of \<open>AuroraNode::enqueue\<close> over the tuples of an event, as far as it is about arrays. An event without array data
  has the null pointer for it, and its tuples are left as they are.
\<close>

fun allocate_arrays :: "address \<Rightarrow> nat \<Rightarrow> array_fields \<Rightarrow> byte list list \<Rightarrow> byte list \<Rightarrow> array_memory
    \<Rightarrow> (byte list list \<times> byte list \<times> array_memory) result" where
  "allocate_arrays base sinks fs [] data s = Inr ([], data, s)"
| "allocate_arrays base sinks fs (t # ts) data s =
     rbind (array_allocator base sinks fs t data s) (\<lambda>(t1, data1, s1).
       rbind (allocate_arrays base sinks fs ts data1 s1) (\<lambda>(ts1, data2, s2). Inr (t1 # ts1, data2, s2)))"

definition enqueue_arrays :: "address \<Rightarrow> nat \<Rightarrow> array_fields \<Rightarrow> byte list list \<Rightarrow> byte list option \<Rightarrow> array_memory
    \<Rightarrow> (byte list list \<times> byte list \<times> array_memory) result" where
  "enqueue_arrays base sinks fs ts array s =
     (case array of None \<Rightarrow> Inr (ts, [], s) | Some data \<Rightarrow> allocate_arrays base sinks fs ts data s)"

text \<open>
  \<open>array_deallocator\<close>: for every array field the arrays of all tuples of the buffer. The offset is a 16-bit
  number that grows by the length of a tuple.
\<close>

fun deallocate_field :: "nat \<Rightarrow> 16 word \<Rightarrow> 16 word \<Rightarrow> 32 word \<Rightarrow> byte list \<Rightarrow> array_memory
    \<Rightarrow> (byte list \<times> byte list \<times> array_memory) result" where
  "deallocate_field 0 tuple_length off static_size buf s = Inr (buf, [], s)"
| "deallocate_field (Suc n) tuple_length off static_size buf s =
     (if length buf < unat off + 4 then Inl Undefined
      else
        let header = tuple_word (unat off) buf;
            sz = array_size header static_size s;
            data = mem_read (array_bytes s) (header + array_header_size) (unat sz)
        in rbind (modify_array_reference header (- 1) s) (\<lambda>s1.
             rbind (deallocate_field n tuple_length (off + tuple_length) static_size (set_tuple_word (unat off) sz buf) s1)
               (\<lambda>(buf1, data1, s2). Inr (buf1, data @ data1, s2))))"

fun array_deallocator :: "array_fields \<Rightarrow> 16 word \<Rightarrow> 16 word \<Rightarrow> byte list \<Rightarrow> array_memory
    \<Rightarrow> (byte list \<times> byte list \<times> array_memory) result" where
  "array_deallocator [] tuple_length num_tuples buf s = Inr (buf, [], s)"
| "array_deallocator ((off, static_size) # fs) tuple_length num_tuples buf s =
     rbind (deallocate_field (unat num_tuples) tuple_length off static_size buf s) (\<lambda>(buf1, data1, s1).
       rbind (array_deallocator fs tuple_length num_tuples buf1 s1) (\<lambda>(buf2, data2, s2). Inr (buf2, data1 @ data2, s2)))"

section \<open>Predicates over elements\<close>

text \<open>
  A field of an expression (\<open>FieldExpression\<close> in expr/ExprUtil.h): the bytes at an offset of the tuple, or, for a
  field of an array's elements, the bytes at an offset of the element at which the iterator of that array is. At the
  end of the array the iterator gives the null pointer, and reading there is undefined.
\<close>

record field_reference =
  ref_offset :: nat
  ref_size :: nat
  ref_array_offset :: "nat option"

definition field_value :: "byte list \<Rightarrow> array_memory \<Rightarrow> field_reference \<Rightarrow> byte list result" where
  "field_value tup s r =
     (case ref_array_offset r of
        None \<Rightarrow> if length tup < ref_offset r + ref_size r then Inl Undefined else Inr (take (ref_size r) (drop (ref_offset r) tup))
      | Some a \<Rightarrow>
          if length tup < ref_offset r + 4 then Inl Undefined
          else let element = get_iterator_element (tuple_word (ref_offset r) tup) s
               in if element = 0 then Inl Undefined else Inr (mem_read (array_bytes s) (element + of_nat a) (ref_size r)))"

fun field_values :: "byte list \<Rightarrow> array_memory \<Rightarrow> field_reference list \<Rightarrow> byte list list result" where
  "field_values tup s [] = Inr []"
| "field_values tup s (r # rs) = rbind (field_value tup s r) (\<lambda>v. rbind (field_values tup s rs) (\<lambda>vs. Inr (v # vs)))"

text \<open>
  A predicate: \<open>And\<close> and \<open>Or\<close> evaluate their second operand only when it matters; everything below them is a test of the values of
  some fields.
\<close>

datatype filter_predicate =
    Test "field_reference list" "byte list list \<Rightarrow> bool"
  | AndExpression filter_predicate filter_predicate
  | OrExpression filter_predicate filter_predicate

fun eval_predicate :: "byte list \<Rightarrow> array_memory \<Rightarrow> filter_predicate \<Rightarrow> bool result" where
  "eval_predicate tup s (Test rs f) = rbind (field_values tup s rs) (\<lambda>vs. Inr (f vs))"
| "eval_predicate tup s (AndExpression p q) = rbind (eval_predicate tup s p) (\<lambda>b. if b then eval_predicate tup s q else Inr False)"
| "eval_predicate tup s (OrExpression p q) = rbind (eval_predicate tup s p) (\<lambda>b. if b then Inr True else eval_predicate tup s q)"

section \<open>Nulling the elements of an array\<close>

text \<open>
  \<open>FilterQBox::create_output_tuple\<close>: the tuple for the first output is a copy, one for another output
  is built through a pointer that was never set. \<open>iterate_over_and_null_vals\<close> then runs over the elements of the array and
  evaluates the predicate at each of them. \<open>None\<close>: the loop does not end.
\<close>

definition null_loop :: "address \<Rightarrow> nat \<Rightarrow> byte list \<Rightarrow> filter_predicate \<Rightarrow> address \<times> array_memory
    \<Rightarrow> (address \<times> array_memory) result option" where
  "null_loop this width tup predicate st =
     while_option (\<lambda>r. case r of Inl e \<Rightarrow> False | Inr (element, s) \<Rightarrow> element \<noteq> 0)
       (\<lambda>r. rbind r (\<lambda>(element, s).
          rbind (eval_predicate tup s predicate) (\<lambda>keep.
            let s1 = (if keep then s else on_bytes (mem_write element (replicate width 0)) s);
                s2 = increment_iterator this s1
            in Inr (get_iterator_element this s2, s2))))
       (Inr st)"

definition iterate_over_and_null_vals ::
  "nat \<Rightarrow> nat \<Rightarrow> filter_predicate \<Rightarrow> nat \<Rightarrow> byte list \<Rightarrow> array_memory \<Rightarrow> (byte list \<times> array_memory) result option" where
  "iterate_over_and_null_vals array_offset width predicate i tup s =
     (if i \<noteq> 0 \<or> length tup < array_offset + 4 then Some (Inl Undefined)
      else
        let this = tuple_word array_offset tup;
            (element, s1) = first_position this (save_jump this width s)
        in map_option (\<lambda>r. rbind r (\<lambda>(element, s2). Inr (tup, s2))) (null_loop this width tup predicate (element, s1)))"

end
