(* ===== verification/Array_Store.thy ===== *)
theory Array_Store
  imports Dynamic_Array
begin

text \<open>
  What the array memory stores: a map from the addresses of headers to reference counts, widths and data. Allocation
  adds a new entry and keeps the others, since blocks do not overlap; a change of a count changes only its entry.
\<close>

section \<open>Numbers as bytes\<close>

lemma byte_256: "256 * x = (0 :: byte)"
proof -
  have "(256 :: byte) = 0" by simp
  then show ?thesis by (simp only: mult_zero_left)
qed

lemma length_le_bytes [simp]: "length (le_bytes n v) = n"
  by (induction n arbitrary: v) simp_all

lemma le_nat_le_bytes: "le_nat (le_bytes n v) = v mod 256 ^ n"
proof (induction n arbitrary: v)
  case 0
  then show ?case by simp
next
  case (Suc n)
  have "v mod (256 * 256 ^ n) = 256 * (v div 256 mod 256 ^ n) + v mod 256"
    by (rule mod_mult2_eq)
  with Suc show ?case by (simp add: unat_of_nat take_bit_eq_mod)
qed

lemma le_bytes_le_nat: "le_bytes (length bs) (le_nat bs) = bs"
proof (induction bs)
  case Nil
  then show ?case by simp
next
  case (Cons b bs)
  have "unat b < 256" using unsigned_less [of b] by simp
  moreover note byte_256 [of "of_nat (le_nat bs)"]
  ultimately show ?case using Cons by simp
qed

lemma le_bytes_word [simp]:
  "of_nat (le_nat (le_bytes 4 (unat w))) = (w :: 32 word)"
  "of_nat (le_nat (le_bytes 2 (unat v))) = (v :: 16 word)"
proof -
  have "unat w < 256 ^ 4" "unat v < 256 ^ 2" using unsigned_less [of w] unsigned_less [of v] by simp_all
  then show "of_nat (le_nat (le_bytes 4 (unat w))) = w" "of_nat (le_nat (le_bytes 2 (unat v))) = v"
    by (simp_all add: le_nat_le_bytes)
qed

lemma le_nat_less: "le_nat bs < 256 ^ length bs"
proof (induction bs)
  case (Cons b bs)
  have "unat b < 256" using unsigned_less [of b] by simp
  with Cons show ?case by simp
qed simp

lemma word_of_unat: "unat w = n \<Longrightarrow> w = of_nat n"
  by auto

lemma unat_of_nat32: "n < 2 ^ 32 \<Longrightarrow> unat (of_nat n :: 32 word) = n"
  by (simp add: unat_of_nat take_bit_eq_mod)

section \<open>Reading and writing\<close>

text \<open>Two ranges of addresses that do not wrap and have no address in common.\<close>

definition apart :: "address \<Rightarrow> nat \<Rightarrow> address \<Rightarrow> nat \<Rightarrow> bool" where
  "apart a n b k \<longleftrightarrow> unat a + n \<le> 2 ^ 32 \<and> unat b + k \<le> 2 ^ 32 \<and> (unat a + n \<le> unat b \<or> unat b + k \<le> unat a)"

lemma length_mem_read [simp]: "length (mem_read m a n) = n"
  by (simp add: mem_read_def)

lemma unat_address: "unat a + n < 2 ^ 32 \<Longrightarrow> unat (a + of_nat n :: address) = unat a + n"
  by (simp add: unat_word_ariths unat_of_nat take_bit_eq_mod)

lemma mem_read_write_apart [simp]:
  assumes "apart a n b (length bs)"
  shows "mem_read (mem_write b bs m) a n = mem_read m a n"
proof -
  have "\<not> unat (a + of_nat i - b) < length bs" if "i < n" for i
  proof -
    have "unat (a + of_nat i) = unat a + i" using that assms by (intro unat_address) (auto simp: apart_def)
    with that assms show ?thesis by (auto simp: apart_def unat_sub_if')
  qed
  then show ?thesis by (simp add: mem_read_def mem_write_def)
qed

lemma mem_read_write_same:
  assumes "length bs = n" "n \<le> 2 ^ 32"
  shows "mem_read (mem_write a bs m) a n = bs"
proof (rule nth_equalityI)
  fix i assume "i < length (mem_read (mem_write a bs m) a n)"
  then have "i < n" by simp
  then have "unat (of_nat i :: address) = i" using assms(2) by (simp add: unat_of_nat take_bit_eq_mod)
  with \<open>i < n\<close> show "mem_read (mem_write a bs m) a n ! i = bs ! i" by (simp add: mem_read_def mem_write_def assms(1))
qed (simp add: assms(1))

lemma mem_uint_same [simp]:
  "mem_uint32 (set_uint32 a w m) a = w"
  "mem_uint16 (set_uint16 a v m) a = v"
  by (simp_all add: mem_uint32_def set_uint32_def mem_uint16_def set_uint16_def mem_read_write_same)

lemma mem_uint_apart:
  "apart a 4 b (length bs) \<Longrightarrow> mem_uint32 (mem_write b bs m) a = mem_uint32 m a"
  "apart a 2 b (length bs) \<Longrightarrow> mem_uint16 (mem_write b bs m) a = mem_uint16 m a"
  by (simp_all add: mem_uint32_def mem_uint16_def)

section \<open>Arrays\<close>

record array_entry =
  ref_count :: "16 word"
  ref_width :: "32 word"
  ref_data :: "byte list"

type_synonym array_map = "address \<rightharpoonup> array_entry"

text \<open>The end of the used part of the block.\<close>

definition used_end :: "address \<Rightarrow> array_memory \<Rightarrow> nat" where
  "used_end base s = unat base + unat ARRAY_MEMORY - unat (more_block s)"

definition block_end :: "address \<Rightarrow> array_entry \<Rightarrow> nat" where
  "block_end h e = unat h + 44 + length (ref_data e)"

definition entry_stored :: "memory \<Rightarrow> address \<Rightarrow> array_entry \<Rightarrow> bool" where
  "entry_stored m h e \<longleftrightarrow> mem_uint16 m (reference_count_at h) = ref_count e \<and> mem_uint32 m (variable_size_at h) = ref_width e \<and>
     mem_read m (h + array_header_size) (length (ref_data e)) = ref_data e"

definition stores :: "address \<Rightarrow> array_memory \<Rightarrow> array_map \<Rightarrow> bool" where
  "stores base s A \<longleftrightarrow> size_block s = Map.empty \<and> 0 < unat base \<and> unat base + unat ARRAY_MEMORY < 2 ^ 32 \<and>
     unat (more_block s) \<le> unat ARRAY_MEMORY \<and>
     (\<forall>h e. A h = Some e \<longrightarrow> unat base < unat h \<and> block_end h e \<le> used_end base s \<and> entry_stored (array_bytes s) h e) \<and>
     (\<forall>h e h' e'. A h = Some e \<longrightarrow> A h' = Some e' \<longrightarrow> h \<noteq> h' \<longrightarrow> block_end h e \<le> unat h' \<or> block_end h' e' \<le> unat h)"

lemma stores_init: "0 < unat base \<Longrightarrow> unat base + unat ARRAY_MEMORY < 2 ^ 32 \<Longrightarrow> stores base (array_memory_init m) Map.empty"
  by (simp add: stores_def array_memory_init_def)

lemma unat_ARRAY_MEMORY [simp]: "unat ARRAY_MEMORY = 1000000000"
  by (simp add: ARRAY_MEMORY_def)

lemma member_at:
  assumes "unat h + 44 < 2 ^ 32"
  shows "unat (variable_size_at h) = unat h + 28" "unat (reference_count_at h) = unat h + 32"
    "unat (current_pos_at h) = unat h + 36" "unat (end_boundary_at h) = unat h + 40" "unat (jump_size_at h) = unat h + 34"
    "unat (h + array_header_size) = unat h + 44"
  using assms by (simp_all add: member_defs array_header_size_def unat_word_ariths)

text \<open>Bytes outside of a block do not matter for it.\<close>

lemma entry_stored_write:
  assumes "entry_stored m h e" "block_end h e < 2 ^ 32" "unat a + length bs \<le> 2 ^ 32"
    and "unat a + length bs \<le> unat h \<or> block_end h e \<le> unat a"
  shows "entry_stored (mem_write a bs m) h e"
proof -
  have "unat h + 44 < 2 ^ 32" using assms(2) by (simp add: block_end_def)
  note at = member_at [OF this]
  have "apart (reference_count_at h) 2 a (length bs)" "apart (variable_size_at h) 4 a (length bs)"
    "apart (h + array_header_size) (length (ref_data e)) a (length bs)"
    using assms(2-4) by (auto simp: apart_def at block_end_def)
  with assms(1) show ?thesis by (simp add: entry_stored_def mem_uint_apart)
qed


section \<open>Allocation\<close>

lemma round_up4_bounds:
  assumes "unat sz + 3 < 2 ^ 32"
  shows "unat sz \<le> unat (round_up4 sz)" "unat (round_up4 sz) \<le> unat sz + 3"
proof -
  let ?x = "sz + 3"
  have u: "unat (drop_bit 2 ?x) = unat ?x div 4" by (simp add: drop_bit_eq_div unat_div)
  have "(- 4 :: 32 word) = NOT (mask 2)" by (simp add: mask_eq_exp_minus_1 not_eq_complement)
  then have "round_up4 sz = ?x AND NOT (mask 2)" by (simp only: round_up4_def)
  also have "\<dots> = push_bit 2 (drop_bit 2 ?x)" by (rule bit_word_eqI) (auto simp: bit_simps not_less dest!: le_Suc_ex)
  also have "\<dots> = drop_bit 2 ?x * 4" by (simp add: push_bit_eq_mult)
  finally have "round_up4 sz = drop_bit 2 ?x * 4" .
  moreover have "unat ?x < 2 ^ 32" using unsigned_less [where ?'a = nat, of ?x] by simp
  then have "unat (drop_bit 2 ?x) * 4 < 2 ^ 32" unfolding u by linarith
  ultimately have "unat (round_up4 sz) = unat ?x div 4 * 4" by (simp add: unat_word_ariths u)
  moreover have "unat ?x = unat sz + 3" using assms unat_address [of sz 3] by simp
  ultimately show "unat sz \<le> unat (round_up4 sz)" "unat (round_up4 sz) \<le> unat sz + 3" by simp_all
qed


text \<open>The space that an array takes with its size word and its header.\<close>

definition array_space :: "32 word \<Rightarrow> nat" where
  "array_space sz = unat (round_up4 sz) + 48"

lemma storesD:
  assumes "stores base s A"
  shows "size_block s = Map.empty" "0 < unat base" "unat base + 1000000000 < 2 ^ 32" "unat (more_block s) \<le> 1000000000"
    "\<And>h e. A h = Some e \<Longrightarrow> unat base < unat h" "\<And>h e. A h = Some e \<Longrightarrow> block_end h e \<le> used_end base s"
    "\<And>h e. A h = Some e \<Longrightarrow> entry_stored (array_bytes s) h e"
    "\<And>h e h' e'. A h = Some e \<Longrightarrow> A h' = Some e' \<Longrightarrow> h \<noteq> h' \<Longrightarrow> block_end h e \<le> unat h' \<or> block_end h' e' \<le> unat h"
  using assms by (auto simp: stores_def)

lemma used_end_less: "stores base s A \<Longrightarrow> used_end base s < 2 ^ 32"
  using storesD(3) [of base s A] by (simp add: used_end_def)

lemma array_space_sum:
  assumes "unat sz + 3 < 2 ^ 32" "array_space sz \<le> 1000000000"
  shows "unat (round_up4 sz + array_header_size + 4) = array_space sz"
  using assms round_up4_bounds [OF assms(1)] by (simp add: array_space_def array_header_size_def unat_word_ariths)

text \<open>Writes outside of all blocks do not matter.\<close>

lemma stores_write:
  assumes "stores base s A" "unat a + length bs \<le> 2 ^ 32"
    and "\<And>h e. A h = Some e \<Longrightarrow> block_end h e \<le> unat a \<or> unat a + length bs \<le> unat h"
  shows "stores base (on_bytes (mem_write a bs) s) A"
proof -
  have "entry_stored (mem_write a bs (array_bytes s)) h e" if "A h = Some e" for h e
    using storesD(6,7) [OF assms(1) that] used_end_less [OF assms(1)] assms(2) assms(3) [OF that]
    by (intro entry_stored_write) auto
  with assms(1) show ?thesis by (simp add: stores_def on_bytes_def used_end_def)
qed

lemma allocate_array_ok:
  assumes "stores base s A" "unat sz + 3 < 2 ^ 32" "array_space sz \<le> unat (more_block s)"
  shows "\<exists>s'. allocate_array base sz s = Inr (of_nat (used_end base s + 4), s') \<and> stores base s' A \<and>
    unat (more_block s') = unat (more_block s) - array_space sz \<and> array_bytes s' = set_uint32 (of_nat (used_end base s)) (round_up4 sz) (array_bytes s)"
proof -
  note D = storesD [OF assms(1)]
  have sp: "unat (round_up4 sz + array_header_size + 4) = array_space sz"
    using array_space_sum [OF assms(2)] assms(3) D(4) by linarith
  have u: "unat (ARRAY_MEMORY - more_block s) = 1000000000 - unat (more_block s)"
    using D(4) by (simp add: unat_sub word_le_nat_alt)
  define d where "d = ARRAY_MEMORY - more_block s"
  have "unat (base + d) = unat base + unat d"
    using D(3,4) by (intro unat_add_lem [THEN iffD1]) (simp add: d_def u)
  then have "unat (base + d) = used_end base s" using D(4) by (simp add: d_def u used_end_def)
  then have blk: "base + (ARRAY_MEMORY - more_block s) = of_nat (used_end base s)"
    unfolding d_def by (rule word_of_unat)
  have ub: "unat (of_nat (used_end base s) :: address) = used_end base s"
    using used_end_less [OF assms(1)] by (simp add: unat_of_nat take_bit_eq_mod)
  let ?s1 = "on_bytes (set_uint32 (of_nat (used_end base s)) (round_up4 sz)) s"
  have len: "used_end base s + 4 \<le> 2 ^ 32" using D(3,4) assms(3) by (simp add: used_end_def array_space_def)
  have s1: "stores base ?s1 A" unfolding set_uint32_def
    by (rule stores_write [OF assms(1)]) (use len D(6) in \<open>simp_all add: ub\<close>)
  define s2 where "s2 = ?s1\<lparr>more_block := more_block s - round_up4 sz - array_header_size - 4\<rparr>"
  have m2: "more_block s2 = more_block s - (round_up4 sz + array_header_size + 4)" by (simp add: s2_def)
  have more: "unat (more_block s2) = unat (more_block s) - array_space sz"
    unfolding m2 using assms(3) sp by (simp only: unat_sub word_le_nat_alt)
  have sel: "size_block s2 = Map.empty" "array_bytes s2 = set_uint32 (of_nat (used_end base s)) (round_up4 sz) (array_bytes s)"
    by (simp_all add: s2_def on_bytes_def D(1))
  have grow: "used_end base s \<le> used_end base s2" unfolding used_end_def more by simp
  have "block_end h e \<le> used_end base s2" if "A h = Some e" for h e using D(6) [OF that] grow by simp
  with s1 D(4) more sel have "stores base s2 A" by (simp add: stores_def on_bytes_def)
  moreover have "allocate_array base sz s = Inr (of_nat (used_end base s + 4), s2)"
    using sp assms(3) D(1) by (simp add: allocate_array_def Let_def blk word_less_nat_alt s2_def)
  ultimately show ?thesis using more sel(2) by blast
qed

text \<open>Without space for it, an array is refused.\<close>

lemma allocate_array_refused:
  assumes "stores base s A" "unat sz + 51 < 2 ^ 32" "unat (more_block s) < array_space sz"
  shows "allocate_array base sz s = Inl Fatal"
proof -
  have "unat (round_up4 sz + array_header_size + 4) = array_space sz"
    using assms(2) round_up4_bounds [of sz] by (simp add: array_space_def array_header_size_def unat_word_ariths)
  with assms(3) storesD(1) [OF assms(1)] show ?thesis by (simp add: allocate_array_def Let_def word_less_nat_alt)
qed


text \<open>What the node does to a new array.\<close>

definition fill_array :: "address \<Rightarrow> 32 word \<Rightarrow> array_entry \<Rightarrow> array_memory \<Rightarrow> array_memory" where
  "fill_array h sz e s = set_count_size h (ref_count e) (ref_width e)
     (on_bytes (mem_write (h + array_header_size) (ref_data e)) (set_boundary h sz s))"

lemma on_bytes_sel [simp]:
  "array_bytes (on_bytes f s) = f (array_bytes s)" "more_block (on_bytes f s) = more_block s"
  "size_block (on_bytes f s) = size_block s" "used_end base (on_bytes f s) = used_end base s"
  by (simp_all add: on_bytes_def used_end_def)

lemma on_bytes_comp: "on_bytes (f \<circ> g) s = on_bytes f (on_bytes g s)"
  by (simp add: on_bytes_def)

lemma entry_stored_fill:
  assumes "block_end h e \<le> 2 ^ 32 - 1"
  shows "entry_stored (array_bytes (fill_array h sz e s)) h e"
proof -
  have "unat h + 44 < 2 ^ 32" using assms by (simp add: block_end_def)
  note at = member_at [OF this]
  have a: "apart (reference_count_at h) 2 (variable_size_at h) 4"
    "apart (h + array_header_size) (length (ref_data e)) (variable_size_at h) 4"
    "apart (h + array_header_size) (length (ref_data e)) (reference_count_at h) 2"
    using assms by (simp_all add: apart_def at block_end_def)
  have "mem_uint16 (set_uint32 (variable_size_at h) w m) (reference_count_at h) = mem_uint16 m (reference_count_at h)" for w m
    using a(1) by (simp add: set_uint32_def mem_uint_apart)
  moreover have "mem_read (set_uint32 (variable_size_at h) w (set_uint16 (reference_count_at h) c m)) (h + array_header_size) (length (ref_data e)) =
      mem_read m (h + array_header_size) (length (ref_data e))" for w c m
    using a(2,3) by (simp add: set_uint32_def set_uint16_def)
  moreover have "length (ref_data e) \<le> 2 ^ 32" using assms by (simp add: block_end_def)
  ultimately show ?thesis by (simp add: entry_stored_def fill_array_def set_count_size_def mem_read_write_same)
qed

lemma stores_fill:
  assumes "stores base s A" "block_end h e < 2 ^ 32" "\<And>h' e'. A h' = Some e' \<Longrightarrow> block_end h' e' \<le> unat h"
  shows "stores base (fill_array h sz e s) A"
proof -
  have "unat h + 44 < 2 ^ 32" using assms(2) by (simp add: block_end_def)
  note at = member_at [OF this]
  have w: "stores base (on_bytes (mem_write a bs) s') A" if "stores base s' A" "unat h \<le> unat a" "unat a + length bs \<le> block_end h e" for s' a bs
    using that assms(2,3) by (intro stores_write) (auto intro: le_trans)
  show ?thesis
    unfolding fill_array_def set_count_size_def on_bytes_comp set_boundary_def set_uint32_def set_uint16_def
    by (intro w assms(1)) (simp_all add: at block_end_def)
qed

lemma stores_new:
  assumes "stores base s A" "unat base < unat h" "block_end h e \<le> used_end base s" "entry_stored (array_bytes s) h e"
    and below: "\<And>h' e'. A h' = Some e' \<Longrightarrow> block_end h' e' \<le> unat h"
  shows "stores base s (A(h \<mapsto> e))"
  unfolding stores_def
proof (intro conjI allI impI)
  fix h1 e1 assume "(A(h \<mapsto> e)) h1 = Some e1"
  then show "unat base < unat h1" "block_end h1 e1 \<le> used_end base s" "entry_stored (array_bytes s) h1 e1"
    using storesD(5-7) [OF assms(1), of h1] assms(2-4) by (auto split: if_splits)
next
  fix h1 e1 h2 e2
  assume "(A(h \<mapsto> e)) h1 = Some e1" "(A(h \<mapsto> e)) h2 = Some e2" "h1 \<noteq> h2"
  then show "block_end h1 e1 \<le> unat h2 \<or> block_end h2 e2 \<le> unat h1"
    using below storesD(8) [OF assms(1)] by (auto split: if_splits)
qed (use storesD(1-4) [OF assms(1)] in simp_all)

text \<open>A new array is a new entry.\<close>

lemma new_array:
  assumes "stores base s A" "unat sz + 3 < 2 ^ 32" "array_space sz \<le> unat (more_block s)" "length (ref_data e) = unat sz"
  shows "\<exists>h s'. allocate_array base sz s = Inr (h, s') \<and> h \<notin> dom A \<and> stores base (fill_array h sz e s') (A(h \<mapsto> e)) \<and>
    unat (more_block (fill_array h sz e s')) = unat (more_block s) - array_space sz"
proof -
  define h where "h = (of_nat (used_end base s + 4) :: address)"
  note D = storesD [OF assms(1)]
  obtain s' where s': "allocate_array base sz s = Inr (h, s')" "stores base s' A" "unat (more_block s') = unat (more_block s) - array_space sz"
    using allocate_array_ok [OF assms(1-3)] unfolding h_def by blast
  have ue: "used_end base s' = used_end base s + array_space sz"
    using D(4) assms(3) by (simp add: used_end_def s'(3))
  have sp: "unat sz + 48 \<le> array_space sz" using round_up4_bounds(1) [OF assms(2)] by (simp add: array_space_def)
  have uh: "unat h = used_end base s + 4"
    using used_end_less [OF s'(2)] sp ue unfolding h_def by (intro unat_of_nat32) linarith
  have be: "block_end h e \<le> used_end base s'" using sp uh assms(4) by (simp add: block_end_def ue)
  then have lt: "block_end h e < 2 ^ 32" using used_end_less [OF s'(2)] by simp
  have below: "block_end h' e' \<le> used_end base s" if "A h' = Some e'" for h' e' using D(6) [OF that] .
  have below': "block_end h' e' \<le> unat h" if "A h' = Some e'" for h' e' using below [OF that] uh by simp
  have new: "h \<notin> dom A" using below uh by (force simp: block_end_def)
  define s2 where "s2 = fill_array h sz e s'"
  have sel: "more_block s2 = more_block s'" "used_end base s2 = used_end base s'" "size_block s2 = size_block s'"
    by (simp_all add: s2_def fill_array_def set_count_size_def set_boundary_def)
  have st: "stores base s2 A" unfolding s2_def by (rule stores_fill [OF s'(2) lt below'])
  have es: "entry_stored (array_bytes s2) h e" unfolding s2_def by (rule entry_stored_fill) (use lt in simp)
  have bl: "unat base < unat h" using uh D(4) by (simp add: used_end_def)
  have "stores base s2 (A(h \<mapsto> e))"
    by (rule stores_new [OF st bl _ es below']) (simp add: be sel(2))
  with s'(1,3) new sel(1) show ?thesis unfolding s2_def by auto
qed


section \<open>References\<close>

lemma stored_member_at:
  assumes "stores base s A" "A h = Some e"
  shows "unat h + 44 < 2 ^ 32"
  using storesD(6) [OF assms] used_end_less [OF assms(1)] by (simp add: block_end_def)

lemma stored_data:
  assumes "stores base s A" "A h = Some e"
  shows "array_size h w s = ref_width e * w" "mem_read (array_bytes s) (h + array_header_size) (length (ref_data e)) = ref_data e"
    "mem_uint16 (array_bytes s) (reference_count_at h) = ref_count e"
  using storesD(7) [OF assms] by (simp_all add: entry_stored_def array_size_def)

lemma stores_count:
  assumes "stores base s A" "A h = Some e"
  shows "stores base (on_bytes (set_uint16 (reference_count_at h) c) s) (A(h \<mapsto> e\<lparr>ref_count := c\<rparr>))"
proof -
  note D = storesD [OF assms(1)]
  note at = member_at [OF stored_member_at [OF assms]]
  have lt: "block_end h1 e1 < 2 ^ 32" if "A h1 = Some e1" for h1 e1
    using D(6) [OF that] used_end_less [OF assms(1)] by simp
  have a: "apart (variable_size_at h) 4 (reference_count_at h) 2"
    "apart (h + array_header_size) (length (ref_data e)) (reference_count_at h) 2"
    using lt [OF assms(2)] by (simp_all add: apart_def at block_end_def)
  have own: "entry_stored (set_uint16 (reference_count_at h) c (array_bytes s)) h (e\<lparr>ref_count := c\<rparr>)"
    using D(7) [OF assms(2)] a by (simp add: entry_stored_def) (simp add: set_uint16_def mem_uint_apart)
  have other: "entry_stored (set_uint16 (reference_count_at h) c (array_bytes s)) h1 e1" if "A h1 = Some e1" "h1 \<noteq> h" for h1 e1
    unfolding set_uint16_def using D(7) [OF that(1)] lt [OF that(1)] D(8) [OF that(1) assms(2) that(2)] lt [OF assms(2)]
    by (intro entry_stored_write) (auto simp: at block_end_def)
  have be: "block_end h1 (e\<lparr>ref_count := c\<rparr>) = block_end h1 e" for h1 by (simp add: block_end_def)
  show ?thesis
    unfolding stores_def
  proof (intro conjI allI impI)
    fix h1 e1 assume "(A(h \<mapsto> e\<lparr>ref_count := c\<rparr>)) h1 = Some e1"
    then show "unat base < unat h1" "block_end h1 e1 \<le> used_end base (on_bytes (set_uint16 (reference_count_at h) c) s)"
      "entry_stored (array_bytes (on_bytes (set_uint16 (reference_count_at h) c) s)) h1 e1"
      using D(5,6) own other assms(2) by (auto simp: be split: if_splits)
  next
    fix h1 e1 h2 e2
    assume h: "(A(h \<mapsto> e\<lparr>ref_count := c\<rparr>)) h1 = Some e1" "(A(h \<mapsto> e\<lparr>ref_count := c\<rparr>)) h2 = Some e2" "h1 \<noteq> h2"
    obtain a where a: "A h1 = Some a" "block_end h1 e1 = block_end h1 a"
      using h(1) assms(2) be by (cases "h1 = h") simp_all
    obtain b where b: "A h2 = Some b" "block_end h2 e2 = block_end h2 b"
      using h(2) assms(2) be by (cases "h2 = h") simp_all
    show "block_end h1 e1 \<le> unat h2 \<or> block_end h2 e2 \<le> unat h1"
      unfolding a(2) b(2) by (rule D(8) [OF a(1) b(1) h(3)])
  qed (use D(1-4) in simp_all)
qed

text \<open>As long as a reference is left a change of the count is a change of the count.\<close>

lemma modify_array_reference_ok:
  assumes "stores base s A" "A h = Some e" "sint delta \<le> int (unat (ref_count e))" "ref_count e + delta \<noteq> 0"
  shows "\<exists>s'. modify_array_reference h delta s = Inr s' \<and> stores base s' (A(h \<mapsto> e\<lparr>ref_count := ref_count e + delta\<rparr>)) \<and>
    more_block s' = more_block s"
  using stores_count [OF assms(1,2), of "ref_count e + delta"] assms(3,4) stored_data(3) [OF assms(1,2)]
  by (simp add: modify_array_reference_def Let_def)

text \<open>The last reference: no size has an entry in the list of free blocks, so the end of the map is written to.\<close>

lemma release_last_reference:
  assumes "stores base s A" "A h = Some e" "sint delta \<le> int (unat (ref_count e))" "ref_count e + delta = 0"
  shows "modify_array_reference h delta s = Inl Undefined"
  using assms(3,4) stored_data(3) [OF assms(1,2)] storesD(1) [OF assms(1)]
  by (simp add: modify_array_reference_def Let_def)

section \<open>Words of a tuple\<close>

lemma length_set_tuple_word [simp]: "off + 4 \<le> length bs \<Longrightarrow> length (set_tuple_word off w bs) = length bs"
  by (simp add: set_tuple_word_def)

lemma tuple_word_set [simp]: "off + 4 \<le> length bs \<Longrightarrow> tuple_word off (set_tuple_word off w bs) = w"
  by (simp add: tuple_word_def set_tuple_word_def)

lemma nth_set_tuple_word:
  "off + 4 \<le> length bs \<Longrightarrow> i < length bs \<Longrightarrow>
   set_tuple_word off w bs ! i = (if off \<le> i \<and> i < off + 4 then le_bytes 4 (unat w) ! (i - off) else bs ! i)"
  by (cases "i < off"; cases "i < off + 4") (simp_all add: set_tuple_word_def nth_append less_diff_conv2)

lemma tuple_word_apart:
  assumes "off + 4 \<le> length bs" "off' + 4 \<le> length bs" "off + 4 \<le> off' \<or> off' + 4 \<le> off"
  shows "tuple_word off' (set_tuple_word off w bs) = tuple_word off' bs"
proof -
  have "take 4 (drop off' (set_tuple_word off w bs)) = take 4 (drop off' bs)"
    using assms by (intro nth_equalityI) (auto simp: nth_set_tuple_word)
  then show ?thesis by (simp add: tuple_word_def)
qed

lemma set_tuple_word_twice [simp]:
  "off + 4 \<le> length bs \<Longrightarrow> set_tuple_word off w (set_tuple_word off w' bs) = set_tuple_word off w bs"
  by (simp add: set_tuple_word_def)

lemma set_tuple_word_commute:
  assumes "off + 4 \<le> length bs" "off' + 4 \<le> length bs" "off + 4 \<le> off' \<or> off' + 4 \<le> off"
  shows "set_tuple_word off w (set_tuple_word off' w' bs) = set_tuple_word off' w' (set_tuple_word off w bs)"
  using assms by (intro nth_equalityI) (auto simp: nth_set_tuple_word)

lemma set_tuple_word_same [simp]:
  assumes "off + 4 \<le> length bs"
  shows "set_tuple_word off (tuple_word off bs) bs = bs"
proof -
  let ?f = "take 4 (drop off bs)"
  have l: "length ?f = 4" using assms by simp
  then have "unat (of_nat (le_nat ?f) :: 32 word) = le_nat ?f"
    using le_nat_less [of ?f] by (intro unat_of_nat32) simp
  then have "le_bytes 4 (unat (tuple_word off bs)) = ?f"
    using le_bytes_le_nat [of ?f] l by (simp add: tuple_word_def)
  then have "set_tuple_word off (tuple_word off bs) bs = take off bs @ ?f @ drop 4 (drop off bs)"
    by (simp add: set_tuple_word_def add.commute)
  then show ?thesis by (simp only: append_take_drop_id)
qed

end
