(* ===== verification/Array_Transport.thy ===== *)
theory Array_Transport
  imports Array_Store
begin

text \<open>
  The way of array fields through a node: the data of an incoming event is allocated field by field for each tuple, and
  collected tuple by tuple for each field when the tuples leave. The data of every field comes back unchanged, but in the
  order of the fields.
\<close>

section \<open>Schemas, tuples and their data\<close>

text \<open>The fields lie behind the flag byte, inside the tuple, and do not overlap.\<close>

definition fields_ok :: "nat \<Rightarrow> array_fields \<Rightarrow> bool" where
  "fields_ok len fs \<longleftrightarrow> (\<forall>(off, w) \<in> set fs. 16 < unat off \<and> unat off + 4 \<le> len \<and> w \<noteq> 0) \<and>
     sorted_wrt (\<lambda>f g. unat (fst f) + 4 \<le> unat (fst g) \<or> unat (fst g) + 4 \<le> unat (fst f)) fs"

text \<open>The tuple announces the sizes of its data, which are multiples of the static sizes.\<close>

definition carries :: "array_fields \<Rightarrow> byte list \<Rightarrow> byte list list \<Rightarrow> bool" where
  "carries fs t ds \<longleftrightarrow> list_all2 (\<lambda>(off, w) d. unat (tuple_word (unat off) t) = length d \<and> unat w dvd length d) fs ds"

definition data_space :: "byte list list \<Rightarrow> nat" where
  "data_space ds = (\<Sum>d \<leftarrow> ds. array_space (of_nat (length d)))"

definition entry_of :: "nat \<Rightarrow> 16 word \<times> 32 word \<Rightarrow> byte list \<Rightarrow> array_entry" where
  "entry_of sinks f d = \<lparr>ref_count = of_nat sinks, ref_width = of_nat (length d) div snd f, ref_data = d\<rparr>"

fun set_words :: "array_fields \<Rightarrow> 32 word list \<Rightarrow> byte list \<Rightarrow> byte list" where
  "set_words (f # fs) (w # ws) t = set_words fs ws (set_tuple_word (unat (fst f)) w t)"
| "set_words fs ws t = t"

lemma fields_ok_Cons:
  "fields_ok len ((off, w) # fs) \<longleftrightarrow> 16 < unat off \<and> unat off + 4 \<le> len \<and> w \<noteq> 0 \<and> fields_ok len fs \<and>
     (\<forall>g \<in> set fs. unat off + 4 \<le> unat (fst g) \<or> unat (fst g) + 4 \<le> unat off)"
  by (auto simp: fields_ok_def)

lemma fields_okD: "fields_ok len fs \<Longrightarrow> g \<in> set fs \<Longrightarrow> unat (fst g) + 4 \<le> len"
  by (auto simp: fields_ok_def)

text \<open>A word at another place does not change what a tuple carries.\<close>

lemma carries_set:
  assumes "fields_ok (length t) ((off, w) # fs)" "carries fs t ds"
  shows "carries fs (set_tuple_word (unat off) h t) ds"
proof -
  have e: "tuple_word (unat (fst g)) (set_tuple_word (unat off) h t) = tuple_word (unat (fst g)) t" if "g \<in> set fs" for g
    using assms(1) that fields_okD [of "length t" fs g] by (intro tuple_word_apart) (auto simp: fields_ok_Cons)
  show ?thesis
    using assms(2) unfolding carries_def by (rule list.rel_mono_strong) (use e in auto)
qed


section \<open>Allocation\<close>

lemma map_upds_append_same: "length xs = length vs \<Longrightarrow> m(xs @ ys [\<mapsto>] vs @ ws) = m(xs [\<mapsto>] vs, ys [\<mapsto>] ws)"
  by (induction xs vs arbitrary: m rule: list_induct2) simp_all

lemma dom_map_upds_same: "length xs = length vs \<Longrightarrow> dom (m(xs [\<mapsto>] vs)) = dom m \<union> set xs"
  by (induction xs vs arbitrary: m rule: list_induct2) auto

text \<open>What one field does, when there is space.\<close>

lemma allocate_fields_Cons:
  assumes "stores base s A" "fields_ok (length t) ((off, w) # fs)" "carries ((off, w) # fs) t (d # ds)"
    and "length d + 3 < 2 ^ 32" "array_space (of_nat (length d)) \<le> unat (more_block s)"
  shows "\<exists>h s1. allocate_fields base sinks ((off, w) # fs) t (d @ rest) s =
      allocate_fields base sinks fs (set_tuple_word (unat off) h t) rest s1 \<and> h \<notin> dom A \<and>
    stores base s1 (A(h \<mapsto> entry_of sinks (off, w) d)) \<and>
    unat (more_block s1) = unat (more_block s) - array_space (of_nat (length d))"
proof -
  let ?n = "of_nat (length d) :: 32 word"
  have n: "unat ?n = length d" using assms(4) by (intro unat_of_nat32) simp
  have wd: "tuple_word (unat off) t = ?n" using assms(3) by (auto simp: carries_def intro: word_of_unat)
  let ?e = "entry_of sinks (off, w) d"
  obtain h s1 where h: "allocate_array base ?n s = Inr (h, s1)" "h \<notin> dom A" "stores base (fill_array h ?n ?e s1) (A(h \<mapsto> ?e))"
    "unat (more_block (fill_array h ?n ?e s1)) = unat (more_block s) - array_space ?n"
    using new_array [OF assms(1), of ?n ?e] assms(4,5) n by (auto simp: entry_of_def)
  have "allocate_fields base sinks ((off, w) # fs) t (d @ rest) s =
      allocate_fields base sinks fs (set_tuple_word (unat off) h t) rest (fill_array h ?n ?e s1)"
    using assms(2) h(1) by (simp add: fields_ok_Cons wd n fill_array_def entry_of_def Let_def)
  with h show ?thesis by blast
qed

lemma allocate_fields_ok:
  assumes "stores base s A" "fields_ok (length t) fs" "carries fs t ds" "\<forall>d \<in> set ds. length d + 3 < 2 ^ 32"
    and "data_space ds \<le> unat (more_block s)"
  shows "\<exists>hs s1. allocate_fields base sinks fs t (concat ds @ rest) s = Inr (set_words fs hs t, rest, s1) \<and>
    length hs = length fs \<and> distinct hs \<and> set hs \<inter> dom A = {} \<and> stores base s1 (A(hs [\<mapsto>] map2 (entry_of sinks) fs ds)) \<and>
    unat (more_block s1) = unat (more_block s) - data_space ds"
  using assms
proof (induction fs arbitrary: t ds s A)
  case Nil
  then show ?case by (simp add: carries_def data_space_def)
next
  case (Cons f fs)
  obtain off w where f: "f = (off, w)" by (cases f)
  from Cons.prems(3) obtain d ds' where ds: "ds = d # ds'" by (auto simp: carries_def f list_all2_Cons1)
  have sp: "array_space (of_nat (length d)) + data_space ds' \<le> unat (more_block s)"
    using Cons.prems(5) by (simp add: ds data_space_def)
  obtain h s1 where h: "allocate_fields base sinks (f # fs) t (d @ concat ds' @ rest) s =
      allocate_fields base sinks fs (set_tuple_word (unat off) h t) (concat ds' @ rest) s1" "h \<notin> dom A"
    "stores base s1 (A(h \<mapsto> entry_of sinks f d))" "unat (more_block s1) = unat (more_block s) - array_space (of_nat (length d))"
    using allocate_fields_Cons [OF Cons.prems(1), of t off w fs d ds' sinks "concat ds' @ rest"] Cons.prems(2-4) sp
    unfolding f ds by auto
  let ?t = "set_tuple_word (unat off) h t"
  have len: "length ?t = length t" using Cons.prems(2) by (simp add: f fields_ok_Cons)
  have c: "carries fs ?t ds'"
    using Cons.prems(2,3) unfolding f ds by (intro carries_set) (auto simp: carries_def)
  have fo: "fields_ok (length ?t) fs" unfolding len using Cons.prems(2) by (simp add: f fields_ok_Cons)
  have sh: "\<forall>d \<in> set ds'. length d + 3 < 2 ^ 32" using Cons.prems(4) by (simp add: ds)
  have sp': "data_space ds' \<le> unat (more_block s1)" using sp h(4) by simp
  obtain hs s2 where hs: "allocate_fields base sinks fs ?t (concat ds' @ rest) s1 = Inr (set_words fs hs ?t, rest, s2)"
    "length hs = length fs" "distinct hs" "set hs \<inter> dom (A(h \<mapsto> entry_of sinks f d)) = {}"
    "stores base s2 (A(h \<mapsto> entry_of sinks f d, hs [\<mapsto>] map2 (entry_of sinks) fs ds'))"
    "unat (more_block s2) = unat (more_block s1) - data_space ds'"
    using Cons.IH [OF h(3) fo c sh sp'] by blast
  have "allocate_fields base sinks (f # fs) t (concat ds @ rest) s = Inr (set_words (f # fs) (h # hs) t, rest, s2)"
    using h(1) hs(1) by (simp add: ds f)
  moreover have "unat (more_block s2) = unat (more_block s) - data_space ds"
    using hs(6) h(4) by (simp add: ds data_space_def)
  moreover have "distinct (h # hs)" "set (h # hs) \<inter> dom A = {}" using hs(3,4) h(2) by auto
  moreover have "stores base s2 (A((h # hs) [\<mapsto>] map2 (entry_of sinks) (f # fs) ds))" using hs(5) by (simp add: ds)
  ultimately show ?case using hs(2) by (intro exI [of _ "h # hs"] exI [of _ s2]) simp
qed


text \<open>The flag byte is in front of all fields.\<close>

lemma carries_array_bit: "fields_ok len fs \<Longrightarrow> carries fs (set_array_bit t) ds \<longleftrightarrow> carries fs t ds"
proof -
  assume f: "fields_ok len fs"
  have "drop (unat (fst g)) (set_array_bit t) = drop (unat (fst g)) t" if "g \<in> set fs" for g
    using f that by (auto simp: fields_ok_def set_array_bit_def)
  then have e: "tuple_word (unat off) (set_array_bit t) = tuple_word (unat off) t" if "(off, w) \<in> set fs" for off w
    using that by (force simp: tuple_word_def)
  show ?thesis unfolding carries_def
    by (intro iffI; erule list.rel_mono_strong) (auto simp: e)
qed

lemma length_array_bit [simp]: "length (set_array_bit t) = length t"
  by (simp add: set_array_bit_def)

lemma allocate_arrays_ok:
  assumes "stores base s A" "\<forall>t \<in> set ts. length t = len" "fields_ok len fs" "list_all2 (carries fs) ts Ds"
    and "\<forall>d \<in> set (concat Ds). length d + 3 < 2 ^ 32" "(\<Sum>ds \<leftarrow> Ds. data_space ds) \<le> unat (more_block s)"
  shows "\<exists>Hs s1. allocate_arrays base sinks fs ts (concat (concat Ds) @ rest) s =
      Inr (map2 (\<lambda>hs t. set_words fs hs (set_array_bit t)) Hs ts, rest, s1) \<and>
    length Hs = length ts \<and> (\<forall>hs \<in> set Hs. length hs = length fs) \<and> distinct (concat Hs) \<and> set (concat Hs) \<inter> dom A = {} \<and>
    stores base s1 (A(concat Hs [\<mapsto>] concat (map (map2 (entry_of sinks) fs) Ds)))"
  using assms(1,2,4-6)
proof (induction ts arbitrary: Ds s A)
  case Nil
  then show ?case by simp
next
  case (Cons t ts)
  from Cons.prems(3) obtain ds Ds' where D: "Ds = ds # Ds'" "carries fs t ds" "list_all2 (carries fs) ts Ds'"
    by (auto simp: list_all2_Cons1)
  let ?t = "set_array_bit t"
  have fo: "fields_ok (length ?t) fs" using Cons.prems(2) assms(3) by simp
  have c: "carries fs ?t ds" using D(2) carries_array_bit [OF assms(3)] by blast
  have sh: "\<forall>d \<in> set ds. length d + 3 < 2 ^ 32" "\<forall>d \<in> set (concat Ds'). length d + 3 < 2 ^ 32"
    using Cons.prems(4) by (auto simp: D(1))
  have sp: "data_space ds \<le> unat (more_block s)" using Cons.prems(5) by (simp add: D(1))
  obtain hs s1 where h: "allocate_fields base sinks fs ?t (concat ds @ concat (concat Ds') @ rest) s =
      Inr (set_words fs hs ?t, concat (concat Ds') @ rest, s1)"
    "length hs = length fs" "distinct hs" "set hs \<inter> dom A = {}" "stores base s1 (A(hs [\<mapsto>] map2 (entry_of sinks) fs ds))"
    "unat (more_block s1) = unat (more_block s) - data_space ds"
    using allocate_fields_ok [OF Cons.prems(1) fo c sh(1) sp] by blast
  let ?A = "A(hs [\<mapsto>] map2 (entry_of sinks) fs ds)"
  have le: "length hs = length (map2 (entry_of sinks) fs ds)"
    using h(2) D(2) by (simp add: carries_def list_all2_lengthD)
  have len: "\<forall>t \<in> set ts. length t = len" using Cons.prems(2) by simp
  have sp': "(\<Sum>ds \<leftarrow> Ds'. data_space ds) \<le> unat (more_block s1)" using Cons.prems(5) h(6) by (simp add: D(1))
  obtain Hs s2 where H: "allocate_arrays base sinks fs ts (concat (concat Ds') @ rest) s1 =
      Inr (map2 (\<lambda>hs t. set_words fs hs (set_array_bit t)) Hs ts, rest, s2)"
    "length Hs = length ts" "\<forall>hs \<in> set Hs. length hs = length fs" "distinct (concat Hs)" "set (concat Hs) \<inter> dom ?A = {}"
    "stores base s2 (?A(concat Hs [\<mapsto>] concat (map (map2 (entry_of sinks) fs) Ds')))"
    using Cons.IH [OF h(5) len D(3) sh(2) sp'] by blast
  have "allocate_arrays base sinks fs (t # ts) (concat (concat Ds) @ rest) s =
      Inr (map2 (\<lambda>hs t. set_words fs hs (set_array_bit t)) (hs # Hs) (t # ts), rest, s2)"
    using h(1) H(1) by (simp add: D(1) array_allocator_def)
  moreover have "distinct (concat (hs # Hs))" "set (concat (hs # Hs)) \<inter> dom A = {}"
    using H(4,5) h(3,4) dom_map_upds_same [OF le, of A] by auto
  moreover have "stores base s2 (A(concat (hs # Hs) [\<mapsto>] concat (map (map2 (entry_of sinks) fs) Ds)))"
    using H(6) map_upds_append_same [OF le] by (simp add: D(1))
  ultimately show ?case using H(2,3) h(2) by (intro exI [of _ "hs # Hs"] exI [of _ s2]) simp
qed

section \<open>Collection\<close>

lemma tuple_word_append:
  "tuple_word (length xs + off) (xs @ ys) = tuple_word off ys"
  "off + 4 \<le> length xs \<Longrightarrow> tuple_word off (xs @ ys) = tuple_word off xs"
  by (simp_all add: tuple_word_def)

lemma set_tuple_word_append:
  "set_tuple_word (length xs + off) w (xs @ ys) = xs @ set_tuple_word off w ys"
  "off + 4 \<le> length xs \<Longrightarrow> set_tuple_word off w (xs @ ys) = set_tuple_word off w xs @ ys"
  by (simp_all add: set_tuple_word_def add.assoc)

text \<open>The arrays of a column of the buffer: their addresses are in the tuples, their entries in the map.\<close>

fun column_ok :: "array_map \<Rightarrow> 16 word \<Rightarrow> 32 word \<Rightarrow> byte list list \<Rightarrow> 32 word list \<Rightarrow> byte list list \<Rightarrow> bool" where
  "column_ok A off w [] [] [] \<longleftrightarrow> True"
| "column_ok A off w (t # ts) (h # hs) (d # ds) \<longleftrightarrow> tuple_word (unat off) t = h \<and> h \<notin> set hs \<and> length d < 2 ^ 32 \<and>
     (\<exists>e. A h = Some e \<and> ref_data e = d \<and> ref_width e * w = of_nat (length d) \<and> ref_count e \<noteq> 1) \<and> column_ok A off w ts hs ds"
| "column_ok A off w ts hs ds \<longleftrightarrow> False"

lemma column_ok_change:
  "column_ok A off w ts hs ds \<Longrightarrow> \<forall>h \<in> set hs. A' h = A h \<Longrightarrow> column_ok A' off w ts hs ds"
  by (induction A off w ts hs ds rule: column_ok.induct) auto

lemma unat_offset: "unat a + n < 65536 \<Longrightarrow> unat (a + of_nat n :: 16 word) = n + unat a"
  by (simp add: unat_word_ariths unat_of_nat take_bit_eq_mod)

lemma length_concat_same: "\<forall>t \<in> set xs. length t = n \<Longrightarrow> length (concat xs) = length xs * n"
  by (induction xs) simp_all

lemma deallocate_field_ok:
  assumes "stores base s A" "column_ok A off w ts hs ds" "\<forall>t \<in> set (pre @ ts). length t = len" "unat off + 4 \<le> len"
    and "(length pre + length ts) * len \<le> 65536"
  shows "\<exists>s1 A1. deallocate_field (length ts) (of_nat len) (off + of_nat (length pre * len)) w (concat (pre @ ts)) s =
      Inr (concat (pre @ map2 (\<lambda>d. set_tuple_word (unat off) (of_nat (length d))) ds ts), concat ds, s1) \<and>
    stores base s1 A1 \<and> (\<forall>h. h \<notin> set hs \<longrightarrow> A1 h = A h)"
  using assms(1-3,5)
proof (induction ts arbitrary: pre hs ds s A)
  case Nil
  then show ?case by (cases hs; cases ds) auto
next
  case (Cons t ts)
  from Cons.prems(2) obtain h hs' d ds' where c: "hs = h # hs'" "ds = d # ds'" by (cases hs; cases ds) auto
  from Cons.prems(2) obtain e where e: "tuple_word (unat off) t = h" "h \<notin> set hs'" "length d < 2 ^ 32" "A h = Some e"
    "ref_data e = d" "ref_width e * w = of_nat (length d)" "ref_count e \<noteq> 1" "column_ok A off w ts hs' ds'"
    by (auto simp: c)
  have lt: "length t = len" and lp: "length (concat pre) = length pre * len"
    using Cons.prems(3) by (simp_all add: length_concat_same)
  have small: "length pre * len + len + length ts * len \<le> 65536" using Cons.prems(4) by (simp add: algebra_simps)
  have off: "unat (off + of_nat (length pre * len)) = length pre * len + unat off"
    by (rule unat_offset) (use small assms(4) in linarith)
  have rd: "tuple_word (length pre * len + unat off) (concat (pre @ t # ts)) = h"
    using tuple_word_append(1) [of "concat pre" "unat off" "t @ concat ts"] tuple_word_append(2) [of "unat off" t] lt assms(4) e(1) lp by simp
  have wr: "set_tuple_word (length pre * len + unat off) v (concat (pre @ t # ts)) = concat ((pre @ [set_tuple_word (unat off) v t]) @ ts)" for v
    using set_tuple_word_append(1) [of "concat pre" "unat off" v "t @ concat ts"] set_tuple_word_append(2) [of "unat off" t] lt assms(4) lp by simp
  have sz: "array_size h w s = of_nat (length d)" "mem_read (array_bytes s) (h + array_header_size) (length d) = d"
    using stored_data [OF Cons.prems(1) e(4)] e(5,6) by simp_all
  have "(- 1 :: int) \<le> int (unat (ref_count e))" by (rule order_trans [of _ 0]) simp_all
  then have m1: "sint (- 1 :: 16 word) \<le> int (unat (ref_count e))" by simp
  have nz: "ref_count e + - 1 \<noteq> 0" using e(7) by simp
  obtain s1 where s1: "modify_array_reference h (- 1) s = Inr s1" "stores base s1 (A(h \<mapsto> e\<lparr>ref_count := ref_count e + - 1\<rparr>))"
    using modify_array_reference_ok [OF Cons.prems(1) e(4) m1 nz] by blast
  have col: "column_ok (A(h \<mapsto> e\<lparr>ref_count := ref_count e + - 1\<rparr>)) off w ts hs' ds'"
    by (rule column_ok_change [OF e(8)]) (use e(2) in auto)
  let ?pre = "pre @ [set_tuple_word (unat off) (of_nat (length d)) t]"
  have len: "\<forall>t \<in> set (?pre @ ts). length t = len" using Cons.prems(3) assms(4) by auto
  have sm: "(length ?pre + length ts) * len \<le> 65536" using small by (simp add: algebra_simps)
  obtain s2 A2 where s2: "deallocate_field (length ts) (of_nat len) (off + of_nat (length ?pre * len)) w (concat (?pre @ ts)) s1 =
      Inr (concat (?pre @ map2 (\<lambda>d. set_tuple_word (unat off) (of_nat (length d))) ds' ts), concat ds', s2)"
    "stores base s2 A2" "\<forall>h'. h' \<notin> set hs' \<longrightarrow> A2 h' = (A(h \<mapsto> e\<lparr>ref_count := ref_count e + - 1\<rparr>)) h'"
    using Cons.IH [OF s1(2) col len sm] by blast
  have next_off: "off + of_nat (length pre * len) + of_nat len = off + of_nat (length ?pre * len)"
    by (simp add: algebra_simps)
  have bound: "\<not> length (concat (pre @ t # ts)) < unat (off + of_nat (length pre * len)) + 4"
    unfolding off using lp lt assms(4) by simp
  have n: "unat (of_nat (length d) :: 32 word) = length d" by (rule unat_of_nat32 [OF e(3)])
  have "deallocate_field (length (t # ts)) (of_nat len) (off + of_nat (length pre * len)) w (concat (pre @ t # ts)) s =
      Inr (concat (pre @ map2 (\<lambda>d. set_tuple_word (unat off) (of_nat (length d))) ds (t # ts)), concat ds, s2)"
    using bound s2(1)
    by (simp only: deallocate_field.simps list.size add_0_right add_Suc_right if_False Let_def off rd wr sz n s1(1) rbind_simps next_off)
      (simp add: c)
  with s2(2,3) show ?case by (intro exI [of _ s2] exI [of _ A2]) (simp add: c)
qed


text \<open>A row: a tuple of the buffer, the addresses in it and the data of these arrays.\<close>

type_synonym array_row = "byte list \<times> 32 word list \<times> byte list list"

fun row_ok :: "array_map \<Rightarrow> array_fields \<Rightarrow> array_row \<Rightarrow> bool" where
  "row_ok A [] (t, [], []) \<longleftrightarrow> True"
| "row_ok A ((off, w) # fs) (t, h # hs, d # ds) \<longleftrightarrow> tuple_word (unat off) t = h \<and> length d < 2 ^ 32 \<and>
     (\<exists>e. A h = Some e \<and> ref_data e = d \<and> ref_width e * w = of_nat (length d) \<and> ref_count e \<noteq> 1) \<and> row_ok A fs (t, hs, ds)"
| "row_ok A fs r \<longleftrightarrow> False"

definition row_handles :: "array_row \<Rightarrow> 32 word list" where "row_handles = fst \<circ> snd"
definition row_data :: "array_row \<Rightarrow> byte list list" where "row_data = snd \<circ> snd"

lemma row_sel [simp]: "row_handles (t, hs, ds) = hs" "row_data (t, hs, ds) = ds"
  by (simp_all add: row_handles_def row_data_def)

text \<open>The data in the order in which it is collected.\<close>

fun by_fields :: "array_fields \<Rightarrow> byte list list list \<Rightarrow> byte list list" where
  "by_fields [] Ds = []"
| "by_fields (f # fs) Ds = map hd Ds @ by_fields fs (map tl Ds)"

lemma by_fields_nth:
  "\<forall>ds \<in> set Ds. length ds = length fs \<Longrightarrow> by_fields fs Ds = concat (map (\<lambda>j. map (\<lambda>ds. ds ! j) Ds) [0..<length fs])"
proof (induction fs arbitrary: Ds)
  case Nil
  then show ?case by simp
next
  case (Cons f fs)
  have "[0..<length (f # fs)] = 0 # map Suc [0..<length fs]" by (simp add: map_Suc_upt upt_conv_Cons del: upt_Suc)
  moreover have "by_fields fs (map tl Ds) = concat (map (\<lambda>j. map (\<lambda>ds. ds ! j) (map tl Ds)) [0..<length fs])"
    using Cons.prems by (intro Cons.IH) auto
  moreover have "ds ! 0 = hd ds" "tl ds ! j = ds ! Suc j" if "ds \<in> set Ds" for ds j
    using Cons.prems that by (cases ds; auto)+
  ultimately show ?case by (simp add: comp_def cong: map_cong del: upt_Suc)
qed

lemma distinct_hd_tl:
  assumes "distinct (concat Hs)" "\<forall>hs \<in> set Hs. hs \<noteq> []"
  shows "distinct (map hd Hs)" "distinct (concat (map tl Hs))" "set (map hd Hs) \<inter> set (concat (map tl Hs)) = {}"
proof -
  have "mset (map hd Hs @ concat (map tl Hs)) = mset (concat Hs)"
    using assms(2)
  proof (induction Hs)
    case (Cons hs Hs)
    then show ?case by (cases hs) simp_all
  qed simp
  then have "distinct (map hd Hs @ concat (map tl Hs))" using assms(1) mset_eq_imp_distinct_iff by blast
  then show "distinct (map hd Hs)" "distinct (concat (map tl Hs))" "set (map hd Hs) \<inter> set (concat (map tl Hs)) = {}"
    by (simp_all only: distinct_append)
qed

lemma row_ok_ConsD:
  "row_ok A ((off, w) # fs) r \<Longrightarrow> \<exists>t h hs d ds. r = (t, h # hs, d # ds)"
  by (cases r; cases "fst (snd r)"; cases "snd (snd r)") auto

lemma column_of_rows:
  "\<forall>r \<in> set R. row_ok A ((off, w) # fs) r \<Longrightarrow> distinct (map (hd \<circ> row_handles) R) \<Longrightarrow>
   column_ok A off w (map fst R) (map (hd \<circ> row_handles) R) (map (hd \<circ> row_data) R)"
proof (induction R)
  case (Cons r R)
  then obtain t h hs d ds where "r = (t, h # hs, d # ds)" using row_ok_ConsD [of A off w fs r] by auto
  with Cons show ?case by simp
qed simp

lemma row_ok_change:
  "row_ok A fs (t, hs, ds) \<Longrightarrow> \<forall>h \<in> set hs. A' h = A h \<Longrightarrow> \<forall>f \<in> set fs. tuple_word (unat (fst f)) t' = tuple_word (unat (fst f)) t \<Longrightarrow>
   row_ok A' fs (t', hs, ds)"
  by (induction A fs "(t, hs, ds)" arbitrary: hs ds rule: row_ok.induct) auto

text \<open>What is left of a row after its first array.\<close>

definition row_rest :: "16 word \<Rightarrow> array_row \<Rightarrow> array_row" where
  "row_rest off = (\<lambda>(t, hs, ds). (set_tuple_word (unat off) (of_nat (length (hd ds))) t, tl hs, tl ds))"

definition row_done :: "array_fields \<Rightarrow> array_row \<Rightarrow> byte list" where
  "row_done fs = (\<lambda>(t, hs, ds). set_words fs (map (of_nat \<circ> length) ds) t)"

lemma array_deallocator_ok:
  assumes "stores base s A" "\<forall>r \<in> set R. row_ok A fs r \<and> length (fst r) = len" "distinct (concat (map row_handles R))"
    and "fields_ok len fs" "length R * len \<le> 65536" "length R < 65536"
  shows "\<exists>s1 A1. array_deallocator fs (of_nat len) (of_nat (length R)) (concat (map fst R)) s =
      Inr (concat (map (row_done fs) R), concat (by_fields fs (map row_data R)), s1) \<and>
    stores base s1 A1 \<and> (\<forall>h. h \<notin> set (concat (map row_handles R)) \<longrightarrow> A1 h = A h)"
  using assms
proof (induction fs arbitrary: R s A)
  case Nil
  have "row_done [] = fst" by (auto simp: row_done_def)
  with Nil show ?case by auto
next
  case (Cons f fs)
  obtain off w where f: "f = (off, w)" by (cases f)
  have row: "\<exists>t h hs d ds. r = (t, h # hs, d # ds)" if "r \<in> set R" for r
    using Cons.prems(2) that row_ok_ConsD unfolding f by blast
  have ne: "\<forall>hs \<in> set (map row_handles R). hs \<noteq> []" using row by fastforce
  note dist = distinct_hd_tl [OF Cons.prems(3) ne]
  have fo: "unat off + 4 \<le> len" "fields_ok len fs" using Cons.prems(4) by (simp_all add: f fields_ok_Cons)
  have n: "unat (of_nat (length R) :: 16 word) = length R" using Cons.prems(6) by (simp add: unat_of_nat take_bit_eq_mod)
  have "\<forall>r \<in> set R. row_ok A ((off, w) # fs) r" using Cons.prems(2) by (simp add: f)
  from column_of_rows [OF this] dist(1)
  have col: "column_ok A off w (map fst R) (map (hd \<circ> row_handles) R) (map (hd \<circ> row_data) R)" by simp
  have lens: "\<forall>t \<in> set ([] @ map fst R). length t = len" using Cons.prems(2) by simp
  have small: "(length [] + length (map fst R)) * len \<le> 65536" using Cons.prems(5) by simp
  obtain s1 A1 where 1: "deallocate_field (length R) (of_nat len) off w (concat (map fst R)) s =
      Inr (concat (map2 (\<lambda>d. set_tuple_word (unat off) (of_nat (length d))) (map (hd \<circ> row_data) R) (map fst R)),
        concat (map (hd \<circ> row_data) R), s1)"
    "stores base s1 A1" "\<forall>h. h \<notin> set (map (hd \<circ> row_handles) R) \<longrightarrow> A1 h = A h"
    using deallocate_field_ok [OF Cons.prems(1) col lens fo(1) small] by auto
  let ?R = "map (row_rest off) R"
  have rest: "row_handles (row_rest off r) = tl (row_handles r)" "row_data (row_rest off r) = tl (row_data r)"
    "fst (row_rest off r) = set_tuple_word (unat off) (of_nat (length (hd (row_data r)))) (fst r)" for r
    by (cases r; simp add: row_rest_def)+
  have buf: "map2 (\<lambda>d. set_tuple_word (unat off) (of_nat (length d))) (map (hd \<circ> row_data) R) (map fst R) = map fst ?R"
    by (induction R) (simp_all add: rest)
  have handles: "map row_handles ?R = map tl (map row_handles R)" by (simp add: rest)
  have distR: "distinct (concat (map row_handles ?R))" unfolding handles by (rule dist(2))
  have data: "map row_data ?R = map tl (map row_data R)" by (simp add: rest)
  have rows: "row_ok A1 fs (row_rest off r) \<and> length (fst (row_rest off r)) = len" if r: "r \<in> set R" for r
  proof -
    obtain t h hs d ds where d: "r = (t, h # hs, d # ds)" using row [OF r] by blast
    have ok: "row_ok A fs (t, hs, ds)" and l: "length t = len" using Cons.prems(2) r by (auto simp: d f)
    have "set hs \<subseteq> set (concat (map tl (map row_handles R)))" using r by (force simp: d)
    then have "set hs \<inter> set (map (hd \<circ> row_handles) R) = {}" using dist(3) unfolding map_map by blast
    then have "\<forall>h \<in> set hs. A1 h = A h" using 1(3) by blast
    moreover have "\<forall>g \<in> set fs. tuple_word (unat (fst g)) (set_tuple_word (unat off) v t) = tuple_word (unat (fst g)) t" for v
      using Cons.prems(4) fo(1) l fields_okD [OF fo(2)] by (auto simp: f fields_ok_Cons intro!: tuple_word_apart)
    ultimately show ?thesis using row_ok_change [OF ok] l fo(1) by (simp add: d row_rest_def)
  qed
  have "\<exists>s2 A2. array_deallocator fs (of_nat len) (of_nat (length ?R)) (concat (map fst ?R)) s1 =
      Inr (concat (map (row_done fs) ?R), concat (by_fields fs (map row_data ?R)), s2) \<and>
    stores base s2 A2 \<and> (\<forall>h. h \<notin> set (concat (map row_handles ?R)) \<longrightarrow> A2 h = A1 h)"
    by (rule Cons.IH [OF 1(2) _ distR fo(2)]) (use rows Cons.prems(5,6) in auto)
  then obtain s2 A2 where 2: "array_deallocator fs (of_nat len) (of_nat (length R)) (concat (map fst ?R)) s1 =
      Inr (concat (map (row_done fs) ?R), concat (by_fields fs (map row_data ?R)), s2)"
    "stores base s2 A2" "\<forall>h. h \<notin> set (concat (map row_handles ?R)) \<longrightarrow> A2 h = A1 h" by auto
  have fin: "map (row_done fs) ?R = map (row_done (f # fs)) R"
    using row by (force simp: row_done_def row_rest_def f)
  have "array_deallocator (f # fs) (of_nat len) (of_nat (length R)) (concat (map fst R)) s =
      Inr (concat (map (row_done (f # fs)) R), concat (by_fields (f # fs) (map row_data R)), s2)"
    using 1(1) 2(1) by (simp only: f array_deallocator.simps n rbind_simps case_prod_conv buf fin [unfolded f] data)
      (simp add: comp_def)
  moreover have "A2 h = A h" if "h \<notin> set (concat (map row_handles R))" for h
  proof -
    have "h \<notin> set (map (hd \<circ> row_handles) R)" "h \<notin> set (concat (map row_handles ?R))"
      using that ne by (auto simp: rest dest: list.set_sel)
    with 1(3) 2(3) show ?thesis by simp
  qed
  ultimately show ?case using 2(2) by blast
qed

end
