(* ===== verification/Array_Iteration.thy ===== *)
theory Array_Iteration
  imports Array_Transport
begin

text \<open>
  The loop over the elements of an array (the iterator in queryProcessor/DynamicArray.h and its use in boxes/FilterQBox.cc):
  which elements it reaches, and when it does not end.
\<close>

section \<open>The iterator's state\<close>

text \<open>An iterator over \<open>n\<close> elements of \<open>j\<close> bytes, at element \<open>k\<close>.\<close>

definition iterating :: "address \<Rightarrow> nat \<Rightarrow> nat \<Rightarrow> nat \<Rightarrow> array_memory \<Rightarrow> bool" where
  "iterating h j n k s \<longleftrightarrow> get_jump h s = of_nat j \<and> get_boundary h s = h + 44 + of_nat (n * j) \<and>
     mem_uint32 (array_bytes s) (current_pos_at h) = h + 44 + of_nat (k * j)"

lemma unat_element: "unat h + 44 + m < 2 ^ 32 \<Longrightarrow> unat (h + 44 + of_nat m :: address) = unat h + 44 + m"
  using unat_address [of h "44 + m"] by (simp add: add.assoc)

lemma mem_byte_apart:
  assumes "unat b + length bs \<le> 2 ^ 32" "unat a < unat b \<or> unat b + length bs \<le> unat a"
  shows "mem_write b bs m a = m a"
proof -
  have "unat a < 2 ^ 32" using unsigned_less [where ?'a = nat, of a] by simp
  then have "apart a 1 b (length bs)" using assms by (auto simp: apart_def)
  from mem_read_write_apart [OF this, of m] show ?thesis by (simp add: mem_read_def)
qed

text \<open>A write into the data leaves the iterator as it is.\<close>

lemma iterating_write:
  assumes "iterating h j n k s" "unat h + 44 \<le> unat a" "unat a + length bs \<le> 2 ^ 32" "unat h + 44 < 2 ^ 32"
  shows "iterating h j n k (on_bytes (mem_write a bs) s)"
proof -
  note at = member_at [OF assms(4)]
  have "apart (current_pos_at h) 4 a (length bs)" "apart (end_boundary_at h) 4 a (length bs)"
    using assms(2-4) by (simp_all add: apart_def at)
  moreover have "mem_write a bs (array_bytes s) (jump_size_at h) = array_bytes s (jump_size_at h)"
    using assms(2,3) by (intro mem_byte_apart) (simp_all add: at)
  ultimately show ?thesis
    using assms(1) by (simp add: iterating_def get_jump_def get_boundary_def mem_uint_apart)
qed

lemma iterating_move:
  assumes "iterating h j n k s" "unat h + 44 < 2 ^ 32"
  shows "iterating h j n k' (on_bytes (set_uint32 (current_pos_at h) (h + 44 + of_nat (k' * j))) s)"
proof -
  note at = member_at [OF assms(2)]
  have "apart (end_boundary_at h) 4 (current_pos_at h) (length (le_bytes 4 v))" for v
    using assms(2) by (simp add: apart_def at)
  moreover have "mem_write (current_pos_at h) (le_bytes 4 v) (array_bytes s) (jump_size_at h) = array_bytes s (jump_size_at h)" for v
    using assms(2) by (intro mem_byte_apart) (simp_all add: at)
  ultimately show ?thesis
    using assms(1) by (simp add: iterating_def get_jump_def get_boundary_def) (simp add: set_uint32_def mem_uint_apart)
qed

lemma iterating_increment:
  assumes "iterating h j n k s" "unat h + 44 < 2 ^ 32"
  shows "iterating h j n (Suc k) (increment_iterator h s)"
proof -
  have "mem_uint32 (array_bytes s) (current_pos_at h) + get_jump h s = h + 44 + of_nat (Suc k * j)"
    using assms(1) by (simp add: iterating_def algebra_simps)
  then show ?thesis using iterating_move [OF assms, of "Suc k"] by (simp add: increment_iterator_def)
qed

lemma iterating_element:
  assumes "iterating h j n k s" "unat h + 44 + (n + 1) * j < 2 ^ 32" "k \<le> n" "0 < j"
  shows "get_iterator_element h s = (if n \<le> Suc k then 0 else h + 44 + of_nat (k * j))"
proof -
  have "Suc k * j \<le> (n + 1) * j" "n * j \<le> (n + 1) * j" using assms(3) by (intro mult_le_mono1; simp)+
  then have u: "unat (h + 44 + of_nat (Suc k * j) :: address) = unat h + 44 + Suc k * j"
    "unat (h + 44 + of_nat (n * j) :: address) = unat h + 44 + n * j"
    using assms(2) by (intro unat_element; linarith)+
  have it: "get_jump h s = of_nat j" "get_boundary h s = h + 44 + of_nat (n * j)"
    "mem_uint32 (array_bytes s) (current_pos_at h) = h + 44 + of_nat (k * j)" using assms(1) by (simp_all add: iterating_def)
  have sum: "h + 44 + of_nat (k * j) + of_nat j = h + 44 + of_nat (Suc k * j)" by (simp add: algebra_simps)
  have cmp: "h + 44 + of_nat (n * j) \<le> h + 44 + of_nat (Suc k * j) \<longleftrightarrow> n \<le> Suc k"
    unfolding word_le_nat_alt u add_le_cancel_left mult_le_cancel2 using assms(4) by blast
  show ?thesis by (simp only: get_iterator_element_def Let_def it sum cmp)
qed

section \<open>The predicate at an element\<close>

text \<open>The value of a predicate for a tuple and the bytes of an element, and predicates over the fields of tuples and elements of given widths.\<close>

fun predicate_on :: "byte list \<Rightarrow> byte list \<Rightarrow> filter_predicate \<Rightarrow> bool" where
  "predicate_on tup e (Test rs f) =
     f (map (\<lambda>r. case ref_array_offset r of None \<Rightarrow> take (ref_size r) (drop (ref_offset r) tup) | Some a \<Rightarrow> take (ref_size r) (drop a e)) rs)"
| "predicate_on tup e (AndExpression p q) \<longleftrightarrow> predicate_on tup e p \<and> predicate_on tup e q"
| "predicate_on tup e (OrExpression p q) \<longleftrightarrow> predicate_on tup e p \<or> predicate_on tup e q"

fun predicate_fits :: "nat \<Rightarrow> nat \<Rightarrow> nat \<Rightarrow> filter_predicate \<Rightarrow> bool" where
  "predicate_fits off len j (Test rs f) \<longleftrightarrow>
     (\<forall>r \<in> set rs. case ref_array_offset r of None \<Rightarrow> ref_offset r + ref_size r \<le> len | Some a \<Rightarrow> ref_offset r = off \<and> a + ref_size r \<le> j)"
| "predicate_fits off len j (AndExpression p q) \<longleftrightarrow> predicate_fits off len j p \<and> predicate_fits off len j q"
| "predicate_fits off len j (OrExpression p q) \<longleftrightarrow> predicate_fits off len j p \<and> predicate_fits off len j q"

lemma mem_read_within:
  assumes "mem_read m x j = e" "a + n \<le> j"
  shows "mem_read m (x + of_nat a) n = take n (drop a e)"
  using assms by (intro nth_equalityI) (auto simp: mem_read_def add.assoc)

lemma eval_predicate_on:
  assumes "get_iterator_element (tuple_word off tup) s = el" "el \<noteq> 0" "mem_read (array_bytes s) el j = e" "off + 4 \<le> length tup"
    and "predicate_fits off (length tup) j p"
  shows "eval_predicate tup s p = Inr (predicate_on tup e p)"
  using assms(5)
proof (induction p)
  case (Test rs f)
  have "field_value tup s r =
      Inr (case ref_array_offset r of None \<Rightarrow> take (ref_size r) (drop (ref_offset r) tup) | Some a \<Rightarrow> take (ref_size r) (drop a e))"
    if "r \<in> set rs" for r
    using Test that assms(1,2,4) mem_read_within [OF assms(3)] by (auto simp: field_value_def Let_def split: option.splits)
  then have "field_values tup s rs =
      Inr (map (\<lambda>r. case ref_array_offset r of None \<Rightarrow> take (ref_size r) (drop (ref_offset r) tup) | Some a \<Rightarrow> take (ref_size r) (drop a e)) rs)"
    by (induction rs) simp_all
  then show ?case by simp
qed simp_all

section \<open>The loop\<close>

lemma null_loop_unfold:
  "null_loop h j tup p (el, s) =
     (if el = 0 then Some (Inr (el, s))
      else case eval_predicate tup s p of Inl e \<Rightarrow> Some (Inl e)
        | Inr keep \<Rightarrow>
            let s2 = increment_iterator h (if keep then s else on_bytes (mem_write el (replicate j 0)) s)
            in null_loop h j tup p (get_iterator_element h s2, s2))"
  unfolding null_loop_def
  by (subst while_option_unfold) (simp add: Let_def while_option_unfold [where s = "Inl e" for e] split: sum.split)

text \<open>The data after the elements before \<open>k\<close> have been visited.\<close>

definition nulled :: "byte list \<Rightarrow> filter_predicate \<Rightarrow> nat \<Rightarrow> nat \<Rightarrow> byte list list \<Rightarrow> byte list" where
  "nulled tup p j k es =
     concat (map (\<lambda>e. if predicate_on tup e p then e else replicate j 0) (take k es)) @ concat (drop k es)"

lemma nulled_all_but_last:
  assumes "es \<noteq> []"
  shows "nulled tup p j (length es - 1) es =
    concat (map (\<lambda>e. if predicate_on tup e p then e else replicate j 0) (butlast es)) @ last es"
  using assms by (cases es rule: rev_cases) (simp_all add: nulled_def)

lemma nulled_split:
  assumes "k < length es" "\<forall>e \<in> set es. length e = j"
  obtains xs where "nulled tup p j k es = xs @ es ! k @ concat (drop (Suc k) es)" "length xs = k * j"
    "nulled tup p j (Suc k) es = xs @ (if predicate_on tup (es ! k) p then es ! k else replicate j 0) @ concat (drop (Suc k) es)"
proof
  let ?xs = "concat (map (\<lambda>e. if predicate_on tup e p then e else replicate j 0) (take k es))"
  show "nulled tup p j k es = ?xs @ es ! k @ concat (drop (Suc k) es)"
    using assms(1) by (simp add: nulled_def Cons_nth_drop_Suc [symmetric])
  have "\<forall>e \<in> set (map (\<lambda>e. if predicate_on tup e p then e else replicate j 0) (take k es)). length e = j"
    using assms(2) by (auto dest: in_set_takeD)
  from length_concat_same [OF this] show "length ?xs = k * j" using assms(1) by simp
  show "nulled tup p j (Suc k) es = ?xs @ (if predicate_on tup (es ! k) p then es ! k else replicate j 0) @ concat (drop (Suc k) es)"
    using assms(1) by (simp add: nulled_def take_Suc_conv_app_nth)
qed

lemma mem_write_part:
  assumes "mem_read m a n = xs @ ys @ zs" "length bs = length ys" "n < 2 ^ 32"
  shows "mem_read (mem_write (a + of_nat (length xs)) bs m) a n = xs @ bs @ zs"
proof (rule nth_equalityI)
  have l: "length xs + length ys + length zs = n" using arg_cong [OF assms(1), of length] by simp
  then show "length (mem_read (mem_write (a + of_nat (length xs)) bs m) a n) = length (xs @ bs @ zs)" using assms(2) by simp
  fix i assume "i < length (mem_read (mem_write (a + of_nat (length xs)) bs m) a n)"
  then have i: "i < n" by simp
  have m: "m (a + of_nat i) = (xs @ ys @ zs) ! i" using arg_cong [OF assms(1), of "\<lambda>l. l ! i"] i by (simp add: mem_read_def)
  show "mem_read (mem_write (a + of_nat (length xs)) bs m) a n ! i = (xs @ bs @ zs) ! i"
  proof (cases "length xs \<le> i \<and> i < length xs + length bs")
    case True
    have "(of_nat i - of_nat (length xs) :: address) = of_nat (i - length xs)" using True by (simp add: of_nat_diff)
    moreover have "unat (of_nat (i - length xs) :: address) = i - length xs" using i assms(3) by (intro unat_of_nat32) linarith
    moreover have "i - length xs < length bs" "\<not> i < length xs" using True by linarith+
    ultimately show ?thesis using i by (simp add: mem_read_def mem_write_def nth_append)
  next
    case False
    have "\<not> unat (of_nat i - of_nat (length xs) :: address) < length bs"
    proof (cases "i < length xs")
      case True
      have u: "unat (of_nat i :: address) = i" "unat (of_nat (length xs) :: address) = length xs"
        using i l assms(2,3) True by (intro unat_of_nat32; linarith)+
      show ?thesis using True l assms(2,3) by (simp add: unat_sub_if' u)
    next
      case False
      then have "(of_nat i - of_nat (length xs) :: address) = of_nat (i - length xs)" by (simp add: of_nat_diff)
      moreover have "unat (of_nat (i - length xs) :: address) = i - length xs" using i assms(3) by (intro unat_of_nat32) linarith
      ultimately show ?thesis using False \<open>\<not> (length xs \<le> i \<and> i < length xs + length bs)\<close> by simp
    qed
    then show ?thesis using False i m assms(2) by (auto simp: mem_read_def mem_write_def nth_append)
  qed
qed

text \<open>From element \<open>k\<close> on, the loop visits the elements before the last.\<close>

lemma null_loop_from:
  assumes "unat h + 44 + (length es + 1) * j < 2 ^ 32" "0 < j" "\<forall>e \<in> set es. length e = j" "predicate_fits off (length tup) j p"
    and "h = tuple_word off tup" "off + 4 \<le> length tup"
    and "Suc k < length es" "iterating h j (length es) k s" "mem_read (array_bytes s) (h + 44) (length es * j) = nulled tup p j k es"
  shows "\<exists>s'. null_loop h j tup p (h + 44 + of_nat (k * j), s) = Some (Inr (0, s')) \<and>
    mem_read (array_bytes s') (h + 44) (length es * j) = nulled tup p j (length es - 1) es"
  using assms(7-9)
proof (induction "length es - k" arbitrary: k s)
  case 0
  then show ?case by simp
next
  case (Suc d)
  let ?n = "length es"
  have kn: "Suc k \<le> ?n" "k < ?n" using Suc.prems(1) by simp_all
  then have kj: "k * j + j \<le> ?n * j" using mult_le_mono1 [of "Suc k" ?n j] by (simp add: add.commute)
  have big: "unat h + 44 + ?n * j + j < 2 ^ 32" using assms(1) by (simp add: algebra_simps)
  then have h: "unat h + 44 < 2 ^ 32" and n32: "?n * j < 2 ^ 32" by linarith+
  note at = member_at [OF h]
  let ?el = "h + 44 + of_nat (k * j) :: address"
  have uel: "unat ?el = unat h + 44 + k * j" using kj big by (intro unat_element) linarith
  then have nz: "?el \<noteq> 0" by (metis add_is_0 unat_0 zero_neq_numeral)
  obtain xs where x: "nulled tup p j k es = xs @ es ! k @ concat (drop (Suc k) es)" "length xs = k * j"
    "nulled tup p j (Suc k) es = xs @ (if predicate_on tup (es ! k) p then es ! k else replicate j 0) @ concat (drop (Suc k) es)"
    by (rule nulled_split [OF kn(2) assms(3)])
  have lk: "length (es ! k) = j" using assms(3) kn(2) by simp
  have "\<not> ?n \<le> Suc k" using Suc.prems(1) by simp
  then have el: "get_iterator_element (tuple_word off tup) s = ?el"
    using iterating_element [OF Suc.prems(2) assms(1) _ assms(2)] kn assms(5) by simp
  have "mem_read (array_bytes s) ?el j = take j (drop (k * j) (nulled tup p j k es))"
    by (rule mem_read_within [OF Suc.prems(3) kj])
  then have "mem_read (array_bytes s) ?el j = es ! k" by (simp add: x(1,2) lk)
  from eval_predicate_on [OF el nz this assms(6,4)]
  have ev: "eval_predicate tup s p = Inr (predicate_on tup (es ! k) p)" .
  define s1 where "s1 = (if predicate_on tup (es ! k) p then s else on_bytes (mem_write ?el (replicate j 0)) s)"
  have "unat h + 44 \<le> unat ?el" "unat ?el + length (replicate j (0 :: byte)) \<le> 2 ^ 32"
    unfolding uel length_replicate using kj big by linarith+
  from iterating_write [OF Suc.prems(2) this h]
  have it1: "iterating h j ?n k s1" using Suc.prems(2) by (simp add: s1_def)
  have "length (replicate j (0 :: byte)) = length (es ! k)" by (simp add: lk)
  from mem_write_part [OF Suc.prems(3) [unfolded x(1)] this n32]
  have "mem_read (array_bytes s1) (h + 44) (?n * j) = nulled tup p j (Suc k) es"
    using Suc.prems(3) by (simp add: s1_def x)
  moreover have "apart (h + 44) (?n * j) (current_pos_at h) (length (le_bytes 4 v))" for v
    using big unat_element [of h 0] h by (simp add: apart_def at)
  ultimately have data: "mem_read (array_bytes (increment_iterator h s1)) (h + 44) (?n * j) = nulled tup p j (Suc k) es"
    by (simp add: increment_iterator_def set_uint32_def)
  have it2: "iterating h j ?n (Suc k) (increment_iterator h s1)" by (rule iterating_increment [OF it1 h])
  note el2 = iterating_element [OF it2 assms(1) kn(1) assms(2)]
  have step: "null_loop h j tup p (?el, s) = null_loop h j tup p (get_iterator_element h (increment_iterator h s1), increment_iterator h s1)"
    using nz ev by (subst null_loop_unfold) (simp only: Let_def s1_def if_False sum.case)
  show ?case
  proof (cases "Suc (Suc k) < ?n")
    case True
    then have "get_iterator_element h (increment_iterator h s1) = h + 44 + of_nat (Suc k * j)" using el2 by (simp only: not_le [symmetric] if_False)
    moreover have "d = ?n - Suc k" using Suc.hyps(2) by simp
    ultimately show ?thesis using Suc.hyps(1) [OF _ True it2 data] step by simp
  next
    case False
    then have m: "?n - 1 = Suc k" using Suc.prems(1) by simp
    have "get_iterator_element h (increment_iterator h s1) = 0" using el2 False by (simp only: not_less if_True)
    then have "null_loop h j tup p (?el, s) = Some (Inr (0, increment_iterator h s1))"
      using step by (simp add: null_loop_unfold)
    with data show ?thesis unfolding m by blast
  qed
qed

section \<open>The start of the loop\<close>

lemma iteration_start:
  assumes "unat h + 44 + m < 2 ^ 32" "get_boundary h s = e"
    and s1: "s1 = snd (first_position h (save_jump h j s))"
  shows "get_jump h s1 = ucast (of_nat j :: byte)" "get_boundary h s1 = e" "mem_uint32 (array_bytes s1) (current_pos_at h) = h + 44"
    "mem_read (array_bytes s1) (h + 44) m = mem_read (array_bytes s) (h + 44) m"
proof -
  have h: "unat h + 44 < 2 ^ 32" using assms(1) by linarith
  note at = member_at [OF h]
  have u: "unat (h + 44) = unat h + 44" using unat_element [of h 0] h by simp
  have b: "array_bytes s1 = set_uint32 (current_pos_at h) (h + 44) (mem_write (jump_size_at h) [of_nat j] (array_bytes s))"
    by (simp add: s1 first_position_def save_jump_def array_header_size_def)
  have "apart (end_boundary_at h) 4 (jump_size_at h) 1" "apart (end_boundary_at h) 4 (current_pos_at h) 4"
    "apart (h + 44) m (jump_size_at h) 1" "apart (h + 44) m (current_pos_at h) 4"
    using assms(1) by (simp_all add: apart_def at u)
  then show "get_boundary h s1 = e" "mem_read (array_bytes s1) (h + 44) m = mem_read (array_bytes s) (h + 44) m"
    using assms(2) by (simp_all add: get_boundary_def b set_uint32_def mem_uint_apart)
  show "mem_uint32 (array_bytes s1) (current_pos_at h) = h + 44" by (simp add: b)
  have "mem_write (current_pos_at h) (le_bytes 4 v) mm (jump_size_at h) = mm (jump_size_at h)" for v mm
    using h by (intro mem_byte_apart) (simp_all add: at)
  then show "get_jump h s1 = ucast (of_nat j :: byte)" by (simp add: get_jump_def b set_uint32_def) (simp add: mem_write_def)
qed

text \<open>
  The only element of an array is its last: the loop visits it, since it starts from \<open>first_position\<close>, but the iterator that a field of
  the element reads is at the end already, and the predicate reads through the null pointer.
\<close>

lemma single_element_dereferences_null:
  assumes "h = tuple_word off tup" "off + 4 \<le> length tup" "unat h + 44 + 2 * j < 2 ^ 32" "0 < j" "j < 256"
    and "get_boundary h s = h + 44 + of_nat j" "p = Test (r # rs) f" "ref_offset r = off" "ref_array_offset r = Some a"
  shows "iterate_over_and_null_vals off j p 0 tup s = Some (Inl Undefined)"
proof -
  define s1 where "s1 = snd (first_position h (save_jump h j s))"
  have b: "get_boundary h s = h + 44 + of_nat (1 * j)" and m: "unat h + 44 + j < 2 ^ 32" using assms(3,6) by simp_all
  note start = iteration_start [OF m b s1_def]
  have "(ucast (of_nat j :: byte) :: 32 word) = of_nat j"
    using assms(5) by (simp add: word_unat_eq_iff unsigned_ucast_eq unat_of_nat take_bit_eq_mod)
  with start have "iterating h j 1 0 s1" by (simp add: iterating_def)
  from iterating_element [OF this _ _ assms(4)] assms(3)
  have "get_iterator_element (tuple_word off tup) s1 = 0" by (simp add: assms(1) [symmetric])
  then have ev: "eval_predicate tup s1 p = Inl Undefined"
    using assms(2,7-9) by (simp add: field_value_def)
  have "unat (h + 44) = unat h + 44" using unat_element [of h 0] m by simp
  then have "h + 44 \<noteq> 0" by auto
  then have "null_loop h j tup p (h + 44, s1) = Some (Inl Undefined)" using ev by (simp add: null_loop_unfold)
  then show ?thesis
    using assms(1,2) by (simp add: iterate_over_and_null_vals_def Let_def first_position_def s1_def array_header_size_def)
qed

text \<open>
  Elements whose width is a multiple of 256: the iterator does not move, and the loop does not end with a predicate that holds whatever
  the memory.
\<close>

lemma wide_elements_never_end:
  assumes "h = tuple_word off tup" "off + 4 \<le> length tup" "unat h + 44 < 2 ^ 32" "h + 44 < get_boundary h s" "256 dvd j" "\<And>s. eval_predicate tup s p = Inr True"
  shows "iterate_over_and_null_vals off j p 0 tup s = None"
proof -
  define s1 where "s1 = snd (first_position h (save_jump h j s))"
  have m: "unat h + 44 + 0 < 2 ^ 32" using assms(3) by simp
  note start = iteration_start [OF m refl s1_def]
  have "(of_nat j :: byte) = 0"
  proof -
    obtain q where "j = 256 * q" using assms(5) by blast
    then show ?thesis by (simp add: byte_256)
  qed
  with start(1) have z: "get_jump h s1 = 0" by simp
  let ?J = "\<lambda>(el, s'). el = h + 44 \<and> get_jump h s' = 0 \<and> get_boundary h s' = get_boundary h s \<and>
      mem_uint32 (array_bytes s') (current_pos_at h) = h + 44"
  let ?I = "\<lambda>r. \<exists>st. r = Inr st \<and> ?J st"
  have "unat (h + 44) = unat h + 44" using unat_element [of h 0] assms(3) by simp
  then have nz: "h + 44 \<noteq> 0" by auto
  have "null_loop h j tup p (h + 44, s1) = None"
  proof (rule ccontr)
    assume "null_loop h j tup p (h + 44, s1) \<noteq> None"
    then obtain r where r: "null_loop h j tup p (h + 44, s1) = Some r" by blast
    have "?I r"
    proof (rule while_option_rule [OF _ r [unfolded null_loop_def], where P = ?I])
      fix q :: "(address \<times> array_memory) result" assume "?I q"
      then obtain el s' where q: "q = Inr (el, s')" "?J (el, s')" by auto
      note at = member_at [OF assms(3)]
      let ?s = "increment_iterator h s'"
      have e: "apart (end_boundary_at h) 4 (current_pos_at h) (length (le_bytes 4 v))" for v
        using assms(3) by (simp add: apart_def at)
      have j: "mem_write (current_pos_at h) (le_bytes 4 v) mm (jump_size_at h) = mm (jump_size_at h)" for v mm
        using assms(3) by (intro mem_byte_apart) (simp_all add: at)
      have "get_jump h ?s = 0" "get_boundary h ?s = get_boundary h s" "mem_uint32 (array_bytes ?s) (current_pos_at h) = h + 44"
        using q(2) e j
        by (simp_all add: increment_iterator_def get_jump_def get_boundary_def)
          (simp_all add: set_uint32_def mem_uint_apart)
      moreover have "\<not> get_boundary h s \<le> h + 44" using assms(4) by (simp only: not_le)
      ultimately have J: "?J (get_iterator_element h ?s, ?s)" by (simp add: get_iterator_element_def Let_def)
      have "rbind q (\<lambda>(element, s). rbind (eval_predicate tup s p) (\<lambda>keep.
            let s1 = (if keep then s else on_bytes (mem_write element (replicate j 0)) s);
                s2 = increment_iterator h s1
            in Inr (get_iterator_element h s2, s2))) = Inr (get_iterator_element h ?s, ?s)"
        using assms(6) [of s'] by (simp add: q(1) Let_def)
      with J show "?I (rbind q (\<lambda>(element, s). rbind (eval_predicate tup s p) (\<lambda>keep.
            let s1 = (if keep then s else on_bytes (mem_write element (replicate j 0)) s);
                s2 = increment_iterator h s1
            in Inr (get_iterator_element h s2, s2))))" by blast
    qed (use z start in simp)
    then obtain s' where "r = Inr (h + 44, s')" by auto
    then show False using while_option_stop [OF r [unfolded null_loop_def]] nz by simp
  qed
  then show ?thesis
    using assms(1,2) by (simp add: iterate_over_and_null_vals_def Let_def first_position_def s1_def array_header_size_def)
qed

end
