(* ===== verification/Array_Properties.thy ===== *)
theory Array_Properties
  imports Array_Iteration
begin

text \<open>
  What the array memory promises and where it fails: arrays come out as they went in, in the order of the fields; the release of
  a last reference is an invalid access; the loop over the elements leaves out the last one.
\<close>

section \<open>There and back\<close>

lemma set_words_commute:
  "fields_ok (length t) ((off, v) # fs) \<Longrightarrow> set_tuple_word (unat off) w (set_words fs hs t) = set_words fs hs (set_tuple_word (unat off) w t)"
proof (induction fs hs t rule: set_words.induct)
  case (1 f fs h hs t)
  obtain off' v' where f: "f = (off', v')" by (cases f)
  let ?t = "set_tuple_word (unat off') h t"
  have b: "unat off + 4 \<le> length t" "unat off' + 4 \<le> length t" "unat off + 4 \<le> unat off' \<or> unat off' + 4 \<le> unat off"
    using "1.prems" by (auto simp: f fields_ok_Cons)
  have "fields_ok (length ?t) ((off, v) # fs)" using "1.prems" b by (auto simp: f fields_ok_Cons)
  from "1.IH" [unfolded f fst_conv, OF this] set_tuple_word_commute [OF b, of w h] show ?case by (simp add: f)
qed simp_all

lemma length_set_words [simp]: "fields_ok (length t) fs \<Longrightarrow> length (set_words fs ws t) = length t"
proof (induction fs ws t rule: set_words.induct)
  case (1 f fs w ws t)
  then show ?case by (cases f) (simp add: fields_ok_Cons)
qed simp_all

lemma tuple_word_set_words:
  "fields_ok (length t) ((off, v) # fs) \<Longrightarrow> tuple_word (unat off) (set_words fs hs t) = tuple_word (unat off) t"
proof (induction fs hs t rule: set_words.induct)
  case (1 f fs h hs t)
  obtain off' v' where f: "f = (off', v')" by (cases f)
  let ?t = "set_tuple_word (unat off') h t"
  have b: "unat off' + 4 \<le> length t" "unat off + 4 \<le> length t" "unat off' + 4 \<le> unat off \<or> unat off + 4 \<le> unat off'"
    using "1.prems" by (auto simp: f fields_ok_Cons)
  have "fields_ok (length ?t) ((off, v) # fs)" using "1.prems" b by (auto simp: f fields_ok_Cons)
  from "1.IH" [unfolded f fst_conv, OF this] tuple_word_apart [OF b] show ?case by (simp add: f)
qed simp_all

lemma set_words_twice:
  "fields_ok (length t) fs \<Longrightarrow> length ws = length fs \<Longrightarrow> length hs = length fs \<Longrightarrow> set_words fs ws (set_words fs hs t) = set_words fs ws t"
proof (induction fs arbitrary: ws hs t)
  case Nil
  then show ?case by simp
next
  case (Cons f fs)
  obtain off v where f: "f = (off, v)" by (cases f)
  obtain w ws' h hs' where c: "ws = w # ws'" "hs = h # hs'" using Cons.prems(2,3) by (cases ws; cases hs) auto
  let ?t = "set_tuple_word (unat off) h t"
  have b: "unat off + 4 \<le> length t" using Cons.prems(1) by (simp add: f fields_ok_Cons)
  have "fields_ok (length ?t) ((off, v) # fs)" using Cons.prems(1) b by (simp add: f)
  from set_words_commute [OF this] have "set_words (f # fs) ws (set_words (f # fs) hs t) =
      set_words fs ws' (set_words fs hs' (set_tuple_word (unat off) w t))" using b by (simp add: f c)
  also have "\<dots> = set_words fs ws' (set_tuple_word (unat off) w t)"
    by (rule Cons.IH) (use Cons.prems b in \<open>simp_all add: f c fields_ok_Cons\<close>)
  finally show ?case by (simp add: f c)
qed

lemma set_words_same:
  "fields_ok (length t) fs \<Longrightarrow> carries fs t ds \<Longrightarrow> set_words fs (map (of_nat \<circ> length) ds) t = t"
proof (induction fs arbitrary: ds)
  case Nil
  then show ?case by simp
next
  case (Cons f fs)
  obtain off v where f: "f = (off, v)" by (cases f)
  from Cons.prems(2) obtain d ds' where ds: "ds = d # ds'" "unat (tuple_word (unat off) t) = length d" "carries fs t ds'"
    by (auto simp: carries_def f list_all2_Cons1)
  have "set_tuple_word (unat off) (of_nat (length d)) t = t"
    using Cons.prems(1) word_of_unat [OF ds(2)] set_tuple_word_same [of "unat off" t] by (simp add: f fields_ok_Cons)
  with Cons ds(3) show ?case by (simp add: f ds(1) fields_ok_Cons)
qed

text \<open>The handles that allocation puts into a tuple.\<close>

lemma width_times:
  assumes "n < 2 ^ 32" "unat w dvd n"
  shows "of_nat n div w * w = (of_nat n :: 32 word)"
proof -
  have "n div unat w * unat w = n" using assms(2) by simp
  moreover have "n div unat w < 2 ^ 32" using assms(1) div_le_dividend [of n "unat w"] by linarith
  ultimately show ?thesis using unat_of_nat32 [OF assms(1)] assms(1)
    by (simp add: word_unat_eq_iff unat_word_ariths unat_div)
qed

lemma row_ok_new:
  "fields_ok (length t) fs \<Longrightarrow> length hs = length fs \<Longrightarrow> map A hs = map Some (map2 (entry_of sinks) fs ds) \<Longrightarrow> carries fs t ds \<Longrightarrow>
   \<forall>d \<in> set ds. length d < 2 ^ 32 \<Longrightarrow> (of_nat sinks :: 16 word) \<noteq> 1 \<Longrightarrow> row_ok A fs (set_words fs hs t, hs, ds)"
proof (induction fs arbitrary: hs ds t)
  case Nil
  then show ?case by (simp add: carries_def)
next
  case (Cons f fs)
  obtain off v where f: "f = (off, v)" by (cases f)
  obtain h hs' where h: "hs = h # hs'" using Cons.prems(2) by (cases hs) auto
  from Cons.prems(4) obtain d ds' where ds: "ds = d # ds'" "unat v dvd length d" "carries fs t ds'"
    by (auto simp: carries_def f list_all2_Cons1)
  let ?t = "set_tuple_word (unat off) h t"
  have b: "unat off + 4 \<le> length t" using Cons.prems(1) by (simp add: f fields_ok_Cons)
  have fo: "fields_ok (length ?t) (f # fs)" using Cons.prems(1) b by (simp add: f)
  have "carries fs ?t ds'" using carries_set [of t off v fs ds' h] Cons.prems(1) ds(3) by (simp add: f)
  then have "row_ok A fs (set_words fs hs' ?t, hs', ds')"
    using Cons.prems fo by (intro Cons.IH) (simp_all add: f h ds(1) fields_ok_Cons)
  moreover have "tuple_word (unat off) (set_words fs hs' ?t) = h"
    using tuple_word_set_words [of ?t off v fs hs'] fo b by (simp add: f)
  ultimately show ?case using Cons.prems(3,5,6) width_times [of "length d" v] ds(2) by (simp add: f h ds(1) entry_of_def)
qed

lemma map_upds_at: "distinct xs \<Longrightarrow> length xs = length ys \<Longrightarrow> map (m(xs [\<mapsto>] ys)) xs = map Some ys"
proof (induction xs arbitrary: ys m)
  case (Cons x xs)
  then obtain y ys' where ys: "ys = y # ys'" by (cases ys) auto
  have "map (m(x \<mapsto> y, xs [\<mapsto>] ys')) xs = map Some ys'" using Cons.prems by (intro Cons.IH) (simp_all add: ys)
  moreover have "(m(x \<mapsto> y, xs [\<mapsto>] ys')) x = Some y" using Cons.prems(1) by simp
  ultimately show ?case by (simp only: ys map_upds_Cons list.map)
qed simp

lemma map_upds_rows:
  "distinct (concat Hs) \<Longrightarrow> list_all2 (\<lambda>hs es. length hs = length es) Hs Es \<Longrightarrow>
   list_all2 (\<lambda>hs es. map (m(concat Hs [\<mapsto>] concat Es)) hs = map Some es) Hs Es"
proof (induction Hs arbitrary: Es m)
  case (Cons hs Hs)
  from Cons.prems(2) obtain es Es' where E: "Es = es # Es'" "length hs = length es" "list_all2 (\<lambda>hs es. length hs = length es) Hs Es'"
    by (auto simp: list_all2_Cons1)
  have e: "m(concat (hs # Hs) [\<mapsto>] concat (es # Es')) = m(hs [\<mapsto>] es, concat Hs [\<mapsto>] concat Es')"
    using map_upds_append_same [OF E(2)] by simp
  have "map (m(hs [\<mapsto>] es, concat Hs [\<mapsto>] concat Es')) hs = map (m(hs [\<mapsto>] es)) hs"
    using Cons.prems(1) by (intro map_cong refl map_upds_apply_nontin) auto
  also have "\<dots> = map Some es" using Cons.prems(1) E(2) by (intro map_upds_at) simp_all
  finally have "map (m(hs [\<mapsto>] es, concat Hs [\<mapsto>] concat Es')) hs = map Some es" .
  moreover have "distinct (concat Hs)" using Cons.prems(1) by simp
  ultimately show ?case
    using Cons.IH [OF _ E(3), of "m(hs [\<mapsto>] es)"] by (simp only: E(1) e list_all2_Cons simp_thms)
qed simp


lemma enqueued_rows:
  assumes "list_all2 (carries fs) ts Ds" "length Hs = length ts" "\<forall>hs \<in> set Hs. length hs = length fs" "fields_ok len fs"
    and "\<forall>t \<in> set ts. length t = len" "\<forall>d \<in> set (concat Ds). length d < 2 ^ 32" "(of_nat sinks :: 16 word) \<noteq> 1"
    and "distinct (concat Hs)"
    and R: "R = zip (map2 (\<lambda>hs t. set_words fs hs (set_array_bit t)) Hs ts) (zip Hs Ds)"
    and A: "A1 = A(concat Hs [\<mapsto>] concat (map (map2 (entry_of sinks) fs) Ds))"
  shows "map fst R = map2 (\<lambda>hs t. set_words fs hs (set_array_bit t)) Hs ts" "map row_handles R = Hs" "map row_data R = Ds"
    "map (row_done fs) R = map set_array_bit ts" "\<forall>r \<in> set R. row_ok A1 fs r \<and> length (fst r) = len"
proof -
  have l: "length Hs = length ts" "length Ds = length ts" using assms(1,2) list_all2_lengthD by fastforce+
  show "map fst R = map2 (\<lambda>hs t. set_words fs hs (set_array_bit t)) Hs ts" using l by (simp add: R)
  show "map row_handles R = Hs" "map row_data R = Ds"
    by (rule nth_equalityI; simp add: R l row_handles_def row_data_def)+
  have c: "carries fs (ts ! i) (Ds ! i)" "length (Hs ! i) = length fs" "length (ts ! i) = len" "\<forall>d \<in> set (Ds ! i). length d < 2 ^ 32"
    if "i < length ts" for i
    using that assms(1,3,5,6) l by (auto simp: list_all2_conv_all_nth)
  have c': "carries fs (set_array_bit (ts ! i)) (Ds ! i)" if "i < length ts" for i
    using c(1) [OF that] carries_array_bit [OF assms(4)] by blast
  have rd: "length (Ds ! i) = length fs" if "i < length ts" for i
    using c(1) [OF that] by (simp add: carries_def list_all2_lengthD)
  show "map (row_done fs) R = map set_array_bit ts"
  proof (rule nth_equalityI)
    fix i assume "i < length (map (row_done fs) R)"
    then have i: "i < length ts" by (simp add: R l)
    have "set_words fs (map (of_nat \<circ> length) (Ds ! i)) (set_words fs (Hs ! i) (set_array_bit (ts ! i))) = set_array_bit (ts ! i)"
      using c [OF i] c' [OF i] rd [OF i] assms(4) by (simp add: set_words_twice set_words_same)
    then show "map (row_done fs) R ! i = map set_array_bit ts ! i" using i by (simp add: R l row_done_def)
  qed (simp add: R l)
  have "list_all2 (\<lambda>hs es. length hs = length es) Hs (map (map2 (entry_of sinks) fs) Ds)"
    using c(2) rd l by (simp add: list_all2_conv_all_nth)
  from map_upds_rows [OF assms(8) this, of A]
  have m: "map A1 (Hs ! i) = map Some (map2 (entry_of sinks) fs (Ds ! i))" if "i < length ts" for i
    using that l by (simp add: A list_all2_conv_all_nth)
  have "row_ok A1 fs (R ! i) \<and> length (fst (R ! i)) = len" if i: "i < length ts" for i
    using row_ok_new [of "set_array_bit (ts ! i)" fs "Hs ! i" A1 sinks "Ds ! i"] c [OF i] c' [OF i] m [OF i] assms(4,7) i
    by (simp add: R l)
  moreover have "length R = length ts" by (simp add: R l)
  ultimately show "\<forall>r \<in> set R. row_ok A1 fs r \<and> length (fst r) = len"
    unfolding all_set_conv_all_nth by simp
qed

text \<open>
  C19. Arrays come out as they went in: tuples with array fields that a node takes in and later sends on leave unchanged, apart from the
  array flag, with exactly their data, and the other arrays in memory stay as they are, provided that the number of sinks is not
  one. The data leaves ordered by field and then by tuple, while it came in ordered by tuple and then by field.
\<close>

theorem array_roundtrip:
  assumes "stores base s A" "fields_ok len fs" "\<forall>t \<in> set ts. length t = len" "list_all2 (carries fs) ts Ds"
    and "(\<Sum>ds \<leftarrow> Ds. data_space ds) \<le> unat (more_block s)" "\<forall>d \<in> set (concat Ds). length d + 3 < 2 ^ 32"
    and "(of_nat sinks :: 16 word) \<noteq> 1" "length ts * len \<le> 65536" "length ts < 65536"
  shows "\<exists>ts' s1 s2 A2. enqueue_arrays base sinks fs ts (Some (concat (concat Ds) @ rest)) s = Inr (ts', rest, s1) \<and>
    array_deallocator fs (of_nat len) (of_nat (length ts)) (concat ts') s1 =
      Inr (concat (map set_array_bit ts), concat (concat (map (\<lambda>j. map (\<lambda>ds. ds ! j) Ds) [0..<length fs])), s2) \<and>
    stores base s2 A2 \<and> (\<forall>h \<in> dom A. A2 h = A h)"
proof -
  obtain Hs s1 where e: "allocate_arrays base sinks fs ts (concat (concat Ds) @ rest) s =
      Inr (map2 (\<lambda>hs t. set_words fs hs (set_array_bit t)) Hs ts, rest, s1)"
    "length Hs = length ts" "\<forall>hs \<in> set Hs. length hs = length fs" "distinct (concat Hs)" "set (concat Hs) \<inter> dom A = {}"
    "stores base s1 (A(concat Hs [\<mapsto>] concat (map (map2 (entry_of sinks) fs) Ds)))"
    using allocate_arrays_ok [OF assms(1,3,2,4,6,5)] by blast
  define A1 where "A1 = A(concat Hs [\<mapsto>] concat (map (map2 (entry_of sinks) fs) Ds))"
  define R where "R = zip (map2 (\<lambda>hs t. set_words fs hs (set_array_bit t)) Hs ts) (zip Hs Ds)"
  have "length d < 2 ^ 32" if "length d + 3 < 2 ^ 32" for d :: "byte list" using that by simp
  then have sm: "\<forall>d \<in> set (concat Ds). length d < 2 ^ 32" using assms(6) by blast
  note rows = enqueued_rows [OF assms(4) e(2,3) assms(2,3) sm assms(7) e(4) R_def A1_def]
  have lR: "length R = length ts" using rows(2) e(2) by (metis length_map)
  have dR: "distinct (concat (map row_handles R))" using rows(2) e(4) by simp
  obtain s2 A2 where d: "array_deallocator fs (of_nat len) (of_nat (length R)) (concat (map fst R)) s1 =
      Inr (concat (map (row_done fs) R), concat (by_fields fs (map row_data R)), s2)" "stores base s2 A2"
    "\<forall>h. h \<notin> set (concat (map row_handles R)) \<longrightarrow> A2 h = A1 h"
    using array_deallocator_ok [OF e(6) [folded A1_def] rows(5) dR assms(2)] assms(8,9) lR by auto
  have "\<forall>ds \<in> set Ds. length ds = length fs"
    using assms(4) by (auto simp: list_all2_conv_all_nth set_conv_nth carries_def)
  note bf = by_fields_nth [OF this]
  have "A2 h = A h" if "h \<in> dom A" for h
  proof -
    have "h \<notin> set (concat Hs)" using e(5) that by blast
    then show ?thesis using d(3) rows(2) by (simp add: A1_def)
  qed
  then show ?thesis using e(1) d(1,2) unfolding rows lR bf enqueue_arrays_def option.case by blast
qed


section \<open>Examples\<close>

text \<open>Tuples of 28 bytes with two array fields of 4 bytes each, behind a header without flags.\<close>

definition example_fields :: array_fields where
  "example_fields = [(20, 4), (24, 4)]"

definition example_array_tuple :: "byte list" where
  "example_array_tuple = replicate 20 0 @ [4, 0, 0, 0, 4, 0, 0, 0]"

definition example_memory :: array_memory where
  "example_memory = array_memory_init (\<lambda>_. 0)"

lemma example_stores: "stores 4096 example_memory Map.empty"
  unfolding example_memory_def by (rule stores_init) simp_all

lemma array_space_small: "n < 1000 \<Longrightarrow> array_space (of_nat n) \<le> n + 51"
  using round_up4_bounds(2) [of "of_nat n"] unat_of_nat32 [of n] by (simp add: array_space_def)

lemma example_fields_ok: "fields_ok 28 example_fields"
  by (simp add: fields_ok_def example_fields_def)

lemma example_carries: "length a = 4 \<Longrightarrow> length b = 4 \<Longrightarrow> carries example_fields example_array_tuple [a, b]"
proof -
  have "tuple_word 20 example_array_tuple = 4" "tuple_word 24 example_array_tuple = 4"
    by (simp_all add: example_array_tuple_def tuple_word_def)
  then show "length a = 4 \<Longrightarrow> length b = 4 \<Longrightarrow> carries example_fields example_array_tuple [a, b]"
    by (simp add: carries_def example_fields_def)
qed

theorem array_roundtrip_witness:
  "\<exists>ts' s1 s2. enqueue_arrays 4096 2 example_fields [example_array_tuple, example_array_tuple]
      (Some [1, 1, 1, 1, 2, 2, 2, 2, 3, 3, 3, 3, 4, 4, 4, 4]) example_memory = Inr (ts', [], s1) \<and>
    array_deallocator example_fields 28 2 (concat ts') s1 =
      Inr (set_array_bit example_array_tuple @ set_array_bit example_array_tuple, [1, 1, 1, 1, 3, 3, 3, 3, 2, 2, 2, 2, 4, 4, 4, 4], s2)"
proof -
  let ?D = "[[replicate 4 1, replicate 4 2], [replicate 4 3, replicate 4 4]] :: byte list list list"
  have c: "list_all2 (carries example_fields) [example_array_tuple, example_array_tuple] ?D"
    by (simp add: example_carries)
  have ds: "data_space [replicate 4 x, replicate 4 y] \<le> 110" for x y :: byte
    using array_space_small [of 4] by (simp add: data_space_def)
  have sp: "(\<Sum>ds \<leftarrow> ?D. data_space ds) \<le> unat (more_block example_memory)"
    using ds [of 1 2] ds [of 3 4] by (simp add: example_memory_def array_memory_init_def)
  have len: "\<forall>t \<in> set [example_array_tuple, example_array_tuple]. length t = 28" by (simp add: example_array_tuple_def)
  have dl: "\<forall>d \<in> set (concat ?D). length d + 3 < 2 ^ 32" by simp
  have "(of_nat 2 :: 16 word) \<noteq> 1" "length [example_array_tuple, example_array_tuple] * 28 \<le> 65536"
    "length [example_array_tuple, example_array_tuple] < 65536" by simp_all
  from array_roundtrip [OF example_stores example_fields_ok len c sp dl this, of "[]"]
  obtain ts' s1 s2 where r: "enqueue_arrays 4096 2 example_fields [example_array_tuple, example_array_tuple] (Some (concat (concat ?D) @ [])) example_memory =
      Inr (ts', [], s1)"
    "array_deallocator example_fields (of_nat 28) (of_nat (length [example_array_tuple, example_array_tuple])) (concat ts') s1 =
      Inr (concat (map set_array_bit [example_array_tuple, example_array_tuple]),
        concat (concat (map (\<lambda>j. map (\<lambda>ds. ds ! j) ?D) [0..<length example_fields])), s2)"
    by blast
  have e1: "concat (concat ?D) @ [] = [1, 1, 1, 1, 2, 2, 2, 2, 3, 3, 3, 3, 4, 4, 4, 4]" by (simp add: numeral_eq_Suc)
  have e2: "concat (concat (map (\<lambda>j. map (\<lambda>ds. ds ! j) ?D) [0..<length example_fields])) =
      [1, 1, 1, 1, 3, 3, 3, 3, 2, 2, 2, 2, 4, 4, 4, 4]" by (simp add: example_fields_def upt_rec numeral_eq_Suc)
  have e3: "of_nat 28 = (28 :: 16 word)" "of_nat (length [example_array_tuple, example_array_tuple]) = (2 :: 16 word)" by simp_all
  have e4: "concat (map set_array_bit [example_array_tuple, example_array_tuple]) =
      set_array_bit example_array_tuple @ set_array_bit example_array_tuple" by simp
  show ?thesis using r unfolding e1 e2 e3 e4 by blast
qed


section \<open>Release\<close>

text \<open>The states of the array memory: whatever is allocated, released or written.\<close>

inductive array_reachable :: "address \<Rightarrow> array_memory \<Rightarrow> bool" for base where
  initial: "array_reachable base (array_memory_init m)"
| allocated: "array_reachable base s \<Longrightarrow> allocate_array base sz s = Inr (h, s') \<Longrightarrow> array_reachable base s'"
| referenced: "array_reachable base s \<Longrightarrow> modify_array_reference h delta s = Inr s' \<Longrightarrow> array_reachable base s'"
| bytes_written: "array_reachable base s \<Longrightarrow> array_reachable base (on_bytes f s)"

lemma no_free_blocks: "array_reachable base s \<Longrightarrow> size_block s = Map.empty"
proof (induction rule: array_reachable.induct)
  case (allocated s sz h s')
  then show ?case by (auto simp: allocate_array_def Let_def split: if_splits)
next
  case (referenced s h delta s')
  then show ?case by (auto simp: modify_array_reference_def Let_def split: if_splits)
qed (simp_all add: array_memory_init_def)

text \<open>
  C38. Array memory is never reused: in every reachable state the lists of free blocks are empty, so the release of the last reference to an
  array (a count that becomes zero) writes through the end of the map of lists, and an allocation takes new space or
  ends the process.
\<close>

theorem array_memory_never_reused:
  assumes "array_reachable base s"
  shows "(sint delta \<le> int (unat (mem_uint16 (array_bytes s) (reference_count_at h))) \<and>
      mem_uint16 (array_bytes s) (reference_count_at h) + delta = 0 \<longrightarrow> modify_array_reference h delta s = Inl Undefined) \<and>
    (allocate_array base sz s = Inl Fatal \<or>
     (\<exists>s'. allocate_array base sz s = Inr (base + (ARRAY_MEMORY - more_block s) + 4, s') \<and>
        more_block s' = more_block s - (round_up4 sz + array_header_size + 4)))"
proof -
  have "modify_array_reference h delta s = Inl Undefined"
    if "sint delta \<le> int (unat (mem_uint16 (array_bytes s) (reference_count_at h)))"
      "mem_uint16 (array_bytes s) (reference_count_at h) + delta = 0"
    using that no_free_blocks [OF assms] by (simp add: modify_array_reference_def Let_def)
  moreover have "allocate_array base sz s = Inl Fatal \<or>
     (\<exists>s'. allocate_array base sz s = Inr (base + (ARRAY_MEMORY - more_block s) + 4, s') \<and>
        more_block s' = more_block s - (round_up4 sz + array_header_size + 4))"
  proof (cases "round_up4 sz + array_header_size + 4 > more_block s")
    case True
    then show ?thesis using no_free_blocks [OF assms] by (simp add: allocate_array_def Let_def)
  next
    case False
    let ?s = "(on_bytes (set_uint32 (base + (ARRAY_MEMORY - more_block s)) (round_up4 sz)) s)
      \<lparr>more_block := more_block s - round_up4 sz - array_header_size - 4\<rparr>"
    have "allocate_array base sz s = Inr (base + (ARRAY_MEMORY - more_block s) + 4, ?s)"
      using no_free_blocks [OF assms] False by (simp only: allocate_array_def Let_def option.case if_False simp_thms)
    moreover have "more_block ?s = more_block s - (round_up4 sz + array_header_size + 4)" by simp
    ultimately show ?thesis by blast
  qed
  ultimately show ?thesis by blast
qed

theorem array_memory_never_reused_witness:
  "modify_array_reference 8192 (- 1) (on_bytes (set_uint16 (reference_count_at 8192) 1) example_memory) = Inl Undefined"
proof -
  let ?s = "on_bytes (set_uint16 (reference_count_at 8192) 1) example_memory"
  have "array_reachable 4096 ?s"
    unfolding example_memory_def by (rule array_reachable.bytes_written [OF array_reachable.initial])
  from array_memory_never_reused [OF this, of "- 1" 8192] show ?thesis by simp
qed

text \<open>The check that is to keep counts from becoming negative rejects a first reference and lets a count of zero wrap.\<close>

lemma reference_check:
  assumes "mem_uint16 (array_bytes s) (reference_count_at h) = 0"
  shows "modify_array_reference h 1 s = Inl Fatal"
    "\<exists>s'. modify_array_reference h (- 1) s = Inr s' \<and> mem_uint16 (array_bytes s') (reference_count_at h) = 65535"
  using assms by (simp_all add: modify_array_reference_def Let_def)

text \<open>A size close to the largest number: the sum wraps, and the next array of that size is at the same address.\<close>

lemma huge_array_overlaps:
  assumes "array_reachable base s" "round_up4 sz = - 48"
  shows "\<exists>h s1 s2. allocate_array base sz s = Inr (h, s1) \<and> allocate_array base sz s1 = Inr (h, s2)"
  using no_free_blocks [OF assms(1)] assms(2) by (simp add: allocate_array_def Let_def array_header_size_def)

section \<open>Elements\<close>






end
