(* ===== verification/Spec2Isabelle.thy ===== *)
theory Spec2Isabelle
  imports Recovery_Properties Stream_Buffer_Properties Shed_Properties Checkpoint_Properties Standard_Aggregates Join_Properties Array_Properties
begin

text \<open>
  Verification of the query processor of the Borealis stream engine (src/src/modules/queryProcessor).

  The program. A node runs a network of query boxes. A tuple is a packed header (type, time stamp, id,
  flags) and a byte body. An arc between two boxes is a tuple queue: a chain of fixed-size pages from
  a page pool that all queues share. A box writes to a stream, which copies the tuple to the queues of all
  sinks, or, while the stream is being moved, to a buffer queue. The scheduler invokes a box, which reads its
  input queues through iterators until they are empty or the limits of the invocation are reached.
  Some boxes make the node fault tolerant: SUnion serialises the inputs of a replica into buckets of time and
  tells stable from tentative data, SOutput corrects the tentative output after a recovery, and
  stream buffers keep recent output for replay. Others compute: filters, sorting, locks, windowed
  aggregates, joins, and the load shedder that drops whole windows in front of an aggregate.

  Theories and code. Paths are relative to src/src/modules, boxes/ and expr/ are
  directories of queryProcessor.

  \<^item> Borealis_Prelude: the failures of the code as values (an exception, a failed assertion, undefined
    behaviour such as an invalid pointer), monadic folds, C arithmetic, pointer chains, and the shared lemmas.
  \<^item> Storage. Timestamps (util/Timestamp.h), Tuples (common/Tuple.h, TupleHeader), Page_Pool,
    Tuple_Queue, Tuple_Queue_Ops and Seek_Iterators (queryProcessor/storageMgr) work on an explicit heap of the words
    that pool and queues share. Queue_Interface states what a client may rely on as locales (a source, a
    first-in first-out queue, a family of independent queues); Tuple_Queue_Ops, Seek_Iterators and
    Queue_Store interpret them on the paged queue. Streams (queryProcessor/runtime/Stream) is a client
    of the family. Storage_Properties and Example_Network: the promises to callers and a concrete node.
  \<^item> Invocation and simple boxes. Box_Runs (runtime/QBox.h): the guard of the main loops. Routing_Boxes (Union,
    Filter, RandomDrop), Lock_Boxes (lock sets and the two boxes around them; the interleaving of their runs
    is an inductive step relation), Wait_For, Field_Ext (util/FieldExt), BSort_Box with the buffers of
    util/BufferList, Control_Boxes (SControlQBox and SOutput). Box_Properties states what they compute.
  \<^item> Recovery. Tuple_Buckets (boxes/Bucket), Bucket_Merge (the merge that sends a bucket) and Bucket_Invariants;
    SUnion_Box (boxes/SUnionQBox), SUnion_Contents (what a bucket holds as a function of the arrivals),
    SUnion_Output (what one run sends), SUnion_Boundaries (sessions of runs), Recovery_Properties.
  \<^item> Replay. Stream_Buffer (queryProcessor/StreamBuffer), its refinement of a bounded log in Stream_Buffer_Spec (the
    locale bounded_log), searching, the reader's cursor, Stream_Buffer_Properties.
  \<^item> Aggregation. Aggregate_Box and Aggregate_Run (boxes/AggregateQBox), Aggregate_Spec, Aggregate_Windows and
    Aggregate_Tuples (the sliding-window references and that the box computes them), Aggregate_Wf (the invariant of every
    mode), Aggregate_Doubles (the loop over window starts with rounded sums), Aggregate_Setup (the accepted parameters),
    Aggregate_Properties; Aggregate_Checkpoint, Aggregate_Restore and
    Checkpoint_Properties (checkpoints, with the serialisation of a window's state as an argument; a restored box is equivalent to the original under a view);
    Standard_Aggregates (expr/StandardAggregates.h).
  \<^item> Load shedding. Window_Drop, Window_Drop_Spec and Window_Drop_Properties (boxes/WindowDropQBox); Shed_Reference,
    Shed_Aggregate and Shed_Properties compose it with the Aggregate box behind it.
  \<^item> Joins. Join_Box and Join_State (boxes/JoinQBox), SJoin_Box (boxes/SJoinQBox), Join_Spec (the window join
    as a function of the arrivals), Join_Properties.
  \<^item> Arrays. Dynamic_Array (queryProcessor/DynamicArray and the array code of runtime/AuroraNode and boxes/FilterQBox) on a flat
    memory of bytes, with the predicates of Filter over the fields of tuples and elements (expr/ExprUtil.h); Array_Store (the memory as a map of arrays),
    Array_Transport, Array_Iteration, Array_Properties.

  Correspondence. A class is a record with a field per member; a method is a function from the state
  to the result and the new state; a result is an error or a value, and every exception, assertion and undefined
  access of the source is a branch. Emissions are lists, oldest first. Time stamps and
  counters that may wrap are words or have their wrap written out. Not so the attribute values that the Join buffers by value subtract and the window dropper
  adds to: they are numbers, and the results about these boxes are about values whose sums and differences are in the range of their type. Double values are
  rationals, so the rounding of floating point is not covered; for the loop of the Aggregate box over window starts, whose end depends on it,
  Aggregate_Doubles gives the values on which nothing is rounded and shows that an absorbed advance makes the loop diverge. Expressions, predicates and aggregate functions that
  a configuration names are functions and so arguments of the models; the clock, random draws and the
  enumeration order of hash maps are arguments too.

  Lemmas. Per component: an invariant and its preservation by every operation; the effect of every
  operation on an abstraction (the list of a queue, the log of a buffer, the open windows); the component's reference
  and the proof that the code computes it; the cases in which the code fails. The theories named
  Properties and this one state the results; C1 and C2 below span several components.

  Termination. Loops over data are structural or have a measure. Loops that need not end in the
  code (the search in a stream buffer, opening windows with an advance that is not positive, skipping gaps) are partial
  functions or while loops whose value is none when they diverge, and the theorems state that
  they return where they do and that they diverge where they do not. The outer loop that sends a bucket has the number of unsent
  tuples as fuel, and each round sends at least one (Bucket_Merge). The loops over a paged queue (the loop of a box, bulk dequeue, the dump
  of a stream) are partial functions too; Queue_Interface and Streams prove that they end, since every step shortens the queue.

  Not modelled. Threads and sockets: the node, the schedulers, the remote calls and the consistency manager that drives them;
  what the boxes see of them is an argument. Connection points and revision processing store their history in
  Berkeley DB. The catalog is XML input; the query languages are generated parsers; the optimizer computes on
  floating-point statistics. Byte formats that serialisation macros generate are left out, the fields that they list
  are modelled. The allocation of C++ objects is assumed to succeed; the page pool, whose exhaustion the
  code handles, is not. Tools, clients and tests are not part of the engine.
\<close>

section \<open>Storage and streams\<close>

text \<open>
  C1. A stream delivers without loss, duplication or reordering: whatever sequence of writes
  and switches of buffering is run on a well-formed stream, the run ends, its only failure is the
  exhaustion of the page pool, and on every queue the stream writes to the queued tuples followed
  by the tuples still in the stream's buffer grow by exactly the tuples written, in order.
\<close>

theorem stream_delivers_in_order:
  assumes "stream_ok boxes Q s st"
  shows "\<exists>r. stream_run boxes as (s, st) = Some r \<and> (\<forall>e. r = Inl e \<longrightarrow> e = AuroraException) \<and>
    (\<forall>s' st'. r = Inr (s', st') \<longrightarrow> stream_ok boxes Q s' st' \<and>
       (\<forall>q \<in> set (stream_targets boxes s).
          store_contents st' q @ store_contents st' (tuple_buffer s) =
          store_contents st q @ store_contents st (tuple_buffer s) @ written as))"
  using stream_run_ok [OF assms, of as] by (simp add: stream_pending_def)

theorem stream_delivers_in_order_witness:
  "\<exists>st s' st'. example_store = Inr st \<and>
     stream_run example_boxes example_ops (example_stream, st) = Some (Inr (s', st')) \<and>
     store_contents st' 1 @ store_contents st' 2 = [example_tuple 1, example_tuple 2]"
proof -
  obtain st s' st' where run: "example_store = Inr st"
    "stream_run example_boxes example_ops (example_stream, st) = Some (Inr (s', st'))"
    using example_run by blast
  have tgt: "1 \<in> set (stream_targets example_boxes example_stream)" "tuple_buffer example_stream = 2"
    by (simp_all add: stream_targets_def example_stream_def example_boxes_def)
  have w: "written example_ops = [example_tuple 1, example_tuple 2]" by (simp add: example_ops_def)
  from stream_delivers_in_order [OF example_stream_ok [OF run(1)], of example_ops] run(2) tgt
  have "store_contents st' 1 @ store_contents st' 2 =
      store_contents st 1 @ store_contents st 2 @ written example_ops" by simp
  with example_storeD(3,4) [OF run(1)] w run show ?thesis by auto
qed

text \<open>
  C2. End to end: what is written to a stream is what the box behind it computes on. On a stream
  whose buffer ends empty, the run of the box on its input queue processes exactly the written tuples,
  oldest first, up to the invocation's limits, and the others stay in the queue.
\<close>

theorem stream_feeds_box:
  assumes "stream_ok boxes Q s st" "q \<in> set (stream_targets boxes s)"
    and "store_contents st q = []" "store_contents st (tuple_buffer s) = []"
    and "stream_run boxes as (s, st) = Some (Inr (s', st'))" "store_contents st' (tuple_buffer s) = []"
  shows "\<exists>qi' v. run_queue port f qi (store_view q st') b =
      Some (Inr (qi', v, fold f (take (run_count port qi (written as)) (written as)) b)) \<and>
    TupleQueue_abs v = drop (run_count port qi (written as)) (written as)"
proof -
  have ok': "stream_ok boxes Q s' st'" and
    "store_contents st' q @ store_contents st' (tuple_buffer s) =
     store_contents st q @ store_contents st (tuple_buffer s) @ written as"
    using stream_run_ok [OF assms(1), of as] assms(2,5) by (auto simp: stream_pending_def)
  then have c: "TupleQueue_abs (store_view q st') = written as"
    using assms(3,4,6) by (simp add: store_contents_def)
  have "store_ok Q st'" "q \<in> Q" using ok' assms(1,2) by (auto simp: stream_ok_def)
  then obtain ps i j fl where "pages_ok Q st' ps i j fl" unfolding store_ok_def by blast
  from pages_ok_member [OF this \<open>q \<in> Q\<close>] have "tq_inv (store_view q st')"
    using tq_invI by (simp add: store_view_def)
  from run_queue_list [OF this, of port f qi b] show ?thesis unfolding c by blast
qed

lemma example_run_flushed:
  "\<exists>st s' st'. example_store = Inr st \<and>
     stream_run example_boxes example_ops (example_stream, st) = Some (Inr (s', st')) \<and> \<not> store_avail 2 st'"
  unfolding example_ops_def
  apply (simp add: store_eval Let_def)
  apply (simp add: stream_eval queue_eval stream_dump.simps Let_def)
  done

theorem stream_feeds_box_witness:
  "\<exists>st s' st' qi' v. example_store = Inr st \<and>
     stream_run example_boxes example_ops (example_stream, st) = Some (Inr (s', st')) \<and>
     run_queue 0 (\<lambda>t ts. ts @ [t]) example_invocation (store_view 1 st') [] =
       Some (Inr (qi', v, [example_tuple 1, example_tuple 2]))"
proof -
  obtain st s' st' where run: "example_store = Inr st"
    "stream_run example_boxes example_ops (example_stream, st) = Some (Inr (s', st'))" "\<not> store_avail 2 st'"
    using example_run_flushed by blast
  note d = example_storeD [OF run(1)] and ok = example_stream_ok [OF run(1)]
  have tgt: "1 \<in> set (stream_targets example_boxes example_stream)" "tuple_buffer example_stream = 2"
    by (simp_all add: stream_targets_def example_stream_def example_boxes_def)
  have w: "written example_ops = [example_tuple 1, example_tuple 2]" by (simp add: example_ops_def)
  have n: "run_count 0 example_invocation [example_tuple 1, example_tuple 2] = 2" by (simp add: run_eval)
  have "stream_ok example_boxes {0, 1, 2} s' st'" using stream_run_ok [OF ok, of example_ops] run(2) by auto
  then have "store_ok {0, 1, 2} st'" by (simp add: stream_ok_def)
  then have "store_contents st' 2 = []" using sto.avail_law run(3) by auto
  then have "store_contents st' (tuple_buffer example_stream) = []" "store_contents st (tuple_buffer example_stream) = []"
    using tgt(2) d(4) by simp_all
  from stream_feeds_box [OF ok tgt(1) d(3) this(2) run(2) this(1), of 0 "\<lambda>t ts. ts @ [t]" example_invocation "[]"]
  obtain qi' v where "run_queue 0 (\<lambda>t ts. ts @ [t]) example_invocation (store_view 1 st') [] =
       Some (Inr (qi', v, [example_tuple 1, example_tuple 2]))"
    unfolding w n by auto
  then show ?thesis using run(1,2) by blast
qed

text \<open>
  Detaching a queue from a stream does not shorten the stream's list of queues: the queues after
  it move up and the last one stays listed, so either it is listed twice, and gets every tuple
  twice, or, if it is the one to be removed, it is not removed.
\<close>

lemma remove_queue_keeps_length:
  assumes "distinct (out_queues s)" "q \<in> set (out_queues s)"
  shows "out_queues (Stream_remove_queue q s) = filter (\<lambda>r. r \<noteq> q) (out_queues s) @ [last (out_queues s)] \<and>
    length (out_queues (Stream_remove_queue q s)) = length (out_queues s)"
  using std_remove_distinct [OF assms] filter_remove_distinct [OF assms] assms(2)
  by (cases "out_queues s") (simp_all add: Stream_remove_queue_def)

section \<open>Times and flags\<close>

text \<open>
  Differences of timestamps are exact: adding the subtrahend back gives the minuend, in normal
  form, and for normal non-negative times in the range of a 32-bit long no field overflows.
\<close>

lemma timestamp_difference_exact:
  assumes "ts_normal a" "ts_normal b" "0 \<le> tv_sec a" "0 \<le> tv_sec b"
    and "in_long (tv_sec a)" "in_long (tv_sec b)"
  shows "Timestamp_plus_assign (Timestamp_minus a b) b = a \<and> ts_normal (Timestamp_minus a b) \<and>
    in_long (tv_sec (Timestamp_minus a b)) \<and> in_long (tv_usec (Timestamp_minus a b))"
  using minus_plus_cancel [OF assms(1,2)] minus_normal [OF assms(1,2)] minus_in_long [OF assms] by simp

text \<open>
  Clearing one flag of a tuple clears the other: after set_fake_flag(false) the array flag is
  false, whatever it was, and the other way round.
\<close>

lemma clearing_a_flag_clears_both:
  "\<not> get_array_flag (set_fake_flag False t) \<and> \<not> get_fake_flag (set_array_flag False t)"
  by (simp add: set_fake_array_flag set_array_fake_flag)

end
